(* ===== verification/Prelude.thy ===== *)
theory Prelude
  imports Main "HOL-Library.Word"
begin

text \<open>
  What every component of the development shares: the C integer types as machine words, the
  results of operations that may stop the program, the character classes of \<open>ctype.h\<close>, the
  number formats of \<open>printf\<close> (\<open>%u\<close>, \<open>%d\<close>, \<open>%x\<close>) and the number reader \<open>strtol\<close> with
  base 0, with the round-trip lemmas between them. The named collections gather the
  facts that carry the component proofs: \<open>fmt_simps\<close> (formatting and reading of numbers) and
  \<open>res_simps\<close> (sequencing of operations that may fail).
\<close>

unbundle bit_operations_syntax

named_theorems fmt_simps \<open>formatting and reading of numbers\<close>
named_theorems res_simps \<open>sequencing of operations that may fail\<close>

subsection \<open>C integers\<close>

text \<open>
  \<open>uint8_t\<close>, \<open>uint32_t\<close> and \<open>uint64_t\<close> are words of their width; \<open>int32_t\<close> is the
  same 32-bit word, read with \<^const>\<open>sint\<close>.
\<close>

type_synonym u8 = "8 word"
type_synonym u32 = "32 word"
type_synonym u64 = "64 word"
type_synonym i32 = "32 word"

lemma unat_u32_less: "unat (w :: u32) < 4294967296"
  using unsigned_less [of w] by simp

subsection \<open>Operations that stop the program\<close>

text \<open>
  An operation of the emulator either returns, or leaves the program: \<open>check_bounds\<close> prints
  a message and calls \<open>exit(1)\<close>; an access outside an array or a shift by the width or
  more has no meaning in C (undefined behaviour). Both are values of \<open>fault\<close>, so every
  such branch of the source is a branch of the model.
\<close>

datatype fault =
    OutOfBounds u32 u32   \<comment> \<open>\<open>check_bounds(addr, span)\<close> failed: message, \<open>exit(1)\<close>\<close>
  | BadIndex u32          \<comment> \<open>undefined: an array is indexed outside its cells\<close>
  | BadShift u32          \<comment> \<open>undefined: a 32-bit value is shifted by 32 or more\<close>
  | BadDiv                \<comment> \<open>undefined: an integer is divided by zero\<close>
  | BadInt                \<comment> \<open>undefined: signed arithmetic leaves the range of \<open>int\<close>\<close>
  | Uninit                \<comment> \<open>undefined: a variable is read before it has a value\<close>

type_synonym 'a res = "fault + 'a"

text \<open>Sequencing, for any type of errors.\<close>

definition res_bind :: "'e + 'a \<Rightarrow> ('a \<Rightarrow> 'e + 'b) \<Rightarrow> 'e + 'b" where
  "res_bind r f = (case r of Inl e \<Rightarrow> Inl e | Inr x \<Rightarrow> f x)"

lemma res_bind_simps [simp, res_simps]:
  "res_bind (Inl e) f = Inl e"
  "res_bind (Inr x) f = f x"
  by (simp_all add: res_bind_def)

lemma res_bind_Inr_iff [res_simps]:
  "res_bind r f = Inr y \<longleftrightarrow> (\<exists>x. r = Inr x \<and> f x = Inr y)"
  by (cases r) auto

lemma res_bind_Inl_iff [res_simps]:
  "res_bind r f = Inl e \<longleftrightarrow> r = Inl e \<or> (\<exists>x. r = Inr x \<and> f x = Inl e)"
  by (cases r) auto

lemma res_bind_cong [fundef_cong]:
  "r = q \<Longrightarrow> (\<And>x. q = Inr x \<Longrightarrow> f x = g x) \<Longrightarrow> res_bind r f = res_bind q g"
  by (cases q) auto

text \<open>An operation over a list, in order.\<close>

fun res_fold :: "('a \<Rightarrow> 's \<Rightarrow> 'e + 's) \<Rightarrow> 'a list \<Rightarrow> 's \<Rightarrow> 'e + 's" where
  "res_fold f [] s = Inr s"
| "res_fold f (x # xs) s = res_bind (f x s) (\<lambda>s. res_fold f xs s)"

lemma res_fold_append [simp]: "res_fold f (xs @ ys) s = res_bind (res_fold f xs s) (\<lambda>s. res_fold f ys s)"
proof (induction xs arbitrary: s)
  case (Cons x xs)
  then show ?case by (cases "f x s") simp_all
qed simp

lemma res_fold_returns:
  "(\<And>x s. Q s \<Longrightarrow> \<exists>s'. f x s = Inr s' \<and> Q s') \<Longrightarrow> Q s \<Longrightarrow> \<exists>s'. res_fold f xs s = Inr s' \<and> Q s'"
proof (induction xs arbitrary: s)
  case (Cons x xs)
  obtain s' where "f x s = Inr s'" "Q s'" using Cons.prems by blast
  with Cons.IH [OF Cons.prems(1)] show ?case by simp
qed simp

text \<open>The operation returns, with a result that satisfies \<open>Q\<close>.\<close>

definition returns :: "('a \<Rightarrow> bool) \<Rightarrow> 'e + 'a \<Rightarrow> bool" where
  "returns Q r = (case r of Inl _ \<Rightarrow> False | Inr x \<Rightarrow> Q x)"

lemma returns_simps [simp]: "returns Q (Inr x) = Q x" "\<not> returns Q (Inl e)"
  by (simp_all add: returns_def)

lemma returns_bind:
  "returns Q r \<Longrightarrow> (\<And>x. Q x \<Longrightarrow> returns R (f x)) \<Longrightarrow> returns R (res_bind r f)"
  by (cases r) auto

lemma returns_mono: "returns Q r \<Longrightarrow> (\<And>x. Q x \<Longrightarrow> R x) \<Longrightarrow> returns R r"
  by (cases r) auto

lemma returnsE: "returns Q r \<Longrightarrow> (\<And>x. r = Inr x \<Longrightarrow> Q x \<Longrightarrow> thesis) \<Longrightarrow> thesis"
  by (cases r) auto

definition is_undefined :: "fault \<Rightarrow> bool" where
  "is_undefined e = (case e of OutOfBounds _ _ \<Rightarrow> False | BadIndex _ \<Rightarrow> True | BadShift _ \<Rightarrow> True
     | BadDiv \<Rightarrow> True | BadInt \<Rightarrow> True | Uninit \<Rightarrow> True)"

lemma is_undefined_simps [simp]:
  "\<not> is_undefined (OutOfBounds a s)" "is_undefined (BadIndex a)" "is_undefined (BadShift a)"
  "is_undefined BadDiv" "is_undefined BadInt" "is_undefined Uninit"
  by (simp_all add: is_undefined_def)

subsection \<open>Characters: \<open>ctype.h\<close> in the C locale\<close>

definition isdigit :: "char \<Rightarrow> bool" where
  "isdigit c = (let n = (of_char c :: nat) in 48 \<le> n \<and> n \<le> 57)"

definition isupper :: "char \<Rightarrow> bool" where
  "isupper c = (let n = (of_char c :: nat) in 65 \<le> n \<and> n \<le> 90)"

definition islower :: "char \<Rightarrow> bool" where
  "islower c = (let n = (of_char c :: nat) in 97 \<le> n \<and> n \<le> 122)"

definition isalpha :: "char \<Rightarrow> bool" where
  "isalpha c = (isupper c \<or> islower c)"

definition isalnum :: "char \<Rightarrow> bool" where
  "isalnum c = (isalpha c \<or> isdigit c)"

definition isspace :: "char \<Rightarrow> bool" where
  "isspace c = (let n = (of_char c :: nat) in n = 32 \<or> (9 \<le> n \<and> n \<le> 13))"

definition isxdigit :: "char \<Rightarrow> bool" where
  "isxdigit c = (let n = (of_char c :: nat) in isdigit c \<or> (65 \<le> n \<and> n \<le> 70) \<or> (97 \<le> n \<and> n \<le> 102))"

definition isodigit :: "char \<Rightarrow> bool" where
  "isodigit c = (let n = (of_char c :: nat) in 48 \<le> n \<and> n \<le> 55)"

definition tolower :: "char \<Rightarrow> char" where
  "tolower c = (if isupper c then char_of ((of_char c :: nat) + 32) else c)"

text \<open>\<open>strcasecmp(a, b) == 0\<close>.\<close>

definition strcaseeq :: "string \<Rightarrow> string \<Rightarrow> bool" where
  "strcaseeq a b = (map tolower a = map tolower b)"

lemmas ctype_defs = isdigit_def isupper_def islower_def isalpha_def isalnum_def isspace_def
  isxdigit_def isodigit_def Let_def

text \<open>A C string ends at its first NUL character.\<close>

definition cstr :: "string \<Rightarrow> string" where
  "cstr s = takeWhile (\<lambda>c. of_char c \<noteq> (0::nat)) s"

text \<open>A text in single quotes, as the messages have it.\<close>

definition quoted :: "string \<Rightarrow> string" where
  "quoted s = [CHR 0x27] @ s @ [CHR 0x27]"

subsection \<open>Digits\<close>

definition digit_char :: "nat \<Rightarrow> char" where
  "digit_char d = (if d < 10 then char_of (48 + d) else char_of (87 + d))"

definition digit_val :: "char \<Rightarrow> nat" where
  "digit_val c = (let n = (of_char c :: nat) in
     if isdigit c then n - 48 else if isupper c then n - 55 else n - 87)"

text \<open>The value of a digit string, most significant digit first.\<close>

definition digits_val :: "nat \<Rightarrow> string \<Rightarrow> nat" where
  "digits_val b s = foldl (\<lambda>v c. b * v + digit_val c) 0 s"

lemma of_char_digit_char:
  "d < 16 \<Longrightarrow> (of_char (digit_char d) :: nat) = (if d < 10 then 48 + d else 87 + d)"
  by (simp add: digit_char_def)

lemma isdigit_digit_char [simp]: "d < 10 \<Longrightarrow> isdigit (digit_char d)"
  by (simp add: isdigit_def of_char_digit_char)

lemma digit_val_digit_char [simp]: "d < 10 \<Longrightarrow> digit_val (digit_char d) = d"
  by (simp add: digit_val_def isdigit_def of_char_digit_char)

lemma digits_val_Nil [simp]: "digits_val b [] = 0"
  by (simp add: digits_val_def)

lemma digits_val_snoc [simp]: "digits_val b (s @ [c]) = b * digits_val b s + digit_val c"
  by (simp add: digits_val_def)

text \<open>Each digit character, evaluated once: printing a number is then rewriting.\<close>

lemma digit_char_eval [simp, fmt_simps]:
  "digit_char 0 = CHR ''0''" "digit_char (Suc 0) = CHR ''1''" "digit_char 2 = CHR ''2''"
  "digit_char 3 = CHR ''3''" "digit_char 4 = CHR ''4''" "digit_char 5 = CHR ''5''"
  "digit_char 6 = CHR ''6''" "digit_char 7 = CHR ''7''" "digit_char 8 = CHR ''8''"
  "digit_char 9 = CHR ''9''" "digit_char 10 = CHR ''a''" "digit_char 11 = CHR ''b''"
  "digit_char 12 = CHR ''c''" "digit_char 13 = CHR ''d''" "digit_char 14 = CHR ''e''"
  "digit_char 15 = CHR ''f''"
  by code_simp+

subsection \<open>\<open>printf\<close>: number formats\<close>

text \<open>
  \<open>fmt_base b n\<close> is \<open>n\<close> in base \<open>b\<close> without padding; \<open>%u\<close>, \<open>%d\<close> and \<open>%x\<close> are its
  instances, and \<open>pad0\<close>, \<open>padr\<close> the \<open>%04x\<close> and \<open>%-10u\<close> paddings.
\<close>

fun fmt_base :: "nat \<Rightarrow> nat \<Rightarrow> string" where
  "fmt_base b n =
     (if b < 2 \<or> n < b then [digit_char n] else fmt_base b (n div b) @ [digit_char (n mod b)])"

declare fmt_base.simps [simp del]

definition fmt_u :: "u32 \<Rightarrow> string" where
  "fmt_u w = fmt_base 10 (unat w)"

definition fmt_int :: "int \<Rightarrow> string" where
  "fmt_int i = (if i < 0 then CHR ''-'' # fmt_base 10 (nat (- i)) else fmt_base 10 (nat i))"

definition fmt_d :: "i32 \<Rightarrow> string" where
  "fmt_d w = fmt_int (sint w)"

definition fmt_x :: "u32 \<Rightarrow> string" where
  "fmt_x w = fmt_base 16 (unat w)"

definition pad0 :: "nat \<Rightarrow> string \<Rightarrow> string" where
  "pad0 k s = replicate (k - length s) (CHR ''0'') @ s"

definition padr :: "nat \<Rightarrow> string \<Rightarrow> string" where
  "padr k s = s @ replicate (k - length s) (CHR '' '')"

lemma fmt_base_less [fmt_simps]: "n < b \<Longrightarrow> fmt_base b n = [digit_char n]"
  by (simp add: fmt_base.simps)

lemma fmt_base_step [fmt_simps]:
  "2 \<le> b \<Longrightarrow> b \<le> n \<Longrightarrow> fmt_base b n = fmt_base b (n div b) @ [digit_char (n mod b)]"
  by (subst fmt_base.simps) simp

lemma fmt_base_nonempty [simp]: "fmt_base b n \<noteq> []"
  by (subst fmt_base.simps) simp

lemma digits_val_fmt_base [simp]: "digits_val 10 (fmt_base 10 n) = n"
proof (induction n rule: less_induct)
  case (less n)
  show ?case
  proof (cases "n < 10")
    case True
    then show ?thesis
      by (simp add: fmt_base_less digits_val_def)
  next
    case False
    then have "digits_val 10 (fmt_base 10 (n div 10)) = n div 10"
      by (intro less) simp
    with False show ?thesis
      by (simp add: fmt_base_step)
  qed
qed

lemma isdigit_fmt_base: "c \<in> set (fmt_base 10 n) \<Longrightarrow> isdigit c"
proof (induction n rule: less_induct)
  case (less n)
  show ?case
  proof (cases "n < 10")
    case True
    with less.prems show ?thesis by (simp add: fmt_base_less)
  next
    case False
    then have "n div 10 < n" by simp
    then have "c \<in> set (fmt_base 10 (n div 10)) \<Longrightarrow> isdigit c" by (rule less.IH)
    with less.prems False show ?thesis by (auto simp: fmt_base_step)
  qed
qed

lemma hd_fmt_base_eq_0: "hd (fmt_base 10 n) = CHR ''0'' \<Longrightarrow> n = 0"
proof (induction n rule: less_induct)
  case (less n)
  show ?case
  proof (cases "n < 10")
    case True
    with less.prems have "(of_char (digit_char n) :: nat) = of_char (CHR ''0'')"
      by (simp add: fmt_base_less)
    with True show ?thesis by (simp add: of_char_digit_char)
  next
    case False
    then have "n div 10 < n" "hd (fmt_base 10 (n div 10)) = CHR ''0''"
      using less.prems by (simp_all add: fmt_base_step)
    then have "n div 10 = 0" by (rule less.IH)
    with False show ?thesis by simp
  qed
qed

lemma length_fmt_base: "n < 10 ^ k \<Longrightarrow> 0 < k \<Longrightarrow> length (fmt_base 10 n) \<le> k"
proof (induction k arbitrary: n)
  case 0
  then show ?case by simp
next
  case (Suc k)
  show ?case
  proof (cases "n < 10")
    case True
    then show ?thesis by (simp add: fmt_base_less)
  next
    case False
    have k: "0 < k" using False Suc.prems(1) by (cases k) auto
    have "n div 10 < 10 ^ k"
      using Suc.prems(1) by (simp add: less_mult_imp_div_less mult.commute)
    with k Suc.IH [of "n div 10"] False show ?thesis by (simp add: fmt_base_step)
  qed
qed

subsection \<open>\<open>strtol(p, &end, 0)\<close> and \<open>scanf("%lu")\<close>\<close>

text \<open>
  \<open>strtol\<close> is called at a digit only, so there is no sign or space to skip. Base 0 reads
  \<open>0x\<close> and a hexadecimal digit as hexadecimal, any other leading \<open>0\<close> as octal, the rest as
  decimal, and stops at \<open>LONG_MAX\<close>. It returns the value and the rest of the input.
\<close>

definition LONG_MAX :: int where
  "LONG_MAX = 9223372036854775807"

definition ULONG_MAX :: nat where
  "ULONG_MAX = 18446744073709551615"

definition scan_digits :: "(char \<Rightarrow> bool) \<Rightarrow> nat \<Rightarrow> string \<Rightarrow> int \<times> string" where
  "scan_digits p b s = (min (int (digits_val b (takeWhile p s))) LONG_MAX, dropWhile p s)"

definition hex_prefix :: "string \<Rightarrow> bool" where
  "hex_prefix s = (case s of
     c0 # x # h # _ \<Rightarrow> c0 = CHR ''0'' \<and> (x = CHR ''x'' \<or> x = CHR ''X'') \<and> isxdigit h
   | _ \<Rightarrow> False)"

definition strtol0 :: "string \<Rightarrow> int \<times> string" where
  "strtol0 s =
     (if hex_prefix s then scan_digits isxdigit 16 (drop 2 s)
      else if s \<noteq> [] \<and> hd s = CHR ''0'' then scan_digits isodigit 8 s
      else scan_digits isdigit 10 s)"

text \<open>
  \<open>scanf("%lu", &v)\<close>: skip white space, an optional sign, the digits. \<open>None\<close> is a return
  value other than 1 (no digits, or end of input); the consumed prefix is gone either way. A
  minus sign negates modulo $2^{64}$, and a value too large is \<open>ULONG_MAX\<close>.
\<close>

definition scan_sign :: "string \<Rightarrow> bool \<times> string" where
  "scan_sign s = (case s of
     c # t \<Rightarrow> if c = CHR ''-'' then (True, t) else if c = CHR ''+'' then (False, t) else (False, s)
   | [] \<Rightarrow> (False, s))"

definition scanf_lu :: "string \<Rightarrow> u64 option \<times> string" where
  "scanf_lu s =
     (let (neg, t) = scan_sign (dropWhile isspace s);
          ds = takeWhile isdigit t; v = digits_val 10 ds
      in (if ds = [] then None
          else if ULONG_MAX < v then Some (of_nat ULONG_MAX)
          else Some (if neg then - of_nat v else of_nat v),
          dropWhile isdigit t))"

lemma takeWhile_all_append:
  "(\<And>c. c \<in> set xs \<Longrightarrow> p c) \<Longrightarrow> ys = [] \<or> \<not> p (hd ys) \<Longrightarrow>
   takeWhile p (xs @ ys) = xs \<and> dropWhile p (xs @ ys) = ys"
  by (cases ys) (auto simp: takeWhile_append dropWhile_append)

lemma isalnum_isdigit: "isdigit c \<Longrightarrow> isalnum c"
  by (simp add: isalnum_def)

text \<open>What \<open>%u\<close> prints, \<open>strtol\<close> reads back.\<close>

lemma strtol0_fmt_base:
  assumes n: "int n \<le> LONG_MAX" and r: "rest = [] \<or> \<not> isalnum (hd rest)"
  shows "strtol0 (fmt_base 10 n @ rest) = (int n, rest)"
proof (cases "n = 0")
  case True
  have x: "\<not> hex_prefix (CHR ''0'' # rest)"
    using r by (cases rest) (auto simp: hex_prefix_def ctype_defs split: list.splits)
  have o: "rest = [] \<or> \<not> isodigit (hd rest)"
    using r by (auto simp: ctype_defs)
  show ?thesis
    using True x o takeWhile_all_append [of "[CHR ''0'']" isodigit rest]
    by (simp add: strtol0_def fmt_base_less scan_digits_def digits_val_def digit_val_def
        ctype_defs LONG_MAX_def)
next
  case False
  define ds where "ds = fmt_base 10 n"
  have ds: "ds \<noteq> []" "hd ds \<noteq> CHR ''0''" "\<And>c. c \<in> set ds \<Longrightarrow> isdigit c" "digits_val 10 ds = n"
    using False hd_fmt_base_eq_0 isdigit_fmt_base by (auto simp: ds_def)
  then have h: "hd (ds @ rest) \<noteq> CHR ''0''" by simp
  then have x: "\<not> hex_prefix (ds @ rest)"
    by (auto simp: hex_prefix_def split: list.splits)
  have r': "rest = [] \<or> \<not> isdigit (hd rest)"
    using r isalnum_isdigit by blast
  show ?thesis
    using h x ds n takeWhile_all_append [of ds isdigit rest] r'
    by (auto simp: strtol0_def scan_digits_def simp flip: ds_def)
qed

text \<open>What \<open>%u\<close> prints, \<open>scanf("%lu")\<close> reads back.\<close>

lemma scanf_lu_fmt_u:
  assumes "rest = [] \<or> \<not> isdigit (hd rest)"
  shows "scanf_lu (fmt_u w @ rest) = (Some (ucast w), rest)"
proof -
  define ds where "ds = fmt_u w"
  have ds: "ds \<noteq> []" "\<And>c. c \<in> set ds \<Longrightarrow> isdigit c" "digits_val 10 ds = unat w"
    using isdigit_fmt_base by (auto simp: ds_def fmt_u_def)
  then obtain c t where ct: "ds = c # t" by (cases ds) auto
  then have c: "isdigit c" using ds by simp
  then have sp: "\<not> isspace c" "c \<noteq> CHR ''-''" "c \<noteq> CHR ''+''" by (auto simp: ctype_defs)
  then have pre: "scan_sign (dropWhile isspace (ds @ rest)) = (False, ds @ rest)"
    by (simp add: ct scan_sign_def)
  have tw: "takeWhile isdigit (ds @ rest) = ds" "dropWhile isdigit (ds @ rest) = rest"
    using takeWhile_all_append [of ds isdigit rest] ds assms by auto
  have b: "unat w \<le> ULONG_MAX"
    using unat_u32_less [of w] by (simp add: ULONG_MAX_def)
  have "scanf_lu (ds @ rest) = (Some (ucast w), rest)"
    using ds b by (simp add: scanf_lu_def pre tw)
  then show ?thesis by (simp add: ds_def)
qed

end
