(* ===== verification/Lexer.thy ===== *)
theory Lexer
  imports Prelude
begin

text \<open>
  The assembler's lexer (\<open>src/lexer.c\<close>, the token types of \<open>include/assembler.h\<close>): from
  the source text to tokens that end with \<open>T_EOF\<close>, or a message about the first character
  that starts no token. The lemmas say that every token fits the fixed buffers of the C
  structure and that the end marker is last and nowhere else, which is what keeps the
  parser inside the token array; the piece lemmas at the end lex printed text back.
\<close>

subsection \<open>Tokens\<close>

datatype toktype = T_EOF | T_NEWLINE | T_IDENT | T_REG | T_NUM
  | T_COMMA | T_LBRACK | T_RBRACK | T_PLUS | T_MINUS | T_COLON | T_DIRECTIVE

text \<open>\<open>text\<close> is the C string in \<open>char text[64]\<close>, \<open>num\<close> a \<open>long\<close>.\<close>

record token =
  tok_type :: toktype
  tok_text :: string
  tok_num :: int
  tok_reg :: nat
  tok_line :: nat

definition TEXT_SIZE :: nat where
  "TEXT_SIZE = 64"

text \<open>\<open>(Token){ .type = ty, .line = line }\<close>: the other fields are zero.\<close>

definition tok :: "toktype \<Rightarrow> nat \<Rightarrow> token" where
  "tok ty line = \<lparr>tok_type = ty, tok_text = [], tok_num = 0, tok_reg = 0, tok_line = line\<rparr>"

definition is_reg :: "string \<Rightarrow> nat option" where
  "is_reg s = (case s of
     [r, d] \<Rightarrow> if (r = CHR ''R'' \<or> r = CHR ''r'') \<and> isdigit d
               then (let n = digit_val d in if n < 8 then Some n else None) else None
   | _ \<Rightarrow> None)"

text \<open>The copy loops: characters while they qualify and the buffer has room for the NUL.\<close>

definition scan_text :: "(char \<Rightarrow> bool) \<Rightarrow> string \<Rightarrow> string" where
  "scan_text q p = take (TEXT_SIZE - 1) (takeWhile q p)"

definition ident_char :: "char \<Rightarrow> bool" where
  "ident_char c = (isalnum c \<or> c = CHR ''_'')"

subsection \<open>The lexer\<close>

text \<open>What the lexer prints before it returns \<open>NULL\<close>.\<close>

definition lex_error :: "char \<Rightarrow> nat \<Rightarrow> string" where
  "lex_error c line = ''lex error: unexpected character '' @ [CHR 0x27, c, CHR 0x27]
     @ '' on line '' @ fmt_base 10 line @ ''\<newline>''"

definition lex_push :: "token \<Rightarrow> string + token list \<Rightarrow> string + token list" where
  "lex_push t r = map_sum id ((#) t) r"

definition ident_token :: "string \<Rightarrow> nat \<Rightarrow> token" where
  "ident_token text line = (case is_reg text of
     Some r \<Rightarrow> (tok T_REG line)\<lparr>tok_text := text, tok_reg := r\<rparr>
   | None \<Rightarrow> (tok T_IDENT line)\<lparr>tok_text := text\<rparr>)"

lemma lex_push_simps [simp]:
  "lex_push t (Inl e) = Inl e" "lex_push t (Inr ts) = Inr (t # ts)"
  by (simp_all add: lex_push_def)

lemma lex_push_Inr: "lex_push t r = Inr ts \<longleftrightarrow> (\<exists>us. r = Inr us \<and> ts = t # us)"
  by (cases r) auto

lemma scan_text_length: "length (scan_text q p) \<le> 63"
  by (simp add: scan_text_def TEXT_SIZE_def)

lemma scan_text_pos: "q c \<Longrightarrow> 0 < length (scan_text q (c # p))"
  by (simp add: scan_text_def TEXT_SIZE_def)

lemma strtol0_shorter:
  assumes "isdigit c" shows "length (snd (strtol0 (c # p))) \<le> length p"
proof -
  have d: "length (dropWhile q s) \<le> length s" for q and s :: string
    by (rule length_dropWhile_le)
  have 8: "isodigit c" if "c = CHR ''0''" using that by (simp add: ctype_defs)
  have 16: "length p \<ge> 2" if "hex_prefix (c # p)"
    using that by (auto simp: hex_prefix_def split: list.splits)
  show ?thesis
    using assms 8 16 d [of isodigit p] d [of isdigit p] d [of isxdigit "drop 2 (c # p)"]
    by (auto simp: strtol0_def scan_digits_def)
qed

text \<open>Every branch consumes at least one character.\<close>

lemma lex_shorter:
  "c = CHR '';'' \<Longrightarrow> length (dropWhile (\<lambda>d. d \<noteq> CHR ''\<newline>'') (c # p)) < Suc (length p)"
  "isdigit c \<Longrightarrow> length (snd (strtol0 (c # p))) < Suc (length p)"
  "isalpha c \<or> c = CHR ''_'' \<Longrightarrow>
   Suc (length p) - length (scan_text ident_char (c # p)) < Suc (length p)"
proof -
  show "c = CHR '';'' \<Longrightarrow> length (dropWhile (\<lambda>d. d \<noteq> CHR ''\<newline>'') (c # p)) < Suc (length p)"
    by (simp add: less_Suc_eq_le length_dropWhile_le)
  show "isdigit c \<Longrightarrow> length (snd (strtol0 (c # p))) < Suc (length p)"
    by (simp add: less_Suc_eq_le strtol0_shorter)
  assume "isalpha c \<or> c = CHR ''_''"
  then have "0 < length (scan_text ident_char (c # p))"
    by (intro scan_text_pos) (auto simp: ident_char_def isalnum_def)
  then show "Suc (length p) - length (scan_text ident_char (c # p)) < Suc (length p)"
    by simp
qed

function lex_from :: "nat \<Rightarrow> string \<Rightarrow> string + token list" where
  "lex_from line [] = Inr [tok T_EOF line]"
| "lex_from line (c # p) =
     (if c = CHR ''\<newline>'' then lex_push (tok T_NEWLINE line) (lex_from (line + 1) p)
      else if c = CHR '';'' then lex_from line (dropWhile (\<lambda>d. d \<noteq> CHR ''\<newline>'') (c # p))
      else if isspace c then lex_from line p
      else if c = CHR '','' then lex_push (tok T_COMMA line) (lex_from line p)
      else if c = CHR ''['' then lex_push (tok T_LBRACK line) (lex_from line p)
      else if c = CHR '']'' then lex_push (tok T_RBRACK line) (lex_from line p)
      else if c = CHR ''+'' then lex_push (tok T_PLUS line) (lex_from line p)
      else if c = CHR '':'' then lex_push (tok T_COLON line) (lex_from line p)
      else if c = CHR ''-'' then lex_push (tok T_MINUS line) (lex_from line p)
      else if isdigit c then
        lex_push ((tok T_NUM line)\<lparr>tok_num := fst (strtol0 (c # p))\<rparr>)
          (lex_from line (snd (strtol0 (c # p))))
      else if c = CHR ''.'' then
        lex_push ((tok T_DIRECTIVE line)\<lparr>tok_text := scan_text isalnum p\<rparr>)
          (lex_from line (drop (length (scan_text isalnum p)) p))
      else if isalpha c \<or> c = CHR ''_'' then
        lex_push (ident_token (scan_text ident_char (c # p)) line)
          (lex_from line (drop (length (scan_text ident_char (c # p))) (c # p)))
      else Inl (lex_error c line))"
  by pat_completeness auto

termination
  by (relation "measure (\<lambda>(line, p). length p)")
    (simp_all only: wf_measure in_measure case_prod_conv list.size lex_shorter le_imp_less_Suc
      add_0_right add_Suc_right length_drop diff_le_self order_refl)

text \<open>The lexer reads up to the first NUL.\<close>

definition lex :: "string \<Rightarrow> string + token list" where
  "lex src = lex_from 1 (cstr src)"

declare lex_from.simps(2) [simp del]

text \<open>The branch each class of characters takes.\<close>

lemma lex_from_space: "isspace c \<Longrightarrow> c \<noteq> CHR ''\<newline>'' \<Longrightarrow> lex_from line (c # p) = lex_from line p"
  by (auto simp: lex_from.simps(2) isspace_def Let_def)

lemma digit_class:
  "isdigit c \<Longrightarrow> \<not> isspace c"
  "isdigit c \<Longrightarrow> c \<notin> {CHR ''\<newline>'', CHR '';'', CHR '','', CHR ''['', CHR '']'', CHR ''+'', CHR '':'', CHR ''-''}"
  by (simp add: ctype_defs) (auto simp: ctype_defs)

lemma word_class:
  assumes "isalpha c \<or> c = CHR ''_''"
  shows "\<not> isspace c" "\<not> isdigit c"
    "c \<notin> {CHR ''\<newline>'', CHR '';'', CHR '','', CHR ''['', CHR '']'', CHR ''+'', CHR '':'', CHR ''-'', CHR ''.''}"
proof -
  show "\<not> isspace c" "\<not> isdigit c" using assms by (auto simp: ctype_defs)
  show "c \<notin> {CHR ''\<newline>'', CHR '';'', CHR '','', CHR ''['', CHR '']'', CHR ''+'', CHR '':'', CHR ''-'', CHR ''.''}"
    using assms by (auto simp: ctype_defs)
qed

lemma lex_from_digit:
  assumes "isdigit c"
  shows "lex_from line (c # p) =
     lex_push ((tok T_NUM line)\<lparr>tok_num := fst (strtol0 (c # p))\<rparr>) (lex_from line (snd (strtol0 (c # p))))"
  using digit_class [OF assms] assms by (subst lex_from.simps(2)) (simp only: insert_iff empty_iff de_Morgan_disj if_False if_True simp_thms)

lemma lex_from_word:
  assumes "isalpha c \<or> c = CHR ''_''"
  shows "lex_from line (c # p) =
     lex_push (ident_token (scan_text ident_char (c # p)) line)
       (lex_from line (drop (length (scan_text ident_char (c # p))) (c # p)))"
  using word_class [OF assms] assms by (subst lex_from.simps(2)) (simp only: insert_iff empty_iff de_Morgan_disj if_False if_True simp_thms)

lemma lex_from_marks:
  "lex_from line (CHR ''\<newline>'' # p) = lex_push (tok T_NEWLINE line) (lex_from (line + 1) p)"
  "lex_from line (CHR '','' # p) = lex_push (tok T_COMMA line) (lex_from line p)"
  "lex_from line (CHR ''['' # p) = lex_push (tok T_LBRACK line) (lex_from line p)"
  "lex_from line (CHR '']'' # p) = lex_push (tok T_RBRACK line) (lex_from line p)"
  "lex_from line (CHR ''+'' # p) = lex_push (tok T_PLUS line) (lex_from line p)"
  "lex_from line (CHR '':'' # p) = lex_push (tok T_COLON line) (lex_from line p)"
  "lex_from line (CHR ''-'' # p) = lex_push (tok T_MINUS line) (lex_from line p)"
  "lex_from line (CHR '';'' # p) = lex_from line (dropWhile (\<lambda>d. d \<noteq> CHR ''\<newline>'') p)"
  "lex_from line (CHR ''.'' # p) = lex_push ((tok T_DIRECTIVE line)\<lparr>tok_text := scan_text isalnum p\<rparr>)
     (lex_from line (drop (length (scan_text isalnum p)) p))"
  by (simp_all add: lex_from.simps(2) ctype_defs)

lemmas lex_from_simps = lex_from_space lex_from_digit lex_from_word lex_from_marks

subsection \<open>What the lexer returns\<close>

definition token_ok :: "token \<Rightarrow> bool" where
  "token_ok t = (length (tok_text t) < TEXT_SIZE \<and> tok_reg t < 8 \<and> 0 \<le> tok_num t \<and>
     tok_num t \<le> LONG_MAX \<and> (tok_type t = T_IDENT \<longrightarrow> tok_text t \<noteq> []))"

definition ends_in_eof :: "token list \<Rightarrow> bool" where
  "ends_in_eof ts = (\<exists>us e. ts = us @ [e] \<and> tok_type e = T_EOF \<and>
     (\<forall>t \<in> set us. tok_type t \<noteq> T_EOF))"

lemma ends_in_eof_single [simp]: "ends_in_eof [tok T_EOF line]"
  by (simp add: ends_in_eof_def tok_def)

lemma ends_in_eof_Cons [simp]: "tok_type t \<noteq> T_EOF \<Longrightarrow> ends_in_eof ts \<Longrightarrow> ends_in_eof (t # ts)"
proof -
  assume "tok_type t \<noteq> T_EOF" "ends_in_eof ts"
  then obtain us e where "ts = us @ [e]" "tok_type e = T_EOF" "\<forall>u \<in> set (t # us). tok_type u \<noteq> T_EOF"
    by (auto simp: ends_in_eof_def)
  then show "ends_in_eof (t # ts)" unfolding ends_in_eof_def by (intro exI [of _ "t # us"]) auto
qed

lemma tok_simps [simp]:
  "tok_type (tok ty line) = ty" "tok_text (tok ty line) = []" "tok_num (tok ty line) = 0"
  "tok_reg (tok ty line) = 0" "tok_line (tok ty line) = line"
  by (simp_all add: tok_def)

lemma token_ok_tok [simp]: "ty \<noteq> T_IDENT \<Longrightarrow> token_ok (tok ty line)"
  by (simp add: token_ok_def TEXT_SIZE_def LONG_MAX_def)

lemma is_reg_less: "is_reg s = Some r \<Longrightarrow> r < 8"
  by (auto simp: is_reg_def Let_def split: list.splits if_splits)

lemma ident_token_simps [simp]:
  "tok_type (ident_token s line) = (if is_reg s = None then T_IDENT else T_REG)"
  "tok_type (ident_token s line) \<noteq> T_EOF"
  "tok_text (ident_token s line) = s" "tok_line (ident_token s line) = line"
  "tok_num (ident_token s line) = 0" "is_reg s = Some r \<Longrightarrow> tok_reg (ident_token s line) = r"
  "is_reg s = None \<Longrightarrow> tok_reg (ident_token s line) = 0"
  by (simp_all add: ident_token_def split: option.split)

lemma token_ok_ident [simp]:
  assumes "isalpha c \<or> c = CHR ''_''" shows "token_ok (ident_token (scan_text ident_char (c # p)) line)"
proof -
  have "0 < length (scan_text ident_char (c # p))"
    using assms by (intro scan_text_pos) (auto simp: ident_char_def isalnum_def)
  then show ?thesis
    using scan_text_length [of ident_char "c # p"] is_reg_less [of "scan_text ident_char (c # p)"]
    by (cases "is_reg (scan_text ident_char (c # p))") (auto simp: token_ok_def TEXT_SIZE_def LONG_MAX_def)
qed

lemma strtol0_range: "0 \<le> fst (strtol0 s) \<and> fst (strtol0 s) \<le> LONG_MAX"
  by (simp add: strtol0_def scan_digits_def LONG_MAX_def)

lemma token_ok_num [simp]: "token_ok ((tok T_NUM line)\<lparr>tok_num := fst (strtol0 s)\<rparr>)"
  using strtol0_range [of s] by (simp add: token_ok_def TEXT_SIZE_def)

lemma token_ok_directive [simp]: "token_ok ((tok T_DIRECTIVE line)\<lparr>tok_text := scan_text q p\<rparr>)"
  using scan_text_length [of q p] by (simp add: token_ok_def TEXT_SIZE_def LONG_MAX_def)

text \<open>
  The tokens start at the current line, lines never decrease, and the end marker is on the
  line after the last line break.
\<close>

definition lines_from :: "nat \<Rightarrow> token list \<Rightarrow> bool" where
  "lines_from line ts = (sorted (map tok_line ts) \<and> (\<forall>t \<in> set ts. line \<le> tok_line t))"

lemma lines_from_Cons [simp]:
  "tok_line t = line \<Longrightarrow> lines_from line (t # ts) \<longleftrightarrow> lines_from line ts"
  by (auto simp: lines_from_def)

lemma lines_from_Suc: "lines_from (Suc line) ts \<Longrightarrow> lines_from line ts"
  by (auto simp: lines_from_def)

definition lex_good :: "nat \<Rightarrow> token list \<Rightarrow> bool" where
  "lex_good line ts = (ends_in_eof ts \<and> (\<forall>t \<in> set ts. token_ok t) \<and> lines_from line ts)"

lemma lex_good_eof: "lex_good line [tok T_EOF line]"
  by (simp add: lex_good_def lines_from_def)

lemma lex_good_Cons:
  "tok_type t \<noteq> T_EOF \<Longrightarrow> token_ok t \<Longrightarrow> tok_line t = line \<Longrightarrow> lex_good line ts \<Longrightarrow>
   lex_good line (t # ts)"
  by (simp add: lex_good_def)

lemma lex_good_Suc: "lex_good (line + 1) ts \<Longrightarrow> lex_good line ts"
  by (auto simp: lex_good_def lines_from_Suc)

text \<open>One turn of the loop: nothing or one good token is produced, on the current line.\<close>

definition lex_turn :: "nat \<Rightarrow> nat \<Rightarrow> token list \<Rightarrow> bool" where
  "lex_turn line n ts = (\<exists>line' p'. length p' \<le> n \<and> (line' = line \<or> line' = line + 1) \<and>
     (lex_from line' p' = Inr ts \<or>
      (\<exists>t us. ts = t # us \<and> tok_type t \<noteq> T_EOF \<and> token_ok t \<and> tok_line t = line \<and>
         lex_from line' p' = Inr us)))"

lemma lex_turn_skip: "lex_from line p' = Inr ts \<Longrightarrow> length p' \<le> n \<Longrightarrow> lex_turn line n ts"
  unfolding lex_turn_def by blast

lemma lex_turn_push:
  assumes "lex_push t (lex_from line' p') = Inr ts" "length p' \<le> n" "line' = line \<or> line' = line + 1"
    and "tok_type t \<noteq> T_EOF" "token_ok t" "tok_line t = line"
  shows "lex_turn line n ts"
  using assms unfolding lex_turn_def lex_push_Inr by blast

lemma lex_from_turn:
  assumes "lex_from line (c # p) = Inr ts" shows "lex_turn line (length p) ts"
proof -
  consider "c \<in> set ''\<newline>,[]+:-''" | "c = CHR '';''" | "isspace c" "c \<noteq> CHR ''\<newline>''"
    | "isdigit c" | "c = CHR ''.''"
    | "isalpha c \<or> c = CHR ''_''"
    | "c \<notin> set ''\<newline>,[]+:-;.''" "\<not> isspace c" "\<not> isdigit c" "\<not> (isalpha c \<or> c = CHR ''_'')"
    by auto
  then show ?thesis
  proof cases
    case 1
    with assms show ?thesis by (auto simp: lex_from_simps intro: lex_turn_push)
  next
    case 2
    with assms show ?thesis
      by (intro lex_turn_skip [of line "dropWhile (\<lambda>d. d \<noteq> CHR ''\<newline>'') p"])
        (simp_all add: lex_from_simps length_dropWhile_le)
  next
    case 3
    with assms show ?thesis by (intro lex_turn_skip [of line p]) (simp_all add: lex_from_simps)
  next
    case 4
    with assms strtol0_shorter [OF 4, of p] show ?thesis
      by (auto simp: lex_from_simps intro: lex_turn_push)
  next
    case 5
    with assms show ?thesis by (auto simp: lex_from_simps intro: lex_turn_push)
  next
    case 6
    with assms lex_shorter(3) [of c p] show ?thesis
      by (auto simp: lex_from_simps intro!: lex_turn_push split: if_splits)
  next
    case 7
    with assms show ?thesis by (simp add: lex_from.simps(2))
  qed
qed

lemma lex_from_good: "lex_from line p = Inr ts \<Longrightarrow> lex_good line ts"
proof (induction "length p" arbitrary: line p ts rule: less_induct)
  case less
  show ?case
  proof (cases p)
    case Nil
    with less.prems show ?thesis by (auto simp: lex_good_eof)
  next
    case (Cons c q)
    with less.prems have "lex_turn line (length q) ts" by (simp add: lex_from_turn)
    then obtain line' p' where p': "length p' < length p" "line' = line \<or> line' = line + 1"
      and r: "lex_from line' p' = Inr ts \<or> (\<exists>t us. ts = t # us \<and> tok_type t \<noteq> T_EOF \<and> token_ok t \<and>
        tok_line t = line \<and> lex_from line' p' = Inr us)"
      unfolding lex_turn_def Cons by (auto simp: less_Suc_eq_le)
    have good: "lex_from line' p' = Inr us \<Longrightarrow> lex_good line us" for us
      using less.hyps [OF p'(1), of line' us] p'(2) lex_good_Suc by auto
    from r good show ?thesis by (auto intro: lex_good_Cons)
  qed
qed

text \<open>C40: What the lexer returns fits the token buffers (a text under 64 characters, a register
  below 8, an identifier with at least one character), ends with its only \<open>T_EOF\<close> and
  carries line numbers that never decrease, from line 1.\<close>

theorem lex_tokens:
  assumes "lex src = Inr ts"
  shows "ends_in_eof ts \<and> (\<forall>t \<in> set ts. token_ok t) \<and> sorted (map tok_line ts) \<and>
    (\<forall>t \<in> set ts. 1 \<le> tok_line t)"
  using lex_from_good [of 1 "cstr src" ts] assms by (simp add: lex_def lex_good_def lines_from_def)

theorem lex_tokens_witness:
  "ends_in_eof [ident_token ''NOP'' 1, tok T_NEWLINE 1, tok T_EOF 2]"
proof -
  have "lex ''NOP\<newline>'' = Inr [ident_token ''NOP'' 1, tok T_NEWLINE 1, tok T_EOF 2]"
    by code_simp
  from lex_tokens [OF this] show ?thesis by simp
qed

subsection \<open>Lexing printed text\<close>

lemma lex_word_piece:
  assumes "w \<noteq> []" "isalpha (hd w)" "\<And>c. c \<in> set w \<Longrightarrow> ident_char c" "length w < TEXT_SIZE"
    and "rest = [] \<or> \<not> ident_char (hd rest)"
  shows "lex_from line (w @ rest) = lex_push (ident_token w line) (lex_from line rest)"
proof -
  obtain c v where w: "w = c # v" using assms(1) by (cases w) auto
  have "takeWhile ident_char (w @ rest) = w"
    using takeWhile_all_append [of w ident_char rest] assms by auto
  then have "scan_text ident_char (w @ rest) = w"
    using assms(4) by (simp add: scan_text_def TEXT_SIZE_def)
  then show ?thesis using lex_from_word [of c line "v @ rest"] assms(2) by (simp add: w)
qed

lemma lex_number_piece:
  assumes "int n \<le> LONG_MAX" "rest = [] \<or> \<not> isalnum (hd rest)"
  shows "lex_from line (fmt_base 10 n @ rest) =
    lex_push ((tok T_NUM line)\<lparr>tok_num := int n\<rparr>) (lex_from line rest)"
proof -
  obtain c v where w: "fmt_base 10 n = c # v" using fmt_base_nonempty by (metis neq_Nil_conv)
  then have "isdigit c" using isdigit_fmt_base [of c n] by simp
  then show ?thesis
    using lex_from_digit [of c line "v @ rest"] strtol0_fmt_base [OF assms] by (simp add: w)
qed

lemma lex_reg_piece:
  assumes "r < 8" "rest = [] \<or> \<not> ident_char (hd rest)"
  shows "lex_from line (CHR ''R'' # fmt_base 10 r @ rest) =
    lex_push ((tok T_REG line)\<lparr>tok_text := [CHR ''R'', digit_char r], tok_reg := r\<rparr>) (lex_from line rest)"
proof -
  have d: "fmt_base 10 r = [digit_char r]" using assms(1) by (simp add: fmt_base_less)
  have i: "isdigit (digit_char r)" using assms(1) by simp
  have "lex_from line ([CHR ''R'', digit_char r] @ rest) =
      lex_push (ident_token [CHR ''R'', digit_char r] line) (lex_from line rest)"
    using assms(2) i
    by (intro lex_word_piece) (auto simp: ident_char_def isalnum_def TEXT_SIZE_def isalpha_def isupper_def)
  moreover have "is_reg [CHR ''R'', digit_char r] = Some r"
    using assms(1) i by (simp add: is_reg_def)
  ultimately show ?thesis by (simp add: d ident_token_def)
qed

end
