(* ===== verification/CLexer.thy ===== *)
theory CLexer
  imports Lexer
begin

text \<open>
  The lexer of the C-subset compiler (\<open>src/clexer.c\<close>, the token types of
  \<open>include/compiler.h\<close>): from the source text to tokens that end with \<open>T_EOF\<close>, or a message
  about the first character that starts no token. Names that the assembler's lexer already
  uses carry the prefix \<open>C\<close> here. The lemmas say that the end marker is last and nowhere
  else, which keeps the parser inside the token array, that every text fits its buffer and
  every literal the type \<open>long\<close>, and that the spellings of tokens are read back.
\<close>

subsection \<open>Tokens\<close>

datatype ctoktype = CT_EOF | CT_INT_LIT | CT_IDENT
  | CT_KW_INT | CT_KW_VOID | CT_KW_IF | CT_KW_ELSE | CT_KW_WHILE | CT_KW_FOR | CT_KW_RETURN
  | CT_LPAREN | CT_RPAREN | CT_LBRACE | CT_RBRACE | CT_LBRACK | CT_RBRACK | CT_SEMI | CT_COMMA
  | CT_ASSIGN | CT_PLUS | CT_MINUS | CT_STAR | CT_SLASH | CT_PERCENT
  | CT_AMP | CT_PIPE | CT_CARET | CT_TILDE | CT_BANG
  | CT_SHL | CT_SHR | CT_EQ | CT_NE | CT_LT | CT_LE | CT_GT | CT_GE | CT_ANDAND | CT_OROR

record ctoken =
  ct_type :: ctoktype
  ct_line :: nat
  ct_ival :: int
  ct_text :: string

text \<open>\<open>(Token){ .type = ty, .line = line }\<close>: the other fields are zero.\<close>

definition ctok :: "ctoktype \<Rightarrow> nat \<Rightarrow> ctoken" where
  "ctok ty line = \<lparr>ct_type = ty, ct_line = line, ct_ival = 0, ct_text = []\<rparr>"

definition keyword :: "string \<Rightarrow> ctoktype" where
  "keyword s =
     (if s = ''int'' then CT_KW_INT
      else if s = ''void'' then CT_KW_VOID
      else if s = ''if'' then CT_KW_IF
      else if s = ''else'' then CT_KW_ELSE
      else if s = ''while'' then CT_KW_WHILE
      else if s = ''for'' then CT_KW_FOR
      else if s = ''return'' then CT_KW_RETURN
      else CT_IDENT)"

subsection \<open>Operators\<close>

text \<open>The chain of two-character tests and the final \<open>switch\<close>, as tables.\<close>

definition TWO_CHAR :: "(string \<times> ctoktype) list" where
  "TWO_CHAR = [
     (''<<'', CT_SHL), (''>>'', CT_SHR), (''=='', CT_EQ), (''!='', CT_NE),
     (''<='', CT_LE), (''>='', CT_GE), (''&&'', CT_ANDAND), (''||'', CT_OROR)]"

definition ONE_CHAR :: "(char \<times> ctoktype) list" where
  "ONE_CHAR = [
     (CHR ''('', CT_LPAREN), (CHR '')'', CT_RPAREN), (CHR ''{'', CT_LBRACE), (CHR ''}'', CT_RBRACE),
     (CHR ''['', CT_LBRACK), (CHR '']'', CT_RBRACK), (CHR '';'', CT_SEMI), (CHR '','', CT_COMMA),
     (CHR ''='', CT_ASSIGN), (CHR ''+'', CT_PLUS), (CHR ''-'', CT_MINUS), (CHR ''*'', CT_STAR),
     (CHR ''/'', CT_SLASH), (CHR ''%'', CT_PERCENT), (CHR ''&'', CT_AMP), (CHR ''|'', CT_PIPE),
     (CHR ''^'', CT_CARET), (CHR ''~'', CT_TILDE), (CHR ''!'', CT_BANG), (CHR ''<'', CT_LT),
     (CHR ''>'', CT_GT)]"

definition two_char :: "string \<Rightarrow> ctoktype option" where
  "two_char p = map_of TWO_CHAR (take 2 p)"

definition one_char :: "char \<Rightarrow> ctoktype option" where
  "one_char c = map_of ONE_CHAR c"

subsection \<open>The lexer\<close>

text \<open>The body of a block comment, after its opening: it ends after the closing mark, or at the
  end of the text, which is no error.\<close>

fun skip_comment :: "nat \<Rightarrow> string \<Rightarrow> nat \<times> string" where
  "skip_comment line [] = (line, [])"
| "skip_comment line (c # p) =
     (if c = CHR ''*'' \<and> take 1 p = ''/'' then (line, tl p)
      else skip_comment (if c = CHR ''\<newline>'' then line + 1 else line) p)"

definition clex_error :: "nat \<Rightarrow> char \<Rightarrow> string" where
  "clex_error line c = ''line '' @ fmt_base 10 line @ '': unexpected character '' @ quoted [c]"

definition clex_push :: "ctoken \<Rightarrow> string + ctoken list \<Rightarrow> string + ctoken list" where
  "clex_push t r = map_sum id ((#) t) r"

lemma clex_push_simps [simp]:
  "clex_push t (Inl e) = Inl e" "clex_push t (Inr ts) = Inr (t # ts)"
  by (simp_all add: clex_push_def)

lemma clex_push_Inr: "clex_push t r = Inr ts \<longleftrightarrow> (\<exists>us. r = Inr us \<and> ts = t # us)"
  by (cases r) auto

lemma skip_comment_length: "length (snd (skip_comment line p)) \<le> length p"
  by (induction line p rule: skip_comment.induct) auto

lemma clex_shorter:
  "length (dropWhile (\<lambda>d. d \<noteq> CHR ''\<newline>'') p) < Suc (length p)"
  "length (snd (skip_comment line (tl p))) < Suc (length p)"
  using length_dropWhile_le [of "\<lambda>d. d \<noteq> CHR ''\<newline>''" p] skip_comment_length [of line "tl p"] by auto

function clex_from :: "nat \<Rightarrow> string \<Rightarrow> string + ctoken list" where
  "clex_from line [] = Inr [ctok CT_EOF line]"
| "clex_from line (c # p) =
     (if c = CHR ''\<newline>'' then clex_from (line + 1) p
      else if isspace c then clex_from line p
      else if c = CHR ''/'' \<and> take 1 p = ''/'' then clex_from line (dropWhile (\<lambda>d. d \<noteq> CHR ''\<newline>'') p)
      else if c = CHR ''/'' \<and> take 1 p = ''*'' then
        clex_from (fst (skip_comment line (tl p))) (snd (skip_comment line (tl p)))
      else if isdigit c then
        clex_push ((ctok CT_INT_LIT line)\<lparr>ct_ival := fst (strtol0 (c # p))\<rparr>)
          (clex_from line (snd (strtol0 (c # p))))
      else if isalpha c \<or> c = CHR ''_'' then
        (let s = scan_text ident_char (c # p) in
         clex_push ((ctok (keyword s) line)\<lparr>ct_text := s\<rparr>)
           (clex_from line (drop (length s) (c # p))))
      else (case two_char (c # p) of
          Some ty \<Rightarrow> clex_push (ctok ty line) (clex_from line (tl p))
        | None \<Rightarrow> (case one_char c of
              Some ty \<Rightarrow> clex_push (ctok ty line) (clex_from line p)
            | None \<Rightarrow> Inl (clex_error line c))))"
  by pat_completeness auto

termination
  by (relation "measure (\<lambda>(line, p). length p)")
    (simp_all only: wf_measure in_measure case_prod_conv list.size lex_shorter clex_shorter
      le_imp_less_Suc add_0_right add_Suc_right length_drop diff_le_self order_refl length_tl)

text \<open>The lexer reads up to the first NUL.\<close>

definition clex :: "string \<Rightarrow> string + ctoken list" where
  "clex src = clex_from 1 (cstr src)"

declare clex_from.simps(2) [simp del]

text \<open>The branch each class of characters takes.\<close>

lemma clex_from_newline: "clex_from line (CHR ''\<newline>'' # p) = clex_from (line + 1) p"
  by (simp add: clex_from.simps(2))

lemma clex_from_space: "isspace c \<Longrightarrow> c \<noteq> CHR ''\<newline>'' \<Longrightarrow> clex_from line (c # p) = clex_from line p"
  by (simp add: clex_from.simps(2))

lemma cdigit_class:
  "isdigit c \<Longrightarrow> \<not> isspace c" "isdigit c \<Longrightarrow> c \<noteq> CHR ''\<newline>''" "isdigit c \<Longrightarrow> c \<noteq> CHR ''/''"
  by (auto simp: ctype_defs)

lemma clex_from_digit:
  "isdigit c \<Longrightarrow> clex_from line (c # p) =
     clex_push ((ctok CT_INT_LIT line)\<lparr>ct_ival := fst (strtol0 (c # p))\<rparr>)
       (clex_from line (snd (strtol0 (c # p))))"
  by (simp add: clex_from.simps(2) cdigit_class)

lemma cword_class:
  "isalpha c \<or> c = CHR ''_'' \<Longrightarrow> \<not> isspace c" "isalpha c \<or> c = CHR ''_'' \<Longrightarrow> \<not> isdigit c"
  "isalpha c \<or> c = CHR ''_'' \<Longrightarrow> c \<noteq> CHR ''\<newline>''" "isalpha c \<or> c = CHR ''_'' \<Longrightarrow> c \<noteq> CHR ''/''"
  by (auto simp: ctype_defs)

definition word_ctoken :: "string \<Rightarrow> nat \<Rightarrow> ctoken" where
  "word_ctoken s line = (ctok (keyword s) line)\<lparr>ct_text := s\<rparr>"

lemma clex_from_word:
  "isalpha c \<or> c = CHR ''_'' \<Longrightarrow> clex_from line (c # p) =
     clex_push (word_ctoken (scan_text ident_char (c # p)) line)
       (clex_from line (drop (length (scan_text ident_char (c # p))) (c # p)))"
  by (simp add: clex_from.simps(2) cword_class word_ctoken_def Let_def)

subsection \<open>What the lexer returns\<close>

text \<open>How a token is spelled.\<close>

definition cspell :: "ctoken \<Rightarrow> string" where
  "cspell t = (case ct_type t of
     CT_EOF \<Rightarrow> [] | CT_INT_LIT \<Rightarrow> fmt_base 10 (nat (ct_ival t)) | CT_IDENT \<Rightarrow> ct_text t
   | CT_KW_INT \<Rightarrow> ''int'' | CT_KW_VOID \<Rightarrow> ''void'' | CT_KW_IF \<Rightarrow> ''if'' | CT_KW_ELSE \<Rightarrow> ''else''
   | CT_KW_WHILE \<Rightarrow> ''while'' | CT_KW_FOR \<Rightarrow> ''for'' | CT_KW_RETURN \<Rightarrow> ''return''
   | CT_LPAREN \<Rightarrow> ''('' | CT_RPAREN \<Rightarrow> '')'' | CT_LBRACE \<Rightarrow> ''{'' | CT_RBRACE \<Rightarrow> ''}''
   | CT_LBRACK \<Rightarrow> ''['' | CT_RBRACK \<Rightarrow> '']'' | CT_SEMI \<Rightarrow> '';'' | CT_COMMA \<Rightarrow> '',''
   | CT_ASSIGN \<Rightarrow> ''='' | CT_PLUS \<Rightarrow> ''+'' | CT_MINUS \<Rightarrow> ''-'' | CT_STAR \<Rightarrow> ''*''
   | CT_SLASH \<Rightarrow> ''/'' | CT_PERCENT \<Rightarrow> ''%'' | CT_AMP \<Rightarrow> ''&'' | CT_PIPE \<Rightarrow> ''|''
   | CT_CARET \<Rightarrow> ''^'' | CT_TILDE \<Rightarrow> ''~'' | CT_BANG \<Rightarrow> ''!''
   | CT_SHL \<Rightarrow> ''<<'' | CT_SHR \<Rightarrow> ''>>'' | CT_EQ \<Rightarrow> ''=='' | CT_NE \<Rightarrow> ''!=''
   | CT_LT \<Rightarrow> ''<'' | CT_LE \<Rightarrow> ''<='' | CT_GT \<Rightarrow> ''>'' | CT_GE \<Rightarrow> ''>=''
   | CT_ANDAND \<Rightarrow> ''&&'' | CT_OROR \<Rightarrow> ''||'')"

text \<open>A C identifier (or keyword) that fits the buffer.\<close>

definition cname_ok :: "string \<Rightarrow> bool" where
  "cname_ok s = (s \<noteq> [] \<and> (isalpha (hd s) \<or> hd s = CHR ''_'') \<and> (\<forall>c \<in> set s. ident_char c) \<and>
     length s < TEXT_SIZE)"

definition is_word_type :: "ctoktype \<Rightarrow> bool" where
  "is_word_type ty = (ty \<in> {CT_IDENT, CT_KW_INT, CT_KW_VOID, CT_KW_IF, CT_KW_ELSE, CT_KW_WHILE,
     CT_KW_FOR, CT_KW_RETURN})"

text \<open>The fields a token of its type has.\<close>

definition ctoken_ok :: "ctoken \<Rightarrow> bool" where
  "ctoken_ok t =
     (if ct_type t = CT_INT_LIT then ct_text t = [] \<and> 0 \<le> ct_ival t \<and> ct_ival t \<le> LONG_MAX
      else if is_word_type (ct_type t) then
        ct_ival t = 0 \<and> cname_ok (ct_text t) \<and> ct_type t = keyword (ct_text t)
      else ct_text t = [] \<and> ct_ival t = 0)"

text \<open>The last token and only it is the end marker, lines do not decrease.\<close>

definition ends_in_ceof :: "ctoken list \<Rightarrow> bool" where
  "ends_in_ceof ts = (ts \<noteq> [] \<and> ct_type (last ts) = CT_EOF \<and>
     (\<forall>t \<in> set (butlast ts). ct_type t \<noteq> CT_EOF))"

fun clines :: "nat \<Rightarrow> ctoken list \<Rightarrow> bool" where
  "clines line [] = True"
| "clines line (t # ts) = (line \<le> ct_line t \<and> clines (ct_line t) ts)"

lemma ends_in_ceof_simps [simp]:
  "\<not> ends_in_ceof []" "ends_in_ceof [t] \<longleftrightarrow> ct_type t = CT_EOF"
  "ts \<noteq> [] \<Longrightarrow> ends_in_ceof (t # ts) \<longleftrightarrow> ct_type t \<noteq> CT_EOF \<and> ends_in_ceof ts"
  by (auto simp: ends_in_ceof_def)

lemma clines_mono: "clines line' ts \<Longrightarrow> line \<le> line' \<Longrightarrow> clines line ts"
  by (cases ts) auto

lemma skip_comment_line: "line \<le> fst (skip_comment line p)"
  by (induction line p rule: skip_comment.induct) (auto split: if_splits)

lemma ctok_simps [simp]:
  "ct_type (ctok ty line) = ty" "ct_line (ctok ty line) = line" "ct_ival (ctok ty line) = 0"
  "ct_text (ctok ty line) = []"
  by (simp_all add: ctok_def)

lemma keyword_word [simp]: "is_word_type (keyword s)" "keyword s \<noteq> CT_EOF" "keyword s \<noteq> CT_INT_LIT"
  by (simp_all add: keyword_def is_word_type_def)

lemma word_ctoken_simps [simp]:
  "ct_type (word_ctoken s line) = keyword s" "ct_line (word_ctoken s line) = line"
  "ct_ival (word_ctoken s line) = 0" "ct_text (word_ctoken s line) = s"
  by (simp_all add: word_ctoken_def)

definition is_mark_type :: "ctoktype \<Rightarrow> bool" where
  "is_mark_type ty = (ty \<in> snd ` set TWO_CHAR \<union> snd ` set ONE_CHAR)"

lemma mark_type_ok: "is_mark_type ty \<Longrightarrow> ctoken_ok (ctok ty line) \<and> ty \<noteq> CT_EOF \<and> ty \<noteq> CT_INT_LIT"
  by (cases ty) (simp_all add: is_mark_type_def TWO_CHAR_def ONE_CHAR_def ctoken_ok_def is_word_type_def)

lemma two_char_ok: "two_char p = Some ty \<Longrightarrow> is_mark_type ty"
  by (force simp: two_char_def is_mark_type_def dest: map_of_SomeD)

lemma one_char_ok: "one_char c = Some ty \<Longrightarrow> is_mark_type ty"
  by (force simp: one_char_def is_mark_type_def dest: map_of_SomeD)

lemma word_ctoken_ok:
  assumes "isalpha c \<or> c = CHR ''_''"
  shows "ctoken_ok (word_ctoken (scan_text ident_char (c # p)) line)"
proof -
  have i: "ident_char c" using assms by (auto simp: ident_char_def isalnum_def)
  then have "scan_text ident_char (c # p) = c # take 62 (takeWhile ident_char p)"
    by (simp add: scan_text_def TEXT_SIZE_def)
  moreover have "\<forall>d \<in> set (take 62 (takeWhile ident_char p)). ident_char d"
    by (auto dest: in_set_takeD set_takeWhileD)
  ultimately show ?thesis
    using assms i scan_text_length [of ident_char "c # p"]
    by (auto simp: ctoken_ok_def cname_ok_def TEXT_SIZE_def)
qed

definition clex_good :: "nat \<Rightarrow> ctoken list \<Rightarrow> bool" where
  "clex_good line ts = (ends_in_ceof ts \<and> (\<forall>t \<in> set ts. ctoken_ok t) \<and> clines line ts)"

lemma clex_good_eof [simp]: "clex_good line [ctok CT_EOF line]"
  by (simp add: clex_good_def ctoken_ok_def is_word_type_def)

lemma clex_good_Cons [simp]:
  "ctoken_ok t \<Longrightarrow> ct_type t \<noteq> CT_EOF \<Longrightarrow> ct_line t = line \<Longrightarrow> clex_good line ts \<Longrightarrow> clex_good line (t # ts)"
  by (simp add: clex_good_def) (metis ends_in_ceof_simps(1,3))

lemma clex_good_mono: "clex_good line' ts \<Longrightarrow> line \<le> line' \<Longrightarrow> clex_good line ts"
  by (auto simp: clex_good_def intro: clines_mono)

lemma int_ctoken_ok [simp]: "ctoken_ok ((ctok CT_INT_LIT line)\<lparr>ct_ival := fst (strtol0 s)\<rparr>)"
  using strtol0_range [of s] by (simp add: ctoken_ok_def)

lemma clex_from_good: "clex_from line p = Inr ts \<Longrightarrow> clex_good line ts"
proof (induction line p arbitrary: ts rule: clex_from.induct)
  case (2 line c p)
  consider "c = CHR ''\<newline>''" | "c \<noteq> CHR ''\<newline>''" "isspace c"
    | "c = CHR ''/''" "take 1 p = ''/''" | "c = CHR ''/''" "take 1 p = ''*''"
    | "isdigit c" | "isalpha c \<or> c = CHR ''_''"
    | "c \<noteq> CHR ''\<newline>''" "\<not> isspace c" "\<not> (c = CHR ''/'' \<and> take 1 p = ''/'')"
      "\<not> (c = CHR ''/'' \<and> take 1 p = ''*'')" "\<not> isdigit c" "\<not> (isalpha c \<or> c = CHR ''_'')"
    by blast
  then show ?case
  proof cases
    case 1
    with "2.prems" have "clex_from (line + 1) p = Inr ts" by (simp add: clex_from_newline)
    then have "clex_good (line + 1) ts" by (rule "2.IH"(1) [OF 1])
    then show ?thesis by (rule clex_good_mono) simp
  next
    case 2
    with "2.prems" have "clex_from line p = Inr ts" by (simp add: clex_from_space)
    then show ?thesis by (rule "2.IH"(2) [OF 2])
  next
    case 3
    have c: "c \<noteq> CHR ''\<newline>''" "\<not> isspace c" using 3 by (simp_all add: isspace_def Let_def)
    with 3 "2.prems" have "clex_from line (dropWhile (\<lambda>d. d \<noteq> CHR ''\<newline>'') p) = Inr ts"
      by (simp add: clex_from.simps(2))
    then show ?thesis by (rule "2.IH"(3) [OF c conjI [OF 3]])
  next
    case 4
    let ?r = "skip_comment line (tl p)"
    have c: "c \<noteq> CHR ''\<newline>''" "\<not> isspace c" "\<not> (c = CHR ''/'' \<and> take 1 p = ''/'')"
      using 4 by (simp_all add: isspace_def Let_def)
    with 4 "2.prems" have "clex_from (fst ?r) (snd ?r) = Inr ts" by (simp add: clex_from.simps(2))
    then have "clex_good (fst ?r) ts" by (rule "2.IH"(4) [OF c conjI [OF 4]])
    then show ?thesis by (rule clex_good_mono [OF _ skip_comment_line])
  next
    case 5
    have c: "c \<noteq> CHR ''\<newline>''" "\<not> isspace c" "\<not> (c = CHR ''/'' \<and> take 1 p = ''/'')"
      "\<not> (c = CHR ''/'' \<and> take 1 p = ''*'')"
      using cdigit_class [OF 5] by simp_all
    from 5 "2.prems" obtain us where "clex_from line (snd (strtol0 (c # p))) = Inr us"
      and ts: "ts = (ctok CT_INT_LIT line)\<lparr>ct_ival := fst (strtol0 (c # p))\<rparr> # us"
      by (auto simp: clex_from_digit clex_push_Inr)
    then have "clex_good line us" by (intro "2.IH"(5) [OF c 5])
    with ts show ?thesis by simp
  next
    case 6
    let ?s = "scan_text ident_char (c # p)"
    have c: "c \<noteq> CHR ''\<newline>''" "\<not> isspace c" "\<not> (c = CHR ''/'' \<and> take 1 p = ''/'')"
      "\<not> (c = CHR ''/'' \<and> take 1 p = ''*'')" "\<not> isdigit c"
      using cword_class [OF 6] by simp_all
    from 6 "2.prems" obtain us where "clex_from line (drop (length ?s) (c # p)) = Inr us"
      and ts: "ts = word_ctoken ?s line # us"
      by (auto simp: clex_from_word clex_push_Inr)
    then have "clex_good line us" by (intro "2.IH"(6) [OF c 6 refl])
    with ts word_ctoken_ok [OF 6] show ?thesis by simp
  next
    case 7
    then have e: "clex_from line (c # p) = (case two_char (c # p) of
        Some ty \<Rightarrow> clex_push (ctok ty line) (clex_from line (tl p))
      | None \<Rightarrow> (case one_char c of
            Some ty \<Rightarrow> clex_push (ctok ty line) (clex_from line p)
          | None \<Rightarrow> Inl (clex_error line c)))"
      by (subst clex_from.simps(2)) (simp only: if_False)
    show ?thesis
    proof (cases "two_char (c # p)")
      case (Some ty)
      with e "2.prems" have "clex_push (ctok ty line) (clex_from line (tl p)) = Inr ts" by simp
      then obtain us where "clex_from line (tl p) = Inr us" "ts = ctok ty line # us"
        unfolding clex_push_Inr by blast
      with "2.IH"(8) [OF 7 Some] mark_type_ok [OF two_char_ok [OF Some], of line] show ?thesis by simp
    next
      case None
      with e "2.prems" obtain ty where "one_char c = Some ty"
        "clex_push (ctok ty line) (clex_from line p) = Inr ts"
        by (cases "one_char c") auto
      then obtain us where u: "one_char c = Some ty" "clex_from line p = Inr us" "ts = ctok ty line # us"
        unfolding clex_push_Inr by blast
      with "2.IH"(7) [OF 7 None u(1)] mark_type_ok [OF one_char_ok [OF u(1)], of line] show ?thesis by simp
    qed
  qed
qed simp

subsection \<open>Reading tokens back\<close>

text \<open>A token list written out: line breaks up to the line of each token, its spelling, a space.\<close>

fun cprint :: "nat \<Rightarrow> ctoken list \<Rightarrow> string" where
  "cprint line [] = []"
| "cprint line (t # ts) =
     replicate (ct_line t - line) (CHR ''\<newline>'') @ cspell t @ '' '' @ cprint (ct_line t) ts"

lemma clex_from_newlines:
  "clex_from line (replicate n (CHR ''\<newline>'') @ p) = clex_from (line + n) p"
  by (induction n arbitrary: line) (simp_all add: clex_from_newline)

lemma clex_word_piece:
  assumes "cname_ok s"
  shows "clex_from line (s @ CHR '' '' # p) = clex_push (word_ctoken s line) (clex_from line (CHR '' '' # p))"
proof -
  from assms obtain c v where s: "s = c # v" and c: "isalpha c \<or> c = CHR ''_''"
    by (cases s) (auto simp: cname_ok_def)
  have "takeWhile ident_char (s @ CHR '' '' # p) = s"
    using assms takeWhile_all_append [of s ident_char "CHR '' '' # p"]
    by (simp add: cname_ok_def ident_char_def ctype_defs)
  then have "scan_text ident_char (s @ CHR '' '' # p) = s"
    using assms by (simp add: scan_text_def cname_ok_def TEXT_SIZE_def)
  with clex_from_word [OF c, of line "v @ CHR '' '' # p"] show ?thesis by (simp add: s)
qed

lemma clex_number_piece:
  assumes "0 \<le> i" "i \<le> LONG_MAX"
  shows "clex_from line (fmt_base 10 (nat i) @ CHR '' '' # p) =
    clex_push ((ctok CT_INT_LIT line)\<lparr>ct_ival := i\<rparr>) (clex_from line (CHR '' '' # p))"
proof -
  obtain c v where s: "fmt_base 10 (nat i) = c # v" using fmt_base_nonempty by (metis neq_Nil_conv)
  then have c: "isdigit c" using isdigit_fmt_base [of c "nat i"] by simp
  have "strtol0 (fmt_base 10 (nat i) @ CHR '' '' # p) = (i, CHR '' '' # p)"
    using assms strtol0_fmt_base [of "nat i" "CHR '' '' # p"] by (simp add: ctype_defs)
  with clex_from_digit [OF c, of line "v @ CHR '' '' # p"] show ?thesis by (simp add: s)
qed

lemma clex_mark_piece:
  assumes "is_mark_type ty"
  shows "clex_from line (cspell (ctok ty line) @ CHR '' '' # p) =
    clex_push (ctok ty line) (clex_from line (CHR '' '' # p))"
  using assms
  by (cases ty) (simp_all add: is_mark_type_def TWO_CHAR_def ONE_CHAR_def cspell_def
      clex_from.simps(2) two_char_def one_char_def ctype_defs)

lemma keyword_spelling: "keyword s \<noteq> CT_IDENT \<Longrightarrow> cspell (word_ctoken s line) = s"
  by (auto simp: keyword_def cspell_def split: if_splits)

lemma ctoken_ok_cases:
  assumes "ctoken_ok t"
  obtains (eof) "t = ctok CT_EOF (ct_line t)"
    | (int) i where "t = (ctok CT_INT_LIT (ct_line t))\<lparr>ct_ival := i\<rparr>" "0 \<le> i" "i \<le> LONG_MAX"
    | (word) s where "t = word_ctoken s (ct_line t)" "cname_ok s"
    | (mark) ty where "t = ctok ty (ct_line t)" "is_mark_type ty"
proof -
  have "is_mark_type ty \<or> is_word_type ty \<or> ty = CT_INT_LIT \<or> ty = CT_EOF" for ty
    by (cases ty) (simp_all add: is_mark_type_def is_word_type_def TWO_CHAR_def ONE_CHAR_def)
  moreover have "is_mark_type ty \<Longrightarrow> \<not> is_word_type ty \<and> ty \<noteq> CT_INT_LIT" for ty
    by (cases ty) (simp_all add: is_mark_type_def is_word_type_def TWO_CHAR_def ONE_CHAR_def)
  moreover have "t = \<lparr>ct_type = ct_type t, ct_line = ct_line t, ct_ival = ct_ival t, ct_text = ct_text t\<rparr>"
    by simp
  ultimately show ?thesis
    using assms eof int [of "ct_ival t"] word [of "ct_text t"] mark [of "ct_type t"]
    unfolding ctoken_ok_def ctok_def word_ctoken_def
    by (metis (no_types, lifting) ctoken.update_convs(3) ctoken.update_convs(4))
qed

lemma cspell_int: "cspell ((ctok CT_INT_LIT l)\<lparr>ct_ival := i\<rparr>) = fmt_base 10 (nat i)"
  by (simp add: cspell_def)

lemma cspell_word: "cspell (word_ctoken s l) = s"
  by (cases "keyword s = CT_IDENT") (simp add: cspell_def, rule keyword_spelling)

lemma clex_piece:
  assumes "ctoken_ok t" "ct_type t \<noteq> CT_EOF"
  shows "clex_from (ct_line t) (cspell t @ CHR '' '' # p) = clex_push t (clex_from (ct_line t) (CHR '' '' # p))"
  using assms(1)
proof (cases t rule: ctoken_ok_cases)
  case eof
  with assms(2) show ?thesis by (metis ctok_simps(1))
next
  case (int i)
  with clex_number_piece [OF int(2,3), of "ct_line t" p] show ?thesis by (metis cspell_int)
next
  case (word s)
  with clex_word_piece [OF word(2), of "ct_line t" p] show ?thesis by (metis cspell_word)
next
  case (mark ty)
  with clex_mark_piece [OF mark(2), of "ct_line t" p] show ?thesis by metis
qed

lemma clex_good_ConsD:
  "clex_good line (t # ts) \<Longrightarrow> ts \<noteq> [] \<Longrightarrow>
   ctoken_ok t \<and> ct_type t \<noteq> CT_EOF \<and> line \<le> ct_line t \<and> clex_good (ct_line t) ts"
  by (simp add: clex_good_def)

lemma clex_good_single: "clex_good line [t] \<Longrightarrow> \<exists>l. t = ctok CT_EOF l \<and> line \<le> l"
  by (cases t) (simp add: clex_good_def ctoken_ok_def is_word_type_def ctok_def)

lemma clex_from_print: "clex_good line ts \<Longrightarrow> clex_from line (cprint line ts) = Inr ts"
proof (induction line ts rule: cprint.induct)
  case (2 line t ts)
  show ?case
  proof (cases "ts = []")
    case True
    with 2 clex_good_single [of line t] show ?thesis
      by (auto simp: cspell_def clex_from_newlines clex_from_space isspace_def)
  next
    case False
    from clex_good_ConsD [OF "2.prems" False]
    have t: "ctoken_ok t" "ct_type t \<noteq> CT_EOF" "line \<le> ct_line t" and ts: "clex_good (ct_line t) ts" by auto
    have "clex_from (ct_line t) (CHR '' '' # cprint (ct_line t) ts) = Inr ts"
      using "2.IH" [OF ts] by (simp add: clex_from_space isspace_def)
    with clex_piece [OF t(1,2), of "cprint (ct_line t) ts"] t(3) show ?thesis
      by (simp add: clex_from_newlines)
  qed
qed (simp add: clex_good_def)

lemma ident_char_nonzero: "ident_char c \<Longrightarrow> of_char c \<noteq> (0 :: nat)"
  by (auto simp: ident_char_def ctype_defs)

lemma cspell_eof: "cspell (ctok CT_EOF l) = []"
  by (simp add: cspell_def)

lemma cspell_nonzero:
  assumes "ctoken_ok t" "c \<in> set (cspell t)"
  shows "of_char c \<noteq> (0 :: nat)"
  using assms(1)
proof (cases t rule: ctoken_ok_cases)
  case eof
  then have "cspell t = []" by (metis cspell_eof)
  with assms(2) show ?thesis by simp
next
  case (int i)
  then have "cspell t = fmt_base 10 (nat i)" by (metis cspell_int)
  with assms(2) isdigit_fmt_base [of c "nat i"] show ?thesis by (simp add: ctype_defs)
next
  case (word s)
  then have "cspell t = s" by (metis cspell_word)
  with assms(2) word(2) show ?thesis by (simp add: cname_ok_def ident_char_nonzero)
next
  case (mark ty)
  then have "cspell t = cspell (ctok ty (ct_line t))" by metis
  with assms(2) mark(2) show ?thesis
    by (cases ty) (auto simp: is_mark_type_def TWO_CHAR_def ONE_CHAR_def cspell_def)
qed

lemma cprint_nonzero: "\<forall>t \<in> set ts. ctoken_ok t \<Longrightarrow> c \<in> set (cprint line ts) \<Longrightarrow> of_char c \<noteq> (0 :: nat)"
  by (induction line ts rule: cprint.induct) (auto dest: cspell_nonzero)

lemma cstr_nonzero: "(\<And>c. c \<in> set s \<Longrightarrow> of_char c \<noteq> (0 :: nat)) \<Longrightarrow> cstr s = s"
  by (simp add: cstr_def takeWhile_eq_all_conv)

lemma clex_good: "clex src = Inr ts \<Longrightarrow> clex_good 1 ts"
  by (simp add: clex_def clex_from_good)

text \<open>C33: What the compiler's lexer returns ends with its only \<open>T_EOF\<close>, has line numbers that never
  decrease and tokens with exactly the fields of their types (an identifier or keyword of
  under 64 characters, a literal that fits \<open>long\<close>); written out with a space after each
  token and lexed again, it gives the same tokens.\<close>

theorem clex_roundtrip:
  assumes "clex src = Inr ts"
  shows "ends_in_ceof ts \<and> clines 1 ts \<and> (\<forall>t \<in> set ts. ctoken_ok t) \<and> clex (cprint 1 ts) = Inr ts"
proof -
  have g: "clex_good 1 ts" using assms by (rule clex_good)
  then have "cstr (cprint 1 ts) = cprint 1 ts"
    using cprint_nonzero [of ts] by (intro cstr_nonzero) (auto simp: clex_good_def)
  then have "clex (cprint 1 ts) = Inr ts" using clex_from_print [OF g] by (simp add: clex_def)
  with g show ?thesis by (simp add: clex_good_def)
qed

theorem clex_roundtrip_witness:
  "clex (cprint 1 [word_ctoken ''x1'' 2, ctok CT_SHL 2, (ctok CT_INT_LIT 2)\<lparr>ct_ival := 16\<rparr>, ctok CT_EOF 2]) =
     Inr [word_ctoken ''x1'' 2, ctok CT_SHL 2, (ctok CT_INT_LIT 2)\<lparr>ct_ival := 16\<rparr>, ctok CT_EOF 2]"
proof -
  have "clex ''/* shift<\<newline> */x1<<0x10'' =
      Inr [word_ctoken ''x1'' 2, ctok CT_SHL 2, (ctok CT_INT_LIT 2)\<lparr>ct_ival := 16\<rparr>, ctok CT_EOF 2]"
    by code_simp
  from clex_roundtrip [OF this] show ?thesis by simp
qed

end
