(* ===== verification/CParser.thy ===== *)
theory CParser
  imports CLexer
begin

text \<open>
  The compiler's syntax trees and its recursive-descent parser (\<open>src/cparser.c\<close>, \<open>Node\<close> of
  \<open>include/compiler.h\<close>). Every read of the token array is bounds-checked in the model, so that
  staying inside is a theorem; \<open>perr\<close> and its \<open>longjmp\<close> are the error value. The recursion is
  the code's, nested calls included: it terminates because every parser moves forward in the
  array, which is proved on the functions' domains before termination is.
\<close>

subsection \<open>Syntax trees\<close>

text \<open>
  A \<open>Node\<close> by its \<open>NodeType\<close>, with the fields that type uses: the line first, then names,
  flags and sizes, then \<open>a\<close>, \<open>b\<close>, \<open>c\<close>, \<open>d\<close> (an option where the pointer may be null) and \<open>kids\<close>.
\<close>

datatype cnode =
    N_PROGRAM nat "cnode list"
  | N_FUNC nat string bool "cnode list" cnode       \<comment> \<open>name, returns void, parameters, body\<close>
  | N_PARAM nat string bool                         \<comment> \<open>name, pointer\<close>
  | N_VARDECL nat string bool bool int "cnode option"  \<comment> \<open>name, pointer, array, size, initializer\<close>
  | N_BLOCK nat "cnode list"
  | N_IF nat cnode cnode "cnode option"
  | N_WHILE nat cnode cnode
  | N_FOR nat "cnode option" "cnode option" "cnode option" cnode
  | N_RETURN nat "cnode option"
  | N_EXPRSTMT nat cnode
  | N_INT nat int
  | N_VAR nat string
  | N_UNARY nat ctoktype cnode
  | N_BINARY nat ctoktype cnode cnode
  | N_ASSIGN nat cnode cnode
  | N_CALL nat string "cnode list"
  | N_INDEX nat cnode cnode

fun node_line :: "cnode \<Rightarrow> nat" where
  "node_line (N_PROGRAM l _) = l"
| "node_line (N_FUNC l _ _ _ _) = l"
| "node_line (N_PARAM l _ _) = l"
| "node_line (N_VARDECL l _ _ _ _ _) = l"
| "node_line (N_BLOCK l _) = l"
| "node_line (N_IF l _ _ _) = l"
| "node_line (N_WHILE l _ _) = l"
| "node_line (N_FOR l _ _ _ _) = l"
| "node_line (N_RETURN l _) = l"
| "node_line (N_EXPRSTMT l _) = l"
| "node_line (N_INT l _) = l"
| "node_line (N_VAR l _) = l"
| "node_line (N_UNARY l _ _) = l"
| "node_line (N_BINARY l _ _ _) = l"
| "node_line (N_ASSIGN l _ _) = l"
| "node_line (N_CALL l _ _) = l"
| "node_line (N_INDEX l _ _) = l"

subsection \<open>The parser state\<close>

text \<open>The token array and the index of \<open>struct P\<close>.\<close>

record cpstate =
  cp_toks :: "ctoken list"
  cp_i :: nat

text \<open>How a parse stops: with the message in \<open>err\<close>, or by reading outside the array.\<close>

datatype cpfail = CSyntax string | CFault fault

type_synonym 'a cparser = "cpstate \<Rightarrow> cpfail + 'a \<times> cpstate"

definition ctok_at :: "cpstate \<Rightarrow> nat \<Rightarrow> cpfail + ctoken" where
  "ctok_at p k = (if k < length (cp_toks p) then Inr (cp_toks p ! k) else Inl (CFault (BadIndex (of_nat k))))"

definition cpeek :: "cpstate \<Rightarrow> cpfail + ctoken" where
  "cpeek p = ctok_at p (cp_i p)"

definition cadvance :: "cpstate \<Rightarrow> cpstate" where
  "cadvance p = p\<lparr>cp_i := cp_i p + 1\<rparr>"

definition cat :: "ctoktype \<Rightarrow> cpstate \<Rightarrow> cpfail + bool" where
  "cat tt p = res_bind (cpeek p) (\<lambda>t. Inr (ct_type t = tt))"

definition caccept :: "ctoktype \<Rightarrow> bool cparser" where
  "caccept tt p = res_bind (cat tt p) (\<lambda>b. Inr (if b then (True, cadvance p) else (False, p)))"

text \<open>\<open>perr\<close>: the line of the current token and the message. The messages of the parser fit the
  120 and 160 characters of their buffers.\<close>

definition cperr :: "string \<Rightarrow> cpstate \<Rightarrow> cpfail + 'a" where
  "cperr msg p = res_bind (cpeek p) (\<lambda>t.
     Inl (CSyntax (''line '' @ fmt_base 10 (ct_line t) @ '': '' @ msg)))"

definition cexpect :: "ctoktype \<Rightarrow> string \<Rightarrow> cpstate \<Rightarrow> cpfail + cpstate" where
  "cexpect tt what p = res_bind (caccept tt p) (\<lambda>(ok, q).
     if ok then Inr q else cperr (''expected '' @ what) q)"

definition binprec :: "ctoktype \<Rightarrow> nat" where
  "binprec t = (case t of
     CT_OROR \<Rightarrow> 1 | CT_ANDAND \<Rightarrow> 2 | CT_PIPE \<Rightarrow> 3
   | CT_CARET \<Rightarrow> 4 | CT_AMP \<Rightarrow> 5
   | CT_EQ \<Rightarrow> 6 | CT_NE \<Rightarrow> 6
   | CT_LT \<Rightarrow> 7 | CT_LE \<Rightarrow> 7 | CT_GT \<Rightarrow> 7 | CT_GE \<Rightarrow> 7
   | CT_SHL \<Rightarrow> 8 | CT_SHR \<Rightarrow> 8
   | CT_PLUS \<Rightarrow> 9 | CT_MINUS \<Rightarrow> 9
   | CT_STAR \<Rightarrow> 10 | CT_SLASH \<Rightarrow> 10 | CT_PERCENT \<Rightarrow> 10
   | _ \<Rightarrow> 0)"

definition is_unary_op :: "ctoktype \<Rightarrow> bool" where
  "is_unary_op ty = (ty \<in> {CT_MINUS, CT_BANG, CT_TILDE, CT_STAR, CT_AMP})"

subsection \<open>Expressions\<close>

text \<open>The loops of \<open>parse_postfix\<close> and \<open>parse_bin\<close> and the argument list are functions of their own.\<close>

function parse_expr :: "cnode cparser"
  and parse_bin :: "nat \<Rightarrow> cnode cparser"
  and parse_bin_loop :: "nat \<Rightarrow> cnode \<Rightarrow> cnode cparser"
  and parse_unary :: "cnode cparser"
  and parse_postfix :: "cnode cparser"
  and parse_postfix_loop :: "cnode \<Rightarrow> cnode cparser"
  and parse_args :: "cnode list cparser"
  and parse_primary :: "cnode cparser" where
  "parse_expr p = res_bind (parse_bin 1 p) (\<lambda>(left, q).
     res_bind (cpeek q) (\<lambda>t.
       if ct_type t = CT_ASSIGN then
         res_bind (parse_expr (cadvance q)) (\<lambda>(b, r). Inr (N_ASSIGN (ct_line t) left b, r))
       else Inr (left, q)))"
| "parse_bin minprec p = res_bind (parse_unary p) (\<lambda>(left, q). parse_bin_loop minprec left q)"
| "parse_bin_loop minprec left p = res_bind (cpeek p) (\<lambda>t.
     let prec = binprec (ct_type t) in
     if prec = 0 \<or> prec < minprec then Inr (left, p)
     else res_bind (parse_bin (prec + 1) (cadvance p)) (\<lambda>(right, q).
       parse_bin_loop minprec (N_BINARY (ct_line t) (ct_type t) left right) q))"
| "parse_unary p = res_bind (cpeek p) (\<lambda>t.
     if is_unary_op (ct_type t) then
       res_bind (parse_unary (cadvance p)) (\<lambda>(a, q). Inr (N_UNARY (ct_line t) (ct_type t) a, q))
     else parse_postfix p)"
| "parse_postfix p = res_bind (parse_primary p) (\<lambda>(n, q). parse_postfix_loop n q)"
| "parse_postfix_loop n p = res_bind (cpeek p) (\<lambda>t.
     if ct_type t = CT_LPAREN then
       (case n of
          N_VAR l name \<Rightarrow>
            (let q = cadvance p in
             res_bind (cat CT_RPAREN q) (\<lambda>none.
             res_bind (if none then Inr ([], q) else parse_args q) (\<lambda>(args, r).
             res_bind (cexpect CT_RPAREN (quoted '')'') r) (\<lambda>r'.
               parse_postfix_loop (N_CALL l name args) r'))))
        | _ \<Rightarrow> cperr ''call of non-function'' p)
     else if ct_type t = CT_LBRACK then
       res_bind (parse_expr (cadvance p)) (\<lambda>(ix, q).
       res_bind (cexpect CT_RBRACK (quoted '']'') q) (\<lambda>q'.
         parse_postfix_loop (N_INDEX (node_line n) n ix) q'))
     else Inr (n, p))"
| "parse_args p = res_bind (parse_expr p) (\<lambda>(e, q).
     res_bind (caccept CT_COMMA q) (\<lambda>(more, q').
       if more then res_bind (parse_args q') (\<lambda>(es, r). Inr (e # es, r)) else Inr ([e], q')))"
| "parse_primary p = res_bind (cpeek p) (\<lambda>t.
     if ct_type t = CT_INT_LIT then Inr (N_INT (ct_line t) (ct_ival t), cadvance p)
     else if ct_type t = CT_IDENT then Inr (N_VAR (ct_line t) (ct_text t), cadvance p)
     else if ct_type t = CT_LPAREN then
       res_bind (parse_expr (cadvance p)) (\<lambda>(n, q).
       res_bind (cexpect CT_RPAREN (quoted '')'') q) (\<lambda>q'. Inr (n, q')))
     else cperr ''expected expression'' p)"
  by pat_completeness auto

subsection \<open>Progress\<close>

definition cfwd :: "nat \<Rightarrow> cpfail + 'a \<times> cpstate \<Rightarrow> cpstate \<Rightarrow> bool" where
  "cfwd k r p = (\<forall>x q. r = Inr (x, q) \<longrightarrow> cp_toks q = cp_toks p \<and> cp_i p + k \<le> cp_i q)"

lemma cfwdI: "(\<And>x q. r = Inr (x, q) \<Longrightarrow> cp_toks q = cp_toks p \<and> cp_i p + k \<le> cp_i q) \<Longrightarrow> cfwd k r p"
  unfolding cfwd_def by blast

lemma cfwdD: "cfwd k r p \<Longrightarrow> r = Inr (x, q) \<Longrightarrow> cp_toks q = cp_toks p \<and> cp_i p + k \<le> cp_i q"
  unfolding cfwd_def by blast

lemma cfwd_less: "cfwd k r p \<Longrightarrow> m \<le> k \<Longrightarrow> cfwd m r p"
  by (rule cfwdI) (drule (1) cfwdD, simp)

lemma cfwd_bind:
  assumes "cfwd k r p" "\<And>x q. r = Inr (x, q) \<Longrightarrow> cfwd 0 (f (x, q)) q"
  shows "cfwd k (res_bind r f) p"
proof (rule cfwdI)
  fix y s assume "res_bind r f = Inr (y, s)"
  then obtain x q where r: "r = Inr (x, q)" "f (x, q) = Inr (y, s)" by (auto simp: res_bind_Inr_iff)
  with cfwdD [OF assms(1) r(1)] cfwdD [OF assms(2) [OF r(1)] r(2)]
  show "cp_toks s = cp_toks p \<and> cp_i p + k \<le> cp_i s" by simp
qed

lemma cfwd_adv: "cfwd k r (cadvance p) \<Longrightarrow> m \<le> Suc k \<Longrightarrow> cfwd m r p"
  by (rule cfwdI) (drule (1) cfwdD, simp add: cadvance_def)

lemma cfwd_advance:
  "cfwd (Suc 0) r (cadvance p) \<Longrightarrow> cfwd (Suc 0) r p" "cfwd (Suc 0) r (cadvance p) \<Longrightarrow> cfwd 0 r p"
  "cfwd 0 r (cadvance p) \<Longrightarrow> cfwd (Suc 0) r p" "cfwd 0 r (cadvance p) \<Longrightarrow> cfwd 0 r p"
  "cfwd (Suc 0) r p \<Longrightarrow> cfwd 0 r p"
  by (erule cfwd_adv cfwd_less, simp)+

lemma cfwd_peek:
  "(\<And>t. cpeek p = Inr t \<Longrightarrow> cfwd k (f t) p) \<Longrightarrow> cfwd k (res_bind (cpeek p) f) p"
  "(\<And>b. cat tt p = Inr b \<Longrightarrow> cfwd k (g b) p) \<Longrightarrow> cfwd k (res_bind (cat tt p) g) p"
  unfolding cfwd_def res_bind_Inr_iff by blast+

lemma cperr_not_Inr [simp]: "cperr m p \<noteq> Inr x"
  by (auto simp: cperr_def res_bind_Inr_iff)

lemma cfwd_end: "cfwd 0 (Inr (x, p)) p" "cfwd k (cperr msg p) q" "m \<le> Suc 0 \<Longrightarrow> cfwd m (Inr (x, cadvance p)) p"
  by (simp_all add: cfwd_def cadvance_def)

lemma caccept_cfwd: "cfwd 0 (caccept tt p) p"
  by (auto simp: cfwd_def caccept_def res_bind_Inr_iff cadvance_def split: if_splits)

lemma cexpect_fwd: "cexpect tt w p = Inr q \<Longrightarrow> cp_toks q = cp_toks p \<and> cp_i p < cp_i q"
  by (auto simp: cexpect_def caccept_def res_bind_Inr_iff cadvance_def split: if_splits)

lemma cfwd_expect:
  assumes "\<And>q. cexpect tt w p = Inr q \<Longrightarrow> cfwd 0 (f q) q"
  shows "cfwd 0 (res_bind (cexpect tt w p) f) p"
proof (rule cfwdI)
  fix y s assume "res_bind (cexpect tt w p) f = Inr (y, s)"
  then obtain q where r: "cexpect tt w p = Inr q" "f q = Inr (y, s)" by (auto simp: res_bind_Inr_iff)
  with cexpect_fwd [OF r(1)] cfwdD [OF assms [OF r(1)] r(2)]
  show "cp_toks s = cp_toks p \<and> cp_i p + 0 \<le> cp_i s" by simp
qed

lemmas parse_expr_pinduct =
  parse_expr_parse_bin_parse_bin_loop_parse_unary_parse_postfix_parse_postfix_loop_parse_args_parse_primary.pinduct

lemma parse_progress:
  "parse_expr_parse_bin_parse_bin_loop_parse_unary_parse_postfix_parse_postfix_loop_parse_args_parse_primary_dom
     (Inl (Inl (Inl p))) \<Longrightarrow> cfwd (Suc 0) (parse_expr p) p"
  "parse_expr_parse_bin_parse_bin_loop_parse_unary_parse_postfix_parse_postfix_loop_parse_args_parse_primary_dom
     (Inl (Inl (Inr (m, p)))) \<Longrightarrow> cfwd (Suc 0) (parse_bin m p) p"
  "parse_expr_parse_bin_parse_bin_loop_parse_unary_parse_postfix_parse_postfix_loop_parse_args_parse_primary_dom
     (Inl (Inr (Inl (m, e, p)))) \<Longrightarrow> cfwd 0 (parse_bin_loop m e p) p"
  "parse_expr_parse_bin_parse_bin_loop_parse_unary_parse_postfix_parse_postfix_loop_parse_args_parse_primary_dom
     (Inl (Inr (Inr p))) \<Longrightarrow> cfwd (Suc 0) (parse_unary p) p"
  "parse_expr_parse_bin_parse_bin_loop_parse_unary_parse_postfix_parse_postfix_loop_parse_args_parse_primary_dom
     (Inr (Inl (Inl p))) \<Longrightarrow> cfwd (Suc 0) (parse_postfix p) p"
  "parse_expr_parse_bin_parse_bin_loop_parse_unary_parse_postfix_parse_postfix_loop_parse_args_parse_primary_dom
     (Inr (Inl (Inr (n, p)))) \<Longrightarrow> cfwd 0 (parse_postfix_loop n p) p"
  "parse_expr_parse_bin_parse_bin_loop_parse_unary_parse_postfix_parse_postfix_loop_parse_args_parse_primary_dom
     (Inr (Inr (Inl p))) \<Longrightarrow> cfwd (Suc 0) (parse_args p) p"
  "parse_expr_parse_bin_parse_bin_loop_parse_unary_parse_postfix_parse_postfix_loop_parse_args_parse_primary_dom
     (Inr (Inr (Inr p))) \<Longrightarrow> cfwd (Suc 0) (parse_primary p) p"
proof (induction rule: parse_expr_pinduct)
  case (1 p)
  have "cfwd 0 (res_bind (cpeek q) (\<lambda>t. if ct_type t = CT_ASSIGN
      then res_bind (parse_expr (cadvance q)) (\<lambda>(b, r). Inr (N_ASSIGN (ct_line t) l b, r))
      else Inr (l, q))) q" if "parse_bin 1 p = Inr (l, q)" for l q
  proof (rule cfwd_peek)
    fix t assume t: "cpeek q = Inr t"
    show "cfwd 0 (if ct_type t = CT_ASSIGN
      then res_bind (parse_expr (cadvance q)) (\<lambda>(b, r). Inr (N_ASSIGN (ct_line t) l b, r))
      else Inr (l, q)) q"
      using "1.IH"(2) [OF that refl t]
      by (auto intro!: cfwd_bind cfwd_end intro: cfwd_advance)
  qed
  then show ?case unfolding parse_expr.psimps [OF 1(1)] by (intro cfwd_bind [OF "1.IH"(1)]) simp
next
  case (2 m p)
  show ?case unfolding parse_bin.psimps [OF 2(1)]
    by (rule cfwd_bind [OF "2.IH"(1)]) (simp add: "2.IH"(2) [OF _ refl])
next
  case (3 m l p)
  show ?case unfolding parse_bin_loop.psimps [OF 3(1)] Let_def
    using "3.IH"(2) [OF _ refl]
    by (auto intro!: cfwd_peek cfwd_bind cfwd_end intro: cfwd_advance(2) [OF "3.IH"(1) [OF _ refl, simplified]])
next
  case (4 p)
  show ?case unfolding parse_unary.psimps [OF 4(1)]
    using "4.IH" by (auto intro!: cfwd_peek cfwd_bind cfwd_end) (rule cfwd_advance, assumption)+
next
  case (5 p)
  show ?case unfolding parse_postfix.psimps [OF 5(1)]
    by (rule cfwd_bind [OF "5.IH"(1)]) (simp add: "5.IH"(2) [OF _ refl])
next
  case (7 p)
  show ?case unfolding parse_args.psimps [OF 7(1)]
    using "7.IH" by (auto intro!: cfwd_peek cfwd_bind caccept_cfwd cfwd_end) (rule cfwd_advance(5), blast)
next
  case (8 p)
  show ?case unfolding parse_primary.psimps [OF 8(1)]
    using "8.IH" by (auto intro!: cfwd_peek cfwd_bind cfwd_expect cfwd_end) (rule cfwd_advance, assumption)+
next
  case (6 n p)
  have call: "cfwd 0 (res_bind (cat CT_RPAREN (cadvance p)) (\<lambda>none.
        res_bind (if none then Inr ([], cadvance p) else parse_args (cadvance p)) (\<lambda>(args, r).
        res_bind (cexpect CT_RPAREN (quoted '')'') r) (\<lambda>r'. parse_postfix_loop (N_CALL l name args) r')))) p"
    if t: "cpeek p = Inr t" "ct_type t = CT_LPAREN" and n: "n = N_VAR l name" for t l name
  proof (rule cfwd_advance(4), rule cfwd_peek(2))
    fix none assume b: "cat CT_RPAREN (cadvance p) = Inr none"
    let ?args = "if none then Inr ([], cadvance p) else parse_args (cadvance p)"
    have args: "cfwd 0 ?args (cadvance p)"
      using "6.IH"(1) [OF t n refl b] by (auto intro: cfwd_end(1) cfwd_advance(5))
    have "cfwd 0 (parse_postfix_loop (N_CALL l name as) r') r'"
      if "?args = Inr (as, r)" "cexpect CT_RPAREN (quoted '')'') r = Inr r'" for as r r'
      using "6.IH"(2) [OF t n refl b that(1) refl that(2)] .
    then show "cfwd 0 (res_bind ?args (\<lambda>(args, r). res_bind (cexpect CT_RPAREN (quoted '')'') r)
        (\<lambda>r'. parse_postfix_loop (N_CALL l name args) r'))) (cadvance p)"
      by (intro cfwd_bind [OF args]) (simp add: cfwd_expect)
  qed
  have index: "cfwd 0 (res_bind (parse_expr (cadvance p)) (\<lambda>(ix, q).
       res_bind (cexpect CT_RBRACK (quoted '']'') q) (\<lambda>q'. parse_postfix_loop (N_INDEX (node_line n) n ix) q'))) p"
    if t: "cpeek p = Inr t" "ct_type t = CT_LBRACK" for t
  proof -
    have t': "ct_type t \<noteq> CT_LPAREN" using t(2) by simp
    show ?thesis
      by (rule cfwd_bind [OF cfwd_advance(2) [OF "6.IH"(3) [OF t(1) t' t(2)]]])
        (simp add: cfwd_expect "6.IH"(4) [OF t(1) t' t(2) _ refl])
  qed
  show ?case unfolding parse_postfix_loop.psimps [OF 6(1)] Let_def
    by (rule cfwd_peek(1)) (auto simp: cfwd_end call index split: cnode.split)
qed


definition ctoks_left :: "cpstate \<Rightarrow> nat" where
  "ctoks_left p = length (cp_toks p) - cp_i p"

lemma cpeek_inside: "cpeek p = Inr t \<Longrightarrow> cp_i p < length (cp_toks p)"
  by (simp add: cpeek_def ctok_at_def split: if_splits)

lemma ctoks_left_advance: "cpeek p = Inr t \<Longrightarrow> ctoks_left (cadvance p) < ctoks_left p"
  using cpeek_inside [of p t] by (simp add: ctoks_left_def cadvance_def)

lemma ctoks_left_fwd: "cfwd k r p \<Longrightarrow> r = Inr (x, q) \<Longrightarrow> ctoks_left q \<le> ctoks_left p"
  by (drule (1) cfwdD) (auto simp: ctoks_left_def)

lemma ctoks_left_strict:
  "cpeek p = Inr t \<Longrightarrow> cfwd (Suc 0) r p \<Longrightarrow> r = Inr (x, q) \<Longrightarrow> ctoks_left q < ctoks_left p"
  by (drule cpeek_inside, drule (1) cfwdD) (auto simp: ctoks_left_def)

lemma ctoks_left_expect: "cexpect tt w p = Inr q \<Longrightarrow> ctoks_left q \<le> ctoks_left p"
  by (drule cexpect_fwd) (auto simp: ctoks_left_def)

lemma caccept_left: "caccept tt p = Inr (True, q) \<Longrightarrow> ctoks_left q < ctoks_left p"
  by (auto simp: caccept_def cat_def res_bind_Inr_iff ctoks_left_advance split: if_splits)

lemmas parse_left = parse_progress(1,2,4,5,7,8) [THEN cfwd_advance(5), THEN ctoks_left_fwd]
  parse_progress(3,6) [THEN ctoks_left_fwd]

lemma if_args_left:
  "(if b then Inr ([], q) else parse_args q) = Inr (as, r) \<Longrightarrow>
   (\<not> b \<Longrightarrow> cfwd (Suc 0) (parse_args q) q) \<Longrightarrow> ctoks_left r \<le> ctoks_left q"
  by (auto split: if_splits intro: ctoks_left_fwd)

lemma parse_expr_dom:
  "All parse_expr_parse_bin_parse_bin_loop_parse_unary_parse_postfix_parse_postfix_loop_parse_args_parse_primary_dom"
proof (relation "measures
      [\<lambda>x. ctoks_left (case_sum (case_sum (case_sum (\<lambda>p. p) snd) (case_sum (snd \<circ> snd) (\<lambda>p. p)))
         (case_sum (case_sum (\<lambda>p. p) snd) (case_sum (\<lambda>p. p) (\<lambda>p. p))) x),
       case_sum (case_sum (case_sum (\<lambda>_. 6) (\<lambda>_. 5)) (case_sum (\<lambda>_. 0) (\<lambda>_. 4)))
         (case_sum (case_sum (\<lambda>_. 3) (\<lambda>_. 0)) (case_sum (\<lambda>_. 7) (\<lambda>_. 2)))]", goal_cases)
  case (3 p r l q t)
  then have "ctoks_left q \<le> ctoks_left p" by (intro parse_left(2)) auto
  with ctoks_left_advance [OF 3(3)] show ?case by simp
next
  case (5 m p r l q)
  then have "ctoks_left q \<le> ctoks_left p" by (intro parse_left(3)) auto
  then show ?case by auto
next
  case (7 m l p t prec r e q)
  then have "ctoks_left q \<le> ctoks_left (cadvance p)" by (intro parse_left(2)) auto
  with ctoks_left_advance [OF 7(1)] show ?case by simp
next
  case (11 p r n q)
  then have "ctoks_left q \<le> ctoks_left p" by (intro parse_left(6)) auto
  then show ?case by auto
next
  case (13 n p t l name q none r as s s')
  have "ctoks_left s \<le> ctoks_left (cadvance p)"
    using 13 by (cases none) (auto intro: parse_left(5))
  with ctoks_left_advance [OF 13(1)] ctoks_left_expect [OF 13(8)] show ?case by simp
next
  case (15 n p t r ix q q')
  then have "ctoks_left q \<le> ctoks_left (cadvance p)" by (intro parse_left(1)) auto
  with ctoks_left_advance [OF 15(1)] ctoks_left_expect [OF 15(6)] show ?case by simp
next
  case (17 p r e q s more q')
  then have "ctoks_left q \<le> ctoks_left p" by (intro parse_left(1)) auto
  moreover have "ctoks_left q' < ctoks_left q" using 17 by (intro caccept_left) auto
  ultimately show ?case by simp
qed (auto dest: ctoks_left_advance)

termination parse_expr
  by (rule parse_expr_dom)

declare parse_expr.simps [simp del] parse_bin.simps [simp del] parse_bin_loop.simps [simp del]
  parse_unary.simps [simp del] parse_postfix.simps [simp del] parse_postfix_loop.simps [simp del]
  parse_args.simps [simp del] parse_primary.simps [simp del]

lemmas parse_expr_fwd [simp] = parse_progress [OF parse_expr_dom [THEN spec]]

subsection \<open>Declarations\<close>

text \<open>\<open>type := ('int'|'void') '*'?\<close>: is it void, is it a pointer.\<close>

definition parse_type :: "(bool \<times> bool) cparser" where
  "parse_type p =
     res_bind (caccept CT_KW_INT p) (\<lambda>(is_int, q).
     res_bind (if is_int then Inr (False, q)
               else res_bind (caccept CT_KW_VOID q) (\<lambda>(is_vd, r).
                 if is_vd then Inr (True, r) else cperr ''expected type'' r)) (\<lambda>(is_void, r).
     res_bind (caccept CT_STAR r) (\<lambda>(is_ptr, s). Inr ((is_void, is_ptr), s))))"

text \<open>A variable declaration after its name: an array size or an initializer, and the semicolon.\<close>

definition parse_declarator :: "nat \<Rightarrow> string \<Rightarrow> bool \<Rightarrow> cnode cparser" where
  "parse_declarator line name is_ptr p =
     res_bind (caccept CT_LBRACK p) (\<lambda>(arr, q).
     if arr then
       res_bind (cpeek q) (\<lambda>sz.
       res_bind (cexpect CT_INT_LIT ''array size'' q) (\<lambda>r.
       res_bind (cexpect CT_RBRACK (quoted '']'') r) (\<lambda>r.
       res_bind (cexpect CT_SEMI (quoted '';'') r) (\<lambda>r.
         Inr (N_VARDECL line name is_ptr True (ct_ival sz) None, r)))))
     else
       res_bind (caccept CT_ASSIGN q) (\<lambda>(init, r).
       res_bind (if init then res_bind (parse_expr r) (\<lambda>(e, s). Inr (Some e, s)) else Inr (None, r)) (\<lambda>(a, s).
       res_bind (cexpect CT_SEMI (quoted '';'') s) (\<lambda>s.
         Inr (N_VARDECL line name is_ptr False 0 a, s)))))"

definition parse_local_decl :: "cnode cparser" where
  "parse_local_decl p =
     res_bind (parse_type p) (\<lambda>((is_void, is_ptr), q).
     if is_void then cperr (quoted ''void'' @ '' variable'') q
     else
       res_bind (cpeek q) (\<lambda>name.
       res_bind (cexpect CT_IDENT ''name'' q) (\<lambda>r.
         parse_declarator (ct_line name) (ct_text name) is_ptr r)))"

subsection \<open>Statements\<close>

text \<open>The condition in parentheses of \<open>if\<close> and \<open>while\<close>, and the head of a \<open>for\<close>.\<close>

definition parse_cond :: "cnode cparser" where
  "parse_cond p =
     res_bind (cexpect CT_LPAREN (quoted ''('') p) (\<lambda>q.
     res_bind (parse_expr q) (\<lambda>(e, r).
     res_bind (cexpect CT_RPAREN (quoted '')'') r) (\<lambda>s. Inr (e, s))))"

definition parse_expr_stmt :: "nat \<Rightarrow> cnode cparser" where
  "parse_expr_stmt line p =
     res_bind (parse_expr p) (\<lambda>(e, q).
     res_bind (cexpect CT_SEMI (quoted '';'') q) (\<lambda>r. Inr (N_EXPRSTMT line e, r)))"

text \<open>An expression that may be missing, when the next token is its terminator.\<close>

definition parse_opt_expr :: "ctoktype \<Rightarrow> cnode option cparser" where
  "parse_opt_expr stop p =
     res_bind (cat stop p) (\<lambda>none.
     if none then Inr (None, p) else res_bind (parse_expr p) (\<lambda>(e, q). Inr (Some e, q)))"

definition parse_for_head :: "nat \<Rightarrow> (cnode option \<times> cnode option \<times> cnode option) cparser" where
  "parse_for_head line p =
     res_bind (cexpect CT_LPAREN (quoted ''('') p) (\<lambda>q.
     res_bind (cpeek q) (\<lambda>t.
     res_bind (if ct_type t = CT_KW_INT then res_bind (parse_local_decl q) (\<lambda>(d, r). Inr (Some d, r))
               else if ct_type t = CT_SEMI then Inr (None, cadvance q)
               else res_bind (parse_expr_stmt line q) (\<lambda>(e, r). Inr (Some e, r))) (\<lambda>(a, r).
     res_bind (parse_opt_expr CT_SEMI r) (\<lambda>(b, r).
     res_bind (cexpect CT_SEMI (quoted '';'') r) (\<lambda>r.
     res_bind (parse_opt_expr CT_RPAREN r) (\<lambda>(c, r).
     res_bind (cexpect CT_RPAREN (quoted '')'') r) (\<lambda>r. Inr ((a, b, c), r))))))))"

text \<open>What each of these parsers leaves is no longer than what it got.\<close>

lemma cfwd_bind0:
  assumes "cfwd 0 r p" "\<And>x q. r = Inr (x, q) \<Longrightarrow> cfwd k (f (x, q)) q"
  shows "cfwd k (res_bind r f) p"
proof (rule cfwdI)
  fix y s assume "res_bind r f = Inr (y, s)"
  then obtain x q where r: "r = Inr (x, q)" "f (x, q) = Inr (y, s)" by (auto simp: res_bind_Inr_iff)
  with cfwdD [OF assms(1) r(1)] cfwdD [OF assms(2) [OF r(1)] r(2)]
  show "cp_toks s = cp_toks p \<and> cp_i p + k \<le> cp_i s" by simp
qed

lemma cfwd_expect1:
  assumes "\<And>q. cexpect tt w p = Inr q \<Longrightarrow> cfwd 0 (f q) q"
  shows "cfwd (Suc 0) (res_bind (cexpect tt w p) f) p"
proof (rule cfwdI)
  fix y s assume "res_bind (cexpect tt w p) f = Inr (y, s)"
  then obtain q where r: "cexpect tt w p = Inr q" "f q = Inr (y, s)" by (auto simp: res_bind_Inr_iff)
  with cexpect_fwd [OF r(1)] cfwdD [OF assms [OF r(1)] r(2)]
  show "cp_toks s = cp_toks p \<and> cp_i p + Suc 0 \<le> cp_i s" by simp
qed

lemma cfwd_accept:
  "(\<And>b q. caccept tt p = Inr (b, q) \<Longrightarrow> cfwd k (f (b, q)) q) \<Longrightarrow> cfwd k (res_bind (caccept tt p) f) p"
  by (rule cfwd_bind0 [OF caccept_cfwd])

lemma parse_expr_fwd0 [simp]: "cfwd 0 (parse_expr p) p"
  by (rule cfwd_advance(5)) simp

lemma parse_type_fwd [simp]: "cfwd 0 (parse_type p) p"
  unfolding parse_type_def
  by (auto intro!: cfwd_accept cfwd_bind cfwd_end)

lemma parse_declarator_fwd [simp]: "cfwd 0 (parse_declarator l n b p) p"
  unfolding parse_declarator_def
  by (auto intro!: cfwd_accept cfwd_bind cfwd_peek cfwd_expect cfwd_end)

lemma parse_local_decl_fwd [simp]: "cfwd (Suc 0) (parse_local_decl p) p"
  unfolding parse_local_decl_def
  by (rule cfwd_bind0 [OF parse_type_fwd]) (auto intro!: cfwd_peek cfwd_expect1 cfwd_end)

lemma parse_cond_fwd [simp]: "cfwd (Suc 0) (parse_cond p) p"
  unfolding parse_cond_def
  by (auto intro!: cfwd_expect1 cfwd_bind cfwd_expect cfwd_end)

lemma parse_expr_stmt_fwd [simp]: "cfwd (Suc 0) (parse_expr_stmt l p) p"
  unfolding parse_expr_stmt_def
  by (rule cfwd_bind [OF parse_expr_fwd(1)]) (auto intro!: cfwd_expect cfwd_end)

lemma parse_opt_expr_fwd [simp]: "cfwd 0 (parse_opt_expr tt p) p"
  unfolding parse_opt_expr_def
  by (auto intro!: cfwd_peek cfwd_bind cfwd_end)

lemma parse_for_head_fwd [simp]: "cfwd (Suc 0) (parse_for_head l p) p"
  unfolding parse_for_head_def
  by (auto intro!: cfwd_expect1 cfwd_peek cfwd_bind cfwd_expect cfwd_end cfwd_adv [OF cfwd_end(1)]
      cfwd_advance(5) [OF parse_local_decl_fwd] cfwd_advance(5) [OF parse_expr_stmt_fwd])

function parse_block :: "cnode cparser"
  and parse_block_loop :: "cnode list cparser"
  and parse_stmt :: "cnode cparser" where
  "parse_block p = res_bind (cpeek p) (\<lambda>t.
     res_bind (cexpect CT_LBRACE (quoted ''{'') p) (\<lambda>q.
     res_bind (parse_block_loop q) (\<lambda>(kids, r).
     res_bind (cexpect CT_RBRACE (quoted ''}'') r) (\<lambda>r'. Inr (N_BLOCK (ct_line t) kids, r')))))"
| "parse_block_loop p = res_bind (cpeek p) (\<lambda>t.
     if ct_type t \<noteq> CT_RBRACE \<and> ct_type t \<noteq> CT_EOF then
       res_bind (parse_stmt p) (\<lambda>(k, q).
       res_bind (parse_block_loop q) (\<lambda>(ks, r). Inr (k # ks, r)))
     else Inr ([], p))"
| "parse_stmt p = res_bind (cpeek p) (\<lambda>t.
     let line = ct_line t in
     if ct_type t = CT_LBRACE then parse_block p
     else if ct_type t = CT_KW_INT then parse_local_decl p
     else if ct_type t = CT_KW_IF then
       res_bind (parse_cond (cadvance p)) (\<lambda>(a, q).
       res_bind (parse_stmt q) (\<lambda>(b, r).
       res_bind (caccept CT_KW_ELSE r) (\<lambda>(els, r').
         if els then res_bind (parse_stmt r') (\<lambda>(c, s). Inr (N_IF line a b (Some c), s))
         else Inr (N_IF line a b None, r'))))
     else if ct_type t = CT_KW_WHILE then
       res_bind (parse_cond (cadvance p)) (\<lambda>(a, q).
       res_bind (parse_stmt q) (\<lambda>(b, r). Inr (N_WHILE line a b, r)))
     else if ct_type t = CT_KW_FOR then
       res_bind (parse_for_head line (cadvance p)) (\<lambda>(head, q).
       res_bind (parse_stmt q) (\<lambda>(d, r). let (a, b, c) = head in Inr (N_FOR line a b c d, r)))
     else if ct_type t = CT_KW_RETURN then
       res_bind (parse_opt_expr CT_SEMI (cadvance p)) (\<lambda>(a, q).
       res_bind (cexpect CT_SEMI (quoted '';'') q) (\<lambda>r. Inr (N_RETURN line a, r)))
     else parse_expr_stmt line p)"
  by pat_completeness auto

lemmas parse_stmt_pinduct = parse_block_parse_block_loop_parse_stmt.pinduct

lemma parse_stmt_progress:
  "parse_block_parse_block_loop_parse_stmt_dom (Inl p) \<Longrightarrow> cfwd (Suc 0) (parse_block p) p"
  "parse_block_parse_block_loop_parse_stmt_dom (Inr (Inl p)) \<Longrightarrow> cfwd 0 (parse_block_loop p) p"
  "parse_block_parse_block_loop_parse_stmt_dom (Inr (Inr p)) \<Longrightarrow> cfwd (Suc 0) (parse_stmt p) p"
proof (induction rule: parse_stmt_pinduct)
  case (1 p)
  show ?case unfolding parse_block.psimps [OF 1(1)]
    by (rule cfwd_peek, rule cfwd_expect1, rule cfwd_bind [OF "1.IH"])
      (auto intro!: cfwd_expect cfwd_end)
next
  case (2 p)
  show ?case unfolding parse_block_loop.psimps [OF 2(1)]
  proof (rule cfwd_peek, goal_cases)
    case (1 t)
    then show ?case
      using cfwd_advance(5) [OF "2.IH"(1) [OF 1]] "2.IH"(2) [OF 1 _ _ refl]
      by (auto intro!: cfwd_bind cfwd_end)
  qed
next
  case (3 p)
  show ?case unfolding parse_stmt.psimps [OF 3(1)] Let_def
  proof (rule cfwd_peek, goal_cases)
    case (1 t)
    have if_: "ct_type t = CT_KW_IF \<Longrightarrow> parse_cond (cadvance p) = Inr (a, q) \<Longrightarrow> cfwd 0 (parse_stmt q) q"
      and while: "ct_type t = CT_KW_WHILE \<Longrightarrow> parse_cond (cadvance p) = Inr (a, q) \<Longrightarrow> cfwd 0 (parse_stmt q) q"
      and for_: "ct_type t = CT_KW_FOR \<Longrightarrow> parse_for_head (ct_line t) (cadvance p) = Inr (h, q) \<Longrightarrow>
        cfwd 0 (parse_stmt q) q" for a h q
      by (rule cfwd_advance(5), rule "3.IH"(2,4,5) [OF 1 refl], simp_all)+
    have else_: "ct_type t = CT_KW_IF \<Longrightarrow> parse_cond (cadvance p) = Inr (a, q) \<Longrightarrow>
        parse_stmt q = Inr (b, r) \<Longrightarrow> caccept CT_KW_ELSE r = Inr (True, r') \<Longrightarrow> cfwd 0 (parse_stmt r') r'"
      for a q b r r'
      by (rule cfwd_advance(5), rule "3.IH"(3) [OF 1 refl], simp_all)
    show ?case
      using "3.IH"(1) [OF 1 refl]
      by (auto intro!: cfwd_advance(3) cfwd_bind cfwd_expect cfwd_accept cfwd_end
          cfwd_advance(5) [OF parse_cond_fwd] cfwd_advance(5) [OF parse_for_head_fwd] intro: if_ while for_)
        (rule else_, assumption+)
  qed
qed

lemmas parse_stmt_left = parse_stmt_progress(1,3) [THEN cfwd_advance(5), THEN ctoks_left_fwd]
  parse_stmt_progress(2) [THEN ctoks_left_fwd]

lemma parse_stmt_dom: "All parse_block_parse_block_loop_parse_stmt_dom"
proof (relation "measures [\<lambda>x. ctoks_left (case_sum (\<lambda>p. p) (case_sum (\<lambda>p. p) (\<lambda>p. p)) x),
    case_sum (\<lambda>_. 0) (case_sum (\<lambda>_. 2) (\<lambda>_. 1))]", goal_cases)
  case (2 p t q)
  with cexpect_fwd [OF 2(2)] cpeek_inside [OF 2(1)] show ?case by (auto simp: ctoks_left_def)
next
  case (4 p t r k q)
  then have "ctoks_left q < ctoks_left p"
    by (intro ctoks_left_strict [OF 4(1) parse_stmt_progress(3)]) auto
  then show ?case by simp
next
  case (6 p t l r a q)
  then have "ctoks_left q \<le> ctoks_left (cadvance p)"
    by (intro ctoks_left_fwd [OF cfwd_advance(5) [OF parse_cond_fwd]]) auto
  with ctoks_left_advance [OF 6(1)] show ?case by simp
next
  case (7 p t l r a q s b r' u els v)
  have "ctoks_left q \<le> ctoks_left (cadvance p)"
    using 7 by (intro ctoks_left_fwd [OF cfwd_advance(5) [OF parse_cond_fwd]]) auto
  moreover have "ctoks_left r' \<le> ctoks_left q" using 7 by (intro parse_stmt_left(2)) auto
  moreover have "ctoks_left v < ctoks_left r'" using 7 by (intro caccept_left) auto
  ultimately show ?case using ctoks_left_advance [OF 7(1)] by simp
next
  case (8 p t l r a q)
  then have "ctoks_left q \<le> ctoks_left (cadvance p)"
    by (intro ctoks_left_fwd [OF cfwd_advance(5) [OF parse_cond_fwd]]) auto
  with ctoks_left_advance [OF 8(1)] show ?case by simp
next
  case (9 p t l r h q)
  then have "ctoks_left q \<le> ctoks_left (cadvance p)"
    by (intro ctoks_left_fwd [OF cfwd_advance(5) [OF parse_for_head_fwd]]) auto
  with ctoks_left_advance [OF 9(1)] show ?case by simp
qed simp_all

termination parse_block
  by (rule parse_stmt_dom)

lemmas parse_stmt_fwd [simp] = parse_stmt_progress [OF parse_stmt_dom [THEN spec]]

declare parse_block.simps [simp del] parse_block_loop.simps [simp del] parse_stmt.simps [simp del]

subsection \<open>The top level\<close>

text \<open>The \<open>do ... while\<close> over the parameters.\<close>

definition parse_param :: "cnode cparser" where
  "parse_param p =
     res_bind (parse_type p) (\<lambda>((_, is_ptr), q).
     res_bind (cpeek q) (\<lambda>pn.
     res_bind (cexpect CT_IDENT ''param name'' q) (\<lambda>r.
       Inr (N_PARAM (ct_line pn) (ct_text pn) is_ptr, r))))"

lemma parse_param_fwd: "cfwd (Suc 0) (parse_param p) p"
  unfolding parse_param_def
  by (rule cfwd_bind0 [OF parse_type_fwd]) (auto intro!: cfwd_peek cfwd_expect1 cfwd_end)

function parse_params :: "cnode list cparser" where
  "parse_params p =
     res_bind (parse_param p) (\<lambda>(par, q).
     res_bind (caccept CT_COMMA q) (\<lambda>(more, r).
       if more then res_bind (parse_params r) (\<lambda>(ps, s). Inr (par # ps, s)) else Inr ([par], r)))"
  by pat_completeness auto

termination
proof (relation "measure ctoks_left", goal_cases)
  case (2 p r par q s more q')
  then have "ctoks_left q \<le> ctoks_left p"
    by (intro ctoks_left_fwd [OF cfwd_advance(5) [OF parse_param_fwd]]) auto
  moreover have "ctoks_left q' < ctoks_left q" using 2 by (intro caccept_left) auto
  ultimately show ?case by simp
qed simp

declare parse_params.simps [simp del]

text \<open>What stands between the parentheses of a function: nothing, \<open>void\<close> alone, or parameters.\<close>

definition parse_param_list :: "cnode list cparser" where
  "parse_param_list p =
     res_bind (cpeek p) (\<lambda>t.
     if ct_type t = CT_RPAREN then Inr ([], p)
     else res_bind (if ct_type t = CT_KW_VOID
                    then res_bind (ctok_at p (cp_i p + 1)) (\<lambda>t1. Inr (ct_type t1 = CT_RPAREN))
                    else Inr False) (\<lambda>only_void.
       if only_void then Inr ([], cadvance p) else parse_params p))"

definition parse_toplevel :: "cnode cparser" where
  "parse_toplevel p =
     res_bind (cpeek p) (\<lambda>start.
     res_bind (parse_type p) (\<lambda>((is_void, is_ptr), q).
     res_bind (cpeek q) (\<lambda>name.
     res_bind (cexpect CT_IDENT ''name'' q) (\<lambda>r.
     res_bind (caccept CT_LPAREN r) (\<lambda>(fn, s).
       if fn then
         res_bind (parse_param_list s) (\<lambda>(ps, u).
         res_bind (cexpect CT_RPAREN (quoted '')'') u) (\<lambda>u.
         res_bind (parse_block u) (\<lambda>(body, u).
           Inr (N_FUNC (ct_line start) (ct_text name) is_void ps body, u))))
       else if is_void then cperr (quoted ''void'' @ '' variable'') s
       else parse_declarator (ct_line name) (ct_text name) is_ptr s)))))"

lemma parse_toplevel_fwd: "cfwd (Suc 0) (parse_toplevel p) p"
proof -
  have params: "cfwd 0 (parse_params q) q" for q
  proof (induction q rule: parse_params.induct)
    case (1 p)
    show ?case
      by (subst parse_params.simps)
        (auto intro!: cfwd_bind [OF cfwd_advance(5) [OF parse_param_fwd]] cfwd_accept cfwd_bind cfwd_end intro: 1)
  qed
  have list: "cfwd 0 (parse_param_list q) q" for q
  proof (rule cfwdI)
    fix ps r assume "parse_param_list q = Inr (ps, r)"
    then have "parse_params q = Inr (ps, r) \<or> r = q \<or> r = cadvance q"
      by (auto simp: parse_param_list_def res_bind_Inr_iff split: if_splits)
    then show "cp_toks r = cp_toks q \<and> cp_i q + 0 \<le> cp_i r"
      using cfwdD [OF params, of q ps r] by (auto simp: cadvance_def)
  qed
  show ?thesis unfolding parse_toplevel_def
    by (rule cfwd_peek, rule cfwd_bind0 [OF parse_type_fwd])
      (auto intro!: cfwd_peek cfwd_expect1 cfwd_expect cfwd_accept cfwd_bind [OF list] cfwd_bind
        cfwd_advance(5) [OF parse_stmt_fwd(1)] cfwd_end)
qed

text \<open>The loop of \<open>parse\<close>, and \<open>parse\<close> itself.\<close>

function parse_program :: "cnode list cparser" where
  "parse_program p =
     res_bind (cpeek p) (\<lambda>t.
     if ct_type t \<noteq> CT_EOF then
       res_bind (parse_toplevel p) (\<lambda>(d, q).
       res_bind (parse_program q) (\<lambda>(ds, r). Inr (d # ds, r)))
     else Inr ([], p))"
  by pat_completeness auto

termination
proof (relation "measure ctoks_left", goal_cases)
  case (2 p t r d q)
  then have "ctoks_left q < ctoks_left p"
    by (intro ctoks_left_strict [OF 2(1) parse_toplevel_fwd]) auto
  then show ?case by simp
qed simp

declare parse_program.simps [simp del]

definition cparse :: "ctoken list \<Rightarrow> cpfail + cnode" where
  "cparse toks = res_bind (parse_program \<lparr>cp_toks = toks, cp_i = 0\<rparr>) (\<lambda>(ds, _). Inr (N_PROGRAM 1 ds))"

definition parse_source :: "string \<Rightarrow> cpfail + cnode" where
  "parse_source src = (case clex src of Inl msg \<Rightarrow> Inl (CSyntax msg) | Inr toks \<Rightarrow> cparse toks)"

subsection \<open>The pretty-printer\<close>

definition tok_name :: "ctoktype \<Rightarrow> string" where
  "tok_name t = (case t of
     CT_PLUS \<Rightarrow> ''+'' | CT_MINUS \<Rightarrow> ''-'' | CT_STAR \<Rightarrow> ''*''
   | CT_SLASH \<Rightarrow> ''/'' | CT_PERCENT \<Rightarrow> ''%'' | CT_AMP \<Rightarrow> ''&''
   | CT_PIPE \<Rightarrow> ''|'' | CT_CARET \<Rightarrow> ''^'' | CT_TILDE \<Rightarrow> ''~''
   | CT_BANG \<Rightarrow> ''!'' | CT_SHL \<Rightarrow> ''<<'' | CT_SHR \<Rightarrow> ''>>''
   | CT_EQ \<Rightarrow> ''=='' | CT_NE \<Rightarrow> ''!='' | CT_LT \<Rightarrow> ''<''
   | CT_LE \<Rightarrow> ''<='' | CT_GT \<Rightarrow> ''>'' | CT_GE \<Rightarrow> ''>=''
   | CT_ANDAND \<Rightarrow> ''&&'' | CT_OROR \<Rightarrow> ''||''
   | _ \<Rightarrow> ''?'')"

definition indent :: "nat \<Rightarrow> string" where
  "indent d = concat (replicate d ''  '')"

definition star :: "bool \<Rightarrow> string" where
  "star is_ptr = (if is_ptr then ''*'' else [])"

text \<open>What \<open>pr(n, o, d)\<close> writes; a null child writes nothing.\<close>

fun pr :: "nat \<Rightarrow> cnode \<Rightarrow> string"
  and pr_opt :: "nat \<Rightarrow> cnode option \<Rightarrow> string"
  and pr_list :: "nat \<Rightarrow> cnode list \<Rightarrow> string" where
  "pr d (N_PROGRAM _ ks) = indent d @ ''program\<newline>'' @ pr_list (d + 1) ks"
| "pr d (N_FUNC _ name vd ps body) =
     indent d @ ''func '' @ name @ '' -> '' @ (if vd then ''void'' else ''int'') @ ''\<newline>'' @
     pr_list (d + 1) ps @ pr (d + 1) body"
| "pr d (N_PARAM _ name ptr) = indent d @ ''param '' @ star ptr @ name @ ''\<newline>''"
| "pr d (N_VARDECL _ name ptr arr sz a) =
     indent d @ ''vardecl '' @ star ptr @ name @ (if arr then ''['' @ fmt_int sz @ '']'' else []) @ ''\<newline>'' @
     pr_opt (d + 1) a"
| "pr d (N_BLOCK _ ks) = indent d @ ''block\<newline>'' @ pr_list (d + 1) ks"
| "pr d (N_IF _ a b c) = indent d @ ''if\<newline>'' @ pr (d + 1) a @ pr (d + 1) b @
     (case c of None \<Rightarrow> [] | Some e \<Rightarrow> indent d @ ''else\<newline>'' @ pr (d + 1) e)"
| "pr d (N_WHILE _ a b) = indent d @ ''while\<newline>'' @ pr (d + 1) a @ pr (d + 1) b"
| "pr d (N_FOR _ a b c body) = indent d @ ''for\<newline>'' @ pr_opt (d + 1) a @ pr_opt (d + 1) b @
     pr_opt (d + 1) c @ pr (d + 1) body"
| "pr d (N_RETURN _ a) = indent d @ ''return\<newline>'' @ pr_opt (d + 1) a"
| "pr d (N_EXPRSTMT _ a) = indent d @ ''expr\<newline>'' @ pr (d + 1) a"
| "pr d (N_INT _ v) = indent d @ ''int '' @ fmt_int v @ ''\<newline>''"
| "pr d (N_VAR _ name) = indent d @ ''var '' @ name @ ''\<newline>''"
| "pr d (N_UNARY _ oper a) = indent d @ ''unary '' @ tok_name oper @ ''\<newline>'' @ pr (d + 1) a"
| "pr d (N_BINARY _ oper a b) = indent d @ ''binary '' @ tok_name oper @ ''\<newline>'' @ pr (d + 1) a @ pr (d + 1) b"
| "pr d (N_ASSIGN _ a b) = indent d @ ''assign =\<newline>'' @ pr (d + 1) a @ pr (d + 1) b"
| "pr d (N_CALL _ name as) = indent d @ ''call '' @ name @ ''\<newline>'' @ pr_list (d + 1) as"
| "pr d (N_INDEX _ a b) = indent d @ ''index\<newline>'' @ pr (d + 1) a @ pr (d + 1) b"
| "pr_opt d None = []"
| "pr_opt d (Some n) = pr d n"
| "pr_list d [] = []"
| "pr_list d (k # ks) = pr d k @ pr_list d ks"

definition ast_print :: "cnode \<Rightarrow> string" where
  "ast_print root = pr 0 root"

end
