(* ===== verification/CSyntax.thy ===== *)
theory CSyntax
  imports CParser
begin

text \<open>
  What the compiler's parser returns. On the lexer's output it never reads outside the token
  array, and the tree it builds has only the forms of the language: operators where operators
  can stand, names that are identifiers, an \<open>else\<close> with the nearest \<open>if\<close>. The rules
  \<open>csafe_rules\<close> follow the sequencing of the parsers, so the proofs go through the functions
  by their own recursion.
\<close>

subsection \<open>Well-formed trees\<close>

definition cident :: "string \<Rightarrow> bool" where
  "cident s = (cname_ok s \<and> keyword s = CT_IDENT)"

fun wf_expr :: "cnode \<Rightarrow> bool" where
  "wf_expr (N_INT _ v) = (0 \<le> v \<and> v \<le> LONG_MAX)"
| "wf_expr (N_VAR _ name) = cident name"
| "wf_expr (N_UNARY _ oper a) = (is_unary_op oper \<and> wf_expr a)"
| "wf_expr (N_BINARY _ oper a b) = (0 < binprec oper \<and> wf_expr a \<and> wf_expr b)"
| "wf_expr (N_ASSIGN _ a b) = (wf_expr a \<and> wf_expr b)"
| "wf_expr (N_CALL _ name as) = (cident name \<and> (\<forall>a \<in> set as. wf_expr a))"
| "wf_expr (N_INDEX l a b) = (l = node_line a \<and> wf_expr a \<and> wf_expr b)"
| "wf_expr _ = False"

definition wf_opt :: "cnode option \<Rightarrow> bool" where
  "wf_opt a = (case a of None \<Rightarrow> True | Some e \<Rightarrow> wf_expr e)"

text \<open>A declaration has a size or an initializer, not both.\<close>

definition wf_decl :: "cnode \<Rightarrow> bool" where
  "wf_decl n = (case n of
     N_VARDECL _ name _ arr sz a \<Rightarrow> cident name \<and>
       (if arr then 0 \<le> sz \<and> sz \<le> LONG_MAX \<and> a = None else sz = 0 \<and> wf_opt a)
   | _ \<Rightarrow> False)"

fun wf_stmt :: "cnode \<Rightarrow> bool" where
  "wf_stmt (N_BLOCK _ ks) = (\<forall>k \<in> set ks. wf_stmt k)"
| "wf_stmt (N_VARDECL l name ptr arr sz a) = wf_decl (N_VARDECL l name ptr arr sz a)"
| "wf_stmt (N_IF _ a b c) = (wf_expr a \<and> wf_stmt b \<and> (case c of None \<Rightarrow> True | Some e \<Rightarrow> wf_stmt e))"
| "wf_stmt (N_WHILE _ a b) = (wf_expr a \<and> wf_stmt b)"
| "wf_stmt (N_FOR _ a b c d) =
     ((case a of None \<Rightarrow> True | Some i \<Rightarrow> wf_decl i \<or> (\<exists>l e. i = N_EXPRSTMT l e \<and> wf_expr e)) \<and>
      wf_opt b \<and> wf_opt c \<and> wf_stmt d)"
| "wf_stmt (N_RETURN _ a) = wf_opt a"
| "wf_stmt (N_EXPRSTMT _ a) = wf_expr a"
| "wf_stmt _ = False"

definition wf_param :: "cnode \<Rightarrow> bool" where
  "wf_param n = (case n of N_PARAM _ name _ \<Rightarrow> cident name | _ \<Rightarrow> False)"

definition wf_top :: "cnode \<Rightarrow> bool" where
  "wf_top n = (case n of
     N_FUNC _ name _ ps fbody \<Rightarrow> cident name \<and> (\<forall>p \<in> set ps. wf_param p) \<and>
       (\<exists>l ks. fbody = N_BLOCK l ks) \<and> wf_stmt fbody
   | _ \<Rightarrow> wf_decl n)"

definition wf_program :: "cnode \<Rightarrow> bool" where
  "wf_program n = (case n of N_PROGRAM l ds \<Rightarrow> l = 1 \<and> (\<forall>d \<in> set ds. wf_top d) | _ \<Rightarrow> False)"

subsection \<open>Staying inside the array\<close>

text \<open>The array is the lexer's, and the index is inside it.\<close>

definition cp_ok :: "cpstate \<Rightarrow> bool" where
  "cp_ok p = (ends_in_ceof (cp_toks p) \<and> (\<forall>t \<in> set (cp_toks p). ctoken_ok t) \<and>
     cp_i p < length (cp_toks p))"

definition csafe :: "('a \<Rightarrow> bool) \<Rightarrow> cpfail + 'a \<times> cpstate \<Rightarrow> bool" where
  "csafe Q r = (case r of
     Inl (CSyntax _) \<Rightarrow> True | Inl (CFault _) \<Rightarrow> False | Inr (x, q) \<Rightarrow> Q x \<and> cp_ok q)"

lemma csafe_simps [simp]:
  "csafe Q (Inr (x, q)) = (Q x \<and> cp_ok q)" "csafe Q (Inl (CSyntax m))" "\<not> csafe Q (Inl (CFault f))"
  by (simp_all add: csafe_def)

lemma eof_is_last:
  assumes "ends_in_ceof ts" "i < length ts" "ct_type (ts ! i) \<noteq> CT_EOF"
  shows "Suc i < length ts"
proof (rule ccontr)
  assume "\<not> Suc i < length ts"
  with assms(2) have "i = length ts - 1" by simp
  moreover have "ts \<noteq> []" using assms(2) by auto
  ultimately have "ts ! i = last ts" by (simp add: last_conv_nth)
  with assms(1,3) show False by (simp add: ends_in_ceof_def)
qed

lemma cpeek_ok:
  assumes "cp_ok p"
  shows "\<exists>t. cpeek p = Inr t \<and> ctoken_ok t \<and> (ct_type t \<noteq> CT_EOF \<longrightarrow> cp_ok (cadvance p))"
proof -
  have i: "cp_i p < length (cp_toks p)" using assms by (simp add: cp_ok_def)
  moreover have "cp_ok (cadvance p)" if "ct_type (cp_toks p ! cp_i p) \<noteq> CT_EOF"
    using eof_is_last [of "cp_toks p" "cp_i p"] that assms by (simp add: cp_ok_def cadvance_def)
  ultimately show ?thesis using assms by (simp add: cpeek_def ctok_at_def cp_ok_def)
qed

lemma csafe_bind:
  assumes "csafe R r" "\<And>x q. r = Inr (x, q) \<Longrightarrow> R x \<Longrightarrow> cp_ok q \<Longrightarrow> csafe Q (f (x, q))"
  shows "csafe Q (res_bind r f)"
proof (cases r)
  case (Inl e)
  with assms(1) show ?thesis by (cases e) auto
next
  case (Inr xq)
  then obtain x q where "r = Inr (x, q)" by (cases xq) auto
  with assms show ?thesis by auto
qed

lemma csafe_peek:
  assumes "cp_ok p"
    and "\<And>t. cpeek p = Inr t \<Longrightarrow> ctoken_ok t \<Longrightarrow> (ct_type t \<noteq> CT_EOF \<longrightarrow> cp_ok (cadvance p)) \<Longrightarrow> csafe Q (f t)"
  shows "csafe Q (res_bind (cpeek p) f)"
  using cpeek_ok [OF assms(1)] assms(2) by force

lemma csafe_at:
  assumes "cp_ok p" "\<And>b. csafe Q (f b)"
  shows "csafe Q (res_bind (cat tt p) f)"
  using cpeek_ok [OF assms(1)] assms(2) by (force simp: cat_def)

lemma csafe_accept:
  assumes "cp_ok p" "tt \<noteq> CT_EOF" "\<And>b q. caccept tt p = Inr (b, q) \<Longrightarrow> cp_ok q \<Longrightarrow> csafe Q (f (b, q))"
  shows "csafe Q (res_bind (caccept tt p) f)"
proof -
  obtain t where "cpeek p = Inr t" "ct_type t = tt \<longrightarrow> cp_ok (cadvance p)"
    using cpeek_ok [OF assms(1)] assms(2) by blast
  then have "caccept tt p = Inr (True, cadvance p) \<and> cp_ok (cadvance p) \<or> caccept tt p = Inr (False, p)"
    by (simp add: caccept_def cat_def)
  with assms(1) assms(3) [of False p] assms(3) [of True "cadvance p"] show ?thesis by auto
qed

lemma csafe_perr: "cp_ok p \<Longrightarrow> csafe Q (cperr m p)"
  using cpeek_ok [of p] by (auto simp: cperr_def)

lemma csafe_expect:
  assumes "cp_ok p" "tt \<noteq> CT_EOF"
    and "\<And>q t. cexpect tt w p = Inr q \<Longrightarrow> cpeek p = Inr t \<Longrightarrow> ct_type t = tt \<Longrightarrow> ctoken_ok t \<Longrightarrow>
      cp_ok q \<Longrightarrow> csafe Q (f q)"
  shows "csafe Q (res_bind (cexpect tt w p) f)"
proof -
  obtain t where t: "cpeek p = Inr t" "ctoken_ok t" "ct_type t \<noteq> CT_EOF \<Longrightarrow> cp_ok (cadvance p)"
    using cpeek_ok [OF assms(1)] by blast
  show ?thesis
  proof (cases "ct_type t = tt")
    case True
    then have "cexpect tt w p = Inr (cadvance p)" by (simp add: cexpect_def caccept_def cat_def t)
    with assms(2,3) t True show ?thesis by simp
  next
    case False
    then have "cexpect tt w p = Inl (CSyntax (''line '' @ fmt_base 10 (ct_line t) @ '': expected '' @ w))"
      by (simp add: cexpect_def caccept_def cat_def t cperr_def)
    then show ?thesis by simp
  qed
qed

lemmas csafe_rules = csafe_peek csafe_at csafe_accept csafe_expect csafe_perr

lemma ctoken_ok_ident: "ctoken_ok t \<Longrightarrow> ct_type t = CT_IDENT \<Longrightarrow> cident (ct_text t)"
  by (simp add: ctoken_ok_def cident_def is_word_type_def)

lemma ctoken_ok_int: "ctoken_ok t \<Longrightarrow> ct_type t = CT_INT_LIT \<Longrightarrow> 0 \<le> ct_ival t \<and> ct_ival t \<le> LONG_MAX"
  by (simp add: ctoken_ok_def)

lemma parse_expr_safe:
  "cp_ok p \<Longrightarrow> csafe wf_expr (parse_expr p)"
  "cp_ok p \<Longrightarrow> csafe wf_expr (parse_bin m p)"
  "cp_ok p \<Longrightarrow> wf_expr l \<Longrightarrow> csafe wf_expr (parse_bin_loop m l p)"
  "cp_ok p \<Longrightarrow> csafe wf_expr (parse_unary p)"
  "cp_ok p \<Longrightarrow> csafe wf_expr (parse_postfix p)"
  "cp_ok p \<Longrightarrow> wf_expr n \<Longrightarrow> csafe wf_expr (parse_postfix_loop n p)"
  "cp_ok p \<Longrightarrow> csafe (\<lambda>es. \<forall>e \<in> set es. wf_expr e) (parse_args p)"
  "cp_ok p \<Longrightarrow> csafe wf_expr (parse_primary p)"
proof (induction p and m p and m l p and p and p and n p and p and p
    rule: parse_expr_parse_bin_parse_bin_loop_parse_unary_parse_postfix_parse_postfix_loop_parse_args_parse_primary.induct)
  case (1 p)
  show ?case
    by (subst parse_expr.simps, rule csafe_bind [OF "1.IH"(1) [OF 1(3)]])
      (auto intro!: csafe_peek csafe_bind [OF "1.IH"(2) [OF _ refl]])
next
  case (2 m p)
  show ?case
    by (subst parse_bin.simps, rule csafe_bind [OF "2.IH"(1) [OF 2(3)]])
      (auto intro!: "2.IH"(2) [OF _ refl])
next
  case (3 m l p)
  show ?case
  proof (subst parse_bin_loop.simps, rule csafe_peek [OF 3(3)], goal_cases)
    case (1 t)
    then show ?case
      using "3.IH"(1) [OF 1(1) refl] "3.IH"(2) [OF 1(1) refl _ _ refl] 3(3,4)
      by (auto simp: Let_def binprec_def intro!: csafe_bind)
  qed
next
  case (4 p)
  show ?case
  proof (subst parse_unary.simps, rule csafe_peek [OF 4(3)], goal_cases)
    case (1 t)
    then show ?case
      using "4.IH"(1) [OF 1(1)] "4.IH"(2) [OF 1(1)] 4(3)
      by (auto simp: is_unary_op_def intro!: csafe_bind)
  qed
next
  case (5 p)
  show ?case
    by (subst parse_postfix.simps, rule csafe_bind [OF "5.IH"(1) [OF 5(3)]])
      (auto intro!: "5.IH"(2) [OF _ refl])
next
  case (6 n p)
  show ?case
  proof (subst parse_postfix_loop.simps, rule csafe_peek [OF 6(5)], goal_cases)
    case (1 t)
    have call: "csafe wf_expr (let q = cadvance p in
        res_bind (cat CT_RPAREN q) (\<lambda>none.
        res_bind (if none then Inr ([], q) else parse_args q) (\<lambda>(args, r).
        res_bind (cexpect CT_RPAREN (quoted '')'') r) (\<lambda>r'. parse_postfix_loop (N_CALL l name args) r'))))"
      if lp: "ct_type t = CT_LPAREN" and n: "n = N_VAR l name" for l name
    proof -
      have q: "cp_ok (cadvance p)" using 1 lp by simp
      have *: "csafe wf_expr (res_bind (if none then Inr ([], cadvance p) else parse_args (cadvance p)) (\<lambda>(args, r).
          res_bind (cexpect CT_RPAREN (quoted '')'') r) (\<lambda>r'. parse_postfix_loop (N_CALL l name args) r')))"
        if b: "cat CT_RPAREN (cadvance p) = Inr none" for none
      proof (rule csafe_bind [where R = "\<lambda>es. \<forall>e \<in> set es. wf_expr e"])
        show "csafe (\<lambda>es. \<forall>e \<in> set es. wf_expr e) (if none then Inr ([], cadvance p) else parse_args (cadvance p))"
          using "6.IH"(1) [OF 1(1) lp n refl b _ q] q by simp
      next
        fix as r assume "(if none then Inr ([], cadvance p) else parse_args (cadvance p)) = Inr (as, r)"
          "\<forall>e \<in> set as. wf_expr e" "cp_ok r"
        then show "csafe wf_expr (case (as, r) of (args, r) \<Rightarrow>
            res_bind (cexpect CT_RPAREN (quoted '')'') r) (\<lambda>r'. parse_postfix_loop (N_CALL l name args) r'))"
          using "6.IH"(2) [OF 1(1) lp n refl b _ refl] 6(6) n by (auto intro!: csafe_expect)
      qed
      show ?thesis unfolding Let_def using cpeek_ok [OF q] * by (force simp: cat_def)
    qed
    have index: "csafe wf_expr (res_bind (parse_expr (cadvance p)) (\<lambda>(ix, q).
       res_bind (cexpect CT_RBRACK (quoted '']'') q) (\<lambda>q'. parse_postfix_loop (N_INDEX (node_line n) n ix) q')))"
      if lb: "ct_type t = CT_LBRACK"
    proof -
      have lp: "ct_type t \<noteq> CT_LPAREN" and q: "cp_ok (cadvance p)" using 1 lb by simp_all
      show ?thesis
        using 6(6)
        by (auto intro!: csafe_bind [OF "6.IH"(3) [OF 1(1) lp lb q]] csafe_expect
            "6.IH"(4) [OF 1(1) lp lb _ refl])
    qed
    show ?case using call index csafe_perr [OF 6(5)] 6(5,6) by (auto split: cnode.split)
  qed
next
  case (7 p)
  show ?case
    by (subst parse_args.simps, rule csafe_bind [OF "7.IH"(1) [OF 7(3)]])
      (auto intro!: csafe_accept csafe_bind [OF "7.IH"(2) [OF _ refl _ refl]])
next
  case (8 p)
  show ?case
  proof (subst parse_primary.simps, rule csafe_peek [OF 8(2)], goal_cases)
    case (1 t)
    have "csafe wf_expr (res_bind (parse_expr (cadvance p)) (\<lambda>(n, q).
       res_bind (cexpect CT_RPAREN (quoted '')'') q) (\<lambda>q'. Inr (n, q'))))" if lp: "ct_type t = CT_LPAREN"
      using 1 lp by (intro csafe_bind [OF "8.IH" [OF 1(1)]]) (auto intro!: csafe_expect)
    with 1 show ?case by (auto simp: csafe_perr [OF 8(2)] ctoken_ok_ident ctoken_ok_int)
  qed
qed

subsection \<open>Declarations and statements\<close>

lemma csafe_mono: "csafe Q r \<Longrightarrow> (\<And>x. Q x \<Longrightarrow> R x) \<Longrightarrow> csafe R r"
  by (auto simp: csafe_def split: sum.splits cpfail.splits)

lemma caccept_safe:
  assumes "cp_ok p" "tt \<noteq> CT_EOF" shows "csafe (\<lambda>_. True) (caccept tt p)"
  using csafe_accept [OF assms, of "\<lambda>_. True" Inr] by (cases "caccept tt p") auto

lemma parse_type_safe: "cp_ok p \<Longrightarrow> csafe (\<lambda>_. True) (parse_type p)"
  unfolding parse_type_def
  by (rule csafe_accept)
    (auto intro!: csafe_accept csafe_bind [OF caccept_safe] csafe_bind [where R = "\<lambda>_. True"] csafe_perr
      caccept_safe)

lemma parse_opt_safe: "csafe wf_expr r \<Longrightarrow> csafe wf_opt (res_bind r (\<lambda>(e, q). Inr (Some e, q)))"
  by (erule csafe_bind) (simp add: wf_opt_def)

lemma parse_declarator_safe:
  assumes "cp_ok p" "cident name"
  shows "csafe wf_decl (parse_declarator line name is_ptr p)"
proof -
  show ?thesis unfolding parse_declarator_def
  proof (rule csafe_accept [OF assms(1)], simp, goal_cases)
    case (1 arr q)
    have "csafe wf_decl (res_bind (cpeek q) (\<lambda>sz.
       res_bind (cexpect CT_INT_LIT ''array size'' q) (\<lambda>r.
       res_bind (cexpect CT_RBRACK (quoted '']'') r) (\<lambda>r.
       res_bind (cexpect CT_SEMI (quoted '';'') r) (\<lambda>r.
         Inr (N_VARDECL line name is_ptr True (ct_ival sz) None, r))))))"
      using 1(2) assms(2) by (auto intro!: csafe_peek csafe_expect simp: wf_decl_def ctoken_ok_int)
    moreover have "csafe wf_decl (res_bind (caccept CT_ASSIGN q) (\<lambda>(init, r).
       res_bind (if init then res_bind (parse_expr r) (\<lambda>(e, s). Inr (Some e, s)) else Inr (None, r)) (\<lambda>(a, s).
       res_bind (cexpect CT_SEMI (quoted '';'') s) (\<lambda>s.
         Inr (N_VARDECL line name is_ptr False 0 a, s)))))"
      using 1(2) assms(2)
      by (intro csafe_accept)
        (auto intro!: csafe_bind [OF parse_opt_safe [OF parse_expr_safe(1)]] csafe_expect simp: wf_decl_def wf_opt_def)
    ultimately show ?case by simp
  qed
qed

lemma parse_local_decl_safe: "cp_ok p \<Longrightarrow> csafe wf_decl (parse_local_decl p)"
  unfolding parse_local_decl_def
  by (rule csafe_bind [OF parse_type_safe])
    (auto intro!: csafe_peek csafe_expect csafe_perr parse_declarator_safe simp: ctoken_ok_ident)

lemma parse_cond_safe: "cp_ok p \<Longrightarrow> csafe wf_expr (parse_cond p)"
  unfolding parse_cond_def
  by (auto intro!: csafe_expect csafe_bind [OF parse_expr_safe(1)])

lemma parse_expr_stmt_safe:
  "cp_ok p \<Longrightarrow> csafe (\<lambda>n. \<exists>e. n = N_EXPRSTMT line e \<and> wf_expr e) (parse_expr_stmt line p)"
  unfolding parse_expr_stmt_def
  by (auto intro!: csafe_expect csafe_bind [OF parse_expr_safe(1)])

lemma parse_opt_expr_safe: "cp_ok p \<Longrightarrow> csafe wf_opt (parse_opt_expr stop p)"
  unfolding parse_opt_expr_def
  by (auto intro!: csafe_at parse_opt_safe parse_expr_safe(1) simp: wf_opt_def)

definition wf_head :: "cnode option \<times> cnode option \<times> cnode option \<Rightarrow> bool" where
  "wf_head h = (case h of (a, b, c) \<Rightarrow>
     (case a of None \<Rightarrow> True | Some i \<Rightarrow> wf_decl i \<or> (\<exists>l e. i = N_EXPRSTMT l e \<and> wf_expr e)) \<and>
     wf_opt b \<and> wf_opt c)"

lemma parse_for_head_safe:
  assumes "cp_ok p" shows "csafe wf_head (parse_for_head line p)"
proof -
  let ?A = "\<lambda>a. case a of None \<Rightarrow> True | Some i \<Rightarrow> wf_decl i \<or> (\<exists>l e. i = N_EXPRSTMT l e \<and> wf_expr e)"
  have init: "csafe ?A (if ct_type t = CT_KW_INT then res_bind (parse_local_decl q) (\<lambda>(d, r). Inr (Some d, r))
      else if ct_type t = CT_SEMI then Inr (None, cadvance q)
      else res_bind (parse_expr_stmt line q) (\<lambda>(e, r). Inr (Some e, r)))"
    if "cp_ok q" "ct_type t \<noteq> CT_EOF \<longrightarrow> cp_ok (cadvance q)" for q t
    using that by (auto intro!: csafe_bind [OF parse_local_decl_safe] csafe_bind [OF parse_expr_stmt_safe])
  show ?thesis unfolding parse_for_head_def
    by (rule csafe_expect [OF assms], simp, rule csafe_peek, assumption, rule csafe_bind [OF init])
      (auto intro!: csafe_bind [OF parse_opt_expr_safe] csafe_expect simp: wf_head_def)
qed

lemma wf_decl_stmt: "wf_decl n \<Longrightarrow> wf_stmt n"
  by (cases n) (simp_all add: wf_decl_def)

lemma parse_stmt_safe:
  "cp_ok p \<Longrightarrow> csafe (\<lambda>n. wf_stmt n \<and> (\<exists>l ks. n = N_BLOCK l ks)) (parse_block p)"
  "cp_ok p \<Longrightarrow> csafe (\<lambda>ks. \<forall>k \<in> set ks. wf_stmt k) (parse_block_loop p)"
  "cp_ok p \<Longrightarrow> csafe wf_stmt (parse_stmt p)"
proof (induction p and p and p rule: parse_block_parse_block_loop_parse_stmt.induct)
  case (1 p)
  show ?case
  proof (subst parse_block.simps, rule csafe_peek [OF 1(2)], rule csafe_expect [OF 1(2)], simp, goal_cases)
    case (1 t q t')
    show ?case
      by (rule csafe_bind [OF "1.IH" [OF 1(1,4,8)]]) (auto intro!: csafe_expect)
  qed
next
  case (2 p)
  show ?case
  proof (subst parse_block_loop.simps, rule csafe_peek [OF 2(3)], goal_cases)
    case (1 t)
    show ?case
    proof (cases "ct_type t \<noteq> CT_RBRACE \<and> ct_type t \<noteq> CT_EOF")
      case True
      then show ?thesis
        by (auto intro!: csafe_bind [OF "2.IH"(1) [OF 1(1) True 2(3)]]
            csafe_bind [OF "2.IH"(2) [OF 1(1) True _ refl]])
    qed (use 2(3) in auto)
  qed
next
  case (3 p)
  show ?case
  proof (subst parse_stmt.simps, rule csafe_peek [OF 3(6)], goal_cases)
    case (1 t)
    note ih = "3.IH" [OF 1(1) refl]
    consider "ct_type t = CT_LBRACE" | "ct_type t = CT_KW_INT" | "ct_type t = CT_KW_IF"
      | "ct_type t = CT_KW_WHILE" | "ct_type t = CT_KW_FOR" | "ct_type t = CT_KW_RETURN"
      | "ct_type t \<notin> {CT_LBRACE, CT_KW_INT, CT_KW_IF, CT_KW_WHILE, CT_KW_FOR, CT_KW_RETURN}"
      by auto
    then show ?case
    proof cases
      case 1
      then show ?thesis
        using csafe_mono [OF ih(1) [OF 1 3(6)], of wf_stmt] by simp
    next
      case 2
      then show ?thesis
        using csafe_mono [OF parse_local_decl_safe [OF 3(6)], of wf_stmt] by (simp add: wf_decl_stmt)
    next
      case if_: 3
      with 1 have q: "cp_ok (cadvance p)" by simp
      have n: "ct_type t \<noteq> CT_LBRACE" "ct_type t \<noteq> CT_KW_INT" using if_ by simp_all
      have rest: "csafe wf_stmt (res_bind (caccept CT_KW_ELSE r) (\<lambda>(els, r').
          if els then res_bind (parse_stmt r') (\<lambda>(c, s). Inr (N_IF (ct_line t) a b (Some c), s))
          else Inr (N_IF (ct_line t) a b None, r')))"
        if "parse_cond (cadvance p) = Inr (a, q)" "parse_stmt q = Inr (b, r)" "wf_expr a" "wf_stmt b" "cp_ok r"
        for a q b r
        using that
        by (intro csafe_accept)
          (auto intro!: csafe_bind [OF ih(3) [OF n if_ that(1) refl that(2) refl _ refl]])
      show ?thesis
        using if_
        by (auto simp: Let_def intro!: csafe_bind [OF parse_cond_safe [OF q]]
            csafe_bind [OF ih(2) [OF n if_ _ refl]] rest)
    next
      case 4
      with 1 have q: "cp_ok (cadvance p)" by simp
      have n: "ct_type t \<noteq> CT_LBRACE" "ct_type t \<noteq> CT_KW_INT" "ct_type t \<noteq> CT_KW_IF" using 4 by simp_all
      show ?thesis
        using 4
        by (auto simp: Let_def intro!: csafe_bind [OF parse_cond_safe [OF q]] csafe_bind [OF ih(4) [OF n 4 _ refl]])
    next
      case 5
      with 1 have q: "cp_ok (cadvance p)" by simp
      have n: "ct_type t \<noteq> CT_LBRACE" "ct_type t \<noteq> CT_KW_INT" "ct_type t \<noteq> CT_KW_IF" "ct_type t \<noteq> CT_KW_WHILE"
        using 5 by simp_all
      show ?thesis
        using 5
        by (auto simp: Let_def wf_head_def intro!: csafe_bind [OF parse_for_head_safe [OF q]]
            csafe_bind [OF ih(5) [OF n 5 _ refl]])
    next
      case 6
      with 1 have q: "cp_ok (cadvance p)" by simp
      with 6 show ?thesis
        by (auto simp: Let_def intro!: csafe_bind [OF parse_opt_expr_safe] csafe_expect)
    next
      case 7
      then show ?thesis
        by (auto simp: Let_def intro!: csafe_mono [OF parse_expr_stmt_safe [OF 3(6), of "ct_line t"]])
    qed
  qed
qed

subsection \<open>The top level\<close>

lemma parse_param_safe: "cp_ok p \<Longrightarrow> csafe wf_param (parse_param p)"
  unfolding parse_param_def
  by (rule csafe_bind [OF parse_type_safe])
    (auto intro!: csafe_peek csafe_expect simp: wf_param_def ctoken_ok_ident)

lemma parse_params_safe: "cp_ok p \<Longrightarrow> csafe (\<lambda>ps. \<forall>p \<in> set ps. wf_param p) (parse_params p)"
proof (induction p rule: parse_params.induct)
  case (1 p)
  show ?case
    by (subst parse_params.simps, rule csafe_bind [OF parse_param_safe [OF 1(2)]])
      (auto intro!: csafe_accept csafe_bind [OF "1.IH" [OF _ refl _ refl]])
qed

lemma parse_param_list_safe:
  assumes "cp_ok p" shows "csafe (\<lambda>ps. \<forall>p \<in> set ps. wf_param p) (parse_param_list p)"
  unfolding parse_param_list_def
proof (rule csafe_peek [OF assms], goal_cases)
  case (1 t)
  let ?more = "\<lambda>only_void. if only_void then Inr ([], cadvance p) else parse_params p"
  have void: "csafe (\<lambda>ps. \<forall>p \<in> set ps. wf_param p)
      (res_bind (res_bind (ctok_at p (cp_i p + 1)) (\<lambda>t1. Inr (ct_type t1 = CT_RPAREN))) ?more)"
    if v: "ct_type t = CT_KW_VOID"
  proof -
    have q: "cp_ok (cadvance p)" using 1 v by simp
    then have "ctok_at p (cp_i p + 1) = cpeek (cadvance p)" by (simp add: ctok_at_def cpeek_def cadvance_def)
    then show ?thesis using cpeek_ok [OF q] q parse_params_safe [OF assms] by auto
  qed
  show ?case using void parse_params_safe [OF assms] assms by simp
qed

lemma wf_decl_top: "wf_decl n \<Longrightarrow> wf_top n"
  by (cases n) (simp_all add: wf_top_def wf_decl_def)

lemma parse_toplevel_safe:
  assumes "cp_ok p" shows "csafe wf_top (parse_toplevel p)"
proof -
  have fn: "csafe wf_top (res_bind (parse_param_list s) (\<lambda>(ps, u).
         res_bind (cexpect CT_RPAREN (quoted '')'') u) (\<lambda>u.
         res_bind (parse_block u) (\<lambda>(body, u). Inr (N_FUNC l name vd ps body, u)))))"
    if "cp_ok s" "cident name" for s l name vd
    using that
    by (auto intro!: csafe_bind [OF parse_param_list_safe] csafe_expect csafe_bind [OF parse_stmt_safe(1)]
        simp: wf_top_def)
  have var: "csafe wf_top (parse_declarator l name ptr s)" if "cp_ok s" "cident name" for l name ptr s
    using csafe_mono [OF parse_declarator_safe [OF that]] wf_decl_top by blast
  show ?thesis unfolding parse_toplevel_def
    by (rule csafe_peek [OF assms], rule csafe_bind [OF parse_type_safe [OF assms]])
      (auto intro!: csafe_peek csafe_expect csafe_accept csafe_perr fn var simp: ctoken_ok_ident)
qed

lemma parse_program_safe: "cp_ok p \<Longrightarrow> csafe (\<lambda>ds. \<forall>d \<in> set ds. wf_top d) (parse_program p)"
proof (induction p rule: parse_program.induct)
  case (1 p)
  show ?case
  proof (subst parse_program.simps, rule csafe_peek [OF 1(2)], goal_cases)
    case (1 t)
    then show ?case
      using "1.prems"
      by (auto intro!: csafe_bind [OF parse_toplevel_safe [OF "1.prems"]] csafe_bind [OF "1.IH" [OF 1(1) _ _ refl]])
  qed
qed

lemma cparse_safe:
  assumes "clex_good 1 toks"
  shows "(\<exists>msg. cparse toks = Inl (CSyntax msg)) \<or> (\<exists>root. cparse toks = Inr root \<and> wf_program root)"
proof -
  have "cp_ok \<lparr>cp_toks = toks, cp_i = 0\<rparr>"
    using assms by (auto simp: cp_ok_def clex_good_def ends_in_ceof_def)
  from parse_program_safe [OF this]
  have "csafe (\<lambda>ds. \<forall>d \<in> set ds. wf_top d) (parse_program \<lparr>cp_toks = toks, cp_i = 0\<rparr>)" .
  then show ?thesis
    by (auto simp: cparse_def csafe_def wf_program_def split: sum.splits cpfail.splits)
qed

text \<open>C34: Parsing a source text of the compiler's language always ends, without ever reading outside
  the token array: either with a message, or with a tree in which every node has the form
  the grammar gives it (operators, identifiers, declarations with a size or an initializer,
  functions with a block for a body).\<close>

theorem parse_source_safe:
  "(\<exists>msg. parse_source src = Inl (CSyntax msg)) \<or>
   (\<exists>root. parse_source src = Inr root \<and> wf_program root)"
proof (cases "clex src")
  case (Inl msg)
  then show ?thesis by (simp add: parse_source_def)
next
  case (Inr toks)
  with cparse_safe [OF clex_good [OF Inr]] show ?thesis by (simp add: parse_source_def)
qed

end
