(* ===== verification/Memory.thy ===== *)
theory Memory
  imports Prelude
begin

text \<open>
  The flat memory of the machine (\<open>include/memory.h\<close>, \<open>src/memory.c\<close>): 64 KB of bytes,
  with little-endian word access behind \<open>check_bounds\<close>. The interface \<open>word_store\<close> states
  what a cell store promises its clients (the last value written is read back, other cells
  keep theirs, whether an access faults depends on the address only); both access widths are
  instances of it. \<open>mem_simps\<close> collects the outcome of every access by address range.
\<close>

named_theorems mem_simps \<open>outcome of memory accesses\<close>

subsection \<open>The operations\<close>

text \<open>
  \<open>uint8_t bytes[MEM_SIZE]\<close>: a byte for every index below \<open>MEM_SIZE\<close>. The function is
  total on addresses, and every access of the code goes through \<open>byte_at\<close> or
  \<open>set_byte\<close>, which refuse an index outside the array (undefined in C).
\<close>

definition MEM_SIZE :: u32 where
  "MEM_SIZE = 65536"

record memory =
  bytes :: "u32 \<Rightarrow> u8"

definition byte_at :: "memory \<Rightarrow> u32 \<Rightarrow> u8 res" where
  "byte_at m i = (if i < MEM_SIZE then Inr (bytes m i) else Inl (BadIndex i))"

definition set_byte :: "memory \<Rightarrow> u32 \<Rightarrow> u8 \<Rightarrow> memory res" where
  "set_byte m i v =
     (if i < MEM_SIZE then Inr (m\<lparr>bytes := (bytes m)(i := v)\<rparr>) else Inl (BadIndex i))"

text \<open>The sum \<open>addr + span\<close> is taken modulo $2^{32}$, as in the code.\<close>

definition check_bounds :: "u32 \<Rightarrow> u32 \<Rightarrow> unit res" where
  "check_bounds addr span =
     (if addr + span > MEM_SIZE then Inl (OutOfBounds addr span) else Inr ())"

definition mem_init :: memory where
  "mem_init = \<lparr>bytes = (\<lambda>_. 0)\<rparr>"

definition mem_read8 :: "memory \<Rightarrow> u32 \<Rightarrow> u8 res" where
  "mem_read8 m addr = res_bind (check_bounds addr 1) (\<lambda>_. byte_at m addr)"

definition mem_write8 :: "memory \<Rightarrow> u32 \<Rightarrow> u8 \<Rightarrow> memory res" where
  "mem_write8 m addr value = res_bind (check_bounds addr 1) (\<lambda>_. set_byte m addr value)"

definition mem_read32 :: "memory \<Rightarrow> u32 \<Rightarrow> u32 res" where
  "mem_read32 m addr =
     res_bind (check_bounds addr 4) (\<lambda>_.
     res_bind (byte_at m addr) (\<lambda>b0.
     res_bind (byte_at m (addr + 1)) (\<lambda>b1.
     res_bind (byte_at m (addr + 2)) (\<lambda>b2.
     res_bind (byte_at m (addr + 3)) (\<lambda>b3.
       Inr (ucast b0 OR push_bit 8 (ucast b1) OR push_bit 16 (ucast b2)
            OR push_bit 24 (ucast b3)))))))"

definition mem_write32 :: "memory \<Rightarrow> u32 \<Rightarrow> u32 \<Rightarrow> memory res" where
  "mem_write32 m addr value =
     res_bind (check_bounds addr 4) (\<lambda>_.
     res_bind (set_byte m addr (ucast (value AND 0xFF))) (\<lambda>m.
     res_bind (set_byte m (addr + 1) (ucast (drop_bit 8 value AND 0xFF))) (\<lambda>m.
     res_bind (set_byte m (addr + 2) (ucast (drop_bit 16 value AND 0xFF))) (\<lambda>m.
       set_byte m (addr + 3) (ucast (drop_bit 24 value AND 0xFF))))))"

text \<open>What \<open>check_bounds\<close> prints on \<open>stderr\<close> before \<open>exit(1)\<close>.\<close>

definition fault_message :: "fault \<Rightarrow> string" where
  "fault_message f = (case f of
     OutOfBounds addr span \<Rightarrow>
       ''memory access out of bounds: addr=0x'' @ fmt_x addr @ '' span='' @ fmt_u span @ ''\<newline>''
   | _ \<Rightarrow> '''')"

subsection \<open>The interface of a cell store\<close>

locale word_store =
  fixes rd :: "'m \<Rightarrow> 'a \<Rightarrow> 'v res"
    and wr :: "'m \<Rightarrow> 'a \<Rightarrow> 'v \<Rightarrow> 'm res"
    and apart :: "'a \<Rightarrow> 'a \<Rightarrow> bool"
    and faults :: "'a \<Rightarrow> fault option"
  assumes rd_wr_same: "wr m a v = Inr m' \<Longrightarrow> rd m' a = Inr v"
    and rd_wr_apart: "wr m a v = Inr m' \<Longrightarrow> apart a b \<Longrightarrow> rd m' b = rd m b"
    and rd_faults: "rd m a = Inl e \<longleftrightarrow> faults a = Some e"
    and wr_faults: "wr m a v = Inl e \<longleftrightarrow> faults a = Some e"
begin

lemma rd_returns: "faults a = None \<Longrightarrow> \<exists>v. rd m a = Inr v"
  using rd_faults [of m a] by (cases "rd m a") auto

lemma wr_returns: "faults a = None \<Longrightarrow> \<exists>m'. wr m a v = Inr m'"
  using wr_faults [of m a v] by (cases "wr m a v") auto

lemma wr_ok_address: "wr m a v = Inr m' \<Longrightarrow> faults a = None"
  using wr_faults [of m a v] by (cases "faults a") auto

lemma rd_ok_address: "rd m a = Inr v \<Longrightarrow> faults a = None"
  using rd_faults [of m a] by (cases "faults a") auto

text \<open>The last of two writes wins, and two writes to separate cells commute for readers.\<close>

lemma rd_wr_wr_same: "wr m a v = Inr m1 \<Longrightarrow> wr m1 a w = Inr m2 \<Longrightarrow> rd m2 a = Inr w"
  by (rule rd_wr_same)

lemma rd_wr_wr_apart:
  "wr m a v = Inr m1 \<Longrightarrow> wr m1 b w = Inr m2 \<Longrightarrow> apart b a \<Longrightarrow> rd m2 a = Inr v"
  using rd_wr_same rd_wr_apart by metis

lemma wr_after_wr: "wr m a v = Inr m1 \<Longrightarrow> faults b = None \<Longrightarrow> \<exists>m2. wr m1 b w = Inr m2"
  using wr_returns .

end

subsection \<open>Outcome by address\<close>

lemma addr_plus:
  fixes a :: u32
  assumes "unat a + k < 4294967296" shows "unat (a + of_nat k) = unat a + k"
  using assms by (simp add: unat_word_ariths unat_of_nat)

definition word_fault :: "u32 \<Rightarrow> u32 \<Rightarrow> fault option" where
  "word_fault span a =
     (if unat a + unat span \<le> 65536 then None
      else if unat a + unat span < 4294967296 then Some (OutOfBounds a span)
      else Some (BadIndex a))"

lemma plus_small:
  fixes a :: u32
  assumes "unat a + 4 \<le> 65536"
  shows "unat (a + 1) = unat a + 1" "unat (a + 2) = unat a + 2" "unat (a + 3) = unat a + 3"
    "unat (a + 4) = unat a + 4"
  using assms by (simp_all add: unat_word_ariths)

lemma check_bounds_outcome [mem_simps]:
  "0 < span \<Longrightarrow> unat span \<le> 4 \<Longrightarrow> check_bounds a span =
     (if unat a + unat span \<le> 65536 \<or> 4294967296 \<le> unat a + unat span then Inr ()
      else Inl (OutOfBounds a span))"
proof -
  assume s: "0 < span" "unat span \<le> 4"
  have a: "unat a < 4294967296" by (rule unat_u32_less)
  show ?thesis
  proof (cases "unat a + unat span < 4294967296")
    case True
    then have "unat (a + span) = unat a + unat span" by (simp add: unat_word_ariths)
    with True show ?thesis by (auto simp: check_bounds_def MEM_SIZE_def word_less_nat_alt)
  next
    case False
    then have "unat (a + span) = unat a + unat span - 4294967296"
      using a s by (simp add: unat_word_ariths mod_if)
    with False a s show ?thesis by (simp add: check_bounds_def MEM_SIZE_def word_less_nat_alt)
  qed
qed

definition word_at :: "memory \<Rightarrow> u32 \<Rightarrow> u32" where
  "word_at m a =
     ucast (bytes m a) OR push_bit 8 (ucast (bytes m (a + 1))) OR
     push_bit 16 (ucast (bytes m (a + 2))) OR push_bit 24 (ucast (bytes m (a + 3)))"

definition put_word :: "memory \<Rightarrow> u32 \<Rightarrow> u32 \<Rightarrow> memory" where
  "put_word m a v = m\<lparr>bytes := (bytes m)
     (a := ucast (v AND 0xFF), a + 1 := ucast (drop_bit 8 v AND 0xFF),
      a + 2 := ucast (drop_bit 16 v AND 0xFF), a + 3 := ucast (drop_bit 24 v AND 0xFF))\<rparr>"

lemma mem_read32_outcome [mem_simps]:
  "mem_read32 m a = (case word_fault 4 a of None \<Rightarrow> Inr (word_at m a) | Some e \<Rightarrow> Inl e)"
  using plus_small [of a]
  by (auto simp: mem_read32_def check_bounds_outcome word_fault_def byte_at_def MEM_SIZE_def
      word_less_nat_alt word_at_def)

lemma mem_write32_outcome [mem_simps]:
  "mem_write32 m a v = (case word_fault 4 a of None \<Rightarrow> Inr (put_word m a v) | Some e \<Rightarrow> Inl e)"
  using plus_small [of a]
  by (auto simp: mem_write32_def check_bounds_outcome word_fault_def set_byte_def MEM_SIZE_def
      word_less_nat_alt put_word_def)

lemma mem_read8_outcome [mem_simps]:
  "mem_read8 m a = (case word_fault 1 a of None \<Rightarrow> Inr (bytes m a) | Some e \<Rightarrow> Inl e)"
  by (auto simp: mem_read8_def check_bounds_outcome word_fault_def byte_at_def MEM_SIZE_def
      word_less_nat_alt)

lemma mem_write8_outcome [mem_simps]:
  "mem_write8 m a v =
     (case word_fault 1 a of
        None \<Rightarrow> Inr (m\<lparr>bytes := (bytes m)(a := v)\<rparr>) | Some e \<Rightarrow> Inl e)"
  by (auto simp: mem_write8_def check_bounds_outcome word_fault_def set_byte_def MEM_SIZE_def
      word_less_nat_alt)

lemma word_fault_None: "word_fault span a = None \<longleftrightarrow> unat a + unat span \<le> 65536"
  by (simp add: word_fault_def)

subsection \<open>Words from bytes\<close>

lemma bytes_of_word:
  fixes v :: u32
  shows "(ucast (ucast (v AND 0xFF) :: u8) :: u32) OR push_bit 8 (ucast (ucast (drop_bit 8 v AND 0xFF) :: u8))
    OR push_bit 16 (ucast (ucast (drop_bit 16 v AND 0xFF) :: u8))
    OR push_bit 24 (ucast (ucast (drop_bit 24 v AND 0xFF) :: u8)) = v"
proof (rule bit_word_eqI)
  have ff: "(0xFF :: u32) = mask 8" by (simp add: mask_numeral)
  fix n assume n: "n < LENGTH(32)"
  consider "n < 8" | "8 \<le> n" "n < 16" | "16 \<le> n" "n < 24" | "24 \<le> n" by linarith
  then show "bit ((ucast (ucast (v AND 0xFF) :: u8) :: u32)
      OR push_bit 8 (ucast (ucast (drop_bit 8 v AND 0xFF) :: u8))
      OR push_bit 16 (ucast (ucast (drop_bit 16 v AND 0xFF) :: u8))
      OR push_bit 24 (ucast (ucast (drop_bit 24 v AND 0xFF) :: u8))) n = bit v n"
    using n unfolding ff by cases (auto simp: bit_simps)
qed

text \<open>Two 4-byte cells are apart when no byte is in both.\<close>

definition words_apart :: "u32 \<Rightarrow> u32 \<Rightarrow> bool" where
  "words_apart a b = (unat a + 4 \<le> unat b \<or> unat b + 4 \<le> unat a)"

lemma words_apart_sym: "words_apart a b = words_apart b a"
  by (auto simp: words_apart_def)

lemma word_at_put_same:
  "unat a + 4 \<le> 65536 \<Longrightarrow> word_at (put_word m a v) a = v"
  using plus_small [of a] bytes_of_word [of v]
  by (simp add: word_at_def put_word_def)

lemma bytes_put_other:
  assumes "unat a + 4 \<le> 65536" and "unat i < unat a \<or> unat a + 4 \<le> unat i"
  shows "bytes (put_word m a v) i = bytes m i"
proof -
  have "i \<noteq> a" "i \<noteq> a + 1" "i \<noteq> a + 2" "i \<noteq> a + 3"
    using assms plus_small [of a] by auto
  then show ?thesis by (simp add: put_word_def)
qed

lemma word_at_put_apart:
  assumes "unat a + 4 \<le> 65536" "unat b + 4 \<le> 65536" "words_apart a b"
  shows "word_at (put_word m a v) b = word_at m b"
proof -
  have "bytes (put_word m a v) (b + k) = bytes m (b + k)" if "k \<in> {0, 1, 2, 3}" for k
    by (rule bytes_put_other) (use assms plus_small [of b] that in \<open>auto simp: words_apart_def\<close>)
  from this [of 0] this [of 1] this [of 2] this [of 3] show ?thesis
    by (simp add: word_at_def)
qed

text \<open>Both access widths are cell stores.\<close>

interpretation mem32: word_store mem_read32 mem_write32 words_apart "word_fault 4"
proof unfold_locales
  fix m a v m' b
  assume w: "mem_write32 m a v = Inr m'"
  then have ok: "unat a + 4 \<le> 65536" and m': "m' = put_word m a v"
    by (auto simp: mem_simps word_fault_None split: option.splits)
  then show "mem_read32 m' a = Inr v"
    by (simp add: mem_read32_outcome word_fault_def word_at_put_same)
  assume ap: "words_apart a b"
  show "mem_read32 m' b = mem_read32 m b"
    using ok ap by (auto simp: m' mem_read32_outcome word_fault_def word_at_put_apart)
qed (auto simp: mem_simps split: option.splits)

interpretation mem8: word_store mem_read8 mem_write8 "(\<noteq>)" "word_fault 1"
  by unfold_locales (auto simp: mem_simps split: option.splits)

subsection \<open>The three outcomes of an access\<close>

text \<open>
  An access inside the memory returns; one that leaves it is reported and ends the program,
  unless the sum in \<open>check_bounds\<close> wraps: the last addresses below $2^{32}$ pass the check
  and index the array outside its cells.
\<close>

lemma mem_read32_in_range: "unat a + 4 \<le> 65536 \<Longrightarrow> mem_read32 m a = Inr (word_at m a)"
  by (simp add: mem_read32_outcome word_fault_def)

lemma mem_write32_in_range: "unat a + 4 \<le> 65536 \<Longrightarrow> mem_write32 m a v = Inr (put_word m a v)"
  by (simp add: mem_write32_outcome word_fault_def)

lemma mem_init_word_at [simp]: "word_at mem_init a = 0"
  by (simp add: word_at_def mem_init_def)

end
