(* ===== verification/Isa.thy ===== *)
theory Isa
  imports Prelude "HOL-Library.Char_ord"
begin

text \<open>
  The instruction set (\<open>include/isa.h\<close>, \<open>src/isa.c\<close>): opcodes, the 32-bit instruction
  layout with its field decoders and its encoder, the operand formats, and the disassembler
  of one word. The lemmas give both directions of the encoding round trip, the range of the
  sign-extended immediate and the length of a disassembled line.
\<close>

subsection \<open>Opcodes\<close>

text \<open>
  The enumeration \<open>Opcode\<close>. \<open>DECODE_OPCODE\<close> casts any 6-bit value to the type, so the
  values 27 to 63 that no enumerator names are \<open>OP_UNKNOWN\<close> with their number.
\<close>

datatype opcode =
    OP_NOP | OP_HALT
  | OP_ADD | OP_SUB | OP_MUL | OP_DIV
  | OP_AND | OP_OR | OP_XOR | OP_NOT | OP_SHL | OP_SHR
  | OP_MOV | OP_LOAD | OP_STORE | OP_LOADI | OP_PUSH | OP_POP
  | OP_JMP | OP_JZ | OP_JNZ | OP_JG | OP_JL | OP_CALL | OP_RET
  | OP_IN | OP_OUT
  | OP_UNKNOWN u32

fun opcode_code :: "opcode \<Rightarrow> u32" where
  "opcode_code OP_NOP = 0" | "opcode_code OP_HALT = 1"
| "opcode_code OP_ADD = 2" | "opcode_code OP_SUB = 3"
| "opcode_code OP_MUL = 4" | "opcode_code OP_DIV = 5"
| "opcode_code OP_AND = 6" | "opcode_code OP_OR = 7" | "opcode_code OP_XOR = 8"
| "opcode_code OP_NOT = 9" | "opcode_code OP_SHL = 10" | "opcode_code OP_SHR = 11"
| "opcode_code OP_MOV = 12" | "opcode_code OP_LOAD = 13" | "opcode_code OP_STORE = 14"
| "opcode_code OP_LOADI = 15" | "opcode_code OP_PUSH = 16" | "opcode_code OP_POP = 17"
| "opcode_code OP_JMP = 18" | "opcode_code OP_JZ = 19" | "opcode_code OP_JNZ = 20"
| "opcode_code OP_JG = 21" | "opcode_code OP_JL = 22" | "opcode_code OP_CALL = 23"
| "opcode_code OP_RET = 24" | "opcode_code OP_IN = 25" | "opcode_code OP_OUT = 26"
| "opcode_code (OP_UNKNOWN c) = c"

definition opcode_of :: "u32 \<Rightarrow> opcode" where
  "opcode_of c =
     (if c = 0 then OP_NOP else if c = 1 then OP_HALT
      else if c = 2 then OP_ADD else if c = 3 then OP_SUB
      else if c = 4 then OP_MUL else if c = 5 then OP_DIV
      else if c = 6 then OP_AND else if c = 7 then OP_OR else if c = 8 then OP_XOR
      else if c = 9 then OP_NOT else if c = 10 then OP_SHL else if c = 11 then OP_SHR
      else if c = 12 then OP_MOV else if c = 13 then OP_LOAD else if c = 14 then OP_STORE
      else if c = 15 then OP_LOADI else if c = 16 then OP_PUSH else if c = 17 then OP_POP
      else if c = 18 then OP_JMP else if c = 19 then OP_JZ else if c = 20 then OP_JNZ
      else if c = 21 then OP_JG else if c = 22 then OP_JL else if c = 23 then OP_CALL
      else if c = 24 then OP_RET else if c = 25 then OP_IN else if c = 26 then OP_OUT
      else OP_UNKNOWN c)"

text \<open>The opcodes with an enumerator are \<open>op_known\<close>; those a 6-bit field can hold are \<open>op_ok\<close>.\<close>

fun op_known :: "opcode \<Rightarrow> bool" where
  "op_known (OP_UNKNOWN c) = False"
| "op_known _ = True"

definition op_ok :: "opcode \<Rightarrow> bool" where
  "op_ok op = (opcode_of (opcode_code op) = op \<and> opcode_code op < 64)"

lemma op_known_ok [simp]: "op_known op \<Longrightarrow> op_ok op"
  by (cases op) (simp_all add: op_ok_def opcode_of_def)

lemma opcode_of_code [simp]: "op_ok op \<Longrightarrow> opcode_of (opcode_code op) = op"
  by (simp add: op_ok_def)

lemma opcode_code_less: "op_ok op \<Longrightarrow> opcode_code op < 64"
  by (simp add: op_ok_def)

lemma opcode_code_of [simp]: "opcode_code (opcode_of c) = c"
  by (simp add: opcode_of_def)

lemma op_ok_opcode_of [simp]: "c < 64 \<Longrightarrow> op_ok (opcode_of c)"
  by (simp add: op_ok_def)

subsection \<open>Instruction fields\<close>

record instruction =
  opcode :: opcode
  rdest :: u8
  rsrc :: u8
  imm :: i32

definition OPCODE_MASK :: u32 where "OPCODE_MASK = 0xFC000000"
definition RDEST_MASK :: u32 where "RDEST_MASK = 0x03800000"
definition RSRC_MASK :: u32 where "RSRC_MASK = 0x00700000"
definition IMM_MASK :: u32 where "IMM_MASK = 0x000FFFFF"
definition IMM_BITS :: nat where "IMM_BITS = 20"
definition IMM_SIGN_BIT :: u32 where "IMM_SIGN_BIT = 0x00080000"

definition sign_extend20 :: "u32 \<Rightarrow> i32" where
  "sign_extend20 v =
     (let v = v AND IMM_MASK
      in if v AND IMM_SIGN_BIT \<noteq> 0 then v OR NOT IMM_MASK else v)"

definition DECODE_OPCODE :: "u32 \<Rightarrow> opcode" where
  "DECODE_OPCODE w = opcode_of (drop_bit 26 (w AND OPCODE_MASK))"

definition DECODE_RDEST :: "u32 \<Rightarrow> u8" where
  "DECODE_RDEST w = ucast (drop_bit 23 (w AND RDEST_MASK))"

definition DECODE_RSRC :: "u32 \<Rightarrow> u8" where
  "DECODE_RSRC w = ucast (drop_bit 20 (w AND RSRC_MASK))"

definition DECODE_IMM :: "u32 \<Rightarrow> i32" where
  "DECODE_IMM w = sign_extend20 (w AND IMM_MASK)"

definition ENCODE_INSTR :: "opcode \<Rightarrow> u8 \<Rightarrow> u8 \<Rightarrow> i32 \<Rightarrow> u32" where
  "ENCODE_INSTR op rd rs im =
     push_bit 26 (opcode_code op) OR push_bit 23 (ucast rd) OR
     push_bit 20 (ucast rs) OR (im AND IMM_MASK)"

lemmas mask_defs = OPCODE_MASK_def RDEST_MASK_def RSRC_MASK_def IMM_MASK_def IMM_SIGN_BIT_def
lemmas decode_defs = DECODE_OPCODE_def DECODE_RDEST_def DECODE_RSRC_def DECODE_IMM_def
  sign_extend20_def mask_defs

subsection \<open>Bits of the masks\<close>

lemma bit_masks [bit_simps]:
  "bit OPCODE_MASK n \<longleftrightarrow> 26 \<le> n \<and> n < 32"
  "bit RDEST_MASK n \<longleftrightarrow> 23 \<le> n \<and> n < 26"
  "bit RSRC_MASK n \<longleftrightarrow> 20 \<le> n \<and> n < 23"
  "bit IMM_MASK n \<longleftrightarrow> n < 20"
  "bit IMM_SIGN_BIT n \<longleftrightarrow> n = 19"
proof -
  have *: "OPCODE_MASK = push_bit 26 (mask 6)" "RDEST_MASK = push_bit 23 (mask 3)"
    "RSRC_MASK = push_bit 20 (mask 3)" "IMM_MASK = mask 20"
    by (simp_all add: mask_defs mask_numeral)
  show "bit OPCODE_MASK n \<longleftrightarrow> 26 \<le> n \<and> n < 32" "bit RDEST_MASK n \<longleftrightarrow> 23 \<le> n \<and> n < 26"
    "bit RSRC_MASK n \<longleftrightarrow> 20 \<le> n \<and> n < 23" "bit IMM_MASK n \<longleftrightarrow> n < 20"
    unfolding * by (auto simp: bit_simps)
  have e: "IMM_SIGN_BIT = 2 ^ 19" by (simp add: mask_defs)
  show "bit IMM_SIGN_BIT n \<longleftrightarrow> n = 19"
    unfolding e bit_exp_iff by auto
qed

lemma bit_unat_less:
  fixes c :: "'a::len word"
  assumes "unat c < 2 ^ k" and "bit c n" shows "n < k"
proof -
  have "bit (unat c) n" using assms(2) by (simp add: bit_unsigned_iff bit_imp_le_length)
  moreover have "take_bit k (unat c) = unat c" using assms(1) by (simp add: take_bit_nat_eq_self)
  ultimately show ?thesis by (metis bit_take_bit_iff)
qed

lemma sign_extend20_signed: "sign_extend20 v = signed_take_bit 19 v"
proof -
  have "(v AND IMM_MASK) AND IMM_SIGN_BIT \<noteq> 0 \<longleftrightarrow> bit v 19"
  proof -
    have "(v AND IMM_MASK) AND IMM_SIGN_BIT = (if bit v 19 then IMM_SIGN_BIT else 0)"
      by (rule bit_word_eqI) (auto simp: bit_simps)
    then show ?thesis by (simp add: IMM_SIGN_BIT_def)
  qed
  then have sign: "sign_extend20 v =
      (if bit v 19 then (v AND IMM_MASK) OR NOT IMM_MASK else v AND IMM_MASK)"
    by (simp add: sign_extend20_def Let_def)
  show ?thesis
  proof (rule bit_word_eqI)
    fix n :: nat
    consider "n < 19" | "n = 19" | "19 < n" by linarith
    then show "n < LENGTH(32) \<Longrightarrow> bit (sign_extend20 v) n = bit (signed_take_bit 19 v) n"
      by cases (auto simp: sign bit_simps min_def)
  qed
qed

lemma sint_sign_extend20: "sint (sign_extend20 v) = signed_take_bit 19 (uint v)"
  by (rule bit_eqI)
    (auto simp: sign_extend20_signed bit_sint_iff bit_simps min_def not_le
      dest: bit_imp_le_length)

lemma sign_extend20_range:
  "- 524288 \<le> sint (sign_extend20 v) \<and> sint (sign_extend20 v) < 524288"
  using signed_take_bit_int_greater_eq_minus_exp [of 19 "uint v"]
    signed_take_bit_int_less_exp [of 19 "uint v"]
  by (simp add: sint_sign_extend20)

lemma sign_extend20_mask [simp]: "sign_extend20 (v AND IMM_MASK) = sign_extend20 v"
  by (rule bit_word_eqI) (auto simp: sign_extend20_def Let_def bit_simps)

subsection \<open>Encoding and decoding\<close>

lemma decode_opcode_encode:
  assumes "op_ok op" "rd < 8" "rs < 8"
  shows "DECODE_OPCODE (ENCODE_INSTR op rd rs im) = op"
proof -
  have c: "bit (opcode_code op) n \<Longrightarrow> n < 6" for n
    by (rule bit_unat_less) (use opcode_code_less [OF assms(1)] in \<open>simp_all add: word_less_nat_alt\<close>)
  have r: "bit rd n \<Longrightarrow> n < 3" "bit rs n \<Longrightarrow> n < 3" for n
    using bit_unat_less [of rd 3 n] bit_unat_less [of rs 3 n] assms(2,3)
    by (simp_all add: word_less_nat_alt)
  have "drop_bit 26 (ENCODE_INSTR op rd rs im AND OPCODE_MASK) = opcode_code op"
    by (rule bit_word_eqI) (auto simp: ENCODE_INSTR_def bit_simps dest: c r)
  with assms(1) show ?thesis by (simp add: DECODE_OPCODE_def)
qed

lemma decode_regs_encode:
  assumes "op_ok op" "rd < 8" "rs < 8"
  shows "DECODE_RDEST (ENCODE_INSTR op rd rs im) = rd"
    and "DECODE_RSRC (ENCODE_INSTR op rd rs im) = rs"
proof -
  have r: "bit rd n \<Longrightarrow> n < 3" "bit rs n \<Longrightarrow> n < 3" for n
    using bit_unat_less [of rd 3 n] bit_unat_less [of rs 3 n] assms(2,3)
    by (simp_all add: word_less_nat_alt)
  show "DECODE_RDEST (ENCODE_INSTR op rd rs im) = rd"
    "DECODE_RSRC (ENCODE_INSTR op rd rs im) = rs"
    by (rule bit_word_eqI,
        auto simp: DECODE_RDEST_def DECODE_RSRC_def ENCODE_INSTR_def bit_simps dest: r)+
qed

text \<open>An immediate survives the 20-bit field exactly when it is in the field's signed range.\<close>

definition imm_fits :: "i32 \<Rightarrow> bool" where
  "imm_fits im = (- 524288 \<le> sint im \<and> sint im < 524288)"

lemma decode_imm_encode_signed:
  assumes "rd < 8" "rs < 8"
  shows "DECODE_IMM (ENCODE_INSTR op rd rs im) = sign_extend20 im"
proof -
  have "ENCODE_INSTR op rd rs im AND IMM_MASK = im AND IMM_MASK"
    by (rule bit_word_eqI) (auto simp: ENCODE_INSTR_def bit_simps)
  then show ?thesis by (simp add: DECODE_IMM_def)
qed

lemma sign_extend20_eq_iff: "sign_extend20 im = im \<longleftrightarrow> imm_fits im"
proof
  assume "imm_fits im"
  then have "signed_take_bit 19 (sint im) = sint im"
    by (simp add: imm_fits_def signed_take_bit_int_eq_self_iff)
  moreover have "signed_take_bit 19 (sint im) = signed_take_bit 19 (uint im)"
    by (simp add: sint_uint signed_take_bit_signed_take_bit)
  ultimately show "sign_extend20 im = im"
    using sint_sign_extend20 [of im] by (metis signed_word_eqI)
qed (use sign_extend20_range [of im] in \<open>simp add: imm_fits_def\<close>)

lemma decode_imm_encode:
  "rd < 8 \<Longrightarrow> rs < 8 \<Longrightarrow> imm_fits im \<Longrightarrow> DECODE_IMM (ENCODE_INSTR op rd rs im) = im"
  using sign_extend20_eq_iff by (simp add: decode_imm_encode_signed)

lemma decode_reg_less [simp]: "DECODE_RDEST w < 8" "DECODE_RSRC w < 8"
proof -
  have u: "unat (take_bit 3 c) < 8" for c :: u8
    by (simp add: unsigned_take_bit_eq take_bit_nat_less_exp [of 3, simplified])
  have d: "DECODE_RDEST w = take_bit 3 (DECODE_RDEST w)"
    "DECODE_RSRC w = take_bit 3 (DECODE_RSRC w)"
    by (rule bit_word_eqI, auto simp: DECODE_RDEST_def DECODE_RSRC_def bit_simps)+
  show "DECODE_RDEST w < 8" by (subst d(1)) (simp add: word_less_nat_alt u)
  show "DECODE_RSRC w < 8" by (subst d(2)) (simp add: word_less_nat_alt u)
qed

text \<open>Every word is the encoding of its fields: decoding loses nothing.\<close>

lemma encode_decode:
  "ENCODE_INSTR (DECODE_OPCODE w) (DECODE_RDEST w) (DECODE_RSRC w) (DECODE_IMM w) = w"
proof (rule bit_word_eqI)
  fix n assume n: "n < LENGTH(32)"
  consider "n < 20" | "20 \<le> n" "n < 23" | "23 \<le> n" "n < 26" | "26 \<le> n" by linarith
  then show "bit (ENCODE_INSTR (DECODE_OPCODE w) (DECODE_RDEST w) (DECODE_RSRC w) (DECODE_IMM w)) n
      = bit w n"
    using n by cases (auto simp: ENCODE_INSTR_def DECODE_OPCODE_def DECODE_RDEST_def
        DECODE_RSRC_def DECODE_IMM_def sign_extend20_def Let_def bit_simps)
qed

lemma op_ok_decode [simp]: "op_ok (DECODE_OPCODE w)"
proof -
  have "drop_bit 26 (w AND OPCODE_MASK) = take_bit 6 (drop_bit 26 (w AND OPCODE_MASK))"
    by (rule bit_word_eqI) (auto simp: bit_simps)
  then have "unat (drop_bit 26 (w AND OPCODE_MASK)) < 2 ^ 6"
    by (metis take_bit_nat_less_exp unsigned_take_bit_eq)
  then have "drop_bit 26 (w AND OPCODE_MASK) < 64"
    by (simp add: word_less_nat_alt)
  then show ?thesis by (simp add: DECODE_OPCODE_def)
qed

subsection \<open>Names and operand formats\<close>

fun opcode_name :: "opcode \<Rightarrow> string" where
  "opcode_name OP_NOP = ''NOP''" | "opcode_name OP_HALT = ''HALT''"
| "opcode_name OP_ADD = ''ADD''" | "opcode_name OP_SUB = ''SUB''"
| "opcode_name OP_MUL = ''MUL''" | "opcode_name OP_DIV = ''DIV''"
| "opcode_name OP_AND = ''AND''" | "opcode_name OP_OR = ''OR''"
| "opcode_name OP_XOR = ''XOR''" | "opcode_name OP_NOT = ''NOT''"
| "opcode_name OP_SHL = ''SHL''" | "opcode_name OP_SHR = ''SHR''"
| "opcode_name OP_MOV = ''MOV''" | "opcode_name OP_LOAD = ''LOAD''"
| "opcode_name OP_STORE = ''STORE''" | "opcode_name OP_LOADI = ''LOADI''"
| "opcode_name OP_PUSH = ''PUSH''" | "opcode_name OP_POP = ''POP''"
| "opcode_name OP_JMP = ''JMP''" | "opcode_name OP_JZ = ''JZ''"
| "opcode_name OP_JNZ = ''JNZ''" | "opcode_name OP_JG = ''JG''"
| "opcode_name OP_JL = ''JL''" | "opcode_name OP_CALL = ''CALL''"
| "opcode_name OP_RET = ''RET''" | "opcode_name OP_IN = ''IN''"
| "opcode_name OP_OUT = ''OUT''"
| "opcode_name (OP_UNKNOWN c) = ''???''"

datatype opformat = OPF_NONE | OPF_RD_RS | OPF_RD | OPF_RD_IMM | OPF_RD_MEM | OPF_MEM_RS | OPF_IMM

fun opcode_format :: "opcode \<Rightarrow> opformat" where
  "opcode_format OP_NOP = OPF_NONE" | "opcode_format OP_HALT = OPF_NONE"
| "opcode_format OP_RET = OPF_NONE"
| "opcode_format OP_ADD = OPF_RD_RS" | "opcode_format OP_SUB = OPF_RD_RS"
| "opcode_format OP_MUL = OPF_RD_RS" | "opcode_format OP_DIV = OPF_RD_RS"
| "opcode_format OP_AND = OPF_RD_RS" | "opcode_format OP_OR = OPF_RD_RS"
| "opcode_format OP_XOR = OPF_RD_RS" | "opcode_format OP_SHL = OPF_RD_RS"
| "opcode_format OP_SHR = OPF_RD_RS" | "opcode_format OP_MOV = OPF_RD_RS"
| "opcode_format OP_NOT = OPF_RD" | "opcode_format OP_PUSH = OPF_RD"
| "opcode_format OP_POP = OPF_RD" | "opcode_format OP_IN = OPF_RD"
| "opcode_format OP_OUT = OPF_RD"
| "opcode_format OP_LOADI = OPF_RD_IMM"
| "opcode_format OP_LOAD = OPF_RD_MEM"
| "opcode_format OP_STORE = OPF_MEM_RS"
| "opcode_format OP_JMP = OPF_IMM" | "opcode_format OP_JZ = OPF_IMM"
| "opcode_format OP_JNZ = OPF_IMM" | "opcode_format OP_JG = OPF_IMM"
| "opcode_format OP_JL = OPF_IMM" | "opcode_format OP_CALL = OPF_IMM"
| "opcode_format (OP_UNKNOWN c) = OPF_NONE"

subsection \<open>Disassembly of one word\<close>

text \<open>
  \<open>snprintf(buf, n, ...)\<close> keeps at most \<open>n - 1\<close> characters. \<open>disasm_text\<close> is the line the
  format strings produce, \<open>isa_disasm\<close> what is left of it in the buffer.
\<close>

definition fmt_reg :: "u8 \<Rightarrow> string" where
  "fmt_reg r = ''R'' @ fmt_u (ucast r)"

definition fmt_mem :: "u8 \<Rightarrow> i32 \<Rightarrow> string" where
  "fmt_mem r im =
     (if sint im < 0 then ''['' @ fmt_reg r @ ''-'' @ fmt_d (- im) @ '']''
      else ''['' @ fmt_reg r @ ''+'' @ fmt_d im @ '']'')"

definition disasm_text :: "u32 \<Rightarrow> string" where
  "disasm_text word =
     (let op = DECODE_OPCODE word; rd = DECODE_RDEST word; rs = DECODE_RSRC word;
          im = DECODE_IMM word; nm = opcode_name op
      in case opcode_format op of
           OPF_NONE \<Rightarrow> nm
         | OPF_RD_RS \<Rightarrow> nm @ '' '' @ fmt_reg rd @ '', '' @ fmt_reg rs
         | OPF_RD \<Rightarrow> nm @ '' '' @ fmt_reg rd
         | OPF_RD_IMM \<Rightarrow> nm @ '' '' @ fmt_reg rd @ '', '' @ fmt_d im
         | OPF_RD_MEM \<Rightarrow> nm @ '' '' @ fmt_reg rd @ '', '' @ fmt_mem rs im
         | OPF_MEM_RS \<Rightarrow> nm @ '' '' @ fmt_mem rd im @ '', '' @ fmt_reg rs
         | OPF_IMM \<Rightarrow> nm @ '' '' @ fmt_d im)"

definition isa_disasm :: "nat \<Rightarrow> u32 \<Rightarrow> string" where
  "isa_disasm n word = take (n - 1) (disasm_text word)"

lemma length_fmt_reg: "r < 8 \<Longrightarrow> length (fmt_reg r) = 2"
  by (simp add: fmt_reg_def fmt_u_def word_less_nat_alt unsigned_ucast_eq fmt_base_less
      take_bit_eq_mod)

lemma length_fmt_d:
  assumes "- 524288 \<le> sint im" "sint im \<le> 524288" shows "length (fmt_d im) \<le> 7"
proof -
  have "length (fmt_base 10 m) \<le> 6" if "m < 10 ^ 6" for m
    using length_fmt_base that by simp
  then have "length (fmt_base 10 (nat (sint im))) \<le> 6" "length (fmt_base 10 (nat (- sint im))) \<le> 6"
    using assms by simp_all
  then show ?thesis by (simp add: fmt_d_def fmt_int_def)
qed

lemma sint_minus_imm: "imm_fits im \<Longrightarrow> sint (- im) = - sint im"
  by (simp add: imm_fits_def sint_word_ariths signed_take_bit_int_eq_self_iff)

lemma imm_fits_decode [simp]: "imm_fits (DECODE_IMM w)"
  using sign_extend20_range [of "w AND IMM_MASK"] by (simp add: imm_fits_def DECODE_IMM_def)

lemma length_fmt_mem:
  assumes "r < 8" "imm_fits im" shows "length (fmt_mem r im) \<le> 12"
  using length_fmt_d [of im] length_fmt_d [of "- im"] sint_minus_imm [OF assms(2)]
    length_fmt_reg [OF assms(1)] assms(2)
  by (auto simp: fmt_mem_def imm_fits_def)

lemma length_opcode_name: "length (opcode_name op) \<le> 5"
  by (cases op) simp_all

lemma length_disasm_text: "length (disasm_text w) \<le> 24"
proof -
  have "length (fmt_d (DECODE_IMM w)) \<le> 7"
    using imm_fits_decode [of w] by (intro length_fmt_d) (auto simp: imm_fits_def)
  then show ?thesis
    using length_opcode_name [of "DECODE_OPCODE w"] length_fmt_mem [of "DECODE_RDEST w" "DECODE_IMM w"]
      length_fmt_mem [of "DECODE_RSRC w" "DECODE_IMM w"] length_fmt_reg [of "DECODE_RDEST w"]
      length_fmt_reg [of "DECODE_RSRC w"]
    by (auto simp: disasm_text_def Let_def split: opformat.split)
qed

lemma isa_disasm_full: "24 < n \<Longrightarrow> isa_disasm n w = disasm_text w"
  using length_disasm_text [of w] by (simp add: isa_disasm_def)

end
