(* ===== verification/Machine.thy ===== *)
theory Machine
  imports Memory Isa
begin

text \<open>
  The state of the emulator (\<open>include/cpu.h\<close>, the top of \<open>src/cpu.c\<close>) and its devices
  (\<open>src/device.c\<close>): the processor record, the console that stands for the standard streams
  and the global switches \<open>cpu_silent\<close> and \<open>cpu_capture\<close> with the capture buffer, and the
  memory-mapped device registers. The lemmas bound the capture buffer, say what silence
  suppresses and that a device access never reaches RAM.
\<close>

subsection \<open>Processor and console\<close>

definition NUM_REGS :: nat where
  "NUM_REGS = 8"

text \<open>The flag bytes only ever hold 0 or 1.\<close>

record cpu_flags =
  flag_z :: bool
  flag_c :: bool
  flag_o :: bool
  flag_n :: bool

text \<open>
  The code holds a pointer to its \<open>Memory\<close>. Each CPU has a memory of its own in every
  program of the repository, so the memory is a part of the record.
\<close>

record cpu =
  regs :: "u32 list"
  pc :: u32
  sp :: u32
  flags :: cpu_flags
  mem :: memory
  halted :: bool
  icount :: u64

text \<open>
  \<open>con_in\<close> is what is left of standard input, \<open>con_out\<close> and \<open>con_err\<close> what has been
  written. \<open>cap_buf\<close> is the text of the static buffer of 8192 bytes, \<open>cap_len\<close> its length.
\<close>

record console =
  con_in :: string
  con_out :: string
  con_err :: string
  cpu_silent :: bool
  cpu_capture :: bool
  cap_buf :: string

definition CAP_SIZE :: nat where
  "CAP_SIZE = 8192"

definition cpu_capture_reset :: "console \<Rightarrow> console" where
  "cpu_capture_reset con = con\<lparr>cap_buf := ''''\<rparr>"

definition cpu_emit :: "string \<Rightarrow> console \<Rightarrow> console" where
  "cpu_emit s con =
     (if \<not> cpu_capture con then con\<lparr>con_out := con_out con @ s\<rparr>
      else let n = length s;
               con = (if length (cap_buf con) + n \<ge> CAP_SIZE then cpu_capture_reset con else con)
           in con\<lparr>cap_buf := cap_buf con @ s\<rparr>)"

definition print_err :: "string \<Rightarrow> console \<Rightarrow> console" where
  "print_err s con = con\<lparr>con_err := con_err con @ s\<rparr>"

definition cpu_init :: "memory \<Rightarrow> cpu" where
  "cpu_init m =
     \<lparr>regs = replicate NUM_REGS 0, pc = 0, sp = MEM_SIZE,
      flags = \<lparr>flag_z = False, flag_c = False, flag_o = False, flag_n = False\<rparr>,
      mem = m, halted = False, icount = 0\<rparr>"

definition set_zn :: "cpu \<Rightarrow> u32 \<Rightarrow> cpu" where
  "set_zn s result =
     s\<lparr>flags := (flags s)\<lparr>flag_z := (result = 0), flag_n := bit result 31\<rparr>\<rparr>"

subsection \<open>Registers\<close>

text \<open>
  A register index is a 3-bit field of the instruction, below \<open>NUM_REGS\<close>
  (\<open>decode_reg_less\<close>), so the array is never indexed outside its cells.
\<close>

definition reg :: "cpu \<Rightarrow> u8 \<Rightarrow> u32" where
  "reg s r = regs s ! unat r"

definition set_reg :: "cpu \<Rightarrow> u8 \<Rightarrow> u32 \<Rightarrow> cpu" where
  "set_reg s r v = s\<lparr>regs := (regs s)[unat r := v]\<rparr>"

definition cpu_ok :: "cpu \<Rightarrow> bool" where
  "cpu_ok s = (length (regs s) = NUM_REGS)"

lemma cpu_ok_init [simp]: "cpu_ok (cpu_init m)"
  by (simp add: cpu_ok_def cpu_init_def)

lemma u8_index_less: "r < 8 \<Longrightarrow> unat (r :: u8) < NUM_REGS"
  by (simp add: NUM_REGS_def word_less_nat_alt)

lemma reg_set_reg_same [simp]: "cpu_ok s \<Longrightarrow> r < 8 \<Longrightarrow> reg (set_reg s r v) r = v"
  using u8_index_less [of r] by (simp add: reg_def set_reg_def cpu_ok_def)

lemma reg_set_reg_other [simp]: "r \<noteq> q \<Longrightarrow> reg (set_reg s r v) q = reg s q"
  by (simp add: reg_def set_reg_def word_unat_eq_iff)

lemma set_reg_simps [simp]:
  "pc (set_reg s r v) = pc s" "sp (set_reg s r v) = sp s" "flags (set_reg s r v) = flags s"
  "mem (set_reg s r v) = mem s" "halted (set_reg s r v) = halted s"
  "icount (set_reg s r v) = icount s" "cpu_ok (set_reg s r v) = cpu_ok s"
  by (simp_all add: set_reg_def cpu_ok_def)

lemma set_zn_simps [simp]:
  "pc (set_zn s v) = pc s" "sp (set_zn s v) = sp s" "regs (set_zn s v) = regs s"
  "mem (set_zn s v) = mem s" "halted (set_zn s v) = halted s"
  "icount (set_zn s v) = icount s" "cpu_ok (set_zn s v) = cpu_ok s"
  "reg (set_zn s v) r = reg s r"
  "flag_z (flags (set_zn s v)) = (v = 0)" "flag_n (flags (set_zn s v)) = bit v 31"
  "flag_c (flags (set_zn s v)) = flag_c (flags s)" "flag_o (flags (set_zn s v)) = flag_o (flags s)"
  by (simp_all add: set_zn_def cpu_ok_def reg_def)

lemma reg_update_simps [simp]:
  "reg (s\<lparr>pc := a\<rparr>) r = reg s r" "reg (s\<lparr>sp := a\<rparr>) r = reg s r" "reg (s\<lparr>flags := f\<rparr>) r = reg s r"
  "reg (s\<lparr>mem := m\<rparr>) r = reg s r" "reg (s\<lparr>halted := h\<rparr>) r = reg s r"
  "reg (s\<lparr>icount := i\<rparr>) r = reg s r"
  by (simp_all add: reg_def)

lemma cpu_ok_update_simps [simp]:
  "cpu_ok (s\<lparr>pc := a\<rparr>) = cpu_ok s" "cpu_ok (s\<lparr>sp := a\<rparr>) = cpu_ok s"
  "cpu_ok (s\<lparr>flags := f\<rparr>) = cpu_ok s" "cpu_ok (s\<lparr>mem := m\<rparr>) = cpu_ok s"
  "cpu_ok (s\<lparr>halted := h\<rparr>) = cpu_ok s" "cpu_ok (s\<lparr>icount := i\<rparr>) = cpu_ok s"
  by (simp_all add: cpu_ok_def)

subsection \<open>Devices\<close>

definition MMIO_BASE :: u32 where "MMIO_BASE = 0xE000"
definition MMIO_OUT :: u32 where "MMIO_OUT = 0xE000"
definition MMIO_OUTC :: u32 where "MMIO_OUTC = 0xE004"
definition MMIO_IN :: u32 where "MMIO_IN = 0xE008"
definition MMIO_HALT :: u32 where "MMIO_HALT = 0xE00C"
definition MMIO_END :: u32 where "MMIO_END = 0xE010"

lemmas mmio_defs = MMIO_BASE_def MMIO_OUT_def MMIO_OUTC_def MMIO_IN_def MMIO_HALT_def MMIO_END_def

definition mmio_is_device :: "u32 \<Rightarrow> bool" where
  "mmio_is_device addr = (addr \<ge> MMIO_BASE \<and> addr < MMIO_END)"

text \<open>\<open>unsigned long v = 0; if (scanf("%lu", &v) != 1) v = 0; (uint32_t)v\<close>.\<close>

definition read_number :: "console \<Rightarrow> u32 \<times> console" where
  "read_number con =
     (let (v, rest) = scanf_lu (con_in con)
      in (case v of None \<Rightarrow> 0 | Some v \<Rightarrow> ucast v, con\<lparr>con_in := rest\<rparr>))"

definition mmio_load :: "u32 \<Rightarrow> console \<Rightarrow> u32 \<times> console" where
  "mmio_load addr con =
     (if addr = MMIO_IN \<and> \<not> cpu_silent con then read_number con else (0, con))"

definition mmio_store :: "cpu \<Rightarrow> u32 \<Rightarrow> u32 \<Rightarrow> console \<Rightarrow> cpu \<times> console" where
  "mmio_store s addr value con =
     (if addr = MMIO_OUT then
        (s, if \<not> cpu_silent con then cpu_emit (fmt_u value @ ''\<newline>'') con else con)
      else if addr = MMIO_OUTC then
        (s, if \<not> cpu_silent con
            then cpu_emit (cstr [char_of (unat (value AND 0xFF))]) con else con)
      else if addr = MMIO_HALT then (s\<lparr>halted := True\<rparr>, con)
      else (s, con))"

subsection \<open>Console lemmas\<close>

text \<open>The switches are never changed by output or input.\<close>

lemma cpu_emit_simps [simp]:
  "cpu_silent (cpu_emit t con) = cpu_silent con" "cpu_capture (cpu_emit t con) = cpu_capture con"
  "con_in (cpu_emit t con) = con_in con" "con_err (cpu_emit t con) = con_err con"
  by (simp_all add: cpu_emit_def cpu_capture_reset_def Let_def)

lemma read_number_simps [simp]:
  "cpu_silent (snd (read_number con)) = cpu_silent con"
  "cpu_capture (snd (read_number con)) = cpu_capture con"
  "con_out (snd (read_number con)) = con_out con" "cap_buf (snd (read_number con)) = cap_buf con"
  by (simp_all add: read_number_def split: prod.splits)

text \<open>
  The capture buffer never overflows: a text shorter than the buffer leaves room for the
  closing NUL.
\<close>

lemma cpu_emit_bound:
  "length t < CAP_SIZE \<Longrightarrow> length (cap_buf con) < CAP_SIZE \<Longrightarrow> length (cap_buf (cpu_emit t con)) < CAP_SIZE"
  by (simp add: cpu_emit_def cpu_capture_reset_def Let_def)

lemma length_fmt_u: "length (fmt_u v) \<le> 10"
  using length_fmt_base [of "unat v" 10] unat_u32_less [of v] by (simp add: fmt_u_def)

lemma mmio_store_bound:
  "length (cap_buf con) < CAP_SIZE \<Longrightarrow>
   length (cap_buf (snd (mmio_store s addr v con))) < CAP_SIZE"
proof -
  assume b: "length (cap_buf con) < CAP_SIZE"
  have u: "length (fmt_u v @ ''\<newline>'') < CAP_SIZE"
    using length_fmt_u [of v] by (simp add: CAP_SIZE_def)
  have c: "length (cstr [char_of (unat (v AND 0xFF))]) < CAP_SIZE"
    by (simp add: cstr_def CAP_SIZE_def)
  show ?thesis
    using b cpu_emit_bound [OF u b] cpu_emit_bound [OF c b] by (simp add: mmio_store_def)
qed

lemma mmio_store_silent: "cpu_silent con \<Longrightarrow> snd (mmio_store s addr v con) = con"
  by (simp add: mmio_store_def)

lemma mmio_load_silent: "cpu_silent con \<Longrightarrow> mmio_load addr con = (0, con)"
  by (simp add: mmio_load_def)

lemma mmio_store_cpu:
  "fst (mmio_store s addr v con) = (if addr = MMIO_HALT then s\<lparr>halted := True\<rparr> else s)"
  by (simp add: mmio_store_def mmio_defs)

subsection \<open>Initial consoles and memory images\<close>

text \<open>A console with the given input, nothing written, output to \<open>stdout\<close>.\<close>

definition console0 :: "string \<Rightarrow> console" where
  "console0 input = \<lparr>con_in = input, con_out = [], con_err = [], cpu_silent = False,
     cpu_capture = False, cap_buf = []\<rparr>"

text \<open>Words stored one after the other, as the test programs place them in memory.\<close>

fun load_words :: "memory \<Rightarrow> u32 \<Rightarrow> u32 list \<Rightarrow> memory" where
  "load_words m a [] = m"
| "load_words m a (w # ws) = load_words (put_word m a w) (a + 4) ws"

end
