(* ===== verification/Cpu.thy ===== *)
theory Cpu
  imports Machine
begin

text \<open>
  The functional emulator (\<open>src/cpu.c\<close>): one instruction (\<open>cpu_step\<close>), the trace line
  and the run loop. A step is a function of the processor and the console that may fault in
  a memory access or a shift; the run loop may never halt, so it is a partial function whose
  value \<open>None\<close> means that it does not return.
\<close>

subsection \<open>Instructions\<close>

definition decode :: "u32 \<Rightarrow> instruction" where
  "decode raw = \<lparr>opcode = DECODE_OPCODE raw, rdest = DECODE_RDEST raw,
     rsrc = DECODE_RSRC raw, imm = DECODE_IMM raw\<rparr>"

definition exec_add :: "cpu \<Rightarrow> instruction \<Rightarrow> cpu" where
  "exec_add s ins =
     (let a = reg s (rdest ins); b = reg s (rsrc ins);
          wide = (ucast a :: u64) + ucast b;
          r = (ucast wide :: u32);
          s = set_reg s (rdest ins) r;
          s = s\<lparr>flags := (flags s)\<lparr>flag_c := bit wide 32,
                flag_o := bit (NOT (a XOR b) AND (a XOR r)) 31\<rparr>\<rparr>
      in set_zn s r)"

definition exec_sub :: "cpu \<Rightarrow> instruction \<Rightarrow> cpu" where
  "exec_sub s ins =
     (let a = reg s (rdest ins); b = reg s (rsrc ins);
          r = a - b;
          s = set_reg s (rdest ins) r;
          s = s\<lparr>flags := (flags s)\<lparr>flag_c := (a < b),
                flag_o := bit ((a XOR b) AND (a XOR r)) 31\<rparr>\<rparr>
      in set_zn s r)"

text \<open>The tail of every other arithmetic case: store the result, set Z and N.\<close>

definition set_result :: "cpu \<Rightarrow> u8 \<Rightarrow> u32 \<Rightarrow> cpu" where
  "set_result s rd r = set_zn (set_reg s rd r) r"

text \<open>A shift by the width or more is undefined in C.\<close>

definition shl32 :: "u32 \<Rightarrow> u32 \<Rightarrow> u32 res" where
  "shl32 a k = (if k < 32 then Inr (push_bit (unat k) a) else Inl (BadShift k))"

definition shr32 :: "u32 \<Rightarrow> u32 \<Rightarrow> u32 res" where
  "shr32 a k = (if k < 32 then Inr (drop_bit (unat k) a) else Inl (BadShift k))"

text \<open>
  The \<open>switch\<close> of \<open>cpu_step\<close>. The program counter and the instruction count have been
  advanced already.
\<close>

definition exec_instr :: "instruction \<Rightarrow> cpu \<Rightarrow> console \<Rightarrow> (cpu \<times> console) res" where
  "exec_instr ins s con =
     (let rd = rdest ins; rs = rsrc ins; im = imm ins in
      case opcode ins of
        OP_NOP \<Rightarrow> Inr (s, con)
      | OP_HALT \<Rightarrow> Inr (s\<lparr>halted := True\<rparr>, con)
      | OP_ADD \<Rightarrow> Inr (exec_add s ins, con)
      | OP_SUB \<Rightarrow> Inr (exec_sub s ins, con)
      | OP_MUL \<Rightarrow> Inr (set_result s rd (reg s rd * reg s rs), con)
      | OP_DIV \<Rightarrow>
          (let divisor = reg s rs in
           if divisor = 0 then
             Inr (s\<lparr>halted := True\<rparr>,
                  print_err (''division by zero at PC=0x'' @ fmt_x (pc s - 4) @ ''\<newline>'') con)
           else Inr (set_result s rd (reg s rd div divisor), con))
      | OP_AND \<Rightarrow> Inr (set_result s rd (reg s rd AND reg s rs), con)
      | OP_OR \<Rightarrow> Inr (set_result s rd (reg s rd OR reg s rs), con)
      | OP_XOR \<Rightarrow> Inr (set_result s rd (reg s rd XOR reg s rs), con)
      | OP_NOT \<Rightarrow> Inr (set_result s rd (NOT (reg s rd)), con)
      | OP_SHL \<Rightarrow> res_bind (shl32 (reg s rd) (reg s rs)) (\<lambda>r. Inr (set_result s rd r, con))
      | OP_SHR \<Rightarrow> res_bind (shr32 (reg s rd) (reg s rs)) (\<lambda>r. Inr (set_result s rd r, con))
      | OP_MOV \<Rightarrow> Inr (set_reg s rd (reg s rs), con)
      | OP_LOAD \<Rightarrow>
          (let addr = reg s rs + im in
           if mmio_is_device addr then
             (let (v, con) = mmio_load addr con in Inr (set_reg s rd v, con))
           else res_bind (mem_read32 (mem s) addr) (\<lambda>v. Inr (set_reg s rd v, con)))
      | OP_STORE \<Rightarrow>
          (let addr = reg s rd + im; val = reg s rs in
           if mmio_is_device addr then Inr (mmio_store s addr val con)
           else res_bind (mem_write32 (mem s) addr val) (\<lambda>m. Inr (s\<lparr>mem := m\<rparr>, con)))
      | OP_LOADI \<Rightarrow> Inr (set_reg s rd im, con)
      | OP_PUSH \<Rightarrow>
          (let s = s\<lparr>sp := sp s - 4\<rparr> in
           res_bind (mem_write32 (mem s) (sp s) (reg s rd)) (\<lambda>m. Inr (s\<lparr>mem := m\<rparr>, con)))
      | OP_POP \<Rightarrow>
          res_bind (mem_read32 (mem s) (sp s)) (\<lambda>v.
            (let s = set_reg s rd v in Inr (s\<lparr>sp := sp s + 4\<rparr>, con)))
      | OP_JMP \<Rightarrow> Inr (s\<lparr>pc := im\<rparr>, con)
      | OP_JZ \<Rightarrow> Inr (if flag_z (flags s) then s\<lparr>pc := im\<rparr> else s, con)
      | OP_JNZ \<Rightarrow> Inr (if \<not> flag_z (flags s) then s\<lparr>pc := im\<rparr> else s, con)
      | OP_JG \<Rightarrow>
          Inr (if \<not> flag_z (flags s) \<and> flag_n (flags s) = flag_o (flags s)
               then s\<lparr>pc := im\<rparr> else s, con)
      | OP_JL \<Rightarrow>
          Inr (if flag_n (flags s) \<noteq> flag_o (flags s) then s\<lparr>pc := im\<rparr> else s, con)
      | OP_CALL \<Rightarrow>
          (let s = s\<lparr>sp := sp s - 4\<rparr> in
           res_bind (mem_write32 (mem s) (sp s) (pc s)) (\<lambda>m.
             Inr (s\<lparr>mem := m, pc := im\<rparr>, con)))
      | OP_RET \<Rightarrow>
          res_bind (mem_read32 (mem s) (sp s)) (\<lambda>v. Inr (s\<lparr>pc := v, sp := sp s + 4\<rparr>, con))
      | OP_IN \<Rightarrow>
          (let (v, con) = (if cpu_silent con then (0, con) else read_number con)
           in Inr (set_reg s rd v, con))
      | OP_OUT \<Rightarrow>
          Inr (s, if \<not> cpu_silent con then cpu_emit (fmt_u (reg s rd) @ ''\<newline>'') con else con)
      | OP_UNKNOWN code \<Rightarrow>
          Inr (s\<lparr>halted := True\<rparr>,
               print_err (''Illegal/unimplemented opcode 0x'' @ fmt_x code @ '' at PC=0x''
                          @ fmt_x (pc s - 4) @ ''\<newline>'') con))"

definition cpu_step :: "cpu \<Rightarrow> console \<Rightarrow> (cpu \<times> console) res" where
  "cpu_step s con =
     res_bind (mem_read32 (mem s) (pc s)) (\<lambda>raw.
       exec_instr (decode raw) (s\<lparr>pc := pc s + 4, icount := icount s + 1\<rparr>) con)"

subsection \<open>The run loop\<close>

definition fmt_reg_value :: "nat \<Rightarrow> u32 \<Rightarrow> string" where
  "fmt_reg_value i v = ''R'' @ fmt_base 10 i @ ''='' @ fmt_u v @ '' ''"

definition fmt_bit :: "bool \<Rightarrow> string" where
  "fmt_bit b = (if b then ''1'' else ''0'')"

text \<open>\<open>trace_line\<close>: the decoded instruction and the state before it, on \<open>stderr\<close>.\<close>

definition trace_line :: "cpu \<Rightarrow> string res" where
  "trace_line s =
     res_bind (mem_read32 (mem s) (pc s)) (\<lambda>raw.
       Inr (''PC='' @ pad0 4 (fmt_x (pc s)) @ ''  '' @ padr 5 (opcode_name (DECODE_OPCODE raw))
         @ '' rd='' @ fmt_u (ucast (DECODE_RDEST raw)) @ '' rs='' @ fmt_u (ucast (DECODE_RSRC raw))
         @ '' imm='' @ padr 6 (fmt_d (DECODE_IMM raw)) @ '' | ''
         @ concat (map (\<lambda>i. fmt_reg_value i (regs s ! i)) [0..<NUM_REGS])
         @ ''SP='' @ fmt_u (sp s) @ '' Z'' @ fmt_bit (flag_z (flags s))
         @ '' C'' @ fmt_bit (flag_c (flags s)) @ '' O'' @ fmt_bit (flag_o (flags s))
         @ '' N'' @ fmt_bit (flag_n (flags s)) @ ''\<newline>''))"

definition traced_step :: "bool \<Rightarrow> cpu \<Rightarrow> console \<Rightarrow> (cpu \<times> console) res" where
  "traced_step trace s con =
     (if trace then res_bind (trace_line s) (\<lambda>l. cpu_step s (print_err l con))
      else cpu_step s con)"

partial_function (option) cpu_run :: "bool \<Rightarrow> cpu \<Rightarrow> console \<Rightarrow> (cpu \<times> console) res option" where
  "cpu_run trace s con =
     (if halted s then Some (Inr (s, con))
      else case traced_step trace s con of
             Inl e \<Rightarrow> Some (Inl e)
           | Inr (s', con') \<Rightarrow> cpu_run trace s' con')"

subsection \<open>Runs as counted steps\<close>

text \<open>
  \<open>cpu_steps n\<close> is the specification of \<open>n\<close> iterations of the loop body: it stops at the
  first fault, and at a halted processor, as the loop does.
\<close>

fun cpu_steps :: "nat \<Rightarrow> cpu \<Rightarrow> console \<Rightarrow> (cpu \<times> console) res" where
  "cpu_steps 0 s con = Inr (s, con)"
| "cpu_steps (Suc n) s con =
     (if halted s then Inr (s, con)
      else res_bind (cpu_step s con) (\<lambda>(s', con'). cpu_steps n s' con'))"

subsection \<open>Flags\<close>

lemma bit31_sint: "bit (w :: u32) 31 \<longleftrightarrow> sint w < 0"
  using bit_last_iff [of w] by simp

lemma sint_u32_range: "- 2147483648 \<le> sint (w :: u32)" "sint (w :: u32) < 2147483648"
  using sint_ge [of w] sint_lt [of w] by simp_all

lemma sint_wrap:
  fixes v :: int
  assumes "- 4294967296 \<le> v" "v < 4294967296"
  shows "signed_take_bit 31 v =
    (if v < - 2147483648 then v + 4294967296 else if 2147483648 \<le> v then v - 4294967296 else v)"
proof -
  have "signed_take_bit 31 v = (v + 2147483648) mod 4294967296 - 2147483648"
    by (simp add: signed_take_bit_eq_take_bit_shift take_bit_eq_mod)
  also consider "v < - 2147483648" | "- 2147483648 \<le> v" "v < 2147483648" | "2147483648 \<le> v"
    by linarith
  then have "(v + 2147483648) mod 4294967296 = (if v < - 2147483648 then v + 2147483648 + 4294967296
      else if 2147483648 \<le> v then v + 2147483648 - 4294967296 else v + 2147483648)"
  proof cases
    case 1
    have "(v + 2147483648) mod 4294967296 = (v + 2147483648 + 4294967296) mod 4294967296"
      by (simp only: mod_add_self2)
    also have "\<dots> = v + 2147483648 + 4294967296"
      by (rule mod_pos_pos_trivial) (use 1 assms in linarith)+
    finally show ?thesis using 1 by simp
  next
    case 2
    then show ?thesis by (simp add: mod_pos_pos_trivial)
  next
    case 3
    have "(v + 2147483648) mod 4294967296 = (v + 2147483648 - 4294967296) mod 4294967296"
      by (simp only: minus_mod_self2)
    also have "\<dots> = v + 2147483648 - 4294967296"
      by (rule mod_pos_pos_trivial) (use 3 assms in linarith)+
    finally show ?thesis using 3 by simp
  qed
  finally show ?thesis by simp
qed

lemma sint_add_wrap:
  "sint ((a :: u32) + b) =
    (let v = sint a + sint b in
     if v < - 2147483648 then v + 4294967296 else if 2147483648 \<le> v then v - 4294967296 else v)"
  using sint_u32_range [of a] sint_u32_range [of b] by (simp add: sint_word_add sint_wrap Let_def)

lemma sint_sub_wrap:
  "sint ((a :: u32) - b) =
    (let v = sint a - sint b in
     if v < - 2147483648 then v + 4294967296 else if 2147483648 \<le> v then v - 4294967296 else v)"
  using sint_u32_range [of a] sint_u32_range [of b] by (simp add: sint_word_diff sint_wrap Let_def)

lemma bit_u64_unat: "bit (w :: u64) n \<longleftrightarrow> odd (unat w div 2 ^ n)"
  by (simp add: bit_unsigned_iff bit_imp_le_length flip: bit_iff_odd)

lemma carry_bit: "bit ((ucast (a :: u32) :: u64) + ucast b) 32 \<longleftrightarrow> 2 ^ 32 \<le> unat a + unat (b :: u32)"
proof -
  have l: "unat a < 4294967296" "unat b < 4294967296" by (rule unat_u32_less)+
  then have u: "unat ((ucast a :: u64) + ucast b) = unat a + unat b"
    by (simp add: unat_word_ariths unsigned_ucast_eq take_bit_eq_mod)
  have "bit ((ucast a :: u64) + ucast b) 32 \<longleftrightarrow> odd ((unat a + unat b) div 2 ^ 32)"
    unfolding bit_u64_unat u by (rule refl)
  also have "\<dots> \<longleftrightarrow> 2 ^ 32 \<le> unat a + unat b"
  proof (cases "2 ^ 32 \<le> unat a + unat b")
    case True
    with l have "(unat a + unat b) div 2 ^ 32 = 1" by (simp add: div_nat_eqI)
    with True show ?thesis by simp
  qed simp
  finally show ?thesis .
qed

lemma add_overflow_bit:
  "bit (NOT (a XOR b) AND (a XOR (a + b))) 31 \<longleftrightarrow>
   \<not> (- 2147483648 \<le> sint a + sint (b :: u32) \<and> sint a + sint b < 2147483648)"
proof -
  have "bit (NOT (a XOR b) AND (a XOR (a + b))) 31 \<longleftrightarrow>
     (bit a 31 = bit b 31) \<and> (bit a 31 \<noteq> bit (a + b) 31)"
    by (simp add: bit_simps)
  also have "\<dots> \<longleftrightarrow> \<not> (- 2147483648 \<le> sint a + sint b \<and> sint a + sint b < 2147483648)"
    unfolding bit31_sint sint_add_wrap Let_def
    using sint_u32_range [of a] sint_u32_range [of b] by auto
  finally show ?thesis .
qed

lemma sub_overflow_bit:
  "bit ((a XOR b) AND (a XOR (a - b))) 31 \<longleftrightarrow>
   \<not> (- 2147483648 \<le> sint a - sint (b :: u32) \<and> sint a - sint b < 2147483648)"
proof -
  have "bit ((a XOR b) AND (a XOR (a - b))) 31 \<longleftrightarrow>
     (bit a 31 \<noteq> bit b 31) \<and> (bit a 31 \<noteq> bit (a - b) 31)"
    by (simp add: bit_simps)
  also have "\<dots> \<longleftrightarrow> \<not> (- 2147483648 \<le> sint a - sint b \<and> sint a - sint b < 2147483648)"
    unfolding bit31_sint sint_sub_wrap Let_def
    using sint_u32_range [of a] sint_u32_range [of b] by auto
  finally show ?thesis .
qed

subsection \<open>One step\<close>

definition next_state :: "cpu \<Rightarrow> cpu" where
  "next_state s = s\<lparr>pc := pc s + 4, icount := icount s + 1\<rparr>"

text \<open>The word at the program counter can be read and decodes to \<open>ins\<close>.\<close>

definition fetched :: "cpu \<Rightarrow> instruction \<Rightarrow> bool" where
  "fetched s ins = (case mem_read32 (mem s) (pc s) of Inl _ \<Rightarrow> False | Inr raw \<Rightarrow> decode raw = ins)"

lemma decode_simps [simp]:
  "opcode (decode raw) = DECODE_OPCODE raw" "rdest (decode raw) = DECODE_RDEST raw"
  "rsrc (decode raw) = DECODE_RSRC raw" "imm (decode raw) = DECODE_IMM raw"
  by (simp_all add: decode_def)

lemma fetched_regs: "fetched s ins \<Longrightarrow> rdest ins < 8 \<and> rsrc ins < 8"
  by (auto simp: fetched_def split: sum.splits)

lemma step_fetched: "fetched s ins \<Longrightarrow> cpu_step s con = exec_instr ins (next_state s) con"
  by (auto simp: fetched_def cpu_step_def next_state_def split: sum.splits)

lemma step_Inr_fetched:
  assumes "cpu_step s con = Inr r"
  obtains ins where "fetched s ins" "exec_instr ins (next_state s) con = Inr r"
  using assms by (auto simp: cpu_step_def fetched_def next_state_def res_bind_Inr_iff)

lemma next_state_simps [simp]:
  "regs (next_state s) = regs s" "sp (next_state s) = sp s" "flags (next_state s) = flags s"
  "mem (next_state s) = mem s" "halted (next_state s) = halted s" "pc (next_state s) = pc s + 4"
  "icount (next_state s) = icount s + 1" "cpu_ok (next_state s) = cpu_ok s"
  "reg (next_state s) r = reg s r"
  by (simp_all add: next_state_def reg_def cpu_ok_def)

lemma set_result_simps [simp]:
  "pc (set_result s r v) = pc s" "sp (set_result s r v) = sp s"
  "mem (set_result s r v) = mem s" "halted (set_result s r v) = halted s"
  "icount (set_result s r v) = icount s" "cpu_ok (set_result s r v) = cpu_ok s"
  by (simp_all add: set_result_def)

lemma exec_add_simps [simp]:
  "pc (exec_add s ins) = pc s" "sp (exec_add s ins) = sp s" "mem (exec_add s ins) = mem s"
  "halted (exec_add s ins) = halted s" "icount (exec_add s ins) = icount s"
  "cpu_ok (exec_add s ins) = cpu_ok s"
  by (simp_all add: exec_add_def Let_def)

lemma exec_sub_simps [simp]:
  "pc (exec_sub s ins) = pc s" "sp (exec_sub s ins) = sp s" "mem (exec_sub s ins) = mem s"
  "halted (exec_sub s ins) = halted s" "icount (exec_sub s ins) = icount s"
  "cpu_ok (exec_sub s ins) = cpu_ok s"
  by (simp_all add: exec_sub_def Let_def)

lemma ucast_wide_add: "(ucast ((ucast a :: u64) + ucast b) :: u32) = a + b"
proof -
  have "unat ((ucast a :: u64) + ucast b) = unat a + unat b"
    using unat_u32_less [of a] unat_u32_less [of b]
    by (simp add: unat_word_ariths unsigned_ucast_eq take_bit_eq_mod)
  then show ?thesis
    by (simp add: word_unat_eq_iff unsigned_ucast_eq take_bit_eq_mod unat_word_ariths)
qed

lemma exec_add_result:
  assumes "cpu_ok s" "rdest ins < 8"
  shows "reg (exec_add s ins) (rdest ins) = reg s (rdest ins) + reg s (rsrc ins)"
  using assms by (simp add: exec_add_def Let_def ucast_wide_add)

lemma mmio_store_simps [simp]:
  "pc (fst (mmio_store s a v con)) = pc s" "sp (fst (mmio_store s a v con)) = sp s"
  "mem (fst (mmio_store s a v con)) = mem s" "regs (fst (mmio_store s a v con)) = regs s"
  "icount (fst (mmio_store s a v con)) = icount s" "flags (fst (mmio_store s a v con)) = flags s"
  "cpu_ok (fst (mmio_store s a v con)) = cpu_ok s"
  by (simp_all add: mmio_store_cpu)

lemmas exec_defs = exec_instr_def Let_def

lemma exec_instr_ok:
  "exec_instr ins s con = Inr (s', con') \<Longrightarrow> cpu_ok s' = cpu_ok s \<and> icount s' = icount s"
  by (auto simp: exec_defs res_bind_Inr_iff mmio_store_def split: opcode.splits if_splits prod.splits)

lemma cpu_step_ok: "cpu_step s con = Inr (s', con') \<Longrightarrow> cpu_ok s' = cpu_ok s"
  by (auto elim!: step_Inr_fetched dest: exec_instr_ok)

lemma cpu_step_icount: "cpu_step s con = Inr (s', con') \<Longrightarrow> icount s' = icount s + 1"
  by (auto elim!: step_Inr_fetched dest: exec_instr_ok)

subsection \<open>What a step leaves alone\<close>

text \<open>The 4-byte cell at \<open>a\<close>, as far as it is inside the memory.\<close>

definition in_cell :: "u32 \<Rightarrow> u32 \<Rightarrow> bool" where
  "in_cell a i = (unat a \<le> unat i \<and> unat i < unat a + 4)"

lemma mem_write32_other:
  "mem_write32 m a v = Inr m' \<Longrightarrow> \<not> in_cell a i \<Longrightarrow> bytes m' i = bytes m i"
  by (auto simp: mem_write32_outcome word_fault_def in_cell_def bytes_put_other split: option.splits if_splits)

text \<open>The cell an instruction writes, if any.\<close>

definition write_target :: "instruction \<Rightarrow> cpu \<Rightarrow> u32 option" where
  "write_target ins s = (case opcode ins of
     OP_STORE \<Rightarrow> (let addr = reg s (rdest ins) + imm ins
                  in if mmio_is_device addr then None else Some addr)
   | OP_PUSH \<Rightarrow> Some (sp s - 4)
   | OP_CALL \<Rightarrow> Some (sp s - 4)
   | _ \<Rightarrow> None)"

lemma exec_instr_memory:
  "exec_instr ins s con = Inr (s', con') \<Longrightarrow>
   (case write_target ins s of None \<Rightarrow> mem s' = mem s
    | Some a \<Rightarrow> \<exists>v. mem_write32 (mem s) a v = Inr (mem s'))"
  by (auto simp: exec_defs write_target_def res_bind_Inr_iff mmio_store_def
      split: opcode.splits if_splits prod.splits)

text \<open>Silence: no input is consumed and nothing but diagnostics is written.\<close>

definition con_sim :: "console \<Rightarrow> console \<Rightarrow> bool" where
  "con_sim c d = (c\<lparr>con_err := []\<rparr> = d\<lparr>con_err := []\<rparr>)"

lemma con_sim_refl [simp]: "con_sim c c"
  by (simp add: con_sim_def)

lemma con_sim_sym: "con_sim c d \<Longrightarrow> con_sim d c"
  by (simp add: con_sim_def)

lemma con_sim_trans: "con_sim c d \<Longrightarrow> con_sim d e \<Longrightarrow> con_sim c e"
  by (simp add: con_sim_def)

lemma con_sim_fields:
  "con_sim c d \<longleftrightarrow> con_in c = con_in d \<and> con_out c = con_out d \<and> cpu_silent c = cpu_silent d
     \<and> cpu_capture c = cpu_capture d \<and> cap_buf c = cap_buf d"
  by (cases c; cases d) (auto simp: con_sim_def)

lemma con_sim_print_err [simp]: "con_sim (print_err t c) d = con_sim c d"
  by (simp add: con_sim_def print_err_def)

lemma con_sim_print_err_right [simp]: "con_sim c (print_err t d) = con_sim c d"
  by (simp add: con_sim_def print_err_def)

lemma con_sim_emit: "con_sim c d \<Longrightarrow> con_sim (cpu_emit t c) (cpu_emit t d)"
  by (simp add: con_sim_fields cpu_emit_def cpu_capture_reset_def Let_def)

lemma con_sim_read:
  "con_sim c d \<Longrightarrow> fst (read_number c) = fst (read_number d)
     \<and> con_sim (snd (read_number c)) (snd (read_number d))"
  by (auto simp: con_sim_fields read_number_def split: prod.splits)

text \<open>Two results agree when they differ in diagnostics only.\<close>

definition res_sim :: "(cpu \<times> console) res \<Rightarrow> (cpu \<times> console) res \<Rightarrow> bool" where
  "res_sim r q = (case (r, q) of
     (Inl e, Inl f) \<Rightarrow> e = f
   | (Inr (s, c), Inr (t, d)) \<Rightarrow> s = t \<and> con_sim c d
   | _ \<Rightarrow> False)"

lemma res_sim_simps [simp]:
  "res_sim (Inl e) (Inl f) = (e = f)" "res_sim (Inr (s, c)) (Inr (t, d)) = (s = t \<and> con_sim c d)"
  "\<not> res_sim (Inl e) (Inr x)" "\<not> res_sim (Inr x) (Inl e)"
  by (auto simp: res_sim_def split: prod.splits)

lemma exec_instr_silent:
  "cpu_silent con \<Longrightarrow> exec_instr ins s con = Inr (s', con') \<Longrightarrow> con_sim con' con"
  by (auto simp: exec_defs res_bind_Inr_iff mmio_load_silent mmio_store_def
      split: opcode.splits if_splits prod.splits)

lemma mmio_sim:
  assumes "con_sim c d"
  shows "fst (mmio_load a c) = fst (mmio_load a d)"
    "con_sim (snd (mmio_load a c)) (snd (mmio_load a d))"
    "fst (mmio_store s a v c) = fst (mmio_store s a v d)"
    "con_sim (snd (mmio_store s a v c)) (snd (mmio_store s a v d))"
proof -
  have "cpu_silent c = cpu_silent d" using assms by (simp add: con_sim_fields)
  with assms show "fst (mmio_load a c) = fst (mmio_load a d)"
    "con_sim (snd (mmio_load a c)) (snd (mmio_load a d))"
    "fst (mmio_store s a v c) = fst (mmio_store s a v d)"
    "con_sim (snd (mmio_store s a v c)) (snd (mmio_store s a v d))"
    by (auto simp: mmio_load_def mmio_store_def con_sim_read con_sim_emit)
qed

lemma exec_instr_sim:
  assumes "con_sim c d" shows "res_sim (exec_instr ins s c) (exec_instr ins s d)"
proof -
  have "cpu_silent c = cpu_silent d" using assms by (simp add: con_sim_fields)
  moreover have "res_sim (Inr (mmio_store s a v c)) (Inr (mmio_store s a v d))" for a v
    using mmio_sim(3,4) [OF assms] by (metis prod.collapse res_sim_simps(2))
  moreover note mmio_sim(1,2) [OF assms] con_sim_read [OF assms] con_sim_emit [OF assms]
  ultimately show ?thesis
    using assms
    by (cases "opcode ins") (simp_all add: exec_defs res_bind_def case_prod_beta split: sum.split)
qed

lemma cpu_step_sim: "con_sim c d \<Longrightarrow> res_sim (cpu_step s c) (cpu_step s d)"
  by (auto simp: cpu_step_def res_bind_def exec_instr_sim split: sum.split)

lemma cpu_step_silent:
  assumes "cpu_silent con" "cpu_step s con = Inr (s', con')"
  shows "con_sim con' con \<and> cpu_silent con'"
proof -
  have "con_sim con' con"
    using assms by (elim step_Inr_fetched) (rule exec_instr_silent)
  with assms(1) show ?thesis by (simp add: con_sim_fields)
qed

end
