(* ===== verification/Execution.thy ===== *)
theory Execution
  imports Cpu
begin

text \<open>
  What the emulator guarantees, instruction by instruction and for whole runs: the flags of
  addition and subtraction and the signed comparison the conditional jumps make of them, the
  stack discipline, the frame of a step, the exact conditions of undefined behaviour, and
  the run loop as counted steps, with tracing and silence as observers that do not change
  the execution.
\<close>

subsection \<open>Runs\<close>

lemma cpu_run_halted [simp]: "halted s \<Longrightarrow> cpu_run t s con = Some (Inr (s, con))"
  by (subst cpu_run.simps) simp

lemma cpu_run_step:
  "\<not> halted s \<Longrightarrow> traced_step t s con = Inr (s', con') \<Longrightarrow> cpu_run t s con = cpu_run t s' con'"
  by (subst cpu_run.simps) simp

lemma cpu_run_fault: "\<not> halted s \<Longrightarrow> traced_step t s con = Inl e \<Longrightarrow> cpu_run t s con = Some (Inl e)"
  by (subst cpu_run.simps) simp

lemma cpu_steps_run:
  "cpu_steps n s con = Inr (s', con') \<Longrightarrow> cpu_run False s con = cpu_run False s' con'"
proof (induction n arbitrary: s con)
  case (Suc n)
  then show ?case
    by (auto simp: res_bind_Inr_iff traced_step_def intro: cpu_run_step [THEN trans] split: if_splits)
qed simp

lemma cpu_steps_fault_run: "cpu_steps n s con = Inl e \<Longrightarrow> cpu_run False s con = Some (Inl e)"
proof (induction n arbitrary: s con)
  case (Suc n)
  show ?case
  proof (cases "cpu_step s con")
    case (Inl f)
    with Suc.prems show ?thesis
      by (auto simp: traced_step_def intro!: cpu_run_fault split: if_splits)
  next
    case (Inr r)
    with Suc show ?thesis
      by (cases r) (auto simp: traced_step_def cpu_run_step split: if_splits)
  qed
qed simp

text \<open>What the loop returns, a number of steps produces; so the two agree in both directions.\<close>

definition steps_end :: "cpu \<Rightarrow> console \<Rightarrow> (cpu \<times> console) res \<Rightarrow> bool" where
  "steps_end s con r = (\<exists>n. cpu_steps n s con = r \<and>
     (case r of Inl _ \<Rightarrow> True | Inr (s', _) \<Rightarrow> halted s'))"

lemma cpu_run_Some_steps:
  assumes "cpu_run False s con = Some r" shows "steps_end s con r"
proof -
  have "\<not> t \<longrightarrow> steps_end s con r" if "cpu_run t s con = Some r" for t s con r
  proof (rule cpu_run.raw_induct [where P = "\<lambda>t s con r. \<not> t \<longrightarrow> steps_end s con r", OF _ that])
    fix run t s con r
    assume IH: "\<And>t s con r. run t s con = Some r \<Longrightarrow> \<not> t \<longrightarrow> steps_end s con r"
      and eq: "(if halted s then Some (Inr (s, con)) else case traced_step t s con of
          Inl e \<Rightarrow> Some (Inl e) | Inr (s', con') \<Rightarrow> run t s' con') = Some r"
    show "\<not> t \<longrightarrow> steps_end s con r"
    proof
      assume t: "\<not> t"
      show "steps_end s con r"
      proof (cases "halted s")
        case True
        with eq have "r = Inr (s, con)" by simp
        with True show ?thesis unfolding steps_end_def by (intro exI [of _ 0]) simp
      next
        case h: False
        show ?thesis
        proof (cases "cpu_step s con")
          case (Inl e)
          with h eq t have "r = Inl e" by (simp add: traced_step_def)
          with Inl h show ?thesis unfolding steps_end_def by (intro exI [of _ 1]) simp
        next
          case (Inr q)
          then obtain s' con' where q: "cpu_step s con = Inr (s', con')" by (cases q) auto
          with h eq t have "run t s' con' = Some r" by (simp add: traced_step_def)
          from IH [OF this] t have "steps_end s' con' r" by simp
          then obtain n where "cpu_steps n s' con' = r"
            "case r of Inl _ \<Rightarrow> True | Inr (s', _) \<Rightarrow> halted s'"
            unfolding steps_end_def by blast
          with h q show ?thesis unfolding steps_end_def by (intro exI [of _ "Suc n"]) simp
        qed
      qed
    qed
  qed
  with assms show ?thesis by blast
qed

lemma steps_end_run: "steps_end s con r \<Longrightarrow> cpu_run False s con = Some r"
  by (auto simp: steps_end_def cpu_steps_fault_run dest: cpu_steps_run split: sum.splits prod.splits)


text \<open>Once halted or faulted, more steps change nothing.\<close>

lemma cpu_steps_halted [simp]: "halted s \<Longrightarrow> cpu_steps n s con = Inr (s, con)"
  by (cases n) simp_all

lemma cpu_steps_add:
  "cpu_steps (m + n) s con = res_bind (cpu_steps m s con) (\<lambda>(s', con'). cpu_steps n s' con')"
proof (induction m arbitrary: s con)
  case (Suc m)
  show ?case
  proof (cases "halted s \<or> (\<exists>e. cpu_step s con = Inl e)")
    case True
    then show ?thesis by auto
  next
    case False
    then obtain s' con' where "cpu_step s con = Inr (s', con')"
      by (cases "cpu_step s con") auto
    with False Suc show ?thesis by simp
  qed
qed simp

subsection \<open>Tracing observes and changes nothing\<close>

lemma trace_line_fault: "trace_line s = Inl e \<Longrightarrow> cpu_step s con = Inl e"
  by (auto simp: trace_line_def cpu_step_def res_bind_Inl_iff)

lemma traced_step_sim: "con_sim c d \<Longrightarrow> res_sim (traced_step t s c) (cpu_step s d)"
proof (cases "t \<and> (\<exists>e. trace_line s = Inl e)")
  case True
  then obtain e where "t" "trace_line s = Inl e" by blast
  with trace_line_fault [of s e d] show ?thesis by (simp add: traced_step_def)
next
  case False
  assume "con_sim c d"
  with False show ?thesis
    by (cases "trace_line s") (auto simp: traced_step_def intro: cpu_step_sim)
qed

lemma res_sim_sym: "res_sim r q \<Longrightarrow> res_sim q r"
  by (auto simp: res_sim_def con_sim_sym split: sum.splits)

lemma res_sim_trans: "res_sim r q \<Longrightarrow> res_sim q p \<Longrightarrow> res_sim r p"
  by (auto simp: res_sim_def split: sum.splits dest: con_sim_trans)

lemma traced_steps_sim: "con_sim c d \<Longrightarrow> res_sim (traced_step t s c) (traced_step t' s d)"
  using traced_step_sim res_sim_sym res_sim_trans con_sim_refl con_sim_sym by meson

lemma cpu_run_sim:
  assumes "cpu_run t s c = Some r" and "con_sim c d"
  shows "\<exists>q. cpu_run t' s d = Some q \<and> res_sim r q"
proof -
  have "\<forall>d. con_sim c d \<longrightarrow> (\<exists>q. cpu_run t' s d = Some q \<and> res_sim r q)"
  proof (rule cpu_run.raw_induct [where P = "\<lambda>t s c r. \<forall>d. con_sim c d \<longrightarrow>
      (\<exists>q. cpu_run t' s d = Some q \<and> res_sim r q)", OF _ assms(1)], intro allI impI)
    fix run t s c r d
    assume IH: "\<And>t s c r. run t s c = Some r \<Longrightarrow>
        \<forall>d. con_sim c d \<longrightarrow> (\<exists>q. cpu_run t' s d = Some q \<and> res_sim r q)"
      and eq: "(if halted s then Some (Inr (s, c)) else case traced_step t s c of
          Inl e \<Rightarrow> Some (Inl e) | Inr (s', c') \<Rightarrow> run t s' c') = Some r"
      and sim: "con_sim c d"
    show "\<exists>q. cpu_run t' s d = Some q \<and> res_sim r q"
    proof (cases "halted s")
      case True
      with eq sim show ?thesis by auto
    next
      case h: False
      have both: "res_sim (traced_step t s c) (traced_step t' s d)"
        using sim by (rule traced_steps_sim)
      show ?thesis
      proof (cases "traced_step t s c")
        case (Inl e)
        with both have "traced_step t' s d = Inl e" by (cases "traced_step t' s d") auto
        with h have "cpu_run t' s d = Some (Inl e)" by (simp add: cpu_run_fault)
        moreover from Inl h eq have "r = Inl e" by simp
        ultimately show ?thesis by simp
      next
        case (Inr p)
        then obtain s' c' where p: "traced_step t s c = Inr (s', c')" by (cases p) auto
        with both obtain d' where d': "traced_step t' s d = Inr (s', d')" "con_sim c' d'"
          by (cases "traced_step t' s d") auto
        from h eq p have "run t s' c' = Some r" by simp
        with IH d'(2) obtain q where "cpu_run t' s' d' = Some q" "res_sim r q" by blast
        with h d'(1) show ?thesis by (auto simp: cpu_run_step)
      qed
    qed
  qed
  with assms(2) show ?thesis by blast
qed

text \<open>C6: A traced run and a plain run return together, with the same final state or the same
  fault; only what is written to the diagnostic stream differs.\<close>

theorem trace_transparent:
  "(\<exists>r. cpu_run True s con = Some r \<and> res_sim r q) \<longleftrightarrow>
   (\<exists>r. cpu_run False s con = Some r \<and> res_sim r q)"
  using cpu_run_sim con_sim_refl res_sim_sym res_sim_trans by meson

subsection \<open>Evaluating concrete states\<close>

lemmas fetch_eval = fetched_def mem_read32_outcome mem_write32_outcome word_fault_def
  word_at_put_same word_at_put_apart words_apart_def decode_def decode_defs opcode_of_def
  cpu_init_def NUM_REGS_def MEM_SIZE_def next_state_def reg_def set_reg_def set_result_def
  set_zn_def exec_add_def exec_sub_def Let_def

text \<open>A processor about to run the words of a program at address 0, with given registers.\<close>

definition boot :: "u32 list \<Rightarrow> u32 list \<Rightarrow> cpu" where
  "boot rs ws = (cpu_init (load_words mem_init 0 ws))\<lparr>regs := rs\<rparr>"

abbreviation ins_of :: "opcode \<Rightarrow> u8 \<Rightarrow> u8 \<Rightarrow> i32 \<Rightarrow> instruction" where
  "ins_of op rd rs im \<equiv> \<lparr>opcode = op, rdest = rd, rsrc = rs, imm = im\<rparr>"

lemma boot_ok: "length rs = 8 \<Longrightarrow> cpu_ok (boot rs ws)"
  by (simp add: boot_def cpu_ok_def NUM_REGS_def)

subsection \<open>Flags and signed comparison\<close>

text \<open>The flags of ADD: C is the unsigned carry out of 32 bits, O the signed overflow, Z and N
  describe the wrapped sum in the destination register.\<close>

theorem exec_add_flags:
  assumes "cpu_ok s" "rdest ins < 8"
  shows "let a = reg s (rdest ins); b = reg s (rsrc ins); s' = exec_add s ins in
     reg s' (rdest ins) = a + b \<and>
     (flag_c (flags s') \<longleftrightarrow> 2 ^ 32 \<le> unat a + unat b) \<and>
     (flag_o (flags s') \<longleftrightarrow>
        \<not> (- 2147483648 \<le> sint a + sint b \<and> sint a + sint b < 2147483648)) \<and>
     (flag_z (flags s') \<longleftrightarrow> a + b = 0) \<and> (flag_n (flags s') \<longleftrightarrow> sint (a + b) < 0)"
  using assms
  by (simp add: exec_add_def Let_def ucast_wide_add carry_bit add_overflow_bit
      bit31_sint [of "reg s (rdest ins) + reg s (rsrc ins)"]
      del: bit_and_iff bit_xor_iff bit_not_iff)

theorem exec_add_flags_witness:
  "let s' = exec_add (boot [0xFFFFFFFF, 2, 0, 0, 0, 0, 0, 0] []) (ins_of OP_ADD 0 1 0) in
   reg s' 0 = 1 \<and> flag_c (flags s') \<and> \<not> flag_o (flags s') \<and> \<not> flag_z (flags s')"
  using exec_add_flags [of "boot [0xFFFFFFFF, 2, 0, 0, 0, 0, 0, 0] []" "ins_of OP_ADD 0 1 0"]
  by (simp add: boot_ok Let_def) (simp add: boot_def reg_def)

lemma exec_sub_flags:
  assumes "cpu_ok s" "rdest ins < 8"
  shows "let a = reg s (rdest ins); b = reg s (rsrc ins); s' = exec_sub s ins in
     reg s' (rdest ins) = a - b \<and> (flag_c (flags s') \<longleftrightarrow> a < b) \<and>
     (flag_o (flags s') \<longleftrightarrow>
        \<not> (- 2147483648 \<le> sint a - sint b \<and> sint a - sint b < 2147483648)) \<and>
     (flag_z (flags s') \<longleftrightarrow> a = b) \<and> (flag_n (flags s') \<longleftrightarrow> sint (a - b) < 0)"
  using assms
  by (simp add: exec_sub_def Let_def sub_overflow_bit
      bit31_sint [of "reg s (rdest ins) - reg s (rsrc ins)"] del: bit_and_iff bit_xor_iff bit_not_iff)

lemma signed_less_flags:
  "(sint ((a :: u32) - b) < 0) \<noteq> (\<not> (- 2147483648 \<le> sint a - sint b \<and> sint a - sint b < 2147483648))
   \<longleftrightarrow> sint a < sint b"
  unfolding sint_sub_wrap Let_def using sint_u32_range [of a] sint_u32_range [of b] by auto

lemma sub_jl_condition:
  assumes "cpu_ok s" "rdest ins < 8"
  shows "flag_n (flags (exec_sub s ins)) \<noteq> flag_o (flags (exec_sub s ins)) \<longleftrightarrow>
    sint (reg s (rdest ins)) < sint (reg s (rsrc ins))"
  using exec_sub_flags [OF assms] signed_less_flags [of "reg s (rdest ins)" "reg s (rsrc ins)"]
  by (simp add: Let_def)

lemma sub_z_condition:
  assumes "cpu_ok s" "rdest ins < 8"
  shows "flag_z (flags (exec_sub s ins)) \<longleftrightarrow> sint (reg s (rdest ins)) = sint (reg s (rsrc ins))"
  using exec_sub_flags [OF assms] by (auto simp: Let_def intro: signed_word_eqI)

text \<open>C4: A conditional jump right after SUB branches on the signed comparison of the operands SUB
  had: JL on less, JG on greater, JZ on equal, JNZ on different, over the whole 32-bit range.\<close>

theorem sub_then_jump:
  assumes ok: "cpu_ok s"
    and sub: "fetched s ins" "opcode ins = OP_SUB" "cpu_step s con = Inr (s1, con1)"
    and jmp: "fetched s1 j" "cpu_step s1 con1 = Inr (s2, con2)"
  shows "let a = sint (reg s (rdest ins)); b = sint (reg s (rsrc ins));
             dest = (\<lambda>taken. if taken then imm j else pc s1 + 4) in
         (opcode j = OP_JL \<longrightarrow> pc s2 = dest (a < b)) \<and>
         (opcode j = OP_JG \<longrightarrow> pc s2 = dest (a > b)) \<and>
         (opcode j = OP_JZ \<longrightarrow> pc s2 = dest (a = b)) \<and>
         (opcode j = OP_JNZ \<longrightarrow> pc s2 = dest (a \<noteq> b))"
proof -
  have r: "rdest ins < 8" using fetched_regs [OF sub(1)] by simp
  have s1: "s1 = exec_sub (next_state s) ins"
    using sub step_fetched [OF sub(1)] by (simp add: exec_defs)
  have c: "flag_n (flags s1) \<noteq> flag_o (flags s1) \<longleftrightarrow>
      sint (reg s (rdest ins)) < sint (reg s (rsrc ins))"
    "flag_z (flags s1) \<longleftrightarrow> sint (reg s (rdest ins)) = sint (reg s (rsrc ins))"
    using sub_jl_condition [of "next_state s" ins] sub_z_condition [of "next_state s" ins] ok r
    by (simp_all add: s1)
  show ?thesis
    using jmp(2) c step_fetched [OF jmp(1), of con1] by (auto simp: exec_defs split: if_splits)
qed

theorem sub_then_jump_witness:
  "\<exists>s1 s2. cpu_step (boot [5, 9, 0, 0, 0, 0, 0, 0] [0x0C100000, 0x58000014]) (console0 []) =
       Inr (s1, console0 []) \<and>
     cpu_step s1 (console0 []) = Inr (s2, console0 []) \<and> pc s2 = 20"
proof -
  define s where "s = boot [5, 9, 0, 0, 0, 0, 0, 0] [0x0C100000, 0x58000014]"
  define i1 where "i1 = ins_of OP_SUB 0 1 0"
  define i2 where "i2 = ins_of OP_JL 0 0 20"
  define s1 where "s1 = exec_sub (next_state s) i1"
  define s2 where "s2 = (next_state s1)\<lparr>pc := 20\<rparr>"
  have f1: "fetched s i1" by (simp add: s_def boot_def i1_def fetch_eval)
  have st1: "cpu_step s (console0 []) = Inr (s1, console0 [])"
    using step_fetched [OF f1] by (simp add: i1_def s1_def exec_defs)
  have f2: "fetched s1 i2" by (simp add: s_def boot_def s1_def i1_def i2_def fetch_eval)
  have st2: "cpu_step s1 (console0 []) = Inr (s2, console0 [])"
    using step_fetched [OF f2]
    by (simp add: i2_def s2_def exec_defs) (simp add: s1_def s_def boot_def i1_def fetch_eval)
  have ok: "cpu_ok s" by (simp add: s_def boot_ok)
  from sub_then_jump [OF ok f1 _ st1 f2 st2] have "pc s2 = 20"
    by (simp add: i1_def i2_def s_def boot_def reg_def)
  with st1 st2 show ?thesis unfolding s_def by blast
qed

subsection \<open>The stack\<close>

text \<open>C7: What CALL pushes, RET pops: when the callee comes back to a RET with the stack pointer it
  was entered with and the pushed cell unchanged, execution continues after the CALL with the
  caller's stack pointer.\<close>

theorem call_ret:
  assumes call: "fetched s ins" "opcode ins = OP_CALL" "cpu_step s con = Inr (s1, con1)"
    and callee: "cpu_steps n s1 con1 = Inr (s2, con2)" "sp s2 = sp s1"
      "mem_read32 (mem s2) (sp s1) = mem_read32 (mem s1) (sp s1)"
    and ret: "fetched s2 j" "opcode j = OP_RET"
  shows "pc s1 = imm ins \<and>
    (\<exists>s3. cpu_step s2 con2 = Inr (s3, con2) \<and> pc s3 = pc s + 4 \<and> sp s3 = sp s \<and>
          regs s3 = regs s2 \<and> mem s3 = mem s2)"
proof -
  from call obtain m where m: "mem_write32 (mem s) (sp s - 4) (pc s + 4) = Inr m"
    and s1: "s1 = (next_state s)\<lparr>sp := sp s - 4, mem := m, pc := imm ins\<rparr>"
    using step_fetched [OF call(1), of con] by (auto simp: exec_defs res_bind_Inr_iff)
  have "mem_read32 (mem s2) (sp s2) = Inr (pc s + 4)"
    using callee mem32.rd_wr_same [OF m] by (simp add: s1)
  then show ?thesis
    using step_fetched [OF ret(1), of con2] ret(2) callee(2) by (simp add: exec_defs s1)
qed

theorem call_ret_witness:
  "\<exists>s1 s3. cpu_step (boot (replicate 8 0) [0x5C000008, 0x04000000, 0x60000000]) (console0 []) =
       Inr (s1, console0 []) \<and> pc s1 = 8 \<and>
     cpu_step s1 (console0 []) = Inr (s3, console0 []) \<and> pc s3 = 4 \<and> sp s3 = 65536"
proof -
  define s where "s = boot (replicate 8 0) [0x5C000008, 0x04000000, 0x60000000]"
  define i1 where "i1 = ins_of OP_CALL 0 0 8"
  define i2 where "i2 = ins_of OP_RET 0 0 0"
  define s1 where "s1 = (next_state s)\<lparr>sp := 65532, mem := put_word (mem s) 65532 4, pc := 8\<rparr>"
  have f1: "fetched s i1" by (simp add: s_def boot_def i1_def fetch_eval)
  have st1: "cpu_step s (console0 []) = Inr (s1, console0 [])"
    using step_fetched [OF f1] by (simp add: i1_def s1_def exec_defs)
      (simp add: s_def boot_def cpu_init_def MEM_SIZE_def mem_write32_outcome word_fault_def)
  have f2: "fetched s1 i2" by (simp add: s_def boot_def s1_def i2_def fetch_eval)
  have st0: "cpu_steps 0 s1 (console0 []) = Inr (s1, console0 [])" by simp
  from call_ret [OF f1 _ st1 st0 refl refl f2] show ?thesis
    using st1 by (auto simp: i1_def i2_def s_def boot_def cpu_init_def MEM_SIZE_def)
qed

text \<open>A POP that finds the stack pointer and the cell as a PUSH left them delivers the pushed
  register and restores the stack pointer.\<close>

theorem push_pop:
  assumes push: "fetched s ins" "opcode ins = OP_PUSH" "cpu_step s con = Inr (s1, con1)"
    and between: "cpu_steps n s1 con1 = Inr (s2, con2)" "cpu_ok s2" "sp s2 = sp s1"
      "mem_read32 (mem s2) (sp s1) = mem_read32 (mem s1) (sp s1)"
    and pop: "fetched s2 j" "opcode j = OP_POP"
  shows "\<exists>s3. cpu_step s2 con2 = Inr (s3, con2) \<and> reg s3 (rdest j) = reg s (rdest ins) \<and>
    sp s3 = sp s \<and> mem s3 = mem s2 \<and> (\<forall>r. r \<noteq> rdest j \<longrightarrow> reg s3 r = reg s2 r)"
proof -
  from push obtain m where m: "mem_write32 (mem s) (sp s - 4) (reg s (rdest ins)) = Inr m"
    and s1: "s1 = (next_state s)\<lparr>sp := sp s - 4, mem := m\<rparr>"
    using step_fetched [OF push(1), of con] by (auto simp: exec_defs res_bind_Inr_iff)
  have "mem_read32 (mem s2) (sp s2) = Inr (reg s (rdest ins))"
    using between mem32.rd_wr_same [OF m] by (simp add: s1)
  then show ?thesis
    using step_fetched [OF pop(1), of con2] pop(2) between(2,3) fetched_regs [OF pop(1)]
    by (simp add: exec_defs s1)
qed

theorem push_pop_witness:
  "\<exists>s1 s3. cpu_step (boot [7, 0, 0, 0, 0, 0, 0, 0] [0x40000000, 0x44800000]) (console0 []) =
       Inr (s1, console0 []) \<and>
     cpu_step s1 (console0 []) = Inr (s3, console0 []) \<and> reg s3 1 = 7 \<and> sp s3 = 65536"
proof -
  define s where "s = boot [7, 0, 0, 0, 0, 0, 0, 0] [0x40000000, 0x44800000]"
  define i1 where "i1 = ins_of OP_PUSH 0 0 0"
  define i2 where "i2 = ins_of OP_POP 1 0 0"
  define s1 where "s1 = (next_state s)\<lparr>sp := 65532, mem := put_word (mem s) 65532 7\<rparr>"
  have f1: "fetched s i1" by (simp add: s_def boot_def i1_def fetch_eval)
  have st1: "cpu_step s (console0 []) = Inr (s1, console0 [])"
    using step_fetched [OF f1] by (simp add: i1_def s1_def exec_defs)
      (simp add: s_def boot_def cpu_init_def MEM_SIZE_def mem_write32_outcome word_fault_def reg_def)
  have f2: "fetched s1 i2" by (simp add: s_def boot_def s1_def i2_def fetch_eval)
  have st0: "cpu_steps 0 s1 (console0 []) = Inr (s1, console0 [])" by simp
  have ok: "cpu_ok s1" by (simp add: s1_def s_def boot_ok)
  from push_pop [OF f1 _ st1 st0 ok refl refl f2] show ?thesis
    using st1 by (auto simp: i1_def i2_def s_def boot_def cpu_init_def MEM_SIZE_def reg_def)
qed

subsection \<open>The frame of a step\<close>

text \<open>C8: A step writes memory only in STORE, PUSH and CALL, and then only the four bytes of its
  target cell; a STORE to a device register writes no memory at all.\<close>

theorem step_memory_frame:
  assumes "fetched s ins" "cpu_step s con = Inr (s', con')"
    and "bytes (mem s') i \<noteq> bytes (mem s) i"
  shows "\<exists>a. write_target ins s = Some a \<and> in_cell a i \<and> unat a + 4 \<le> 65536"
proof -
  have ex: "exec_instr ins (next_state s) con = Inr (s', con')"
    using assms(1,2) step_fetched by simp
  have wt: "write_target ins (next_state s) = write_target ins s"
    by (simp add: write_target_def split: opcode.split)
  show ?thesis
  proof (cases "write_target ins s")
    case None
    with exec_instr_memory [OF ex] assms(3) show ?thesis by (simp add: wt)
  next
    case (Some a)
    with exec_instr_memory [OF ex] obtain v where v: "mem_write32 (mem s) a v = Inr (mem s')"
      by (auto simp: wt)
    then have "unat a + 4 \<le> 65536"
      using mem32.wr_ok_address [OF v] by (simp add: word_fault_None)
    moreover have "in_cell a i" using mem_write32_other [OF v, of i] assms(3) by auto
    ultimately show ?thesis using Some by simp
  qed
qed

theorem step_memory_frame_witness:
  "write_target (ins_of OP_PUSH 0 0 0) (boot [7, 0, 0, 0, 0, 0, 0, 0] [0x40000000]) = Some 65532 \<and>
   in_cell 65532 65532"
proof -
  define s where "s = boot [7, 0, 0, 0, 0, 0, 0, 0] [0x40000000]"
  define i where "i = ins_of OP_PUSH 0 0 0"
  define s1 where "s1 = (next_state s)\<lparr>sp := 65532, mem := put_word (mem s) 65532 7\<rparr>"
  have f: "fetched s i" by (simp add: s_def boot_def i_def fetch_eval)
  have st: "cpu_step s (console0 []) = Inr (s1, console0 [])"
    using step_fetched [OF f] by (simp add: i_def s1_def exec_defs)
      (simp add: s_def boot_def cpu_init_def MEM_SIZE_def mem_write32_outcome word_fault_def reg_def)
  have "bytes (mem s1) 65532 \<noteq> bytes (mem s) 65532"
    by (simp add: s1_def s_def boot_def cpu_init_def put_word_def mem_init_def)
  from step_memory_frame [OF f st this] show ?thesis
    by (auto simp: s_def i_def write_target_def boot_def cpu_init_def MEM_SIZE_def)
qed

text \<open>C9: With \<open>cpu_silent\<close> set, a step consumes no input and writes nothing but diagnostics, and
  what it does to the processor does not depend on what the console holds.\<close>

theorem silent_step:
  assumes "cpu_silent con" "cpu_silent con2" "cpu_step s con = Inr (s', con')"
  shows "con_sim con' con \<and> (\<exists>con2'. cpu_step s con2 = Inr (s', con2') \<and> con_sim con2' con2)"
proof -
  have same: "exec_instr ins t con = Inr (u, c) \<Longrightarrow> \<exists>d. exec_instr ins t con2 = Inr (u, d)" for ins t u c
    using assms(1,2)
    by (cases "opcode ins") (auto simp: exec_defs res_bind_Inr_iff mmio_load_silent mmio_store_def)
  from assms(3) obtain ins where ins: "fetched s ins" "exec_instr ins (next_state s) con = Inr (s', con')"
    by (rule step_Inr_fetched)
  with same step_fetched obtain d where "cpu_step s con2 = Inr (s', d)" by metis
  moreover note cpu_step_silent [OF assms(2) this] cpu_step_silent [OF assms(1,3)]
  ultimately show ?thesis by blast
qed

theorem silent_step_witness:
  "\<exists>c. cpu_step (boot (replicate 8 0) [0x68000000]) ((console0 ''7'')\<lparr>cpu_silent := True\<rparr>) =
     Inr (next_state (boot (replicate 8 0) [0x68000000]), c) \<and> con_out c = [] \<and> con_in c = ''7''"
proof -
  define s where "s = boot (replicate 8 0) [0x68000000]"
  define c where "c = (console0 [])\<lparr>cpu_silent := True\<rparr>"
  define d where "d = (console0 ''7'')\<lparr>cpu_silent := True\<rparr>"
  have f: "fetched s (ins_of OP_OUT 0 0 0)" by (simp add: s_def boot_def fetch_eval)
  have "cpu_step s c = Inr (next_state s, c)"
    using step_fetched [OF f] by (simp add: exec_defs c_def)
  with silent_step [of c d s "next_state s" c] obtain d' where
    "cpu_step s d = Inr (next_state s, d')" "con_sim d' d"
    by (auto simp: c_def d_def)
  then show ?thesis
    unfolding s_def d_def by (auto simp: con_sim_fields console0_def)
qed

subsection \<open>Faults, exactly\<close>

text \<open>The fault of an instruction's operands, from the state it executes in.\<close>

definition operand_fault :: "instruction \<Rightarrow> cpu \<Rightarrow> fault option" where
  "operand_fault ins s = (case opcode ins of
     OP_SHL \<Rightarrow> if reg s (rsrc ins) < 32 then None else Some (BadShift (reg s (rsrc ins)))
   | OP_SHR \<Rightarrow> if reg s (rsrc ins) < 32 then None else Some (BadShift (reg s (rsrc ins)))
   | OP_LOAD \<Rightarrow> (let addr = reg s (rsrc ins) + imm ins
                 in if mmio_is_device addr then None else word_fault 4 addr)
   | OP_STORE \<Rightarrow> (let addr = reg s (rdest ins) + imm ins
                  in if mmio_is_device addr then None else word_fault 4 addr)
   | OP_PUSH \<Rightarrow> word_fault 4 (sp s - 4)
   | OP_CALL \<Rightarrow> word_fault 4 (sp s - 4)
   | OP_POP \<Rightarrow> word_fault 4 (sp s)
   | OP_RET \<Rightarrow> word_fault 4 (sp s)
   | _ \<Rightarrow> None)"

lemma exec_instr_fault: "exec_instr ins s con = Inl e \<longleftrightarrow> operand_fault ins s = Some e"
  by (cases "opcode ins")
    (auto simp: exec_defs operand_fault_def res_bind_Inl_iff shl32_def shr32_def mem32.rd_faults
      mem32.wr_faults split: prod.split)

text \<open>C10: A step faults exactly when the word at the program counter cannot be read or the fetched
  instruction's operand faults, and the fault is theirs.\<close>

theorem step_fault_iff:
  "cpu_step s con = Inl e \<longleftrightarrow>
   word_fault 4 (pc s) = Some e \<or> (\<exists>ins. fetched s ins \<and> operand_fault ins s = Some e)"
proof (cases "mem_read32 (mem s) (pc s)")
  case (Inl f)
  then have "word_fault 4 (pc s) = Some f" using mem32.rd_faults by blast
  with Inl show ?thesis by (auto simp: cpu_step_def fetched_def)
next
  case (Inr raw)
  then have f: "fetched s ins \<longleftrightarrow> ins = decode raw" for ins by (auto simp: fetched_def)
  have "word_fault 4 (pc s) = None" using Inr by (rule mem32.rd_ok_address)
  moreover have "operand_fault (decode raw) (next_state s) = operand_fault (decode raw) s"
    by (simp add: operand_fault_def split: opcode.split)
  ultimately show ?thesis
    using step_fetched [of s "decode raw" con] by (simp add: f exec_instr_fault)
qed

text \<open>C11: The emulator has undefined behaviour in one step exactly when an address in the last four
  bytes below $2^{32}$ is fetched from, loaded, stored or reached by the stack pointer, or a
  register shifts by 32 or more: \<open>check_bounds\<close> and the shift cases let these through.\<close>

theorem step_undefined_iff:
  "(\<exists>e. cpu_step s con = Inl e \<and> is_undefined e) \<longleftrightarrow>
   (let last = (\<lambda>a :: u32. 4294967292 \<le> a) in
    last (pc s) \<or>
    (\<exists>ins. fetched s ins \<and>
      (opcode ins \<in> {OP_SHL, OP_SHR} \<and> 32 \<le> reg s (rsrc ins) \<or>
       opcode ins = OP_LOAD \<and> last (reg s (rsrc ins) + imm ins) \<or>
       opcode ins = OP_STORE \<and> last (reg s (rdest ins) + imm ins) \<or>
       opcode ins \<in> {OP_PUSH, OP_CALL} \<and> last (sp s - 4) \<or>
       opcode ins \<in> {OP_POP, OP_RET} \<and> last (sp s))))"
proof -
  have wf: "(\<exists>e. word_fault 4 a = Some e \<and> is_undefined e) \<longleftrightarrow> 4294967292 \<le> a" for a
    by (auto simp: word_fault_def word_le_nat_alt)
  have dev: "mmio_is_device a \<Longrightarrow> \<not> 4294967292 \<le> a" for a
    by (auto simp: mmio_is_device_def mmio_defs word_le_nat_alt word_less_nat_alt)
  have op: "(\<exists>e. operand_fault ins s = Some e \<and> is_undefined e) \<longleftrightarrow>
      (opcode ins \<in> {OP_SHL, OP_SHR} \<and> 32 \<le> reg s (rsrc ins) \<or>
       opcode ins = OP_LOAD \<and> 4294967292 \<le> reg s (rsrc ins) + imm ins \<or>
       opcode ins = OP_STORE \<and> 4294967292 \<le> reg s (rdest ins) + imm ins \<or>
       opcode ins \<in> {OP_PUSH, OP_CALL} \<and> 4294967292 \<le> sp s - 4 \<or>
       opcode ins \<in> {OP_POP, OP_RET} \<and> 4294967292 \<le> sp s)" for ins
    using wf dev by (cases "opcode ins") (auto simp: operand_fault_def Let_def not_less)
  show ?thesis
    unfolding step_fault_iff Let_def using wf [of "pc s"] op by blast
qed

end
