(* ===== verification/Parser.thy ===== *)
theory Parser
  imports Lexer Isa
begin

text \<open>
  The assembler's parser (\<open>src/parser.c\<close>, \<open>Stmt\<close> of \<open>include/assembler.h\<close>): recursive
  descent over the token array, one statement per call of the loop body. Every read of the
  array is bounds-checked in the model (\<open>BadIndex\<close> is a read past the array, undefined in C),
  so that staying inside is a theorem and not a convention: \<open>parse\<close> on the lexer's output
  always returns.
\<close>

subsection \<open>Mnemonics\<close>

definition MNEMONICS :: "(string \<times> opcode) list" where
  "MNEMONICS = [
    (''NOP'', OP_NOP), (''HALT'', OP_HALT), (''RET'', OP_RET),
    (''ADD'', OP_ADD), (''SUB'', OP_SUB), (''MUL'', OP_MUL),
    (''DIV'', OP_DIV), (''AND'', OP_AND), (''OR'', OP_OR),
    (''XOR'', OP_XOR), (''SHL'', OP_SHL), (''SHR'', OP_SHR),
    (''MOV'', OP_MOV),
    (''NOT'', OP_NOT), (''PUSH'', OP_PUSH), (''POP'', OP_POP),
    (''IN'', OP_IN), (''OUT'', OP_OUT),
    (''LOADI'', OP_LOADI),
    (''LOAD'', OP_LOAD),
    (''STORE'', OP_STORE),
    (''JMP'', OP_JMP), (''JZ'', OP_JZ), (''JNZ'', OP_JNZ),
    (''JG'', OP_JG), (''JL'', OP_JL), (''CALL'', OP_CALL)]"

definition find_mnem :: "string \<Rightarrow> (string \<times> opcode) option" where
  "find_mnem name = find (\<lambda>m. strcaseeq name (fst m)) MNEMONICS"

subsection \<open>Statements\<close>

datatype stmttype = ST_INSTR | ST_LABEL | ST_ORG | ST_WORD

text \<open>\<open>st_op\<close>, \<open>st_rdest\<close>, \<open>st_rsrc\<close> and \<open>st_imm\<close> are the fields of an instruction, the label
  fields are the C strings of their 64-byte arrays.\<close>

record stmt =
  st_type :: stmttype
  st_line :: nat
  st_name :: string
  st_op :: opcode
  st_rdest :: u8
  st_rsrc :: u8
  st_imm :: i32
  st_imm_label :: string
  st_value :: u32
  st_word_label :: string
  st_address :: u32

definition stmt_of :: "stmttype \<Rightarrow> nat \<Rightarrow> stmt" where
  "stmt_of ty line = \<lparr>st_type = ty, st_line = line, st_name = [], st_op = OP_NOP, st_rdest = 0,
     st_rsrc = 0, st_imm = 0, st_imm_label = [], st_value = 0, st_word_label = [], st_address = 0\<rparr>"

text \<open>\<open>strncpy(dst, src, sizeof dst - 1)\<close> into a zeroed array of 64 characters.\<close>

definition copy_label :: "string \<Rightarrow> string" where
  "copy_label s = take (TEXT_SIZE - 1) s"

subsection \<open>The parser state\<close>

text \<open>\<open>struct P\<close>, with the statement vector that is passed along and the text printed on
  \<open>stderr\<close>.\<close>

record pstate =
  p_toks :: "token list"
  p_i :: nat
  p_error :: bool
  p_out :: "stmt list"
  p_msgs :: string

definition tok_at :: "pstate \<Rightarrow> nat \<Rightarrow> token res" where
  "tok_at p k = (if k < length (p_toks p) then Inr (p_toks p ! k) else Inl (BadIndex (of_nat k)))"

definition peek :: "pstate \<Rightarrow> token res" where
  "peek p = tok_at p (p_i p)"

definition skip :: "pstate \<Rightarrow> pstate" where
  "skip p = p\<lparr>p_i := p_i p + 1\<rparr>"

definition parse_error :: "nat \<Rightarrow> string \<Rightarrow> pstate \<Rightarrow> pstate" where
  "parse_error line what p = p\<lparr>p_error := True,
     p_msgs := p_msgs p @ ''parse error line '' @ fmt_base 10 line @ '': '' @ what @ ''\<newline>''\<rparr>"

definition push_stmt :: "stmt \<Rightarrow> pstate \<Rightarrow> pstate" where
  "push_stmt s p = p\<lparr>p_out := p_out p @ [s]\<rparr>"

definition expect :: "toktype \<Rightarrow> string \<Rightarrow> pstate \<Rightarrow> (bool \<times> pstate) res" where
  "expect tt what p = res_bind (peek p) (\<lambda>t.
     if tok_type t \<noteq> tt then Inr (False, parse_error (tok_line t) (''expected '' @ what) p)
     else Inr (True, skip p))"

text \<open>\<open>(int32_t)v\<close> of a \<open>long\<close>: the low 32 bits.\<close>

definition to_int32 :: "int \<Rightarrow> i32" where
  "to_int32 v = word_of_int v"

text \<open>\<open>*out\<close> is written only when the function returns 1.\<close>

definition parse_signed :: "pstate \<Rightarrow> (i32 option \<times> pstate) res" where
  "parse_signed p = res_bind (peek p) (\<lambda>t.
     (let neg = (tok_type t = T_MINUS); p = (if neg then skip p else p) in
      res_bind (peek p) (\<lambda>t.
        if tok_type t \<noteq> T_NUM then
          Inr (None, parse_error (tok_line t) ''expected number'' p)
        else
          (let v = tok_num t; p = skip p
           in Inr (Some (to_int32 (if neg then - v else v)), p)))))"

definition parse_imm_or_label :: "stmt \<Rightarrow> pstate \<Rightarrow> (stmt \<times> pstate) res" where
  "parse_imm_or_label s p = res_bind (peek p) (\<lambda>t.
     if tok_type t = T_IDENT then
       Inr (s\<lparr>st_imm_label := copy_label (tok_text t)\<rparr>, skip p)
     else res_bind (parse_signed p) (\<lambda>(v, p).
       Inr (case v of None \<Rightarrow> s | Some v \<Rightarrow> s\<lparr>st_imm := v\<rparr>, p)))"

text \<open>\<open>parse_mem(p, base, off)\<close>: the values of the two out-parameters afterwards, given
  their values before.\<close>

definition parse_mem :: "u8 \<Rightarrow> i32 \<Rightarrow> pstate \<Rightarrow> ((u8 \<times> i32) \<times> pstate) res" where
  "parse_mem base off p = res_bind (expect T_LBRACK (quoted ''['') p) (\<lambda>(ok, p).
     if \<not> ok then Inr ((base, off), p) else
     res_bind (peek p) (\<lambda>t.
     if tok_type t \<noteq> T_REG then
       Inr ((base, off), parse_error (tok_line t) ''expected register in []'' p) else
     (let base = of_nat (tok_reg t); p = skip p; off = 0 in
     res_bind (peek p) (\<lambda>t.
     if tok_type t = T_PLUS \<or> tok_type t = T_MINUS then
       (let neg = (tok_type t = T_MINUS); p = skip p in
        res_bind (peek p) (\<lambda>t.
        if tok_type t \<noteq> T_NUM then
          Inr ((base, off), parse_error (tok_line t) ''expected offset'' p) else
        (let v = tok_num t; p = skip p; off = to_int32 (if neg then - v else v) in
         res_bind (expect T_RBRACK (quoted '']'') p) (\<lambda>(_, p). Inr ((base, off), p)))))
     else res_bind (expect T_RBRACK (quoted '']'') p) (\<lambda>(_, p). Inr ((base, off), p))))))"

definition expect_reg :: "pstate \<Rightarrow> (u8 \<times> pstate) res" where
  "expect_reg p = res_bind (peek p) (\<lambda>t.
     if tok_type t \<noteq> T_REG then Inr (0, parse_error (tok_line t) ''expected register'' p)
     else Inr (of_nat (tok_reg t), skip p))"

text \<open>The operands of a mnemonic, by its format.\<close>

definition parse_operands :: "opformat \<Rightarrow> stmt \<Rightarrow> pstate \<Rightarrow> (stmt \<times> pstate) res" where
  "parse_operands f s p = (case f of
     OPF_NONE \<Rightarrow> Inr (s, p)
   | OPF_RD_RS \<Rightarrow>
       res_bind (expect_reg p) (\<lambda>(r, p). let s = s\<lparr>st_rdest := r\<rparr> in
       res_bind (expect T_COMMA (quoted '','') p) (\<lambda>(_, p).
       res_bind (expect_reg p) (\<lambda>(r, p). Inr (s\<lparr>st_rsrc := r\<rparr>, p))))
   | OPF_RD \<Rightarrow> res_bind (expect_reg p) (\<lambda>(r, p). Inr (s\<lparr>st_rdest := r\<rparr>, p))
   | OPF_RD_IMM \<Rightarrow>
       res_bind (expect_reg p) (\<lambda>(r, p). let s = s\<lparr>st_rdest := r\<rparr> in
       res_bind (expect T_COMMA (quoted '','') p) (\<lambda>(_, p). parse_imm_or_label s p))
   | OPF_RD_MEM \<Rightarrow>
       res_bind (expect_reg p) (\<lambda>(r, p). let s = s\<lparr>st_rdest := r\<rparr> in
       res_bind (expect T_COMMA (quoted '','') p) (\<lambda>(_, p).
       res_bind (parse_mem (st_rsrc s) (st_imm s) p) (\<lambda>((b, off), p).
         Inr (s\<lparr>st_rsrc := b, st_imm := off\<rparr>, p))))
   | OPF_MEM_RS \<Rightarrow>
       res_bind (parse_mem (st_rdest s) (st_imm s) p) (\<lambda>((b, off), p).
         let s = s\<lparr>st_rdest := b, st_imm := off\<rparr> in
       res_bind (expect T_COMMA (quoted '','') p) (\<lambda>(_, p).
       res_bind (expect_reg p) (\<lambda>(r, p). Inr (s\<lparr>st_rsrc := r\<rparr>, p))))
   | OPF_IMM \<Rightarrow> parse_imm_or_label s p)"

definition parse_instr :: "string \<times> opcode \<Rightarrow> nat \<Rightarrow> pstate \<Rightarrow> pstate res" where
  "parse_instr m line p =
     (let s = (stmt_of ST_INSTR line)\<lparr>st_op := snd m\<rparr> in
      res_bind (parse_operands (opcode_format (snd m)) s p) (\<lambda>(s, p).
        Inr (if \<not> p_error p then push_stmt s p else p)))"

subsection \<open>Statements and the loop\<close>

text \<open>
  A directive after its token. In \<open>.word\<close> the value is indeterminate when \<open>parse_signed\<close>
  fails; the statement is then discarded with all others, and the model leaves it 0.
\<close>

definition parse_directive :: "token \<Rightarrow> pstate \<Rightarrow> pstate res" where
  "parse_directive tk p =
     (if strcaseeq (tok_text tk) ''org'' then
        res_bind (parse_signed p) (\<lambda>(v, p).
          Inr (case v of None \<Rightarrow> p
               | Some v \<Rightarrow> push_stmt ((stmt_of ST_ORG (tok_line tk))\<lparr>st_value := v\<rparr>) p))
      else if strcaseeq (tok_text tk) ''word'' then
        (let s = stmt_of ST_WORD (tok_line tk) in
         res_bind (peek p) (\<lambda>t.
           if tok_type t = T_IDENT then
             Inr (push_stmt (s\<lparr>st_word_label := copy_label (tok_text t)\<rparr>) (skip p))
           else res_bind (parse_signed p) (\<lambda>(v, p).
             Inr (push_stmt (case v of None \<Rightarrow> s | Some v \<Rightarrow> s\<lparr>st_value := v\<rparr>) p))))
      else Inr (parse_error (tok_line tk) (''unknown directive .'' @ tok_text tk) p))"

text \<open>The body of the \<open>while\<close> loop of \<open>parse\<close>, \<open>tk\<close> the token it looks at.\<close>

definition parse_step :: "token \<Rightarrow> pstate \<Rightarrow> pstate res" where
  "parse_step tk p =
     (if tok_type tk = T_NEWLINE then Inr (skip p)
      else if tok_type tk = T_DIRECTIVE then parse_directive tk (skip p)
      else if tok_type tk = T_IDENT then
        res_bind (tok_at p (p_i p + 1)) (\<lambda>t1.
          if tok_type t1 = T_COLON then
            Inr ((push_stmt ((stmt_of ST_LABEL (tok_line tk))\<lparr>st_name := copy_label (tok_text tk)\<rparr>) p)
                   \<lparr>p_i := p_i p + 2\<rparr>)
          else (case find_mnem (tok_text tk) of
              None \<Rightarrow> Inr (parse_error (tok_line tk)
                        (''unknown mnemonic '' @ quoted (tok_text tk)) p)
            | Some m \<Rightarrow> parse_instr m (tok_line tk) (skip p)))
      else Inr (parse_error (tok_line tk) ''unexpected token'' p))"

subsection \<open>Progress\<close>

text \<open>The parser never moves back in the same token array, and never clears an error.\<close>

definition moved :: "pstate \<Rightarrow> pstate \<Rightarrow> bool" where
  "moved p q = (p_toks q = p_toks p \<and> p_i p \<le> p_i q \<and> (p_error p \<longrightarrow> p_error q))"

lemma moved_refl [simp]: "moved p p"
  by (simp add: moved_def)

lemma moved_trans: "moved p q \<Longrightarrow> moved q r \<Longrightarrow> moved p r"
  by (auto simp: moved_def)

lemma moved_ops [simp]:
  "moved p (skip p)" "moved p (parse_error l w p)" "moved p (push_stmt s p)"
  by (simp_all add: moved_def skip_def parse_error_def push_stmt_def)

lemma moved_ops_right [simp]:
  "moved p q \<Longrightarrow> moved p (skip q)" "moved p q \<Longrightarrow> moved p (parse_error l w q)"
  "moved p q \<Longrightarrow> moved p (push_stmt s q)"
  by (auto intro: moved_trans)

lemma expect_moved: "expect tt w p = Inr (b, q) \<Longrightarrow> moved p q"
  by (auto simp: expect_def res_bind_Inr_iff split: if_splits)

lemma expect_reg_moved: "expect_reg p = Inr (b, q) \<Longrightarrow> moved p q"
  by (auto simp: expect_reg_def res_bind_Inr_iff split: if_splits)

lemma parse_signed_moved: "parse_signed p = Inr (b, q) \<Longrightarrow> moved p q"
  by (auto simp: parse_signed_def Let_def res_bind_Inr_iff split: if_splits)

lemma parse_imm_or_label_moved: "parse_imm_or_label s p = Inr (b, q) \<Longrightarrow> moved p q"
  by (auto simp: parse_imm_or_label_def res_bind_Inr_iff split: if_splits dest: parse_signed_moved)

lemma parse_mem_moved:
  assumes "parse_mem b f p = Inr (x, q)" shows "moved p q"
proof -
  obtain ok p1 where p1: "expect T_LBRACK (quoted ''['') p = Inr (ok, p1)"
    using assms by (auto simp: parse_mem_def res_bind_Inr_iff)
  then have "moved p p1" by (rule expect_moved)
  moreover have "moved p1 q"
    using assms p1 by (auto simp: parse_mem_def Let_def res_bind_Inr_iff split: if_splits
        dest!: expect_moved intro: moved_trans [rotated])
  ultimately show ?thesis by (rule moved_trans)
qed

lemmas moved_dests = expect_moved expect_reg_moved parse_signed_moved parse_imm_or_label_moved
  parse_mem_moved

lemma parse_operands_moved: "parse_operands f s p = Inr (b, q) \<Longrightarrow> moved p q"
  by (auto simp: parse_operands_def Let_def res_bind_Inr_iff split: opformat.splits prod.splits
      dest!: moved_dests) (meson moved_trans)+

lemma parse_instr_moved: "parse_instr m l p = Inr q \<Longrightarrow> moved p q"
  by (auto simp: parse_instr_def Let_def res_bind_Inr_iff dest!: parse_operands_moved split: if_splits)

lemma parse_directive_moved: "parse_directive t p = Inr q \<Longrightarrow> moved p q"
  by (auto simp: parse_directive_def Let_def res_bind_Inr_iff dest!: parse_signed_moved
      split: if_splits option.splits)

lemma parse_step_progress:
  assumes "parse_step tk p = Inr q" "\<not> p_error q"
  shows "p_toks q = p_toks p \<and> p_i p < p_i q"
proof -
  have label: "moved (skip p) ((push_stmt s p)\<lparr>p_i := p_i p + 2\<rparr>)" for s
    by (simp add: moved_def skip_def push_stmt_def)
  have "moved (skip p) q"
    using assms
    by (auto simp: parse_step_def res_bind_Inr_iff parse_error_def label simp del: add_2_eq_Suc'
        split: if_splits option.splits dest: parse_directive_moved parse_instr_moved)
  then show ?thesis by (simp add: moved_def skip_def)
qed

text \<open>The loop: each turn takes at least one token or stops at an error.\<close>

function parse_loop :: "pstate \<Rightarrow> pstate res" where
  "parse_loop p = res_bind (peek p) (\<lambda>tk.
     if tok_type tk \<noteq> T_EOF \<and> \<not> p_error p
     then res_bind (parse_step tk p) parse_loop
     else Inr p)"
  by pat_completeness auto

termination
proof (relation "measure (\<lambda>p. if p_error p then 0 else Suc (length (p_toks p) - p_i p))")
  fix p q :: pstate and tk
  assume tk: "peek p = Inr tk" "tok_type tk \<noteq> T_EOF \<and> \<not> p_error p" and q: "parse_step tk p = Inr q"
  have "p_i p < length (p_toks p)" using tk(1) by (simp add: peek_def tok_at_def split: if_splits)
  with tk(2) parse_step_progress [OF q]
  show "(q, p) \<in> measure (\<lambda>p. if p_error p then 0 else Suc (length (p_toks p) - p_i p))"
    by auto
qed simp

declare parse_loop.simps [simp del]

text \<open>
  \<open>parse\<close> returns \<open>NULL\<close> on an error, and also when there is no statement at all: the
  vector is allocated by the first \<open>push\<close>. The second component is the text on \<open>stderr\<close>.
\<close>

definition parse :: "token list \<Rightarrow> (stmt list option \<times> string) res" where
  "parse toks =
     res_bind (parse_loop \<lparr>p_toks = toks, p_i = 0, p_error = False, p_out = [], p_msgs = []\<rparr>) (\<lambda>p.
       Inr (if p_error p \<or> p_out p = [] then None else Some (p_out p), p_msgs p))"

subsection \<open>The parser stays inside the token array\<close>

definition stmt_ok :: "stmt \<Rightarrow> bool" where
  "stmt_ok s = (st_rdest s < 8 \<and> st_rsrc s < 8 \<and> op_known (st_op s) \<and>
     length (st_name s) < TEXT_SIZE \<and> length (st_imm_label s) < TEXT_SIZE \<and>
     length (st_word_label s) < TEXT_SIZE)"

definition p_ok :: "pstate \<Rightarrow> bool" where
  "p_ok p = (ends_in_eof (p_toks p) \<and> (\<forall>t \<in> set (p_toks p). token_ok t) \<and>
     p_i p < length (p_toks p) \<and> (\<forall>s \<in> set (p_out p). stmt_ok s))"

lemma eof_only_last:
  assumes "ends_in_eof ts" "k < length ts" "tok_type (ts ! k) \<noteq> T_EOF"
  shows "Suc k < length ts"
  using assms by (auto simp: ends_in_eof_def nth_append less_Suc_eq split: if_splits)

lemma peek_ok:
  "p_ok p \<Longrightarrow> returns (\<lambda>t. token_ok t \<and> peek p = Inr t \<and> (tok_type t \<noteq> T_EOF \<longrightarrow> p_ok (skip p))) (peek p)"
  by (auto simp: peek_def tok_at_def p_ok_def skip_def eof_only_last)

lemma p_ok_ops [simp]:
  "p_ok (parse_error l w p) = p_ok p" "stmt_ok s \<Longrightarrow> p_ok (push_stmt s p) = p_ok p"
  by (auto simp: p_ok_def parse_error_def push_stmt_def)

lemma stmt_ok_of [simp]: "stmt_ok (stmt_of ty line)"
  by (simp add: stmt_ok_def stmt_of_def TEXT_SIZE_def)

lemma stmt_ok_updates [simp]:
  "stmt_ok s \<Longrightarrow> r < 8 \<Longrightarrow> stmt_ok (s\<lparr>st_rdest := r\<rparr>)"
  "stmt_ok s \<Longrightarrow> r < 8 \<Longrightarrow> stmt_ok (s\<lparr>st_rsrc := r\<rparr>)"
  "stmt_ok s \<Longrightarrow> stmt_ok (s\<lparr>st_imm := v\<rparr>)" "stmt_ok s \<Longrightarrow> stmt_ok (s\<lparr>st_value := u\<rparr>)"
  "stmt_ok s \<Longrightarrow> stmt_ok (s\<lparr>st_name := copy_label t\<rparr>)"
  "stmt_ok s \<Longrightarrow> stmt_ok (s\<lparr>st_imm_label := copy_label t\<rparr>)"
  "stmt_ok s \<Longrightarrow> stmt_ok (s\<lparr>st_word_label := copy_label t\<rparr>)"
  "stmt_ok s \<Longrightarrow> op_known op \<Longrightarrow> stmt_ok (s\<lparr>st_op := op\<rparr>)"
  by (auto simp: stmt_ok_def copy_label_def TEXT_SIZE_def)

lemma token_reg_less: "token_ok t \<Longrightarrow> (of_nat (tok_reg t) :: u8) < 8"
  by (simp add: token_ok_def word_less_nat_alt unat_of_nat)

lemma expect_ok: "p_ok p \<Longrightarrow> tt \<noteq> T_EOF \<Longrightarrow> returns (\<lambda>(b, q). p_ok q) (expect tt w p)"
  unfolding expect_def by (rule returns_bind, erule peek_ok) auto

lemma expect_reg_ok: "p_ok p \<Longrightarrow> returns (\<lambda>(r, q). r < 8 \<and> p_ok q) (expect_reg p)"
  unfolding expect_reg_def by (rule returns_bind, erule peek_ok) (auto simp: token_reg_less)

lemma peek_num_ok:
  assumes "p_ok p"
  shows "returns (\<lambda>(v, q). p_ok q) (res_bind (peek p) (\<lambda>t.
    if tok_type t \<noteq> T_NUM then Inr (None, parse_error (tok_line t) w p)
    else Inr (Some (g t), skip p)))"
  using assms by (intro returns_bind [OF peek_ok]) auto

lemma parse_signed_ok: "p_ok p \<Longrightarrow> returns (\<lambda>(v, q). p_ok q) (parse_signed p)"
  unfolding parse_signed_def Let_def
  by (rule returns_bind, erule peek_ok) (auto intro!: peek_num_ok)

lemma parse_imm_or_label_ok:
  "p_ok p \<Longrightarrow> stmt_ok s \<Longrightarrow> returns (\<lambda>(s, q). stmt_ok s \<and> p_ok q) (parse_imm_or_label s p)"
  unfolding parse_imm_or_label_def
  by (rule returns_bind, erule peek_ok)
    (auto intro!: returns_bind [OF parse_signed_ok] split: option.splits)

lemma close_ok:
  "p_ok p \<Longrightarrow> b < 8 \<Longrightarrow> returns (\<lambda>((b, f), q). b < 8 \<and> p_ok q)
    (res_bind (expect T_RBRACK w p) (\<lambda>(_, p). Inr ((b, f), p)))"
  by (rule returns_bind [OF expect_ok]) auto

lemma parse_mem_ok:
  assumes "p_ok p" "b < 8"
  shows "returns (\<lambda>((b, f), q). b < 8 \<and> p_ok q) (parse_mem b f p)"
  unfolding parse_mem_def Let_def
proof (rule returns_bind [OF expect_ok [OF assms(1)]], simp, clarify)
  fix ok q assume q: "p_ok q"
  have offset: "returns (\<lambda>((b, f), q). b < 8 \<and> p_ok q) (res_bind (peek q) (\<lambda>t.
      if tok_type t \<noteq> T_NUM then Inr ((b, 0), parse_error (tok_line t) ''expected offset'' q)
      else res_bind (expect T_RBRACK (quoted '']'') (skip q)) (\<lambda>(_, p). Inr ((b, g t), p))))"
    if "p_ok q" "b < 8" for q b and g :: "token \<Rightarrow> i32"
    using that by (intro returns_bind [OF peek_ok]) (auto intro: close_ok)
  have base: "returns (\<lambda>((b, f), q). b < 8 \<and> p_ok q) (res_bind (peek q) (\<lambda>t.
      if tok_type t = T_PLUS \<or> tok_type t = T_MINUS then
        res_bind (peek (skip q)) (\<lambda>u.
        if tok_type u \<noteq> T_NUM then Inr ((b, 0), parse_error (tok_line u) ''expected offset'' (skip q))
        else res_bind (expect T_RBRACK (quoted '']'') (skip (skip q))) (\<lambda>(_, p). Inr ((b, g t u), p)))
      else res_bind (expect T_RBRACK (quoted '']'') q) (\<lambda>(_, p). Inr ((b, 0), p))))"
    if "p_ok q" "b < 8" for q b and g :: "token \<Rightarrow> token \<Rightarrow> i32"
    using that by (intro returns_bind [OF peek_ok]) (auto intro: close_ok offset)
  show "returns (\<lambda>((b, f), q). b < 8 \<and> p_ok q)
     (if \<not> ok then Inr ((b, f), q) else
     res_bind (peek q) (\<lambda>t.
     if tok_type t \<noteq> T_REG then
       Inr ((b, f), parse_error (tok_line t) ''expected register in []'' q) else
     res_bind (peek (skip q)) (\<lambda>ta.
     if tok_type ta = T_PLUS \<or> tok_type ta = T_MINUS then
        res_bind (peek (skip (skip q))) (\<lambda>tb.
        if tok_type tb \<noteq> T_NUM then
          Inr ((of_nat (tok_reg t), 0), parse_error (tok_line tb) ''expected offset'' (skip (skip q))) else
         res_bind (expect T_RBRACK (quoted '']'') (skip (skip (skip q)))) (\<lambda>(_, p).
           Inr ((of_nat (tok_reg t), to_int32 (if tok_type ta = T_MINUS then - tok_num tb else tok_num tb)), p)))
     else res_bind (expect T_RBRACK (quoted '']'') (skip q)) (\<lambda>(_, p). Inr ((of_nat (tok_reg t), 0), p)))))"
    using q assms(2) by (auto intro!: returns_bind [OF peek_ok [OF q]] base token_reg_less)
qed

lemma parse_operands_ok:
  assumes "p_ok p" "stmt_ok s"
  shows "returns (\<lambda>(s, q). stmt_ok s \<and> p_ok q) (parse_operands f s p)"
proof -
  have m: "stmt_ok s \<Longrightarrow> st_rdest s < 8 \<and> st_rsrc s < 8" for s by (simp add: stmt_ok_def)
  show ?thesis
    using assms m
    by (cases f) (auto simp: parse_operands_def Let_def intro!: parse_imm_or_label_ok
      returns_bind [OF expect_reg_ok] returns_bind [OF expect_ok] returns_bind [OF parse_mem_ok])
qed

lemma find_mnem_known: "find_mnem name = Some m \<Longrightarrow> op_known (snd m)"
  by (auto simp: find_mnem_def MNEMONICS_def split: if_splits)

lemma parse_instr_ok:
  "p_ok p \<Longrightarrow> op_known (snd m) \<Longrightarrow> returns p_ok (parse_instr m line p)"
  unfolding parse_instr_def Let_def
  by (rule returns_bind [OF parse_operands_ok]) auto

lemma parse_directive_ok: "p_ok p \<Longrightarrow> returns p_ok (parse_directive tk p)"
  by (auto simp: parse_directive_def Let_def split: option.split
      intro!: returns_bind [OF parse_signed_ok] returns_bind [OF peek_ok])

lemma parse_step_ok:
  assumes p: "p_ok p" and tk: "peek p = Inr tk" "tok_type tk \<noteq> T_EOF"
  shows "returns p_ok (parse_step tk p)"
proof -
  have skip: "p_ok (skip p)" using peek_ok [OF p] tk by simp
  have next1: "p_i p + 1 < length (p_toks p)" using skip by (simp add: p_ok_def skip_def)
  have two: "tok_type (p_toks p ! (p_i p + 1)) = T_COLON \<Longrightarrow> p_i p + 2 < length (p_toks p)"
    using p next1 eof_only_last [of "p_toks p" "p_i p + 1"] by (auto simp: p_ok_def)
  have colon: "tok_type (p_toks p ! (p_i p + 1)) = T_COLON \<Longrightarrow>
      p_ok ((push_stmt ((stmt_of ST_LABEL (tok_line tk))\<lparr>st_name := copy_label (tok_text tk)\<rparr>) p)
        \<lparr>p_i := p_i p + 2\<rparr>)"
    using p two by (simp add: p_ok_def push_stmt_def)
  show ?thesis
    using next1 colon p skip parse_directive_ok [OF skip] parse_instr_ok [OF skip find_mnem_known]
    by (auto simp: parse_step_def tok_at_def simp del: add_2_eq_Suc' add_2_eq_Suc
        split: option.split)
qed

lemma parse_loop_ok: "p_ok p \<Longrightarrow> returns p_ok (parse_loop p)"
proof (induction p rule: parse_loop.induct)
  case (1 p)
  show ?case
  proof (subst parse_loop.simps, rule returns_bind [OF peek_ok [OF "1.prems"]])
    fix tk assume tk: "token_ok tk \<and> peek p = Inr tk \<and> (tok_type tk \<noteq> T_EOF \<longrightarrow> p_ok (skip p))"
    show "returns p_ok (if tok_type tk \<noteq> T_EOF \<and> \<not> p_error p
      then res_bind (parse_step tk p) parse_loop else Inr p)"
    proof (cases "tok_type tk \<noteq> T_EOF \<and> \<not> p_error p")
      case True
      from parse_step_ok [OF "1.prems"] tk True obtain q
        where q: "parse_step tk p = Inr q" "p_ok q" by (auto elim: returnsE)
      with "1.IH" [OF _ True q(1) q(2)] tk True show ?thesis by simp
    next
      case False
      with "1.prems" show ?thesis by (auto simp only: if_False returns_simps)
    qed
  qed
qed

lemma parse_stmts_ok:
  assumes "lex src = Inr ts"
  shows "returns (\<lambda>(r, msgs). \<forall>ss. r = Some ss \<longrightarrow> ss \<noteq> [] \<and> (\<forall>s \<in> set ss. stmt_ok s)) (parse ts)"
proof -
  have "ends_in_eof ts" "\<forall>t \<in> set ts. token_ok t"
    using lex_from_good [of 1 "cstr src" ts] assms by (simp_all add: lex_def lex_good_def)
  then have "p_ok \<lparr>p_toks = ts, p_i = 0, p_error = False, p_out = [], p_msgs = []\<rparr>"
    by (auto simp: p_ok_def ends_in_eof_def)
  from parse_loop_ok [OF this] show ?thesis
    by (auto simp: parse_def p_ok_def elim!: returnsE)
qed

text \<open>C15: On every source text the lexer accepts, the parser returns, never reads past the token
  array, and every statement it delivers has register numbers below 8, a mnemonic's opcode
  and labels that fit their buffers.\<close>

theorem parse_total:
  assumes "lex src = Inr ts"
  shows "\<exists>r msgs. parse ts = Inr (r, msgs) \<and> (\<forall>ss. r = Some ss \<longrightarrow> ss \<noteq> [] \<and> (\<forall>s \<in> set ss. stmt_ok s))"
  using parse_stmts_ok [OF assms] by (auto elim!: returnsE)

theorem parse_total_witness:
  "\<exists>r. parse [ident_token ''NOP'' 1, tok T_COLON 1, tok T_EOF 1] = Inr r"
proof -
  have "lex ''NOP:'' = Inr [ident_token ''NOP'' 1, tok T_COLON 1, tok T_EOF 1]"
    by code_simp
  from parse_total [OF this] show ?thesis by blast
qed

end
