(* ===== verification/Encoder.thy ===== *)
theory Encoder
  imports Parser Memory
begin

text \<open>
  The assembler (\<open>src/encoder.c\<close>, \<open>src/main_asm.c\<close>): the symbol table, the pass that
  assigns addresses and collects labels, the pass that resolves labels and writes the bytes
  of the output buffer, and \<open>assemble\<close> and \<open>main\<close> over a file system. A write outside the
  buffer is \<open>BadIndex\<close>. The interface \<open>symbol_table\<close> says what the passes need of the table;
  the lemmas say when pass 2 succeeds and what the output then holds.
\<close>

subsection \<open>The symbol table\<close>

record symbol =
  sym_name :: string
  sym_address :: u32

definition sym_add :: "symbol list \<Rightarrow> string \<Rightarrow> u32 \<Rightarrow> symbol list" where
  "sym_add t name addr = t @ [\<lparr>sym_name = copy_label name, sym_address = addr\<rparr>]"

definition sym_lookup :: "symbol list \<Rightarrow> string \<Rightarrow> u32 option" where
  "sym_lookup t name = map_option sym_address (find (\<lambda>s. sym_name s = name) t)"

text \<open>The contract of the table: the first definition of a name is the one found.\<close>

locale symbol_table =
  fixes empty :: 't
    and add :: "'t \<Rightarrow> string \<Rightarrow> 'a \<Rightarrow> 't"
    and lookup :: "'t \<Rightarrow> string \<Rightarrow> 'a option"
    and name_ok :: "string \<Rightarrow> bool"
  assumes lookup_empty: "lookup empty n = None"
    and lookup_add: "name_ok k \<Longrightarrow> lookup (add t k v) n =
      (case lookup t n of Some a \<Rightarrow> Some a | None \<Rightarrow> if n = k then Some v else None)"
begin

definition add_all :: "(string \<times> 'a) list \<Rightarrow> 't \<Rightarrow> 't" where
  "add_all kvs t = fold (\<lambda>(k, v) t. add t k v) kvs t"

lemma lookup_add_all:
  "\<forall>(k, v) \<in> set kvs. name_ok k \<Longrightarrow> lookup (add_all kvs t) n =
    (case lookup t n of Some a \<Rightarrow> Some a | None \<Rightarrow> map_of kvs n)"
proof (induction kvs arbitrary: t)
  case Nil
  then show ?case by (simp add: add_all_def split: option.split)
next
  case (Cons kv kvs)
  then have "lookup (add_all kvs (add t (fst kv) (snd kv))) n =
    (case lookup (add t (fst kv) (snd kv)) n of Some a \<Rightarrow> Some a | None \<Rightarrow> map_of kvs n)"
    by (cases kv) auto
  with Cons.prems show ?case
    by (cases kv) (auto simp: add_all_def lookup_add split: option.splits)
qed

text \<open>From the empty table, the lookup is that of the association list.\<close>

lemma lookup_all: "\<forall>(k, v) \<in> set kvs. name_ok k \<Longrightarrow> lookup (add_all kvs empty) n = map_of kvs n"
  by (simp add: lookup_add_all lookup_empty)

end

lemma copy_label_id [simp]: "length s < TEXT_SIZE \<Longrightarrow> copy_label s = s"
  by (simp add: copy_label_def TEXT_SIZE_def)

interpretation symtab: symbol_table "[]" sym_add sym_lookup "\<lambda>s. length s < TEXT_SIZE"
proof unfold_locales
  show "sym_lookup [] n = None" for n by (simp add: sym_lookup_def)
  fix k n :: string and t :: "symbol list" and v
  assume "length k < TEXT_SIZE"
  then show "sym_lookup (sym_add t k v) n =
      (case sym_lookup t n of Some a \<Rightarrow> Some a | None \<Rightarrow> if n = k then Some v else None)"
    by (induction t) (auto simp: sym_lookup_def sym_add_def)
qed

subsection \<open>Pass 1\<close>

record pass1 =
  p1_syms :: "symbol list"
  p1_addr :: u32
  p1_max :: u32

definition pass1_step :: "stmt \<Rightarrow> pass1 \<Rightarrow> stmt \<times> pass1" where
  "pass1_step s p = (case st_type s of
     ST_ORG \<Rightarrow> (s, p\<lparr>p1_addr := st_value s\<rparr>)
   | ST_LABEL \<Rightarrow> (s, p\<lparr>p1_syms := sym_add (p1_syms p) (st_name s) (p1_addr p)\<rparr>)
   | _ \<Rightarrow> (let addr = p1_addr p + 4
          in (s\<lparr>st_address := p1_addr p\<rparr>,
              p\<lparr>p1_addr := addr, p1_max := (if addr > p1_max p then addr else p1_max p)\<rparr>)))"

fun pass1_run :: "stmt list \<Rightarrow> pass1 \<Rightarrow> stmt list \<times> pass1" where
  "pass1_run [] p = ([], p)"
| "pass1_run (s # ss) p =
     (let (s, p) = pass1_step s p; (ss, p) = pass1_run ss p in (s # ss, p))"

subsection \<open>Pass 2\<close>

definition IMM_MIN :: int where "IMM_MIN = - (2 ^ (IMM_BITS - 1))"
definition IMM_MAX :: int where "IMM_MAX = 2 ^ (IMM_BITS - 1) - 1"

definition error_line :: "nat \<Rightarrow> string \<Rightarrow> string" where
  "error_line line what = ''error line '' @ fmt_base 10 line @ '': '' @ what @ ''\<newline>''"

text \<open>The word of one statement: \<open>Inl\<close> the message of an error, \<open>None\<close> when it has none.\<close>

definition resolve :: "symbol list \<Rightarrow> nat \<Rightarrow> string \<Rightarrow> u32 \<Rightarrow> string + u32" where
  "resolve syms line label v =
     (if label = [] then Inr v
      else case sym_lookup syms label of
             None \<Rightarrow> Inl (error_line line (''undefined label '' @ quoted label))
           | Some target \<Rightarrow> Inr target)"

definition encode_stmt :: "symbol list \<Rightarrow> stmt \<Rightarrow> string + u32 option" where
  "encode_stmt syms s = (case st_type s of
     ST_INSTR \<Rightarrow> (case resolve syms (st_line s) (st_imm_label s) (st_imm s) of
         Inl e \<Rightarrow> Inl e
       | Inr im \<Rightarrow>
           if sint im < IMM_MIN \<or> sint im > IMM_MAX then
             Inl (error_line (st_line s) (''immediate '' @ fmt_d im @ '' out of 20-bit range''))
           else Inr (Some (ENCODE_INSTR (st_op s) (st_rdest s) (st_rsrc s) im)))
   | ST_WORD \<Rightarrow> map_sum id Some (resolve syms (st_line s) (st_word_label s) (st_value s))
   | _ \<Rightarrow> Inr None)"

definition put_byte :: "u8 list \<Rightarrow> u32 \<Rightarrow> u8 \<Rightarrow> u8 list res" where
  "put_byte out i v = (if unat i < length out then Inr (out[unat i := v]) else Inl (BadIndex i))"

definition put_out :: "u8 list \<Rightarrow> u32 \<Rightarrow> u32 \<Rightarrow> u8 list res" where
  "put_out out addr word =
     res_bind (put_byte out addr (ucast (word AND 0xFF))) (\<lambda>out.
     res_bind (put_byte out (addr + 1) (ucast (drop_bit 8 word AND 0xFF))) (\<lambda>out.
     res_bind (put_byte out (addr + 2) (ucast (drop_bit 16 word AND 0xFF))) (\<lambda>out.
       put_byte out (addr + 3) (ucast (drop_bit 24 word AND 0xFF)))))"

text \<open>\<open>Some e\<close>: \<open>rc = 1\<close> after printing \<open>e\<close>.\<close>

fun pass2_run :: "symbol list \<Rightarrow> stmt list \<Rightarrow> u8 list \<Rightarrow> (string option \<times> u8 list) res" where
  "pass2_run syms [] out = Inr (None, out)"
| "pass2_run syms (s # ss) out = (case encode_stmt syms s of
     Inl e \<Rightarrow> Inr (Some e, out)
   | Inr None \<Rightarrow> pass2_run syms ss out
   | Inr (Some word) \<Rightarrow>
       res_bind (put_out out (st_address s) word) (\<lambda>out. pass2_run syms ss out))"

text \<open>Both passes: the error message if there is one, else the bytes of the output.\<close>

definition assemble_stmts :: "stmt list \<Rightarrow> (string + u8 list) res" where
  "assemble_stmts ss =
     (let (ss, p) = pass1_run ss \<lparr>p1_syms = [], p1_addr = 0, p1_max = 0\<rparr>;
          out = replicate (if p1_max p \<noteq> 0 then unat (p1_max p) else 4) 0
      in res_bind (pass2_run (p1_syms p) ss out) (\<lambda>(e, out).
           Inr (case e of Some e \<Rightarrow> Inl e
                | None \<Rightarrow> Inr (take (if p1_max p \<noteq> 0 then unat (p1_max p) else 0) out))))"

subsection \<open>Files and the program\<close>

text \<open>Names to contents, and which names can be opened for writing.\<close>

record files =
  contents :: "string \<Rightarrow> string option"
  writable :: "string \<Rightarrow> bool"

definition read_file :: "files \<Rightarrow> string \<Rightarrow> string + string" where
  "read_file fs path = (case contents fs path of
     None \<Rightarrow> Inl (''cannot open '' @ path @ ''\<newline>'')
   | Some s \<Rightarrow> Inr s)"

definition byte_chars :: "u8 list \<Rightarrow> string" where
  "byte_chars bs = map (\<lambda>b. char_of (unat b)) bs"

text \<open>From text to bytes: the return code, the bytes when it is 0, and the text on \<open>stderr\<close>.\<close>

definition assemble_text :: "string \<Rightarrow> (u8 list option \<times> string) res" where
  "assemble_text src = (case lex src of
     Inl e \<Rightarrow> Inr (None, e)
   | Inr toks \<Rightarrow> res_bind (parse toks) (\<lambda>(stmts, msgs).
       case stmts of
         None \<Rightarrow> Inr (None, msgs)
       | Some ss \<Rightarrow> res_bind (assemble_stmts ss) (\<lambda>r.
           Inr (case r of Inl e \<Rightarrow> (None, msgs @ e) | Inr out \<Rightarrow> (Some out, msgs)))))"

definition assemble :: "files \<Rightarrow> string \<Rightarrow> string \<Rightarrow> (nat \<times> files \<times> string) res" where
  "assemble fs src_path out_path = (case read_file fs src_path of
     Inl e \<Rightarrow> Inr (1, fs, e)
   | Inr src \<Rightarrow> res_bind (assemble_text src) (\<lambda>(out, msgs).
       Inr (case out of
          None \<Rightarrow> (1, fs, msgs)
        | Some bs \<Rightarrow>
            if writable fs out_path then
              (0, fs\<lparr>contents := (contents fs)(out_path \<mapsto> byte_chars bs)\<rparr>, msgs)
            else (1, fs, msgs @ ''cannot write '' @ out_path @ ''\<newline>''))))"

text \<open>The argument loop of \<open>main\<close>: input and output path after \<open>argv[1..]\<close>.\<close>

fun asm_args :: "string list \<Rightarrow> string option \<times> string option \<Rightarrow> string option \<times> string option" where
  "asm_args [] r = r"
| "asm_args [a] (inp, outp) = (Some a, outp)"
| "asm_args (a # b # as) (inp, outp) =
     (if a = ''-o'' then asm_args as (inp, Some b) else asm_args (b # as) (Some a, outp))"

definition main_asm :: "string \<Rightarrow> string list \<Rightarrow> files \<Rightarrow> (nat \<times> files \<times> string) res" where
  "main_asm argv0 args fs = (case asm_args args (None, None) of
     (Some inp, Some outp) \<Rightarrow> assemble fs inp outp
   | _ \<Rightarrow> Inr (2, fs, ''usage: '' @ argv0 @ '' input.asm -o output.bin\<newline>''))"

subsection \<open>What pass 1 computes\<close>

text \<open>
  The specification of pass 1: where each statement is placed, and the labels with their
  addresses, both from the address the statements start at.
\<close>

definition emits :: "stmt \<Rightarrow> bool" where
  "emits s = (st_type s = ST_INSTR \<or> st_type s = ST_WORD)"

fun placed :: "stmt list \<Rightarrow> u32 \<Rightarrow> stmt list" where
  "placed [] a = []"
| "placed (s # ss) a =
     (if emits s then s\<lparr>st_address := a\<rparr> # placed ss (a + 4)
      else s # placed ss (if st_type s = ST_ORG then st_value s else a))"

fun label_defs :: "stmt list \<Rightarrow> u32 \<Rightarrow> (string \<times> u32) list" where
  "label_defs [] a = []"
| "label_defs (s # ss) a =
     (if emits s then label_defs ss (a + 4)
      else if st_type s = ST_ORG then label_defs ss (st_value s)
      else (st_name s, a) # label_defs ss a)"

lemma add_all_simps [simp]:
  "symtab.add_all [] t = t" "symtab.add_all ((k, v) # kvs) t = symtab.add_all kvs (sym_add t k v)"
  by (simp_all add: symtab.add_all_def)

lemma pass1_run_spec:
  "pass1_run ss p = (ss', p') \<Longrightarrow>
   ss' = placed ss (p1_addr p) \<and> p1_syms p' = symtab.add_all (label_defs ss (p1_addr p)) (p1_syms p) \<and>
   p1_max p \<le> p1_max p' \<and> (\<forall>s \<in> set ss'. emits s \<longrightarrow> st_address s + 4 \<le> p1_max p')"
proof (induction ss arbitrary: p ss' p')
  case (Cons s ss)
  obtain s1 q where q: "pass1_step s p = (s1, q)" by fastforce
  obtain ss1 r where r: "pass1_run ss q = (ss1, r)" by fastforce
  from Cons.prems q r have e: "ss' = s1 # ss1" "p' = r" by auto
  from Cons.IH [OF r] q show ?case
    by (cases "st_type s") (auto simp: e pass1_step_def emits_def Let_def split: if_splits)
qed simp

lemma label_defs_ok:
  "\<forall>s \<in> set ss. stmt_ok s \<Longrightarrow> \<forall>(k, v) \<in> set (label_defs ss a). length k < TEXT_SIZE"
  by (induction ss a rule: label_defs.induct) (auto simp: stmt_ok_def)

lemma pass1_lookup:
  assumes "pass1_run ss \<lparr>p1_syms = [], p1_addr = 0, p1_max = 0\<rparr> = (ss', p)" "\<forall>s \<in> set ss. stmt_ok s"
  shows "sym_lookup (p1_syms p) n = map_of (label_defs ss 0) n"
  using pass1_run_spec [OF assms(1)] symtab.lookup_all [OF label_defs_ok [OF assms(2)]] by simp

lemma placed_emits: "s \<in> set (placed ss a) \<Longrightarrow> \<exists>t \<in> set ss. \<exists>b. s = t\<lparr>st_address := b\<rparr>"
proof (induction ss a rule: placed.induct)
  case (2 s' ss a)
  have same: "\<exists>b. s' = s'\<lparr>st_address := b\<rparr>" by (rule exI [of _ "st_address s'"]) simp
  show ?case
    using 2 same by (cases "emits s'") auto
qed simp

subsection \<open>What pass 2 writes\<close>

text \<open>The little-endian word at an index of the output.\<close>

definition le_word :: "u8 list \<Rightarrow> nat \<Rightarrow> u32" where
  "le_word bs k = ucast (bs ! k) OR push_bit 8 (ucast (bs ! (k + 1))) OR
     push_bit 16 (ucast (bs ! (k + 2))) OR push_bit 24 (ucast (bs ! (k + 3)))"

definition put_le :: "u8 list \<Rightarrow> nat \<Rightarrow> u32 \<Rightarrow> u8 list" where
  "put_le bs k w = bs[k := ucast (w AND 0xFF), k + 1 := ucast (drop_bit 8 w AND 0xFF),
     k + 2 := ucast (drop_bit 16 w AND 0xFF), k + 3 := ucast (drop_bit 24 w AND 0xFF)]"

lemma length_put_le [simp]: "length (put_le bs k w) = length bs"
  by (simp add: put_le_def)

lemma le_word_put_same: "k + 4 \<le> length bs \<Longrightarrow> le_word (put_le bs k w) k = w"
  using bytes_of_word [of w] by (simp add: le_word_def put_le_def)

lemma le_word_put_apart: "k + 4 \<le> j \<or> j + 4 \<le> k \<Longrightarrow> le_word (put_le bs k w) j = le_word bs j"
  by (auto simp: le_word_def put_le_def)

lemma put_byte_Inr: "put_byte out i v = Inr r \<longleftrightarrow> unat i < length out \<and> r = out[unat i := v]"
  by (auto simp: put_byte_def)

lemma unat_plus_small:
  fixes a :: u32
  assumes "unat a + 4 \<le> 4294967296"
  shows "unat (a + 1) = unat a + 1" "unat (a + 2) = unat a + 2" "unat (a + 3) = unat a + 3"
  using assms by (simp_all add: unat_word_ariths)

text \<open>A buffer shorter than $2^{32}$ takes the word exactly when its four bytes are inside.\<close>

lemma put_out_Inr:
  assumes "length out < 4294967296"
  shows "put_out out a w = Inr r \<longleftrightarrow> unat a + 4 \<le> length out \<and> r = put_le out (unat a) w"
proof (cases "unat a + 4 \<le> 4294967296")
  case True
  then show ?thesis
    using unat_plus_small [OF True] by (auto simp: put_out_def res_bind_Inr_iff put_byte_Inr put_le_def)
next
  case False
  have top: "a = - 1 \<or> a + 1 = - 1 \<or> a + 2 = - 1 \<or> a + 3 = - 1"
  proof -
    from False unat_u32_less [of a] have "unat a \<in> {4294967293, 4294967294, 4294967295}" by auto
    then have "a \<in> {4294967293, 4294967294, 4294967295}"
      by (auto simp: word_unat_eq_iff)
    then show ?thesis by auto
  qed
  have "unat (- 1 :: u32) = 4294967295" by (simp add: unsigned_minus_1_eq_mask mask_eq_exp_minus_1)
  then have "\<not> unat (- 1 :: u32) < length out" using assms by simp
  with top have "\<not> (unat a < length out \<and> unat (a + 1) < length out \<and> unat (a + 2) < length out
      \<and> unat (a + 3) < length out)"
    by metis
  then have "put_out out a w \<noteq> Inr r"
    by (auto simp: put_out_def res_bind_Inr_iff put_byte_Inr)
  with False assms show ?thesis by auto
qed

text \<open>The writes of the statements, in order.\<close>

definition emitted :: "symbol list \<Rightarrow> stmt list \<Rightarrow> (u32 \<times> u32) list" where
  "emitted syms ss = concat (map (\<lambda>s. case encode_stmt syms s of
     Inr (Some w) \<Rightarrow> [(st_address s, w)] | _ \<Rightarrow> []) ss)"

definition put_all :: "(u32 \<times> u32) list \<Rightarrow> u8 list \<Rightarrow> u8 list" where
  "put_all ws bs = fold (\<lambda>(a, w) bs. put_le bs (unat a) w) ws bs"

definition encodes :: "symbol list \<Rightarrow> stmt \<Rightarrow> bool" where
  "encodes syms s = (case encode_stmt syms s of Inl _ \<Rightarrow> False | Inr _ \<Rightarrow> True)"

lemma emitted_Cons: "emitted syms (s # ss) =
    (case encode_stmt syms s of Inr (Some w) \<Rightarrow> [(st_address s, w)] | _ \<Rightarrow> []) @ emitted syms ss"
  by (simp add: emitted_def)

lemma put_all_simps [simp]:
  "put_all [] bs = bs" "put_all ((a, w) # ws) bs = put_all ws (put_le bs (unat a) w)"
  by (simp_all add: put_all_def)

lemma length_put_all [simp]: "length (put_all ws bs) = length bs"
  by (induction ws arbitrary: bs) auto

lemma pass2_ok_iff:
  "length out < 4294967296 \<Longrightarrow> pass2_run syms ss out = Inr (None, r) \<longleftrightarrow>
   (\<forall>s \<in> set ss. encodes syms s) \<and> (\<forall>(a, w) \<in> set (emitted syms ss). unat a + 4 \<le> length out) \<and>
   r = put_all (emitted syms ss) out"
proof (induction ss arbitrary: out)
  case Nil
  then show ?case by (auto simp: emitted_def)
next
  case (Cons s ss)
  show ?case
  proof (cases "encode_stmt syms s")
    case (Inl e)
    then show ?thesis by (simp add: encodes_def)
  next
    case (Inr wo)
    with Cons show ?thesis
      by (cases wo) (auto simp: encodes_def emitted_Cons res_bind_Inr_iff put_out_Inr)
  qed
qed

text \<open>The last write of a cell is what the output holds, when no two cells overlap.\<close>

lemma put_all_other:
  "\<forall>(b, v) \<in> set ws. words_apart b a \<Longrightarrow> le_word (put_all ws bs) (unat a) = le_word bs (unat a)"
  by (induction ws arbitrary: bs) (auto simp: words_apart_def le_word_put_apart)

lemma put_all_lookup:
  assumes "(a, w) \<in> set ws" "sorted_wrt (\<lambda>x y. words_apart (fst x) (fst y)) ws"
    and "\<forall>(a, w) \<in> set ws. unat a + 4 \<le> length bs"
  shows "le_word (put_all ws bs) (unat a) = w"
  using assms
proof (induction ws arbitrary: bs)
  case (Cons x ws)
  obtain b v where x: "x = (b, v)" by fastforce
  show ?case
  proof (cases "(a, w) \<in> set ws")
    case True
    with Cons.IH [of "put_le bs (unat b) v"] Cons.prems show ?thesis by (auto simp: x)
  next
    case False
    with Cons.prems have ab: "a = b" "w = v" by (auto simp: x)
    from Cons.prems(2) have "\<forall>(c, u) \<in> set ws. words_apart c b"
      by (auto simp: x words_apart_sym [of b])
    then have "le_word (put_all ws (put_le bs (unat b) v)) (unat b) = le_word (put_le bs (unat b) v) (unat b)"
      by (rule put_all_other)
    with Cons.prems(3) show ?thesis by (simp add: x ab le_word_put_same)
  qed
qed simp

subsection \<open>When assembly succeeds, and what it produces\<close>

text \<open>The value an operand has after label resolution, and whether a statement has a word.\<close>

definition resolved :: "stmt list \<Rightarrow> string \<Rightarrow> u32 \<Rightarrow> u32 option" where
  "resolved ss label v = (if label = [] then Some v else map_of (label_defs ss 0) label)"

definition stmt_fits :: "stmt list \<Rightarrow> stmt \<Rightarrow> bool" where
  "stmt_fits ss s = (case st_type s of
     ST_INSTR \<Rightarrow> (case resolved ss (st_imm_label s) (st_imm s) of None \<Rightarrow> False | Some v \<Rightarrow> imm_fits v)
   | ST_WORD \<Rightarrow> resolved ss (st_word_label s) (st_value s) \<noteq> None
   | _ \<Rightarrow> True)"

text \<open>What the output must hold at the place of a statement.\<close>

definition word_of_stmt :: "stmt list \<Rightarrow> stmt \<Rightarrow> u32" where
  "word_of_stmt ss s = (case st_type s of
     ST_INSTR \<Rightarrow> ENCODE_INSTR (st_op s) (st_rdest s) (st_rsrc s)
                  (the (resolved ss (st_imm_label s) (st_imm s)))
   | _ \<Rightarrow> the (resolved ss (st_word_label s) (st_value s)))"

lemma imm_range: "(sint im < IMM_MIN \<or> sint im > IMM_MAX) = (\<not> imm_fits im)"
  by (auto simp: imm_fits_def IMM_MIN_def IMM_MAX_def IMM_BITS_def)

lemma resolve_spec:
  assumes "sym_lookup syms = map_of (label_defs ss 0)"
  shows "resolve syms line label v = (case resolved ss label v of
    Some u \<Rightarrow> Inr u | None \<Rightarrow> Inl (error_line line (''undefined label '' @ quoted label)))"
  using assms by (simp add: resolve_def resolved_def split: option.split)

lemma encode_stmt_spec:
  assumes "sym_lookup syms = map_of (label_defs ss 0)"
  shows "encodes syms s = stmt_fits ss s"
    and "stmt_fits ss s \<Longrightarrow>
      encode_stmt syms s = Inr (if emits s then Some (word_of_stmt ss s) else None)"
  by (auto simp: encodes_def encode_stmt_def stmt_fits_def resolve_spec [OF assms] imm_range
      word_of_stmt_def emits_def split: stmttype.split option.split sum.splits)

lemma emitted_spec:
  assumes "sym_lookup syms = map_of (label_defs ss 0)" "\<forall>s \<in> set ts. stmt_fits ss s"
  shows "emitted syms ts = map (\<lambda>s. (st_address s, word_of_stmt ss s)) (filter emits ts)"
  using assms(2) by (induction ts) (auto simp: emitted_def encode_stmt_spec [OF assms(1)])

lemma fits_placed:
  "(\<forall>s \<in> set (placed ts a). stmt_fits ss s) \<longleftrightarrow> (\<forall>s \<in> set ts. stmt_fits ss s)"
proof -
  have "stmt_fits ss (s\<lparr>st_address := b\<rparr>) = stmt_fits ss s" for s b
    by (simp add: stmt_fits_def split: stmttype.split)
  then show ?thesis by (induction ts a rule: placed.induct) auto
qed

lemma words_apart_emits:
  "sorted_wrt (\<lambda>s t. words_apart (st_address s) (st_address t)) (filter emits ts) \<Longrightarrow>
   sorted_wrt (\<lambda>x y. words_apart (fst x) (fst y))
     (map (\<lambda>s. (st_address s, word_of_stmt ss s)) (filter emits ts))"
  by (simp add: sorted_wrt_map)

text \<open>No statement's cell wraps around the end of the 32-bit address space.\<close>

definition no_wrap :: "stmt list \<Rightarrow> bool" where
  "no_wrap ss = (\<forall>s \<in> set (placed ss 0). emits s \<longrightarrow> unat (st_address s) + 4 < 4294967296)"

lemma assemble_stmts_Inr_iff:
  assumes ok: "\<forall>s \<in> set ss. stmt_ok s"
  shows "assemble_stmts ss = Inr (Inr bs) \<longleftrightarrow>
    (\<forall>s \<in> set ss. stmt_fits ss s) \<and> no_wrap ss \<and>
    (\<exists>n. n < 4294967296 \<and> (\<forall>s \<in> set (placed ss 0). emits s \<longrightarrow> unat (st_address s) + 4 \<le> n) \<and>
      n = unat (p1_max (snd (pass1_run ss \<lparr>p1_syms = [], p1_addr = 0, p1_max = 0\<rparr>))) \<and>
      bs = put_all (map (\<lambda>s. (st_address s, word_of_stmt ss s)) (filter emits (placed ss 0)))
             (replicate n 0))"
proof -
  obtain ss' p where run: "pass1_run ss \<lparr>p1_syms = [], p1_addr = 0, p1_max = 0\<rparr> = (ss', p)" by fastforce
  have lk: "sym_lookup (p1_syms p) = map_of (label_defs ss 0)"
    using pass1_lookup [OF run ok] by blast
  have ss': "ss' = placed ss 0" and mx: "\<forall>s \<in> set ss'. emits s \<longrightarrow> st_address s + 4 \<le> p1_max p"
    using pass1_run_spec [OF run] by simp_all
  define n where "n = unat (p1_max p)"
  have n: "n < 4294967296" unfolding n_def by (rule unat_u32_less)
  define k where "k = (if n = 0 then 4 else n)"
  have k: "k < 4294967296" using n by (simp add: k_def)
  have fits: "(\<forall>s \<in> set ss'. encodes (p1_syms p) s) = (\<forall>s \<in> set ss. stmt_fits ss s)"
    unfolding ss' encode_stmt_spec(1) [OF lk] by (rule fits_placed)
  have em: "\<forall>s \<in> set ss. stmt_fits ss s \<Longrightarrow> emitted (p1_syms p) ss' =
      map (\<lambda>s. (st_address s, word_of_stmt ss s)) (filter emits ss')"
    by (rule emitted_spec [OF lk]) (simp add: ss' fits_placed)
  have inside: "(\<forall>s \<in> set ss'. emits s \<longrightarrow> unat (st_address s) + 4 \<le> n)" if "no_wrap ss"
  proof (intro ballI impI)
    fix s assume s: "s \<in> set ss'" "emits s"
    with that have "unat (st_address s) + 4 < 4294967296" by (simp add: no_wrap_def ss')
    then have "unat (st_address s + 4) = unat (st_address s) + 4" by (simp add: unat_word_ariths)
    moreover from mx s have "unat (st_address s + 4) \<le> n" by (simp only: n_def word_le_nat_alt)
    ultimately show "unat (st_address s) + 4 \<le> n" by simp
  qed
  have none: "n = 0 \<Longrightarrow> no_wrap ss \<Longrightarrow> filter emits ss' = []"
    using inside by (fastforce simp: filter_empty_conv)
  have "assemble_stmts ss = Inr (Inr bs) \<longleftrightarrow>
      (\<exists>r. pass2_run (p1_syms p) ss' (replicate k 0) = Inr (None, r) \<and> bs = take n r)"
    by (auto simp: assemble_stmts_def run res_bind_Inr_iff k_def n_def word_unat_eq_iff
        split: option.splits)
  also have "\<dots> \<longleftrightarrow> (\<forall>s \<in> set ss. stmt_fits ss s) \<and>
      (\<forall>s \<in> set ss'. emits s \<longrightarrow> unat (st_address s) + 4 \<le> k) \<and>
      bs = take n (put_all (map (\<lambda>s. (st_address s, word_of_stmt ss s)) (filter emits ss')) (replicate k 0))"
    using em by (auto simp: pass2_ok_iff k fits)
  also have "(\<forall>s \<in> set ss'. emits s \<longrightarrow> unat (st_address s) + 4 \<le> k) \<longleftrightarrow> no_wrap ss"
    using inside k by (fastforce simp: no_wrap_def k_def simp flip: ss')
  finally show ?thesis
    using inside none n unfolding run snd_conv n_def [symmetric]
    by (cases "n = 0") (auto simp: k_def simp flip: ss')
qed

text \<open>C14: Assembly of parsed statements succeeds exactly when every label used is defined, every
  instruction operand fits the signed 20-bit field, and no statement lands in the last four
  bytes of the address space.\<close>

theorem assemble_succeeds_iff:
  assumes "\<forall>s \<in> set ss. stmt_ok s"
  shows "(\<exists>bs. assemble_stmts ss = Inr (Inr bs)) \<longleftrightarrow> (\<forall>s \<in> set ss. stmt_fits ss s) \<and> no_wrap ss"
proof -
  obtain ss' p where run: "pass1_run ss \<lparr>p1_syms = [], p1_addr = 0, p1_max = 0\<rparr> = (ss', p)" by fastforce
  have mx: "s \<in> set (placed ss 0) \<Longrightarrow> emits s \<Longrightarrow> unat (st_address s + 4) \<le> unat (p1_max p)" for s
    using pass1_run_spec [OF run] by (auto simp: word_le_nat_alt)
  have "no_wrap ss \<Longrightarrow> s \<in> set (placed ss 0) \<Longrightarrow> emits s \<Longrightarrow>
      unat (st_address s + 4) = unat (st_address s) + 4" for s
    by (simp add: no_wrap_def unat_word_ariths)
  with mx unat_u32_less [of "p1_max p"] show ?thesis
    unfolding assemble_stmts_Inr_iff [OF assms] run by fastforce
qed

text \<open>A program with a forward reference: \<open>JMP end\<close>, \<open>.word end\<close>, \<open>end: HALT\<close>.\<close>

definition sample :: "stmt list" where
  "sample =
    [(stmt_of ST_INSTR 1)\<lparr>st_op := OP_JMP, st_imm_label := ''end''\<rparr>,
     (stmt_of ST_WORD 2)\<lparr>st_word_label := ''end''\<rparr>,
     (stmt_of ST_LABEL 3)\<lparr>st_name := ''end''\<rparr>,
     (stmt_of ST_INSTR 3)\<lparr>st_op := OP_HALT\<rparr>]"

lemma sample_ok: "\<forall>s \<in> set sample. stmt_ok s"
  by (simp add: sample_def stmt_ok_def stmt_of_def TEXT_SIZE_def)

lemmas sample_eval = sample_def stmt_of_def emits_def resolved_def stmt_fits_def no_wrap_def imm_fits_def

lemma sample_places:
  "placed sample 0 = [(stmt_of ST_INSTR 1)\<lparr>st_op := OP_JMP, st_imm_label := ''end''\<rparr>,
     (stmt_of ST_WORD 2)\<lparr>st_word_label := ''end'', st_address := 4\<rparr>,
     (stmt_of ST_LABEL 3)\<lparr>st_name := ''end''\<rparr>,
     (stmt_of ST_INSTR 3)\<lparr>st_op := OP_HALT, st_address := 8\<rparr>]"
  "label_defs sample 0 = [(''end'', 8)]"
  by (simp_all add: sample_eval)

theorem assemble_succeeds_iff_witness: "\<exists>bs. assemble_stmts sample = Inr (Inr bs)"
proof -
  have "no_wrap sample" by (simp add: no_wrap_def sample_places emits_def stmt_of_def)
  moreover have "\<forall>s \<in> set sample. stmt_fits sample s"
    unfolding stmt_fits_def resolved_def sample_places by (simp add: sample_def stmt_of_def imm_fits_def)
  ultimately show ?thesis using assemble_succeeds_iff [OF sample_ok] by blast
qed

lemma assembled_word:
  assumes ok: "\<forall>s \<in> set ss. stmt_ok s" and asm: "assemble_stmts ss = Inr (Inr bs)"
    and apart: "sorted_wrt (\<lambda>s t. words_apart (st_address s) (st_address t)) (filter emits (placed ss 0))"
    and s: "s \<in> set (placed ss 0)" "emits s"
  shows "unat (st_address s) + 4 \<le> length bs" "le_word bs (unat (st_address s)) = word_of_stmt ss s"
    "stmt_fits ss s" "op_ok (st_op s)" "st_rdest s < 8" "st_rsrc s < 8"
proof -
  let ?ws = "map (\<lambda>s. (st_address s, word_of_stmt ss s)) (filter emits (placed ss 0))"
  from asm assemble_stmts_Inr_iff [OF ok] obtain n where n: "n < 4294967296"
    "\<forall>s \<in> set (placed ss 0). emits s \<longrightarrow> unat (st_address s) + 4 \<le> n"
    and bs: "bs = put_all ?ws (replicate n 0)" and fit: "\<forall>s \<in> set ss. stmt_fits ss s"
    by auto
  show "unat (st_address s) + 4 \<le> length bs" using n(2) s by (simp add: bs)
  show "le_word bs (unat (st_address s)) = word_of_stmt ss s"
    unfolding bs by (rule put_all_lookup) (use s n(2) words_apart_emits [OF apart] in auto)
  show "stmt_fits ss s" using fit s(1) fits_placed by blast
  obtain t b where t: "t \<in> set ss" "s = t\<lparr>st_address := b\<rparr>" using placed_emits [OF s(1)] by blast
  have "stmt_ok s" using ok t by (auto simp: stmt_ok_def)
  then show "op_ok (st_op s)" "st_rdest s < 8" "st_rsrc s < 8"
    by (simp_all add: stmt_ok_def op_known_ok)
qed



subsection \<open>The only undefined behaviour\<close>

lemma pass2_returns:
  "length out < 4294967296 \<Longrightarrow> \<forall>(a, w) \<in> set (emitted syms ss). unat a + 4 \<le> length out \<Longrightarrow>
   \<exists>r. pass2_run syms ss out = Inr r"
proof (induction ss arbitrary: out)
  case (Cons s ss)
  show ?case
  proof (cases "encode_stmt syms s")
    case (Inr wo)
    show ?thesis
    proof (cases wo)
      case None
      with Inr Cons show ?thesis by (simp add: emitted_Cons)
    next
      case (Some w)
      with Inr Cons.prems have "put_out out (st_address s) w = Inr (put_le out (unat (st_address s)) w)"
        by (simp add: emitted_Cons put_out_Inr)
      with Inr Some Cons show ?thesis by (simp add: emitted_Cons)
    qed
  qed simp
qed simp

lemma emitted_address: "(a, w) \<in> set (emitted syms ss) \<Longrightarrow> \<exists>s \<in> set ss. emits s \<and> st_address s = a"
proof (induction ss)
  case (Cons s ss)
  have "Inr (Some u) = encode_stmt syms s \<Longrightarrow> emits s" for u
    by (auto simp: encode_stmt_def emits_def split: stmttype.splits)
  with Cons show ?case by (auto simp: emitted_Cons split: sum.splits option.splits)
qed (simp add: emitted_def)

lemma assemble_stmts_fault:
  assumes "assemble_stmts ss = Inl e" shows "\<not> no_wrap ss"
proof
  assume nw: "no_wrap ss"
  obtain ss' p where run: "pass1_run ss \<lparr>p1_syms = [], p1_addr = 0, p1_max = 0\<rparr> = (ss', p)" by fastforce
  have mx: "s \<in> set ss' \<Longrightarrow> emits s \<Longrightarrow> unat (st_address s) + 4 \<le> unat (p1_max p)" for s
  proof -
    assume s: "s \<in> set ss'" "emits s"
    then have "unat (st_address s + 4) \<le> unat (p1_max p)"
      using pass1_run_spec [OF run] by (simp add: word_le_nat_alt)
    moreover have "unat (st_address s + 4) = unat (st_address s) + 4"
      using nw s pass1_run_spec [OF run] by (simp add: no_wrap_def unat_word_ariths)
    ultimately show ?thesis by simp
  qed
  let ?out = "replicate (if p1_max p \<noteq> 0 then unat (p1_max p) else 4) (0 :: u8)"
  have "\<forall>(a, w) \<in> set (emitted (p1_syms p) ss'). unat a + 4 \<le> length ?out"
    using emitted_address [of _ _ "p1_syms p" ss'] mx by fastforce
  moreover have "length ?out < 4294967296" using unat_u32_less [of "p1_max p"] by simp
  ultimately obtain r where "pass2_run (p1_syms p) ss' ?out = Inr r" using pass2_returns by blast
  with assms show False by (cases r) (simp add: assemble_stmts_def run)
qed

text \<open>C16: Assembling a text has undefined behaviour only when a statement of it is placed in the last
  four bytes of the 32-bit address space, which \<open>.org\<close> can reach; the address then wraps
  and the buffer is too small.\<close>

theorem assemble_text_fault:
  assumes "assemble_text src = Inl e"
  shows "\<exists>ts ss msgs. lex src = Inr ts \<and> parse ts = Inr (Some ss, msgs) \<and> \<not> no_wrap ss"
proof -
  from assms obtain ts where ts: "lex src = Inr ts"
    by (auto simp: assemble_text_def split: sum.splits)
  have "ends_in_eof ts" "\<forall>t \<in> set ts. token_ok t"
    using lex_from_good [of 1 "cstr src" ts] ts by (simp_all add: lex_def lex_good_def)
  then have "p_ok \<lparr>p_toks = ts, p_i = 0, p_error = False, p_out = [], p_msgs = []\<rparr>"
    by (auto simp: p_ok_def ends_in_eof_def)
  from parse_loop_ok [OF this] obtain r msgs where p: "parse ts = Inr (r, msgs)"
    by (auto simp: parse_def elim!: returnsE)
  with assms ts obtain ss where "r = Some ss" "assemble_stmts ss = Inl e"
    by (auto simp: assemble_text_def res_bind_Inl_iff split: option.splits)
  with assemble_stmts_fault p ts show ?thesis by blast
qed

theorem assemble_text_fault_witness:
  "\<exists>ts ss msgs. lex ''.org -4 NOP'' = Inr ts \<and> parse ts = Inr (Some ss, msgs) \<and> \<not> no_wrap ss"
proof -
  let ?ts = "[(tok T_DIRECTIVE 1)\<lparr>tok_text := ''org''\<rparr>, tok T_MINUS 1, (tok T_NUM 1)\<lparr>tok_num := 4\<rparr>,
    ident_token ''NOP'' 1, tok T_EOF 1]"
  let ?ss = "[(stmt_of ST_ORG 1)\<lparr>st_value := - 4\<rparr>, stmt_of ST_INSTR 1]"
  have l: "lex ''.org -4 NOP'' = Inr ?ts" by code_simp
  have p: "parse ?ts = Inr (Some ?ss, [])" by code_simp
  have "assemble_stmts ?ss = Inl (BadIndex 0xFFFFFFFC)"
    by (simp add: assemble_stmts_def pass1_step_def stmt_of_def Let_def encode_stmt_def resolve_def
        IMM_MIN_def IMM_MAX_def IMM_BITS_def put_out_def put_byte_def)
  with l p have "assemble_text ''.org -4 NOP'' = Inl (BadIndex 0xFFFFFFFC)"
    by (simp add: assemble_text_def)
  then show ?thesis by (rule assemble_text_fault)
qed

end
