(* ===== verification/Disasm.thy ===== *)
theory Disasm
  imports Encoder
begin

text \<open>
  The disassembler program (\<open>src/disasm.c\<close>) and the round trip with the assembler: the raw
  listing of a binary of canonical instruction words, assembled again, is the binary. The
  proof follows the text through the three stages: the tokens of a printed word, the
  statement they parse to, and the bytes the statements assemble to.
\<close>

subsection \<open>The program\<close>

definition DISASM_SIZE :: nat where
  "DISASM_SIZE = 64"

definition disasm_line :: "bool \<Rightarrow> nat \<Rightarrow> u32 \<Rightarrow> string" where
  "disasm_line raw addr w =
     (let text = isa_disasm DISASM_SIZE w in
      if raw then text @ ''\<newline>''
      else pad0 4 (fmt_base 16 addr) @ '':  '' @ pad0 8 (fmt_x w) @ ''  '' @ text @ ''\<newline>'')"

text \<open>The loop over \<open>addr\<close>, on the bytes from \<open>addr\<close> on; up to three bytes at the end are left out.\<close>

fun disasm_from :: "bool \<Rightarrow> nat \<Rightarrow> u8 list \<Rightarrow> string" where
  "disasm_from raw addr (b0 # b1 # b2 # b3 # bs) =
     (let w = ucast b0 OR push_bit 8 (ucast b1) OR push_bit 16 (ucast b2) OR push_bit 24 (ucast b3)
      in disasm_line raw addr w @ disasm_from raw (addr + 4) bs)"
| "disasm_from raw addr _ = []"

definition char_bytes :: "string \<Rightarrow> u8 list" where
  "char_bytes s = map (\<lambda>c. of_nat (of_char c)) s"

fun disasm_args :: "string list \<Rightarrow> bool \<times> string option \<Rightarrow> bool \<times> string option" where
  "disasm_args [] r = r"
| "disasm_args (a # as) (raw, path) =
     disasm_args as (case a of
       c0 # c1 # _ \<Rightarrow> if c0 = CHR ''-'' \<and> c1 = CHR ''r'' then (True, path) else (raw, Some a)
     | _ \<Rightarrow> (raw, Some a))"

text \<open>Return code, standard output, standard error.\<close>

definition main_disasm :: "string \<Rightarrow> string list \<Rightarrow> files \<Rightarrow> nat \<times> string \<times> string" where
  "main_disasm argv0 args fs = (case disasm_args args (False, None) of
     (_, None) \<Rightarrow> (2, [], ''usage: '' @ argv0 @ '' [-r] program.bin\<newline>'')
   | (raw, Some path) \<Rightarrow> (case read_file fs path of
         Inl e \<Rightarrow> (1, [], e)
       | Inr s \<Rightarrow> (0, disasm_from raw 0 (char_bytes s), [])))"

subsection \<open>Canonical words\<close>

text \<open>A word whose opcode has a mnemonic and whose unused fields are zero.\<close>

definition canonical :: "u32 \<Rightarrow> bool" where
  "canonical w = (op_known (DECODE_OPCODE w) \<and> (case opcode_format (DECODE_OPCODE w) of
     OPF_NONE \<Rightarrow> DECODE_RDEST w = 0 \<and> DECODE_RSRC w = 0 \<and> DECODE_IMM w = 0
   | OPF_RD_RS \<Rightarrow> DECODE_IMM w = 0
   | OPF_RD \<Rightarrow> DECODE_RSRC w = 0 \<and> DECODE_IMM w = 0
   | OPF_RD_IMM \<Rightarrow> DECODE_RSRC w = 0
   | OPF_RD_MEM \<Rightarrow> True
   | OPF_MEM_RS \<Rightarrow> True
   | OPF_IMM \<Rightarrow> DECODE_RDEST w = 0 \<and> DECODE_RSRC w = 0))"

text \<open>The tokens of a printed word, and the statement they stand for.\<close>

definition num_tok :: "nat \<Rightarrow> nat \<Rightarrow> token" where
  "num_tok line n = (tok T_NUM line)\<lparr>tok_num := int n\<rparr>"

definition reg_tok :: "nat \<Rightarrow> u8 \<Rightarrow> token" where
  "reg_tok line r = (tok T_REG line)\<lparr>tok_text := [CHR ''R'', digit_char (unat r)], tok_reg := unat r\<rparr>"

definition imm_toks :: "nat \<Rightarrow> i32 \<Rightarrow> token list" where
  "imm_toks line im = (if sint im < 0 then [tok T_MINUS line, num_tok line (nat (- sint im))]
     else [num_tok line (nat (sint im))])"

definition mem_toks :: "nat \<Rightarrow> u8 \<Rightarrow> i32 \<Rightarrow> token list" where
  "mem_toks line r im = [tok T_LBRACK line, reg_tok line r,
     tok (if sint im < 0 then T_MINUS else T_PLUS) line, num_tok line (nat \<bar>sint im\<bar>), tok T_RBRACK line]"

definition operand_toks :: "nat \<Rightarrow> u32 \<Rightarrow> token list" where
  "operand_toks line w =
     (let rd = DECODE_RDEST w; rs = DECODE_RSRC w; im = DECODE_IMM w
      in case opcode_format (DECODE_OPCODE w) of
           OPF_NONE \<Rightarrow> []
         | OPF_RD_RS \<Rightarrow> [reg_tok line rd, tok T_COMMA line, reg_tok line rs]
         | OPF_RD \<Rightarrow> [reg_tok line rd]
         | OPF_RD_IMM \<Rightarrow> [reg_tok line rd, tok T_COMMA line] @ imm_toks line im
         | OPF_RD_MEM \<Rightarrow> [reg_tok line rd, tok T_COMMA line] @ mem_toks line rs im
         | OPF_MEM_RS \<Rightarrow> mem_toks line rd im @ [tok T_COMMA line, reg_tok line rs]
         | OPF_IMM \<Rightarrow> imm_toks line im)"

definition word_toks :: "nat \<Rightarrow> u32 \<Rightarrow> token list" where
  "word_toks line w =
     (tok T_IDENT line)\<lparr>tok_text := opcode_name (DECODE_OPCODE w)\<rparr> # operand_toks line w"

definition word_stmt :: "nat \<Rightarrow> u32 \<Rightarrow> stmt" where
  "word_stmt line w = (stmt_of ST_INSTR line)\<lparr>st_op := DECODE_OPCODE w, st_rdest := DECODE_RDEST w,
     st_rsrc := DECODE_RSRC w, st_imm := DECODE_IMM w\<rparr>"

subsection \<open>Lexing a listing\<close>

definition lex_pushes :: "token list \<Rightarrow> string + token list \<Rightarrow> string + token list" where
  "lex_pushes ts r = foldr lex_push ts r"

lemma lex_pushes_simps [simp]:
  "lex_pushes [] r = r" "lex_pushes (t # ts) r = lex_push t (lex_pushes ts r)"
  "lex_pushes (ts @ us) r = lex_pushes ts (lex_pushes us r)"
  by (simp_all add: lex_pushes_def)

lemma lex_pushes_Inr [simp]: "lex_pushes ts (Inr us) = Inr (ts @ us)"
  by (induction ts) simp_all

lemma fmt_reg_eq: "fmt_reg r = CHR ''R'' # fmt_base 10 (unat r)"
proof -
  have "unat r < 2 ^ LENGTH(8)" by (rule unsigned_less)
  then show ?thesis by (simp add: fmt_reg_def fmt_u_def unsigned_ucast_eq take_bit_eq_mod)
qed

lemma lex_reg:
  assumes "r < 8" "rest = [] \<or> \<not> ident_char (hd rest)"
  shows "lex_from line (fmt_reg r @ rest) = lex_push (reg_tok line r) (lex_from line rest)"
  using lex_reg_piece [of "unat r" rest line] assms
  by (simp add: fmt_reg_eq reg_tok_def word_less_nat_alt fmt_base_less)

lemma lex_num:
  assumes "n < 4294967296" "rest = [] \<or> \<not> ident_char (hd rest)"
  shows "lex_from line (fmt_base 10 n @ rest) = lex_push (num_tok line n) (lex_from line rest)"
  using lex_number_piece [of n rest line] assms
  by (auto simp: num_tok_def LONG_MAX_def ident_char_def)

lemma imm_small: "imm_fits im \<Longrightarrow> nat (sint im) < 4294967296 \<and> nat (- sint im) < 4294967296"
  unfolding imm_fits_def by arith

lemma lex_imm:
  assumes "imm_fits im" "rest = [] \<or> \<not> ident_char (hd rest)"
  shows "lex_from line (fmt_d im @ rest) = lex_pushes (imm_toks line im) (lex_from line rest)"
  using lex_num [of _ rest line] imm_small [OF assms(1)] assms(2)
  by (simp add: fmt_d_def fmt_int_def imm_toks_def lex_from_marks)

lemma lex_mem:
  assumes "r < 8" "imm_fits im"
  shows "lex_from line (fmt_mem r im @ rest) = lex_pushes (mem_toks line r im) (lex_from line rest)"
proof -
  have i: "\<not> ident_char (CHR '']'')" "\<not> ident_char (CHR ''+'')" "\<not> ident_char (CHR ''-'')"
    by (simp_all add: ident_char_def ctype_defs)
  have neg: "fmt_d (- im) = fmt_base 10 (nat (- sint im))" if "sint im < 0"
    using that assms(2) by (simp add: fmt_d_def fmt_int_def sint_minus_imm)
  show ?thesis
    using assms imm_small [OF assms(2)] i neg
    by (auto simp: fmt_mem_def mem_toks_def lex_from_marks lex_reg lex_num fmt_d_def fmt_int_def)
qed

lemma opcode_name_word:
  assumes "op_known op"
  shows "opcode_name op \<noteq> []" "isalpha (hd (opcode_name op))" "list_all ident_char (opcode_name op)"
    "length (opcode_name op) < TEXT_SIZE" "is_reg (opcode_name op) = None"
  using assms by (cases op; simp add: ctype_defs ident_char_def TEXT_SIZE_def is_reg_def)+

lemma lex_name:
  assumes "op_known op" "rest = [] \<or> \<not> ident_char (hd rest)"
  shows "lex_from line (opcode_name op @ rest) =
    lex_push ((tok T_IDENT line)\<lparr>tok_text := opcode_name op\<rparr>) (lex_from line rest)"
proof -
  have "lex_from line (opcode_name op @ rest) = lex_push (ident_token (opcode_name op) line) (lex_from line rest)"
    using opcode_name_word [OF assms(1)] assms(2)
    by (intro lex_word_piece) (auto simp: list_all_iff)
  then show ?thesis using opcode_name_word(5) [OF assms(1)] by (simp add: ident_token_def)
qed

lemma mark_class:
  "\<not> ident_char (CHR '' '')" "\<not> ident_char (CHR '','')" "\<not> ident_char (CHR ''\<newline>'')"
  "isspace (CHR '' '')"
  by (simp_all add: ident_char_def ctype_defs)

lemma lex_word_text:
  assumes "op_known (DECODE_OPCODE w)"
  shows "lex_from line (disasm_text w @ CHR ''\<newline>'' # rest) =
    lex_pushes (word_toks line w) (lex_push (tok T_NEWLINE line) (lex_from (Suc line) rest))"
  using assms imm_fits_decode [of w]
  by (simp add: disasm_text_def word_toks_def operand_toks_def Let_def lex_name lex_reg lex_imm lex_mem
      lex_from_space lex_from_marks mark_class split: opformat.split)

text \<open>The tokens of a whole listing.\<close>

fun listing_toks :: "nat \<Rightarrow> u32 list \<Rightarrow> token list" where
  "listing_toks line [] = [tok T_EOF line]"
| "listing_toks line (w # ws) = word_toks line w @ tok T_NEWLINE line # listing_toks (Suc line) ws"

lemma lex_listing:
  "\<forall>w \<in> set ws. op_known (DECODE_OPCODE w) \<Longrightarrow>
   lex_from line (concat (map (\<lambda>w. disasm_text w @ ''\<newline>'') ws)) = Inr (listing_toks line ws)"
  by (induction ws arbitrary: line) (simp_all add: lex_word_text)

text \<open>A listing holds no NUL, so the C string is all of it.\<close>

definition no_nul :: "string \<Rightarrow> bool" where
  "no_nul s = (\<forall>c \<in> set s. of_char c \<noteq> (0 :: nat))"

lemma no_nul_simps [simp]:
  "no_nul []" "no_nul (c # s) = (of_char c \<noteq> (0 :: nat) \<and> no_nul s)"
  "no_nul (s @ t) = (no_nul s \<and> no_nul t)"
  by (auto simp: no_nul_def)

lemma cstr_id: "no_nul s \<Longrightarrow> cstr s = s"
  by (simp add: cstr_def no_nul_def takeWhile_eq_all_conv)

lemma no_nul_digits [simp]: "no_nul (fmt_base 10 n)"
proof -
  have "isdigit c \<Longrightarrow> of_char c \<noteq> (0 :: nat)" for c by (auto simp: isdigit_def Let_def)
  then show ?thesis unfolding no_nul_def using isdigit_fmt_base [of _ n] by blast
qed

lemma no_nul_parts [simp]:
  "no_nul (opcode_name op)" "no_nul (fmt_reg r)" "no_nul (fmt_d im)" "no_nul (fmt_mem r im)"
proof -
  show "no_nul (opcode_name op)" by (cases op) simp_all
  show d: "no_nul (fmt_reg r)" "no_nul (fmt_d im)" for r im
    by (simp_all add: fmt_reg_eq fmt_d_def fmt_int_def)
  show "no_nul (fmt_mem r im)" by (simp add: fmt_mem_def d)
qed

lemma no_nul_text: "no_nul (disasm_text w)"
  by (simp add: disasm_text_def Let_def split: opformat.split)

lemma lex_listing_text:
  "\<forall>w \<in> set ws. op_known (DECODE_OPCODE w) \<Longrightarrow>
   lex (concat (map (\<lambda>w. disasm_text w @ ''\<newline>'') ws)) = Inr (listing_toks 1 ws)"
proof -
  assume k: "\<forall>w \<in> set ws. op_known (DECODE_OPCODE w)"
  have "no_nul (concat (map (\<lambda>w. disasm_text w @ ''\<newline>'') ws))"
    using no_nul_text by (induction ws) simp_all
  then show ?thesis by (simp add: lex_def cstr_id lex_listing [OF k])
qed

end
