(* ===== verification/Roundtrip.thy ===== *)
theory Roundtrip
  imports Disasm
begin

text \<open>
  Disassemble and assemble again: what the parser makes of the tokens of a printed word, what
  the passes make of a list of such statements, and the round trip over whole binaries.
\<close>

subsection \<open>Parsing known tokens\<close>

text \<open>What is left of the token array, and \<open>n\<close> tokens taken.\<close>

definition left :: "pstate \<Rightarrow> token list" where
  "left p = drop (p_i p) (p_toks p)"

definition skips :: "nat \<Rightarrow> pstate \<Rightarrow> pstate" where
  "skips n p = p\<lparr>p_i := p_i p + n\<rparr>"

lemma left_skips [simp]: "left (skips n p) = drop n (left p)"
  by (simp add: left_def skips_def add.commute)

lemma left_push_stmt [simp]: "left (push_stmt s p) = left p"
  by (simp add: left_def push_stmt_def)

lemma skips_skips [simp]: "skips m (skips n p) = skips (n + m) p"
  by (simp add: skips_def add.assoc)

lemma skip_skips: "skip p = skips 1 p"
  by (simp add: skip_def skips_def)

lemma skips_simps [simp]:
  "p_error (skips n p) = p_error p" "p_out (skips n p) = p_out p" "p_msgs (skips n p) = p_msgs p"
  "p_toks (skips n p) = p_toks p" "p_i (skips n p) = p_i p + n"
  by (simp_all add: skips_def)

lemma tok_at_left: "left p = ts \<Longrightarrow> k < length ts \<Longrightarrow> tok_at p (p_i p + k) = Inr (ts ! k)"
  by (auto simp: left_def tok_at_def)

lemma peek_left [simp]: "left p = t # ts \<Longrightarrow> peek p = Inr t"
  using tok_at_left [of p "t # ts" 0] by (simp add: peek_def)

lemma expect_left:
  "left p = t # ts \<Longrightarrow> tok_type t = tt \<Longrightarrow> expect tt w p = Inr (True, skips 1 p)"
  by (simp add: expect_def skip_skips)

lemma reg_tok_simps [simp]:
  "tok_type (reg_tok line r) = T_REG" "tok_reg (reg_tok line r) = unat r"
  "tok_type (num_tok line n) = T_NUM" "tok_num (num_tok line n) = int n"
  by (simp_all add: reg_tok_def num_tok_def)

lemma expect_reg_left:
  "left p = reg_tok line r # ts \<Longrightarrow> expect_reg p = Inr (r, skips 1 p)"
  by (simp add: expect_reg_def skip_skips)

lemma to_int32_sint [simp]: "to_int32 (sint im) = im" "to_int32 (- (- sint im)) = im"
  by (simp_all add: to_int32_def)

lemma parse_signed_left:
  "left p = imm_toks line im @ ts \<Longrightarrow>
   parse_signed p = Inr (Some im, skips (length (imm_toks line im)) p)"
  by (auto simp: imm_toks_def parse_signed_def Let_def skip_skips eval_nat_numeral split: if_splits)

lemma imm_toks_hd: "\<exists>t us. imm_toks line im = t # us \<and> tok_type t \<noteq> T_IDENT"
  by (simp add: imm_toks_def)

lemma parse_imm_left:
  assumes "left p = imm_toks line im @ ts"
  shows "parse_imm_or_label s p = Inr (s\<lparr>st_imm := im\<rparr>, skips (length (imm_toks line im)) p)"
proof -
  obtain t us where "imm_toks line im = t # us" "tok_type t \<noteq> T_IDENT" using imm_toks_hd by blast
  then show ?thesis
    using parse_signed_left [OF assms] assms by (simp add: parse_imm_or_label_def)
qed

lemma parse_mem_left:
  "left p = mem_toks line r im @ ts \<Longrightarrow> parse_mem b f p = Inr ((r, im), skips 5 p)"
  by (auto simp: mem_toks_def parse_mem_def Let_def expect_left skip_skips split: if_splits)

lemma parse_operands_left:
  assumes "left p = operand_toks line w @ ts" "canonical w"
  shows "parse_operands (opcode_format (DECODE_OPCODE w)) ((stmt_of ST_INSTR line)\<lparr>st_op := DECODE_OPCODE w\<rparr>) p
    = Inr (word_stmt line w, skips (length (operand_toks line w)) p)"
proof (cases "opcode_format (DECODE_OPCODE w)")
  case OPF_RD_MEM
  have l: "left p = reg_tok line (DECODE_RDEST w) # tok T_COMMA line #
      mem_toks line (DECODE_RSRC w) (DECODE_IMM w) @ ts"
    using assms(1) OPF_RD_MEM by (simp add: operand_toks_def Let_def)
  then have "parse_mem 0 0 (skips (Suc (Suc 0)) p) =
      Inr ((DECODE_RSRC w, DECODE_IMM w), skips 5 (skips (Suc (Suc 0)) p))"
    by (intro parse_mem_left [where ts = ts]) simp
  with OPF_RD_MEM l show ?thesis
    by (simp add: parse_operands_def operand_toks_def Let_def expect_reg_left expect_left
        word_stmt_def stmt_of_def) (simp add: mem_toks_def)
next
  case OPF_MEM_RS
  with assms show ?thesis
    by (simp add: parse_operands_def operand_toks_def Let_def parse_mem_left)
      (simp add: mem_toks_def expect_left expect_reg_left word_stmt_def stmt_of_def)
qed (use assms in \<open>simp_all add: parse_operands_def operand_toks_def Let_def expect_reg_left expect_left
    parse_imm_left canonical_def word_stmt_def stmt_of_def\<close>)

lemma find_mnem_name: "op_known op \<Longrightarrow> find_mnem (opcode_name op) = Some (opcode_name op, op)"
  by (cases op) (simp_all add: find_mnem_def MNEMONICS_def strcaseeq_def tolower_def isupper_def)

lemma operand_toks_not_colon: "\<forall>t \<in> set (operand_toks line w). tok_type t \<noteq> T_COLON"
  by (auto simp: operand_toks_def mem_toks_def imm_toks_def Let_def split: opformat.splits)

text \<open>One printed line is two turns of the parse loop.\<close>

lemma parse_loop_word:
  assumes l: "left p = word_toks line w @ tok T_NEWLINE line # ts" and c: "canonical w" and e: "\<not> p_error p"
  shows "parse_loop p = parse_loop (push_stmt (word_stmt line w) (skips (Suc (length (word_toks line w))) p))"
proof -
  let ?t = "(tok T_IDENT line)\<lparr>tok_text := opcode_name (DECODE_OPCODE w)\<rparr>"
  let ?r = "operand_toks line w @ tok T_NEWLINE line # ts"
  let ?n = "length (operand_toks line w)"
  let ?q = "push_stmt (word_stmt line w) (skips (Suc ?n) p)"
  have lt: "left p = ?t # ?r" using l by (simp add: word_toks_def)
  have t1: "tok_at p (p_i p + 1) = Inr (?r ! 0)"
    using tok_at_left [OF lt, of 1] by simp
  have nc: "tok_type (?r ! 0) \<noteq> T_COLON"
    using operand_toks_not_colon [of line w] by (cases "operand_toks line w") auto
  have ops: "parse_instr (opcode_name (DECODE_OPCODE w), DECODE_OPCODE w) line (skips 1 p) = Inr ?q"
    using parse_operands_left [of "skips 1 p" line w "tok T_NEWLINE line # ts"] c lt e
    by (simp add: parse_instr_def Let_def)
  have step: "parse_step ?t p = Inr ?q"
    using t1 nc ops c by (simp add: parse_step_def find_mnem_name canonical_def skip_skips)
  have "left ?q = tok T_NEWLINE line # ts"
    using lt by simp
  then have "parse_loop ?q = parse_loop (skip ?q)"
    using e by (subst parse_loop.simps) (simp add: parse_step_def push_stmt_def)
  moreover have "parse_loop p = parse_loop ?q"
    using e lt step by (subst parse_loop.simps) simp
  moreover have "skip ?q = push_stmt (word_stmt line w) (skips (Suc (length (word_toks line w))) p)"
    by (simp add: skip_def push_stmt_def skips_def word_toks_def)
  ultimately show ?thesis by simp
qed

fun listing_stmts :: "nat \<Rightarrow> u32 list \<Rightarrow> stmt list" where
  "listing_stmts line [] = []"
| "listing_stmts line (w # ws) = word_stmt line w # listing_stmts (Suc line) ws"

lemma parse_loop_listing:
  "left p = listing_toks line ws \<Longrightarrow> \<forall>w \<in> set ws. canonical w \<Longrightarrow> \<not> p_error p \<Longrightarrow>
   \<exists>q. parse_loop p = Inr q \<and> \<not> p_error q \<and> p_msgs q = p_msgs p \<and>
       p_out q = p_out p @ listing_stmts line ws"
proof (induction ws arbitrary: p line)
  case Nil
  then show ?case by (subst parse_loop.simps) simp
next
  case (Cons w ws)
  let ?q = "push_stmt (word_stmt line w) (skips (Suc (length (word_toks line w))) p)"
  have l: "left p = word_toks line w @ tok T_NEWLINE line # listing_toks (Suc line) ws"
    using Cons.prems(1) by simp
  then have "left ?q = listing_toks (Suc line) ws"
    by simp
  with Cons.IH [of ?q "Suc line"] Cons.prems(2,3) parse_loop_word [OF l]
  show ?case by (simp add: push_stmt_def)
qed

lemma parse_listing:
  assumes "\<forall>w \<in> set ws. canonical w" "ws \<noteq> []"
  shows "parse (listing_toks line ws) = Inr (Some (listing_stmts line ws), [])"
proof -
  let ?p = "\<lparr>p_toks = listing_toks line ws, p_i = 0, p_error = False, p_out = [], p_msgs = []\<rparr>"
  obtain q where "parse_loop ?p = Inr q" "\<not> p_error q" "p_msgs q = []" "p_out q = listing_stmts line ws"
    using parse_loop_listing [of ?p line ws] assms(1) by (auto simp: left_def)
  moreover have "listing_stmts line ws \<noteq> []" using assms(2) by (cases ws) auto
  ultimately show ?thesis by (simp add: parse_def)
qed

subsection \<open>Assembling a list of words\<close>

definition word_bytes :: "u32 \<Rightarrow> u8 list" where
  "word_bytes w = [ucast (w AND 0xFF), ucast (drop_bit 8 w AND 0xFF),
     ucast (drop_bit 16 w AND 0xFF), ucast (drop_bit 24 w AND 0xFF)]"

fun writes :: "u32 \<Rightarrow> u32 list \<Rightarrow> (u32 \<times> u32) list" where
  "writes a [] = []"
| "writes a (w # ws) = (a, w) # writes (a + 4) ws"

lemma put_le_append:
  "put_le (pre @ x0 # x1 # x2 # x3 # post) (length pre) w = pre @ word_bytes w @ post"
  by (simp add: put_le_def word_bytes_def list_update_append)

lemma put_all_writes:
  "unat a = length pre \<Longrightarrow> length pre + 4 * length ws < 4294967296 \<Longrightarrow>
   put_all (writes a ws) (pre @ replicate (4 * length ws) 0) = pre @ concat (map word_bytes ws)"
proof (induction ws arbitrary: a pre)
  case (Cons w ws)
  have "unat (a + 4) = length (pre @ word_bytes w)"
    using Cons.prems by (simp add: unat_word_ariths word_bytes_def)
  then have ih: "put_all (writes (a + 4) ws) ((pre @ word_bytes w) @ replicate (4 * length ws) 0) =
      (pre @ word_bytes w) @ concat (map word_bytes ws)"
    by (rule Cons.IH) (use Cons.prems in \<open>simp add: word_bytes_def\<close>)
  have "replicate (4 * length (w # ws)) (0 :: u8) = 0 # 0 # 0 # 0 # replicate (4 * length ws) 0"
    by (simp add: numeral_eq_Suc)
  then show ?case
    using ih Cons.prems(1) put_le_append [of pre 0 0 0 0 "replicate (4 * length ws) 0" w]
    by (simp only: writes.simps put_all_simps list.map concat.simps append_assoc)
qed simp

lemma word_stmt_simps [simp]:
  "st_type (word_stmt line w) = ST_INSTR" "st_imm_label (word_stmt line w) = []"
  "st_imm (word_stmt line w) = DECODE_IMM w" "st_op (word_stmt line w) = DECODE_OPCODE w"
  "st_rdest (word_stmt line w) = DECODE_RDEST w" "st_rsrc (word_stmt line w) = DECODE_RSRC w"
  "emits (word_stmt line w)"
  by (simp_all add: word_stmt_def stmt_of_def emits_def)

lemma word_stmt_ok: "op_known (DECODE_OPCODE w) \<Longrightarrow> stmt_ok (word_stmt line w)"
  by (simp add: stmt_ok_def word_stmt_def stmt_of_def TEXT_SIZE_def)

lemma listing_writes:
  "map (\<lambda>s. (st_address s, word_of_stmt ss s)) (filter emits (placed (listing_stmts line ws) a))
   = writes a ws"
proof (induction ws arbitrary: line a)
  case (Cons w ws)
  have "emits (s\<lparr>st_address := a\<rparr>) = emits s" for s by (simp add: emits_def)
  with Cons show ?case by (simp add: word_of_stmt_def resolved_def encode_decode)
qed simp

lemma listing_no_wrap:
  "unat a + 4 * length ws < 4294967296 \<Longrightarrow> s \<in> set (placed (listing_stmts line ws) a) \<Longrightarrow>
   unat (st_address s) + 4 \<le> unat a + 4 * length ws"
proof (induction ws arbitrary: line a)
  case (Cons w ws)
  have a4: "unat (a + 4) = unat a + 4" using Cons.prems(1) by (simp add: unat_word_ariths)
  show ?case using Cons.prems Cons.IH [of "a + 4" "Suc line"] a4 by auto
qed simp

lemma listing_max:
  "p1_addr p = a \<Longrightarrow> unat (p1_max p) = unat a \<Longrightarrow> unat a + 4 * length ws < 4294967296 \<Longrightarrow>
   unat (p1_max (snd (pass1_run (listing_stmts line ws) p))) = unat a + 4 * length ws"
proof (induction ws arbitrary: line a p)
  case (Cons w ws)
  have a4: "unat (a + 4) = unat a + 4" using Cons.prems(3) by (simp add: unat_word_ariths)
  let ?p = "p\<lparr>p1_addr := a + 4, p1_max := a + 4\<rparr>"
  have "pass1_step (word_stmt line w) p = ((word_stmt line w)\<lparr>st_address := a\<rparr>, ?p)"
    using Cons.prems a4 by (simp add: pass1_step_def Let_def word_less_nat_alt)
  with Cons.IH [of ?p "a + 4" "Suc line"] Cons.prems(3) a4 show ?case
    by (simp add: case_prod_beta Let_def)
qed simp

lemma assemble_listing:
  assumes k: "\<forall>w \<in> set ws. op_known (DECODE_OPCODE w)" and l: "4 * length ws < 4294967296"
  shows "assemble_stmts (listing_stmts line ws) = Inr (Inr (concat (map word_bytes ws)))"
proof -
  have ok: "\<forall>s \<in> set (listing_stmts line ws). stmt_ok s"
    using k by (induction ws arbitrary: line) (simp_all add: word_stmt_ok)
  have fits: "\<forall>s \<in> set (listing_stmts line ws). stmt_fits (listing_stmts line ws) s"
  proof -
    have "\<forall>s \<in> set (listing_stmts line ws). stmt_fits ss s" for ss
      by (induction ws arbitrary: line) (simp_all add: stmt_fits_def resolved_def)
    then show ?thesis .
  qed
  have nw: "\<forall>s \<in> set (placed (listing_stmts line ws) 0). unat (st_address s) + 4 \<le> 4 * length ws"
    using listing_no_wrap [of 0 ws] l by simp
  have mx: "unat (p1_max (snd (pass1_run (listing_stmts line ws)
      \<lparr>p1_syms = [], p1_addr = 0, p1_max = 0\<rparr>))) = 4 * length ws"
    using listing_max [of "\<lparr>p1_syms = [], p1_addr = 0, p1_max = 0\<rparr>" 0 ws line] l by simp
  have "put_all (writes 0 ws) (replicate (4 * length ws) 0) = concat (map word_bytes ws)"
    using put_all_writes [of 0 "[]" ws] l by simp
  then show ?thesis
    unfolding assemble_stmts_Inr_iff [OF ok] using fits nw l mx
    by (fastforce simp: no_wrap_def listing_writes)
qed

subsection \<open>The round trip\<close>

lemma disasm_words:
  "disasm_from True addr (concat (map word_bytes ws)) = concat (map (\<lambda>w. disasm_text w @ ''\<newline>'') ws)"
proof (induction ws arbitrary: addr)
  case (Cons w ws)
  then show ?case
    using bytes_of_word [of w] isa_disasm_full [of DISASM_SIZE w]
    by (simp add: word_bytes_def disasm_line_def DISASM_SIZE_def Let_def)
qed simp

text \<open>C12: Assembling the raw disassembly of a non-empty binary of canonical instruction words gives the
  binary back, byte for byte, with no message.\<close>

theorem disassemble_assemble:
  assumes "\<forall>w \<in> set ws. canonical w" "ws \<noteq> []" "4 * length ws < 4294967296"
  shows "assemble_text (disasm_from True 0 (concat (map word_bytes ws))) =
    Inr (Some (concat (map word_bytes ws)), [])"
proof -
  have k: "\<forall>w \<in> set ws. op_known (DECODE_OPCODE w)" using assms(1) by (simp add: canonical_def)
  show ?thesis
    by (simp add: assemble_text_def disasm_words lex_listing_text [OF k] parse_listing assms(1,2)
        assemble_listing [OF k assms(3)])
qed

theorem disassemble_assemble_witness:
  "assemble_text (disasm_from True 0 (concat (map word_bytes [0x3C00000A, 0x391FFFFC, 0x04000000]))) =
    Inr (Some (concat (map word_bytes [0x3C00000A, 0x391FFFFC, 0x04000000])), [])"
  by (rule disassemble_assemble)
    (simp_all add: canonical_def decode_defs opcode_of_def Let_def)

end
