(* ===== verification/Emulator.thy ===== *)
theory Emulator
  imports Execution Roundtrip
begin

text \<open>
  The emulator program (\<open>src/main_emu.c\<close>): argument parsing, loading a binary into memory, the
  run, and the text it prints. The clock and the floating-point time and throughput lines are a
  parameter, the text printed for an instruction count. The lemmas follow a binary from the
  assembler's output buffer through the file into memory, and so to the instruction the
  processor fetches.
\<close>

subsection \<open>The program\<close>

definition print_out :: "string \<Rightarrow> console \<Rightarrow> console" where
  "print_out t con = con\<lparr>con_out := con_out con @ t\<rparr>"

text \<open>\<open>fread(m->bytes, 1, MEM_SIZE, f)\<close>: the count and the memory.\<close>

definition load_bytes :: "memory \<Rightarrow> string \<Rightarrow> memory" where
  "load_bytes m s = m\<lparr>bytes := (\<lambda>a. if unat a < min (length s) (unat MEM_SIZE)
     then char_bytes s ! unat a else bytes m a)\<rparr>"

definition load_count :: "string \<Rightarrow> nat" where
  "load_count s = min (length s) (unat MEM_SIZE)"

definition load_binary :: "memory \<Rightarrow> files \<Rightarrow> string \<Rightarrow> string + memory" where
  "load_binary m fs path = (case read_file fs path of
     Inl e \<Rightarrow> Inl e
   | Inr s \<Rightarrow> if load_count s = 0 then Inl (path @ '' is empty\<newline>'') else Inr (load_bytes m s))"

definition bit_text :: "bool \<Rightarrow> string" where
  "bit_text b = (if b then ''1'' else ''0'')"

definition flags_text :: "cpu_flags \<Rightarrow> string" where
  "flags_text f = ''Z'' @ bit_text (flag_z f) @ '' C'' @ bit_text (flag_c f) @
     '' O'' @ bit_text (flag_o f) @ '' N'' @ bit_text (flag_n f)"

definition dump_state :: "cpu \<Rightarrow> string" where
  "dump_state s =
     concat (map (\<lambda>i. ''R'' @ fmt_base 10 i @ '' = '' @ fmt_u (regs s ! i) @ ''\<newline>'') [0..<NUM_REGS]) @
     ''PC = '' @ fmt_u (pc s) @ ''  SP = '' @ fmt_u (sp s) @ ''  '' @ flags_text (flags s) @ ''\<newline>''"

text \<open>The argument loop: \<open>--trace\<close>, \<open>--stats\<close>, the path.\<close>

fun emu_args :: "string list \<Rightarrow> bool \<times> bool \<times> string option \<Rightarrow> bool \<times> bool \<times> string option" where
  "emu_args [] r = r"
| "emu_args (a # as) (trace, stats, path) =
     (if a = ''--trace'' then emu_args as (True, stats, path)
      else if a = ''--stats'' then emu_args as (trace, True, path)
      else emu_args as (trace, stats, Some a))"

definition stats_report :: "(u64 \<Rightarrow> string) \<Rightarrow> u64 \<Rightarrow> string" where
  "stats_report timing n =
     ''--- stats ---\<newline>'' @ ''instructions: '' @ fmt_base 10 (unat n) @ ''\<newline>'' @ timing n"

definition final_report :: "(u64 \<Rightarrow> string) \<Rightarrow> bool \<Rightarrow> cpu \<Rightarrow> string" where
  "final_report timing stats s =
     dump_state s @ (if stats then stats_report timing (icount s) else [])"

text \<open>The return code and the console; \<open>None\<close> when the run does not end.\<close>

definition main_emu ::
  "(u64 \<Rightarrow> string) \<Rightarrow> string \<Rightarrow> string list \<Rightarrow> files \<Rightarrow> console \<Rightarrow> (nat \<times> console) res option" where
  "main_emu timing argv0 args fs con = (case emu_args args (False, False, None) of
     (_, _, None) \<Rightarrow>
       Some (Inr (2, print_err (''usage: '' @ argv0 @ '' [--trace] [--stats] program.bin\<newline>'') con))
   | (trace, stats, Some path) \<Rightarrow>
       (case load_binary mem_init fs path of
          Inl e \<Rightarrow> Some (Inr (1, print_err e con))
        | Inr m \<Rightarrow> map_option (\<lambda>r. res_bind r (\<lambda>(s, con).
            Inr (0, print_out (final_report timing stats s) con)))
            (cpu_run trace (cpu_init m) con)))"

subsection \<open>From the output buffer to memory\<close>

text \<open>The bytes written to the file are the ones read back.\<close>

lemma char_bytes_byte_chars [simp]: "char_bytes (byte_chars bs) = bs"
proof -
  have "word_of_nat (unat b mod 256) = b" for b :: u8
  proof -
    have "unat b < 2 ^ LENGTH(8)" by (rule unsigned_less)
    then show ?thesis by simp
  qed
  then show ?thesis by (simp add: char_bytes_def byte_chars_def o_def)
qed

lemma length_byte_chars [simp]: "length (byte_chars bs) = length bs"
  by (simp add: byte_chars_def)

lemma load_bytes_word:
  assumes "unat a + 4 \<le> length bs" "length bs \<le> 65536"
  shows "word_at (load_bytes m (byte_chars bs)) a = le_word bs (unat a)"
  using assms plus_small [of a] by (simp add: word_at_def le_word_def load_bytes_def MEM_SIZE_def)

text \<open>What the processor fetches at the address of an assembled instruction.\<close>

lemma assembled_fetch:
  assumes ok: "\<forall>s \<in> set ss. stmt_ok s" and asm: "assemble_stmts ss = Inr (Inr bs)"
    and apart: "sorted_wrt (\<lambda>s t. words_apart (st_address s) (st_address t)) (filter emits (placed ss 0))"
    and t: "t \<in> set (placed ss 0)" "st_type t = ST_INSTR" and len: "length bs \<le> 65536"
    and s: "mem s = load_bytes m (byte_chars bs)" "pc s = st_address t"
  shows "\<exists>ins. fetched s ins \<and> opcode ins = st_op t \<and> rdest ins = st_rdest t \<and> rsrc ins = st_rsrc t \<and>
    resolved ss (st_imm_label t) (st_imm t) = Some (imm ins)"
proof -
  have e: "emits t" using t(2) by (simp add: emits_def)
  note w = assembled_word [OF ok asm apart t(1) e]
  have "mem_read32 (mem s) (pc s) = Inr (word_of_stmt ss t)"
    using w(1,2) len by (simp add: s mem_read32_in_range load_bytes_word)
  then have "fetched s (decode (word_of_stmt ss t))" by (simp add: fetched_def)
  moreover have "DECODE_OPCODE (word_of_stmt ss t) = st_op t \<and> DECODE_RDEST (word_of_stmt ss t) = st_rdest t \<and>
      DECODE_RSRC (word_of_stmt ss t) = st_rsrc t \<and>
      resolved ss (st_imm_label t) (st_imm t) = Some (DECODE_IMM (word_of_stmt ss t))"
    using w(3-6) t(2)
    by (auto simp: word_of_stmt_def stmt_fits_def decode_opcode_encode decode_regs_encode decode_imm_encode
        split: option.splits)
  ultimately show ?thesis by (intro exI [of _ "decode (word_of_stmt ss t)"]) simp
qed

lemma assemble_success:
  assumes "assemble fs src_path out_path = Inr (0, fs', msgs)"
  shows "\<exists>src toks ss bs. contents fs src_path = Some src \<and> lex src = Inr toks \<and>
    parse toks = Inr (Some ss, msgs) \<and> assemble_stmts ss = Inr (Inr bs) \<and>
    contents fs' out_path = Some (byte_chars bs)"
  using assms
  by (auto simp: assemble_def assemble_text_def read_file_def res_bind_Inr_iff
      split: sum.splits option.splits if_splits prod.splits) (metis sum.exhaust)+


definition halt_files :: files where
  "halt_files = \<lparr>contents = [''a'' \<mapsto> ''HALT''], writable = (\<lambda>_. True)\<rparr>"


subsection \<open>What the program prints\<close>

lemma print_out_simps [simp]: "con_out (print_out t con) = con_out con @ t"
  by (simp add: print_out_def)

text \<open>A run with or without trace halts in the state that the single steps reach, with the same
  standard output.\<close>

lemma run_out_iff_steps:
  "(\<exists>c. cpu_run t s con = Some (Inr (s', c)) \<and> con_out c = out) \<longleftrightarrow>
   (\<exists>n c. cpu_steps n s con = Inr (s', c) \<and> halted s' \<and> con_out c = out)"
proof
  assume "\<exists>c. cpu_run t s con = Some (Inr (s', c)) \<and> con_out c = out"
  then obtain c where c: "cpu_run t s con = Some (Inr (s', c))" "con_out c = out" by blast
  obtain q where q: "cpu_run False s con = Some q" "res_sim (Inr (s', c)) q"
    using cpu_run_sim [OF c(1) con_sim_refl] by blast
  then obtain d where d: "q = Inr (s', d)" "con_sim c d" by (cases q) (auto simp: res_sim_def)
  from cpu_run_Some_steps [OF q(1)] d(1) obtain n where n: "cpu_steps n s con = Inr (s', d)" "halted s'"
    by (auto simp: steps_end_def)
  from d(2) c(2) have "con_out d = out" by (simp add: con_sim_fields)
  with n show "\<exists>n c. cpu_steps n s con = Inr (s', c) \<and> halted s' \<and> con_out c = out" by blast
next
  assume "\<exists>n c. cpu_steps n s con = Inr (s', c) \<and> halted s' \<and> con_out c = out"
  then obtain n c where c: "cpu_steps n s con = Inr (s', c)" "halted s'" "con_out c = out" by blast
  have "cpu_run False s con = Some (Inr (s', c))"
    by (rule steps_end_run) (use c in \<open>auto simp: steps_end_def\<close>)
  from cpu_run_sim [OF this con_sim_refl] obtain q where
    q: "cpu_run t s con = Some q" "res_sim (Inr (s', c)) q" by blast
  then obtain d where "q = Inr (s', d)" "con_sim c d" by (cases q) (auto simp: res_sim_def)
  with q(1) c(3) show "\<exists>c. cpu_run t s con = Some (Inr (s', c)) \<and> con_out c = out"
    by (auto simp: con_sim_fields)
qed

text \<open>C37: The emulator program returns 0 and has printed a text exactly when the loaded program halts
  after some number of steps and the text is the program's own output followed by the dump of
  the final state (and the statistics), with and without \<open>--trace\<close>.\<close>

theorem main_emu_prints:
  assumes "emu_args args (False, False, None) = (trace, stats, Some path)"
    and "load_binary mem_init fs path = Inr m"
  shows "(\<exists>con'. main_emu timing argv0 args fs con = Some (Inr (0, con')) \<and> con_out con' = out) \<longleftrightarrow>
    (\<exists>n s c. cpu_steps n (cpu_init m) con = Inr (s, c) \<and> halted s \<and>
       out = con_out c @ final_report timing stats s)"
proof -
  have "(\<exists>con'. main_emu timing argv0 args fs con = Some (Inr (0, con')) \<and> con_out con' = out) \<longleftrightarrow>
    (\<exists>s c. cpu_run trace (cpu_init m) con = Some (Inr (s, c)) \<and>
       out = con_out c @ final_report timing stats s)"
    using assms by (auto simp: main_emu_def res_bind_Inr_iff)
  also have "\<dots> \<longleftrightarrow> (\<exists>s o1. (\<exists>c. cpu_run trace (cpu_init m) con = Some (Inr (s, c)) \<and> con_out c = o1) \<and>
       out = o1 @ final_report timing stats s)"
    by blast
  also have "\<dots> \<longleftrightarrow> (\<exists>n s c. cpu_steps n (cpu_init m) con = Inr (s, c) \<and> halted s \<and>
       out = con_out c @ final_report timing stats s)"
    unfolding run_out_iff_steps by blast
  finally show ?thesis .
qed

theorem main_emu_prints_witness:
  "\<exists>con' s. main_emu (\<lambda>_. []) ''emu'' [''b'', ''--stats'']
       \<lparr>contents = [''b'' \<mapsto> byte_chars [0, 0, 0, 4]], writable = (\<lambda>_. True)\<rparr> (console0 []) = Some (Inr (0, con')) \<and>
     con_out con' = final_report (\<lambda>_. []) True s \<and> halted s"
proof -
  let ?fs = "\<lparr>contents = [''b'' \<mapsto> byte_chars [0, 0, 0, 4]], writable = (\<lambda>_. True)\<rparr>"
  let ?m = "load_bytes mem_init (byte_chars [0, 0, 0, 4])"
  have l: "load_binary mem_init ?fs ''b'' = Inr ?m"
    by (simp add: load_binary_def read_file_def load_count_def MEM_SIZE_def)
  have a: "emu_args [''b'', ''--stats''] (False, False, None) = (False, True, Some ''b'')" by simp
  have "word_at ?m 0 = 0x04000000" by (subst load_bytes_word) (simp_all add: le_word_def)
  then have "fetched (cpu_init ?m) (decode 0x04000000)"
    by (simp add: fetched_def mem_read32_in_range cpu_init_def)
  moreover have "opcode (decode 0x04000000) = OP_HALT" by (simp add: decode_defs opcode_of_def)
  ultimately have "\<exists>s. cpu_step (cpu_init ?m) (console0 []) = Inr (s, console0 []) \<and> halted s"
    by (simp add: step_fetched exec_instr_def)
  then obtain s where "cpu_steps 1 (cpu_init ?m) (console0 []) = Inr (s, console0 [])" "halted s"
    by (auto simp: cpu_init_def)
  with main_emu_prints [OF a l, of "\<lambda>_. []" "''emu''" "console0 []" "con_out (console0 []) @ final_report (\<lambda>_. []) True s"]
  have "\<exists>con'. main_emu (\<lambda>_. []) ''emu'' [''b'', ''--stats''] ?fs (console0 []) = Some (Inr (0, con')) \<and>
     con_out con' = con_out (console0 []) @ final_report (\<lambda>_. []) True s" by blast
  with \<open>halted s\<close> show ?thesis by (auto simp: console0_def)
qed

end
