(* ===== verification/Scan.thy ===== *)
theory Scan
  imports Prelude
begin

text \<open>
  The scanning functions of the C library that the programs call on lines and arguments:
  \<open>sscanf\<close> formats conversion by conversion, \<open>fgets\<close>, and \<open>strtol\<close>, \<open>strtoul\<close> and \<open>atoi\<close>.
\<close>

subsection \<open>\<open>sscanf\<close>\<close>

text \<open>The formats the programs use: a literal, white space, a \<open>%Ns\<close>, \<open>%N[^c]\<close> or \<open>%d\<close>
  conversion. Each gives what it matched and the rest, or fails.\<close>

definition sc_lit :: "string \<Rightarrow> string \<Rightarrow> string option" where
  "sc_lit l s = (if take (length l) s = l then Some (drop (length l) s) else None)"

definition sc_space :: "string \<Rightarrow> string" where
  "sc_space s = dropWhile isspace s"

definition sc_span :: "nat \<Rightarrow> (char \<Rightarrow> bool) \<Rightarrow> string \<Rightarrow> (string \<times> string) option" where
  "sc_span n p s = (let w = take n (takeWhile p s) in if w = [] then None else Some (w, drop (length w) s))"

definition sc_word :: "nat \<Rightarrow> string \<Rightarrow> (string \<times> string) option" where
  "sc_word n s = sc_span n (\<lambda>c. \<not> isspace c) (sc_space s)"

text \<open>A decimal number as \<open>strtol\<close> reads it, clipped to the range of \<open>long\<close>.\<close>

definition clip_long :: "int \<Rightarrow> int" where
  "clip_long v = max (- LONG_MAX - 1) (min v LONG_MAX)"

definition signed_value :: "bool \<Rightarrow> nat \<Rightarrow> int" where
  "signed_value neg v = clip_long (if neg then - int v else int v)"

text \<open>\<open>%d\<close>: the stored \<open>int\<close> is the low half of the number.\<close>

definition sc_int :: "string \<Rightarrow> (i32 \<times> string) option" where
  "sc_int s =
     (let (neg, t) = scan_sign (sc_space s); ds = takeWhile isdigit t
      in if ds = [] then None
         else Some (word_of_int (signed_value neg (digits_val 10 ds)), dropWhile isdigit t))"

subsection \<open>Numbers in arguments\<close>

text \<open>\<open>atoi(s)\<close> is \<open>(int)strtol(s, NULL, 10)\<close>.\<close>

definition atoi :: "string \<Rightarrow> i32" where
  "atoi s = (let (neg, t) = scan_sign (sc_space (cstr s))
     in word_of_int (signed_value neg (digits_val 10 (takeWhile isdigit t))))"

definition base0_value :: "string \<Rightarrow> nat" where
  "base0_value s =
     (if hex_prefix s then digits_val 16 (takeWhile isxdigit (drop 2 s))
      else if s \<noteq> [] \<and> hd s = CHR ''0'' then digits_val 8 (takeWhile isodigit s)
      else digits_val 10 (takeWhile isdigit s))"

text \<open>\<open>strtol(s, NULL, 0)\<close> and \<open>strtoul(s, NULL, 0)\<close>.\<close>

definition strtol_arg :: "string \<Rightarrow> int" where
  "strtol_arg s = (let (neg, t) = scan_sign (sc_space (cstr s)) in signed_value neg (base0_value t))"

definition strtoul_arg :: "string \<Rightarrow> u64" where
  "strtoul_arg s = (let (neg, t) = scan_sign (sc_space (cstr s)); v = base0_value t
     in if ULONG_MAX < v then of_nat ULONG_MAX else if neg then - of_nat v else of_nat v)"

subsection \<open>\<open>fgets\<close>\<close>

text \<open>At most \<open>n - 1\<close> characters, up to and with the first newline.\<close>

definition fgets :: "nat \<Rightarrow> string \<Rightarrow> (string \<times> string) option" where
  "fgets n s =
     (if s = [] then None
      else let k = min (n - 1) (Suc (length (takeWhile (\<lambda>c. c \<noteq> CHR ''\<newline>'') s)))
           in Some (take k s, drop k s))"

lemma fgets_shorter: "fgets n s = Some (l, r) \<Longrightarrow> 2 \<le> n \<Longrightarrow> length r < length s"
  by (auto simp: fgets_def Let_def split: if_splits)

end
