(* ===== verification/Debugger.thy ===== *)
theory Debugger
  imports Emulator Scan
begin

text \<open>
  The debugger (\<open>src/main_dbg.c\<close>): the breakpoint table, stepping and continuing, the two
  displays, the line-oriented loop for piped input and the full-screen loop for terminals. The
  static variables are a record. Standard input is what the reads deliver; the terminal modes
  that \<open>tcsetattr\<close> sets have no counterpart beyond the escape sequences that are printed.
\<close>

subsection \<open>State\<close>

definition MAX_BP :: nat where "MAX_BP = 32"

record dbg =
  d_cpu :: cpu
  d_con :: console
  d_bps :: "u32 list"
  d_size :: u32
  d_watch :: u32
  d_msg :: string

definition say :: "string \<Rightarrow> dbg \<Rightarrow> dbg" where
  "say t d = d\<lparr>d_msg := t\<rparr>"

definition dprint :: "string \<Rightarrow> dbg \<Rightarrow> dbg" where
  "dprint t d = d\<lparr>d_con := print_out t (d_con d)\<rparr>"

subsection \<open>Breakpoints\<close>

definition is_bp :: "dbg \<Rightarrow> u32 \<Rightarrow> bool" where
  "is_bp d a = (a \<in> set (d_bps d))"

definition add_bp :: "u32 \<Rightarrow> dbg \<Rightarrow> dbg" where
  "add_bp a d =
     (if is_bp d a then say (''breakpoint already at 0x'' @ fmt_x a) d
      else if length (d_bps d) \<ge> MAX_BP then say ''breakpoint table full'' d
      else say (''breakpoint set at 0x'' @ fmt_x a) (d\<lparr>d_bps := d_bps d @ [a]\<rparr>))"

text \<open>The last entry moves to the place of the removed one: \<open>bps[i] = bps[--nbp]\<close>.\<close>

fun swap_out :: "u32 \<Rightarrow> u32 list \<Rightarrow> u32 list option" where
  "swap_out a [] = None"
| "swap_out a (b # bs) =
     (if b = a then Some (if bs = [] then [] else last bs # butlast bs)
      else map_option (Cons b) (swap_out a bs))"

definition del_bp :: "u32 \<Rightarrow> dbg \<Rightarrow> dbg" where
  "del_bp a d = (case swap_out a (d_bps d) of
     Some bs \<Rightarrow> say (''breakpoint cleared at 0x'' @ fmt_x a) (d\<lparr>d_bps := bs\<rparr>)
   | None \<Rightarrow> say (''no breakpoint at 0x'' @ fmt_x a) d)"

subsection \<open>Stepping\<close>

fun step_loop :: "nat \<Rightarrow> dbg \<Rightarrow> dbg res" where
  "step_loop 0 d = Inr d"
| "step_loop (Suc n) d =
     (if halted (d_cpu d) then Inr d
      else res_bind (cpu_step (d_cpu d) (d_con d)) (\<lambda>(s, con). step_loop n (d\<lparr>d_cpu := s, d_con := con\<rparr>)))"

definition do_step :: "int \<Rightarrow> dbg \<Rightarrow> dbg res" where
  "do_step n d = res_bind (step_loop (nat n) d) (\<lambda>d.
     Inr (say (if halted (d_cpu d) then ''halted'' else ''stepped'') d))"

text \<open>The \<open>do ... while\<close> of \<open>do_continue\<close>, with the value of \<open>guard\<close> at its end.\<close>

fun continue_loop :: "nat \<Rightarrow> dbg \<Rightarrow> (dbg \<times> nat) res" where
  "continue_loop 0 d = Inr (d, 0)"
| "continue_loop (Suc n) d =
     res_bind (cpu_step (d_cpu d) (d_con d)) (\<lambda>(s, con).
       let d = d\<lparr>d_cpu := s, d_con := con\<rparr>
       in if halted s \<or> is_bp d (pc s) then Inr (d, Suc n) else continue_loop n d)"

definition STEP_LIMIT :: nat where "STEP_LIMIT = 200000000"

definition do_continue :: "dbg \<Rightarrow> dbg res" where
  "do_continue d =
     (if halted (d_cpu d) then Inr (say ''already halted'' d)
      else res_bind (continue_loop STEP_LIMIT d) (\<lambda>(d, guard).
        Inr (say (if halted (d_cpu d) then ''halted''
                  else if guard = 0 then ''stopped: step limit''
                  else ''stopped at breakpoint 0x'' @ fmt_x (pc (d_cpu d))) d)))"

subsection \<open>Loading\<close>

text \<open>\<open>load\<close>: memory and size are set; \<open>False\<close> when the file cannot be opened.\<close>

definition dload :: "files \<Rightarrow> string \<Rightarrow> dbg \<Rightarrow> bool \<times> dbg" where
  "dload fs path d =
     (let d = d\<lparr>d_cpu := (d_cpu d)\<lparr>mem := mem_init\<rparr>\<rparr> in
      case read_file fs path of
        Inl e \<Rightarrow> (False, d\<lparr>d_con := print_err e (d_con d)\<rparr>)
      | Inr t \<Rightarrow> (True, d\<lparr>d_cpu := (d_cpu d)\<lparr>mem := load_bytes mem_init t\<rparr>,
                        d_size := of_nat (load_count t)\<rparr>))"

definition dreset :: "files \<Rightarrow> string \<Rightarrow> dbg \<Rightarrow> dbg" where
  "dreset fs path d = (let d = snd (dload fs path d) in d\<lparr>d_cpu := cpu_init (mem (d_cpu d))\<rparr>)"

subsection \<open>The plain display\<close>

fun res_concat :: "('a \<Rightarrow> string res) \<Rightarrow> 'a list \<Rightarrow> string res" where
  "res_concat f [] = Inr []"
| "res_concat f (x # xs) = res_bind (f x) (\<lambda>t. res_bind (res_concat f xs) (\<lambda>ts. Inr (t @ ts)))"

definition reg_cell :: "cpu \<Rightarrow> nat \<Rightarrow> string" where
  "reg_cell s i = ''R'' @ fmt_base 10 i @ ''='' @ padr 10 (fmt_u (regs s ! i))"

text \<open>The addresses of the twelve-line window: it starts five words before the program counter and
  stops at the end of the program.\<close>

definition window :: "dbg \<Rightarrow> u32 list" where
  "window d =
     (let start = (if pc (d_cpu d) \<ge> 20 then pc (d_cpu d) - 20 else 0)
      in takeWhile (\<lambda>a. \<not> a + 4 > d_size d) (map (\<lambda>i. start + of_nat i * 4) [0..<12]))"

definition disasm_at :: "dbg \<Rightarrow> u32 \<Rightarrow> string res" where
  "disasm_at d a = res_bind (mem_read32 (mem (d_cpu d)) a) (\<lambda>w. Inr (isa_disasm 64 w))"

definition plain_line :: "dbg \<Rightarrow> u32 \<Rightarrow> string res" where
  "plain_line d a = res_bind (disasm_at d a) (\<lambda>text.
     Inr ((if a = pc (d_cpu d) then ''>'' else if is_bp d a then ''*'' else '' '') @ '' '' @
          pad0 4 (fmt_x a) @ ''  '' @ text @ ''\<newline>''))"

definition show_plain :: "dbg \<Rightarrow> string res" where
  "show_plain d =
     (let s = d_cpu d in
      res_bind (res_concat (plain_line d) (window d)) (\<lambda>listing.
      Inr (''\<newline>'' @
        concat (map (\<lambda>i. reg_cell s i @ (if i mod 4 = 3 then ''\<newline>'' else '' '')) [0..<NUM_REGS]) @
        ''PC=0x'' @ pad0 4 (fmt_x (pc s)) @ ''  SP=0x'' @ pad0 5 (fmt_x (sp s)) @ ''  '' @ flags_text (flags s) @
        (if halted s then ''  [HALTED]'' else []) @ ''\<newline>--- disasm ---\<newline>'' @ listing @
        ''['' @ d_msg d @ '']\<newline>'')))"

subsection \<open>The line loop\<close>

text \<open>\<open>sscanf(line, "%15s %63s", cmd, arg)\<close>: how many words, and the words.\<close>

definition split_line :: "string \<Rightarrow> nat \<times> string \<times> string" where
  "split_line line = (case sc_word 15 (cstr line) of
     None \<Rightarrow> (0, [], [])
   | Some (cmd, r) \<Rightarrow> (case sc_word 63 r of None \<Rightarrow> (1, cmd, []) | Some (arg, _) \<Rightarrow> (2, cmd, arg)))"

definition u32_arg :: "string \<Rightarrow> u32" where
  "u32_arg arg = ucast (strtoul_arg arg)"

text \<open>One command; \<open>None\<close> for \<open>q\<close>.\<close>

definition command :: "files \<Rightarrow> string \<Rightarrow> string \<Rightarrow> dbg \<Rightarrow> dbg option res" where
  "command fs path line d =
     (let (got, cmd, arg) = split_line line in
      if got = 0 then res_bind (do_step 1 d) (\<lambda>d. Inr (Some d))
      else if cmd = ''q'' then Inr None
      else if cmd = ''s'' then
        res_bind (do_step (if got > 1 then strtol_arg arg else 1) d) (\<lambda>d. Inr (Some d))
      else if cmd = ''c'' then res_bind (do_continue d) (\<lambda>d. Inr (Some d))
      else if cmd = ''b'' \<and> got > 1 then Inr (Some (add_bp (u32_arg arg) d))
      else if cmd = ''d'' \<and> got > 1 then Inr (Some (del_bp (u32_arg arg) d))
      else if cmd = ''m'' \<and> got > 1 then
        Inr (Some (say (''memory -> 0x'' @ fmt_x (u32_arg arg)) (d\<lparr>d_watch := u32_arg arg\<rparr>)))
      else if cmd = ''reset'' then Inr (Some (say ''reset'' (dreset fs path d)))
      else Inr (Some (say (''unknown '' @ quoted cmd) d)))"

text \<open>A step reads from the input and never puts anything back.\<close>

lemma scanf_input: "length (snd (scanf_lu t)) \<le> length t"
proof -
  have sign: "length (snd (scan_sign u)) \<le> length u" for u
    by (auto simp: scan_sign_def split: list.splits)
  have "snd (scanf_lu t) = dropWhile isdigit (snd (scan_sign (dropWhile isspace t)))"
    by (simp add: scanf_lu_def Let_def split: prod.split)
  then show ?thesis
    using le_trans [OF length_dropWhile_le le_trans [OF sign length_dropWhile_le]] by simp
qed

lemma read_number_input: "read_number con = (v, con') \<Longrightarrow> length (con_in con') \<le> length (con_in con)"
  using scanf_input [of "con_in con"] by (auto simp: read_number_def split: prod.splits)

lemma mmio_input:
  "mmio_load a con = (v, con') \<Longrightarrow> length (con_in con') \<le> length (con_in con)"
  "mmio_store s a v con = (s', con') \<Longrightarrow> con_in con' = con_in con"
  by (auto simp: mmio_load_def mmio_store_def read_number_input split: if_splits)

lemma step_input:
  assumes "cpu_step s con = Inr (s', con')" shows "length (con_in con') \<le> length (con_in con)"
proof -
  obtain ins where "exec_instr ins (next_state s) con = Inr (s', con')"
    using step_Inr_fetched [OF assms] by metis
  then show ?thesis
    by (cases "opcode ins")
      (auto simp: exec_instr_def res_bind_Inr_iff print_err_def Let_def mmio_input(2)
        dest: mmio_input(1) read_number_input split: if_splits prod.splits)
qed

lemma step_loop_input: "step_loop n d = Inr d' \<Longrightarrow> length (con_in (d_con d')) \<le> length (con_in (d_con d))"
proof (induction n arbitrary: d)
  case (Suc n)
  show ?case
  proof (cases "halted (d_cpu d)")
    case False
    with Suc.prems obtain s con where st: "cpu_step (d_cpu d) (d_con d) = Inr (s, con)"
      "step_loop n (d\<lparr>d_cpu := s, d_con := con\<rparr>) = Inr d'"
      by (auto simp: res_bind_Inr_iff)
    from Suc.IH [OF st(2)] step_input [OF st(1)] show ?thesis by simp
  qed (use Suc.prems in simp)
qed simp

lemma continue_loop_input:
  "continue_loop n d = Inr (d', g) \<Longrightarrow> length (con_in (d_con d')) \<le> length (con_in (d_con d))"
proof (induction n arbitrary: d)
  case (Suc n)
  from Suc.prems obtain s con where st: "cpu_step (d_cpu d) (d_con d) = Inr (s, con)"
    "d' = d\<lparr>d_cpu := s, d_con := con\<rparr> \<or> continue_loop n (d\<lparr>d_cpu := s, d_con := con\<rparr>) = Inr (d', g)"
    by (auto simp: res_bind_Inr_iff Let_def split: if_splits)
  from st(2) Suc.IH step_input [OF st(1)] show ?case by fastforce
qed simp

lemma say_simps [simp]:
  "d_cpu (say t d) = d_cpu d" "d_con (say t d) = d_con d" "d_bps (say t d) = d_bps d"
  "d_size (say t d) = d_size d" "d_msg (say t d) = t"
  by (simp_all add: say_def)

lemma dreset_input [simp]: "con_in (d_con (dreset fs path d)) = con_in (d_con d)"
  by (simp add: dreset_def dload_def print_err_def Let_def split: sum.split)

lemma breakpoint_fields [simp]:
  "d_cpu (add_bp a d) = d_cpu d" "d_con (add_bp a d) = d_con d" "d_size (add_bp a d) = d_size d"
  "d_cpu (del_bp a d) = d_cpu d" "d_con (del_bp a d) = d_con d" "d_size (del_bp a d) = d_size d"
  by (simp_all add: add_bp_def del_bp_def split: option.split)

lemma do_step_input: "do_step n d = Inr d' \<Longrightarrow> length (con_in (d_con d')) \<le> length (con_in (d_con d))"
  by (auto simp: do_step_def res_bind_Inr_iff dest: step_loop_input)

lemma do_continue_input:
  "do_continue d = Inr d' \<Longrightarrow> length (con_in (d_con d')) \<le> length (con_in (d_con d))"
  by (auto simp: do_continue_def res_bind_Inr_iff dest: continue_loop_input split: if_splits)

lemma command_input:
  "command fs path line d = Inr (Some d') \<Longrightarrow> length (con_in (d_con d')) \<le> length (con_in (d_con d))"
  by (auto simp: command_def res_bind_Inr_iff dest: do_step_input do_continue_input
      split: prod.splits if_splits)

definition with_input :: "string \<Rightarrow> dbg \<Rightarrow> dbg" where
  "with_input t d = d\<lparr>d_con := (d_con d)\<lparr>con_in := t\<rparr>\<rparr>"

text \<open>The loop ends because every turn reads at least one character.\<close>

function repl :: "files \<Rightarrow> string \<Rightarrow> dbg \<Rightarrow> dbg res" where
  "repl fs path d =
     res_bind (show_plain d) (\<lambda>text.
       case fgets 128 (con_in (d_con d)) of
         None \<Rightarrow> Inr (dprint (text @ ''(dbg) '') d)
       | Some (line, rest) \<Rightarrow>
           res_bind (command fs path line (with_input rest (dprint (text @ ''(dbg) '') d))) (\<lambda>r.
             case r of None \<Rightarrow> Inr (with_input rest (dprint (text @ ''(dbg) '') d))
             | Some d \<Rightarrow> repl fs path d))"
  by pat_completeness auto

termination
proof (relation "measure (\<lambda>(fs, path, d). length (con_in (d_con d)))", goal_cases)
  case (2 fs path d shown lr line rest r d')
  then have "length (con_in (d_con d')) \<le> length rest" by (auto simp: with_input_def dest: command_input)
  moreover have "length rest < length (con_in (d_con d))" using 2 by (auto intro: fgets_shorter)
  ultimately show ?case by simp
qed simp

declare repl.simps [simp del]

subsection \<open>The full screen\<close>

definition esc :: "string \<Rightarrow> string" where "esc t = CHR 0x1B # t"

definition ESC_R :: string where "ESC_R = esc ''[0m''"
definition ESC_DIM :: string where "ESC_DIM = esc ''[2m''"
definition ESC_BOLD :: string where "ESC_BOLD = esc ''[1m''"
definition ESC_REV :: string where "ESC_REV = esc ''[7m''"
definition ESC_RED :: string where "ESC_RED = esc ''[31m''"
definition ESC_GRN :: string where "ESC_GRN = esc ''[32m''"
definition ESC_CYN :: string where "ESC_CYN = esc ''[36m''"
definition ESC_YEL :: string where "ESC_YEL = esc ''[33m''"

definition CLEAR :: string where "CLEAR = esc ''[2J'' @ esc ''[H''"

definition raw_on :: string where "raw_on = esc ''[?25l''"
definition raw_off :: string where "raw_off = esc ''[?25h'' @ CLEAR"

text \<open>\<open>print_output\<close>: the last five complete lines of the captured output, indented.\<close>

fun skip_lines :: "nat \<Rightarrow> string \<Rightarrow> string" where
  "skip_lines 0 t = t"
| "skip_lines (Suc n) [] = []"
| "skip_lines (Suc n) (c # t) = skip_lines (if c = CHR ''\<newline>'' then n else Suc n) t"

definition print_output :: "string \<Rightarrow> string" where
  "print_output b =
     (let newlines = length (filter (\<lambda>c. c = CHR ''\<newline>'') b);
          shown = skip_lines (if newlines > 5 then newlines - 5 else 0) b
      in ''  '' @ concat (map (\<lambda>c. if c = CHR ''\<newline>'' then [c] @ ''  '' else [c]) shown) @ ''\<newline>'')"

definition tui_line :: "dbg \<Rightarrow> u32 \<Rightarrow> string res" where
  "tui_line d a = res_bind (disasm_at d a) (\<lambda>text.
     let body = pad0 4 (fmt_x a) in
     Inr (if a = pc (d_cpu d) then ''  '' @ ESC_REV @ ESC_GRN @ ''> '' @ body @ ''  '' @ padr 22 text @ ESC_R @ ''\<newline>''
          else if is_bp d a then ''  '' @ ESC_RED @ ''* '' @ body @ ESC_R @ ''  '' @ padr 22 text @ ''\<newline>''
          else ''    '' @ body @ ''  '' @ padr 22 text @ ''\<newline>''))"

text \<open>One row of the memory window; the bound is compared after the sum has wrapped.\<close>

definition memory_cell :: "dbg \<Rightarrow> u32 \<Rightarrow> string res" where
  "memory_cell d a =
     (if a + 4 \<le> MEM_SIZE
      then res_bind (mem_read32 (mem (d_cpu d)) a) (\<lambda>w. Inr ('' '' @ pad0 8 (fmt_x w)))
      else Inr [])"

definition memory_row :: "dbg \<Rightarrow> nat \<Rightarrow> string res" where
  "memory_row d r =
     (let base = d_watch d + of_nat r * 16 in
      res_bind (res_concat (\<lambda>c. memory_cell d (base + of_nat c * 4)) [0..<4]) (\<lambda>cells.
      Inr (''  '' @ ESC_DIM @ pad0 4 (fmt_x base) @ '':'' @ ESC_R @ cells @ ''\<newline>'')))"

definition render_tui :: "dbg \<Rightarrow> string res" where
  "render_tui d =
     (let s = d_cpu d in
      res_bind (res_concat (tui_line d) (window d)) (\<lambda>listing.
      res_bind (res_concat (memory_row d) [0..<4]) (\<lambda>rows.
      Inr (CLEAR @ ESC_BOLD @ ESC_CYN @ ''  Custom ISA Debugger'' @ ESC_R @ ''   '' @
        (if halted s then ESC_GRN @ ''[HALTED]'' @ ESC_R else []) @ ''\<newline>\<newline>  '' @ ESC_DIM @ ''regs'' @ ESC_R @ ''   '' @
        concat (map (\<lambda>i. reg_cell s i @ '' '') [0..<4]) @ ''\<newline>         '' @
        concat (map (\<lambda>i. reg_cell s i @ '' '') [4..<8]) @ ''\<newline>  '' @ ESC_DIM @ ''ctrl'' @ ESC_R @
        ''   PC='' @ ESC_YEL @ ''0x'' @ pad0 4 (fmt_x (pc s)) @ ESC_R @ ''  SP=0x'' @ pad0 5 (fmt_x (sp s)) @ ''   '' @
        flags_text (flags s) @ ''   icount='' @ fmt_base 10 (unat (icount s)) @ ''\<newline>\<newline>  '' @
        ESC_DIM @ ''disassembly'' @ ESC_R @ ''\<newline>'' @ listing @
        ''\<newline>  '' @ ESC_DIM @ ''memory @ 0x'' @ pad0 4 (fmt_x (d_watch d)) @ ESC_R @ ''\<newline>'' @ rows @
        ''\<newline>  '' @ ESC_DIM @ ''output'' @ ESC_R @ ''\<newline>'' @ print_output (cap_buf (d_con d)) @
        ''\<newline>  '' @ ESC_DIM @ ''[s]tep  [c]ontinue  [f]inish  [r]eset  [b]reak  [m]em  [q]uit'' @ ESC_R @
        ''   '' @ d_msg d @ ''\<newline>''))))"

text \<open>\<open>tui_prompt\<close>: the number typed, unless the input has ended.\<close>

definition tui_prompt :: "string \<Rightarrow> dbg \<Rightarrow> u32 option \<times> dbg" where
  "tui_prompt label d =
     (let d = dprint (esc ''[?25h'' @ esc ''[999;1H'' @ esc ''[K'' @ ''  '' @ label) d in
      case fgets 64 (con_in (d_con d)) of
        None \<Rightarrow> (None, dprint raw_on d)
      | Some (line, rest) \<Rightarrow> (Some (u32_arg line), dprint raw_on (with_input rest d)))"

text \<open>One key; \<open>None\<close> when the program that \<open>f\<close> runs does not halt.\<close>

definition tui_key :: "files \<Rightarrow> string \<Rightarrow> char \<Rightarrow> dbg \<Rightarrow> dbg res option" where
  "tui_key fs path ch d =
     (if ch = CHR ''s'' \<or> ch = CHR '' '' \<or> ch = CHR 0x0D \<or> ch = CHR ''\<newline>'' then Some (do_step 1 d)
      else if ch = CHR ''c'' then Some (do_continue d)
      else if ch = CHR ''f'' then
        map_option (\<lambda>r. res_bind r (\<lambda>(s, con). Inr (say ''ran to halt'' (d\<lparr>d_cpu := s, d_con := con\<rparr>))))
          (cpu_run False (d_cpu d) (d_con d))
      else if ch = CHR ''r'' then
        (let d = dreset fs path d in Some (Inr (say ''reset'' (d\<lparr>d_con := cpu_capture_reset (d_con d)\<rparr>))))
      else if ch = CHR ''b'' then
        Some (Inr (case tui_prompt ''breakpoint addr: '' d of
            (Some a, d) \<Rightarrow> if is_bp d a then del_bp a d else add_bp a d
          | (None, d) \<Rightarrow> d))
      else if ch = CHR ''m'' then
        Some (Inr (case tui_prompt ''memory addr: '' d of (Some a, d) \<Rightarrow> d\<lparr>d_watch := a\<rparr> | (None, d) \<Rightarrow> d))
      else Some (Inr d))"

partial_function (option) tui_loop :: "files \<Rightarrow> string \<Rightarrow> dbg \<Rightarrow> dbg res option" where
  "tui_loop fs path d = (case render_tui d of
     Inl e \<Rightarrow> Some (Inl e)
   | Inr t \<Rightarrow>
       (case con_in (d_con d) of
          [] \<Rightarrow> Some (Inr (dprint t d))
        | ch # rest \<Rightarrow>
            if ch = CHR ''q'' then Some (Inr (with_input rest (dprint t d)))
            else Option.bind (tui_key fs path ch (with_input rest (dprint t d))) (\<lambda>r.
              case r of Inl e \<Rightarrow> Some (Inl e) | Inr d' \<Rightarrow> tui_loop fs path d')))"

definition run_tui :: "files \<Rightarrow> string \<Rightarrow> dbg \<Rightarrow> dbg res option" where
  "run_tui fs path d =
     map_option (\<lambda>r. res_bind r (\<lambda>d. let d = dprint raw_off d in
         Inr (d\<lparr>d_con := (d_con d)\<lparr>cpu_capture := False\<rparr>\<rparr>)))
       (tui_loop fs path (dprint raw_on (d\<lparr>d_con := cpu_capture_reset ((d_con d)\<lparr>cpu_capture := True\<rparr>)\<rparr>)))"

subsection \<open>\<open>main\<close>\<close>

definition dbg0 :: "console \<Rightarrow> dbg" where
  "dbg0 con = \<lparr>d_cpu = cpu_init mem_init, d_con = con, d_bps = [], d_size = 0, d_watch = 0, d_msg = ''ready''\<rparr>"

text \<open>\<open>tty\<close>: both standard streams are terminals.\<close>

definition main_dbg :: "bool \<Rightarrow> string \<Rightarrow> string list \<Rightarrow> files \<Rightarrow> console \<Rightarrow> (nat \<times> console) res option" where
  "main_dbg tty argv0 args fs con = (case args of
     [] \<Rightarrow> Some (Inr (2, print_err (''usage: '' @ argv0 @ '' program.bin\<newline>'') con))
   | path # _ \<Rightarrow>
       (let (ok, d) = dload fs path (dbg0 con) in
        if \<not> ok then Some (Inr (1, d_con d))
        else
          let d = d\<lparr>d_cpu := cpu_init (mem (d_cpu d))\<rparr>
          in map_option (\<lambda>r. res_bind r (\<lambda>d. Inr (0, d_con d)))
               (if tty then run_tui fs path d else Some (repl fs path d))))"

subsection \<open>Stepping is the emulator's\<close>

lemma is_bp_update [simp]: "is_bp (d\<lparr>d_cpu := s, d_con := con\<rparr>) a = is_bp d a"
  by (simp add: is_bp_def)

lemma continue_loop_run:
  "continue_loop (Suc m) d = Inr (d', g) \<Longrightarrow> \<not> halted (d_cpu d) \<Longrightarrow>
   \<exists>n. 0 < n \<and> n \<le> Suc m \<and> cpu_steps n (d_cpu d) (d_con d) = Inr (d_cpu d', d_con d') \<and>
     (\<forall>k s con. 0 < k \<and> k < n \<and> cpu_steps k (d_cpu d) (d_con d) = Inr (s, con) \<longrightarrow>
        \<not> halted s \<and> \<not> is_bp d (pc s)) \<and>
     (if halted (d_cpu d') \<or> is_bp d (pc (d_cpu d')) then 0 < g else g = 0 \<and> n = Suc m)"
proof (induction m arbitrary: d)
  case 0
  then obtain s con where st: "cpu_step (d_cpu d) (d_con d) = Inr (s, con)"
    "d' = d\<lparr>d_cpu := s, d_con := con\<rparr>" "g = (if halted s \<or> is_bp d (pc s) then 1 else 0)"
    by (auto simp: res_bind_Inr_iff Let_def is_bp_def split: if_splits)
  then show ?case using 0(2) by (intro exI [of _ 1]) (auto simp: is_bp_def)
next
  case (Suc m)
  then obtain s con where st: "cpu_step (d_cpu d) (d_con d) = Inr (s, con)"
    and rest: "if halted s \<or> is_bp d (pc s) then d' = d\<lparr>d_cpu := s, d_con := con\<rparr> \<and> g = Suc (Suc m)
      else continue_loop (Suc m) (d\<lparr>d_cpu := s, d_con := con\<rparr>) = Inr (d', g)"
    by (auto simp: res_bind_Inr_iff Let_def is_bp_def simp del: continue_loop.simps(2)
        simp: continue_loop.simps(2) [of "Suc m"] split: if_splits)
  show ?case
  proof (cases "halted s \<or> is_bp d (pc s)")
    case True
    with st rest Suc.prems(2) show ?thesis by (intro exI [of _ 1]) auto
  next
    case False
    with rest have "continue_loop (Suc m) (d\<lparr>d_cpu := s, d_con := con\<rparr>) = Inr (d', g)" by simp
    note IH = Suc.IH [OF this, simplified]
    obtain n where n: "0 < n" "n \<le> Suc m" "cpu_steps n s con = Inr (d_cpu d', d_con d')"
      "\<forall>k t c. 0 < k \<and> k < n \<and> cpu_steps k s con = Inr (t, c) \<longrightarrow> \<not> halted t \<and> \<not> is_bp d (pc t)"
      "if halted (d_cpu d') \<or> is_bp d (pc (d_cpu d')) then 0 < g else g = 0 \<and> n = Suc m"
      using IH False by blast
    have "\<not> halted t \<and> \<not> is_bp d (pc t)"
      if "0 < k" "k < Suc n" "cpu_steps k (d_cpu d) (d_con d) = Inr (t, c)" for k t c
      using that n(4) [rule_format, of "k - 1" t c] False st Suc.prems(2) by (cases k; cases "k = 1") auto
    then have "\<forall>k t c. 0 < k \<and> k < Suc n \<and> cpu_steps k (d_cpu d) (d_con d) = Inr (t, c) \<longrightarrow>
        \<not> halted t \<and> \<not> is_bp d (pc t)" by blast
    moreover have "cpu_steps (Suc n) (d_cpu d) (d_con d) = Inr (d_cpu d', d_con d')"
      using n(3) st Suc.prems(2) by simp
    moreover have "if halted (d_cpu d') \<or> is_bp d (pc (d_cpu d')) then 0 < g else g = 0 \<and> Suc n = Suc (Suc m)"
      using n(5) by (simp split: if_splits)
    moreover have "0 < Suc n" "Suc n \<le> Suc (Suc m)" using n(2) by simp_all
    ultimately show ?thesis by blast
  qed
qed

text \<open>C35: Continuing in the debugger is running the emulator: the program makes at least one and at
  most 200000000 steps, each one the emulator's, stops at the first halt or breakpoint that it
  reaches and not before, and the message says which of the three reasons stopped it.\<close>

theorem do_continue_run:
  assumes "\<not> halted (d_cpu d)" "do_continue d = Inr d'"
  shows "\<exists>n. 0 < n \<and> n \<le> 200000000 \<and> cpu_steps n (d_cpu d) (d_con d) = Inr (d_cpu d', d_con d') \<and>
     (\<forall>k s con. 0 < k \<and> k < n \<and> cpu_steps k (d_cpu d) (d_con d) = Inr (s, con) \<longrightarrow>
        \<not> halted s \<and> pc s \<notin> set (d_bps d)) \<and>
     (if halted (d_cpu d') then d_msg d' = ''halted''
      else if pc (d_cpu d') \<in> set (d_bps d)
        then d_msg d' = ''stopped at breakpoint 0x'' @ fmt_x (pc (d_cpu d'))
      else d_msg d' = ''stopped: step limit'' \<and> n = 200000000)"
proof -
  have lim: "STEP_LIMIT = Suc 199999999" by (simp add: STEP_LIMIT_def)
  obtain e g where e: "continue_loop (Suc 199999999) d = Inr (e, g)"
    "d' = say (if halted (d_cpu e) then ''halted'' else if g = 0 then ''stopped: step limit''
       else ''stopped at breakpoint 0x'' @ fmt_x (pc (d_cpu e))) e"
    using assms unfolding do_continue_def lim by (auto simp: res_bind_Inr_iff simp del: continue_loop.simps)
  obtain n where n: "0 < n" "n \<le> Suc 199999999" "cpu_steps n (d_cpu d) (d_con d) = Inr (d_cpu e, d_con e)"
    "\<forall>k s con. 0 < k \<and> k < n \<and> cpu_steps k (d_cpu d) (d_con d) = Inr (s, con) \<longrightarrow> \<not> halted s \<and> \<not> is_bp d (pc s)"
    "if halted (d_cpu e) \<or> is_bp d (pc (d_cpu e)) then 0 < g else g = 0 \<and> n = Suc 199999999"
    using continue_loop_run [OF e(1) assms(1)] by blast
  show ?thesis
  proof (intro exI [of _ n] conjI)
    show "cpu_steps n (d_cpu d) (d_con d) = Inr (d_cpu d', d_con d')" using n(3) e(2) by simp
    show "\<forall>k s con. 0 < k \<and> k < n \<and> cpu_steps k (d_cpu d) (d_con d) = Inr (s, con) \<longrightarrow>
        \<not> halted s \<and> pc s \<notin> set (d_bps d)" using n(4) unfolding is_bp_def .
  qed (use n(1,2,5) e(2) in \<open>simp_all add: is_bp_def split: if_splits\<close>)
qed

text \<open>The one-instruction program \<open>HALT\<close> in the debugger.\<close>

definition halt_dbg :: dbg where
  "halt_dbg = (dbg0 (console0 []))\<lparr>d_cpu := cpu_init (put_word mem_init 0 0x04000000), d_size := 4\<rparr>"

lemma halt_dbg_step: "\<exists>s. cpu_step (d_cpu halt_dbg) (d_con halt_dbg) = Inr (s, d_con halt_dbg) \<and> halted s"
proof -
  have "fetched (d_cpu halt_dbg) (decode 0x04000000)"
    by (simp add: fetched_def mem_read32_in_range halt_dbg_def cpu_init_def word_at_put_same)
  moreover have "opcode (decode 0x04000000) = OP_HALT" by (simp add: decode_defs opcode_of_def)
  ultimately show ?thesis by (simp add: step_fetched exec_instr_def)
qed

theorem do_continue_run_witness:
  "\<exists>d' n. do_continue halt_dbg = Inr d' \<and> cpu_steps n (d_cpu halt_dbg) (d_con halt_dbg) = Inr (d_cpu d', d_con d')"
proof -
  have lim: "STEP_LIMIT = Suc 199999999" by (simp add: STEP_LIMIT_def)
  have h: "\<not> halted (d_cpu halt_dbg)" by (simp add: halt_dbg_def cpu_init_def)
  obtain s where "cpu_step (d_cpu halt_dbg) (d_con halt_dbg) = Inr (s, d_con halt_dbg)" "halted s"
    using halt_dbg_step by blast
  then obtain d' where "do_continue halt_dbg = Inr d'"
    using h unfolding do_continue_def lim continue_loop.simps(2) [of 199999999] by auto
  with do_continue_run [OF h this] show ?thesis by blast
qed

subsection \<open>The displays\<close>

lemma res_concat_Inl_iff:
  "(\<exists>e. res_concat f xs = Inl e) \<longleftrightarrow> (\<exists>x \<in> set xs. \<exists>e. f x = Inl e)"
proof (induction xs)
  case (Cons x xs)
  show ?case
  proof (cases "f x")
    case (Inr t)
    with Cons show ?thesis by (cases "res_concat f xs") auto
  qed auto
qed simp

text \<open>Every address of the code window is inside the program.\<close>

lemma window_inside:
  assumes size: "d_size d \<le> MEM_SIZE" and a: "a \<in> set (window d)"
  shows "unat a + 4 \<le> 65536"
proof -
  define start where "start = (if pc (d_cpu d) \<ge> 20 then pc (d_cpu d) - 20 else 0)"
  let ?P = "\<lambda>a :: u32. \<not> a + 4 > d_size d"
  let ?as = "map (\<lambda>i. start + of_nat i * 4) [0..<12]"
  have w: "window d = takeWhile ?P ?as" by (simp add: window_def start_def Let_def)
  have small: "unat start + 20 < 4294967296"
    using unat_u32_less [of "pc (d_cpu d)"]
    by (auto simp: start_def unat_sub word_le_nat_alt)
  have ok: "?P a" using a unfolding w by (rule set_takeWhileD [THEN conjunct2])
  have "a \<in> set ?as" using a unfolding w by (rule set_takeWhileD [THEN conjunct1])
  then obtain i where i: "i < 12" "a = start + of_nat i * 4" by auto
  have "?as = start # map (\<lambda>i. start + of_nat i * 4) [1..<12]" by (simp add: upt_conv_Cons)
  then have "?P start" using a unfolding w by (auto split: if_splits)
  moreover have "unat (start + 4) = unat start + 4" using small addr_plus [of start 4] by simp
  ultimately have s: "unat start + 4 \<le> 65536"
    using size by (simp add: word_le_nat_alt word_less_nat_alt MEM_SIZE_def)
  have "unat a = unat start + 4 * i" using addr_plus [of start "4 * i"] s i by (simp add: mult.commute)
  moreover have "unat (a + 4) = unat a + 4" using calculation s i addr_plus [of a 4] by simp
  ultimately show ?thesis
    using ok size by (simp add: word_le_nat_alt word_less_nat_alt MEM_SIZE_def)
qed

lemma disasm_at_inside: "d_size d \<le> MEM_SIZE \<Longrightarrow> a \<in> set (window d) \<Longrightarrow> \<exists>t. disasm_at d a = Inr t"
  by (simp add: disasm_at_def mem_read32_in_range window_inside)

lemma window_lines:
  assumes "d_size d \<le> MEM_SIZE"
  shows "\<exists>t. res_concat (plain_line d) (window d) = Inr t" "\<exists>t. res_concat (tui_line d) (window d) = Inr t"
proof -
  have "\<not> (\<exists>e. plain_line d a = Inl e)" "\<not> (\<exists>e. tui_line d a = Inl e)" if "a \<in> set (window d)" for a
    using disasm_at_inside [OF assms that] by (auto simp: plain_line_def tui_line_def Let_def)
  then have "\<not> (\<exists>e. res_concat (plain_line d) (window d) = Inl e)" "\<not> (\<exists>e. res_concat (tui_line d) (window d) = Inl e)"
    unfolding res_concat_Inl_iff by blast+
  then show "\<exists>t. res_concat (plain_line d) (window d) = Inr t" "\<exists>t. res_concat (tui_line d) (window d) = Inr t"
    by (metis sum.exhaust)+
qed

lemma show_plain_returns: "d_size d \<le> MEM_SIZE \<Longrightarrow> \<exists>t. show_plain d = Inr t"
  using window_lines(1) [of d] by (auto simp: show_plain_def Let_def)

lemma memory_cell_fault: "(\<exists>e. memory_cell d a = Inl e) \<longleftrightarrow> 4294967292 \<le> unat a"
proof (cases "unat a + 4 < 4294967296")
  case True
  then have "unat (a + 4) = unat a + 4" using addr_plus [of a 4] by simp
  with True show ?thesis
    by (auto simp: memory_cell_def mem_read32_in_range word_le_nat_alt MEM_SIZE_def)
next
  case False
  then have "unat (a + 4) < 4" using unat_u32_less [of a] by (simp add: unat_word_ariths mod_if) linarith
  then have "a + 4 \<le> MEM_SIZE" by (simp add: word_le_nat_alt MEM_SIZE_def)
  with False show ?thesis
    by (auto simp: memory_cell_def mem_read32_outcome word_fault_def)
qed

lemma memory_row_fault:
  "(\<exists>e. memory_row d r = Inl e) \<longleftrightarrow> (\<exists>c < 4. 4294967292 \<le> unat (d_watch d + of_nat r * 16 + of_nat c * 4))"
proof -
  have "(\<exists>e. memory_row d r = Inl e) \<longleftrightarrow>
      (\<exists>e. res_concat (\<lambda>c. memory_cell d (d_watch d + of_nat r * 16 + of_nat c * 4)) [0..<4] = Inl e)"
    by (auto simp: memory_row_def Let_def res_bind_Inl_iff)
  then show ?thesis unfolding res_concat_Inl_iff memory_cell_fault by auto
qed

text \<open>C39: The full-screen display reads outside the memory array exactly when the memory window the user
  has chosen covers one of the last four addresses below 2^32, where the bound test of the
  display wraps like that of the memory; the code window and the line-oriented display never
  do.\<close>

theorem display_fault_iff:
  assumes "d_size d \<le> MEM_SIZE"
  shows "(\<exists>t. show_plain d = Inr t) \<and>
    ((\<exists>e. render_tui d = Inl e) \<longleftrightarrow>
      (\<exists>r < 4. \<exists>c < 4. 4294967292 \<le> unat (d_watch d + of_nat r * 16 + of_nat c * 4)))"
proof
  show "\<exists>t. show_plain d = Inr t" using assms by (rule show_plain_returns)
  obtain t where "res_concat (tui_line d) (window d) = Inr t" using window_lines(2) [OF assms] by blast
  then have "(\<exists>e. render_tui d = Inl e) \<longleftrightarrow> (\<exists>e. res_concat (memory_row d) [0..<4] = Inl e)"
    by (auto simp: render_tui_def Let_def res_bind_Inl_iff)
  then show "(\<exists>e. render_tui d = Inl e) \<longleftrightarrow>
      (\<exists>r < 4. \<exists>c < 4. 4294967292 \<le> unat (d_watch d + of_nat r * 16 + of_nat c * 4))"
    unfolding res_concat_Inl_iff memory_row_fault by auto
qed

theorem display_fault_iff_witness:
  "\<exists>e. render_tui ((dbg0 (console0 []))\<lparr>d_watch := 4294967292\<rparr>) = Inl e"
proof -
  have "d_size ((dbg0 (console0 []))\<lparr>d_watch := 4294967292\<rparr>) \<le> MEM_SIZE" by (simp add: dbg0_def)
  from display_fault_iff [OF this] show ?thesis by (auto simp: dbg0_def intro!: exI [of _ 0])
qed

subsection \<open>Whole sessions\<close>

text \<open>The program fits the memory, and the breakpoint table holds at most 32 different addresses.\<close>

definition dbg_ok :: "dbg \<Rightarrow> bool" where
  "dbg_ok d = (d_size d \<le> MEM_SIZE \<and> distinct (d_bps d) \<and> length (d_bps d) \<le> MAX_BP)"

lemma swap_out_set:
  "swap_out a bs = Some cs \<Longrightarrow> distinct bs \<Longrightarrow>
   distinct cs \<and> length bs = Suc (length cs) \<and> set cs = set bs - {a}"
proof (induction bs arbitrary: cs)
  case (Cons b bs)
  show ?case
  proof (cases "b = a")
    case True
    show ?thesis
    proof (cases bs rule: rev_cases)
      case Nil
      with True Cons.prems show ?thesis by auto
    next
      case (snoc us u)
      with True Cons.prems show ?thesis by auto
    qed
  next
    case False
    with Cons show ?thesis by auto
  qed
qed simp

lemma swap_out_None: "swap_out a bs = None \<longleftrightarrow> a \<notin> set bs"
  by (induction bs) auto

lemma load_count_size: "of_nat (load_count t) \<le> MEM_SIZE"
  by (simp add: load_count_def MEM_SIZE_def word_le_nat_alt unat_of_nat)

lemma breakpoint_ok: "dbg_ok d \<Longrightarrow> dbg_ok (add_bp a d) \<and> dbg_ok (del_bp a d)"
  using swap_out_set [of a "d_bps d"]
  by (auto simp: dbg_ok_def add_bp_def del_bp_def is_bp_def say_def split: option.split)

lemma dload_ok: "d_size d \<le> MEM_SIZE \<Longrightarrow> dload fs path d = (b, d') \<Longrightarrow> d_size d' \<le> MEM_SIZE \<and> d_bps d' = d_bps d"
  using load_count_size by (auto simp: dload_def Let_def split: sum.splits)

lemma dreset_ok: "dbg_ok d \<Longrightarrow> dbg_ok (dreset fs path d)"
  using dload_ok [of d fs path] by (cases "dload fs path d") (auto simp: dbg_ok_def dreset_def Let_def)

text \<open>What a command leaves: a state in order, or the fault of an instruction.\<close>

definition step_fault :: "fault \<Rightarrow> bool" where
  "step_fault e = (\<exists>s con. cpu_step s con = Inl e)"

definition orderly :: "dbg res \<Rightarrow> bool" where
  "orderly r = (case r of Inl e \<Rightarrow> step_fault e | Inr d \<Rightarrow> dbg_ok d)"

lemma orderly_simps [simp]: "orderly (Inr d) = dbg_ok d" "orderly (Inl e) = step_fault e"
  by (simp_all add: orderly_def)

lemma orderly_bind: "orderly r \<Longrightarrow> (\<And>d. dbg_ok d \<Longrightarrow> orderly (f d)) \<Longrightarrow> orderly (res_bind r f)"
  by (cases r) auto

lemma dbg_ok_update [simp]:
  "dbg_ok (d\<lparr>d_cpu := s\<rparr>) = dbg_ok d" "dbg_ok (d\<lparr>d_con := con\<rparr>) = dbg_ok d"
  "dbg_ok (d\<lparr>d_watch := a\<rparr>) = dbg_ok d" "dbg_ok (say t d) = dbg_ok d"
  "dbg_ok (dprint t d) = dbg_ok d" "dbg_ok (with_input t d) = dbg_ok d"
  by (simp_all add: dbg_ok_def say_def dprint_def with_input_def)

lemma step_orderly:
  "(\<And>s con. orderly (f (s, con))) \<Longrightarrow> orderly (res_bind (cpu_step s con) f)"
  by (cases "cpu_step s con") (auto simp: step_fault_def)

lemma step_loop_orderly: "dbg_ok d \<Longrightarrow> orderly (step_loop n d)"
  by (induction n arbitrary: d) (auto intro!: step_orderly)

lemma do_step_orderly: "dbg_ok d \<Longrightarrow> orderly (do_step n d)"
  unfolding do_step_def by (rule orderly_bind [OF step_loop_orderly]) auto

lemma continue_loop_orderly: "dbg_ok d \<Longrightarrow> orderly (map_sum id fst (continue_loop n d))"
proof (induction n arbitrary: d)
  case (Suc n)
  show ?case
    by (cases "cpu_step (d_cpu d) (d_con d)") (use Suc in \<open>auto simp: step_fault_def Let_def\<close>)
qed simp

lemma do_continue_orderly: "dbg_ok d \<Longrightarrow> orderly (do_continue d)"
  using continue_loop_orderly [of d STEP_LIMIT]
  by (cases "continue_loop STEP_LIMIT d") (auto simp: do_continue_def)

lemma command_orderly:
  assumes "dbg_ok d"
  shows "case command fs path line d of Inl e \<Rightarrow> step_fault e | Inr None \<Rightarrow> True | Inr (Some d') \<Rightarrow> dbg_ok d'"
proof -
  have some: "orderly r \<Longrightarrow> case res_bind r (\<lambda>d. Inr (Some d)) of Inl e \<Rightarrow> step_fault e
      | Inr None \<Rightarrow> True | Inr (Some d') \<Rightarrow> dbg_ok d'" for r
    by (cases r) auto
  show ?thesis
    using assms breakpoint_ok [OF assms]
    by (auto simp: command_def some do_step_orderly do_continue_orderly dreset_ok split: prod.split)
qed



end
