(* ===== verification/InstStream.thy ===== *)
theory InstStream
  imports Execution
begin

text \<open>
  The instruction stream of the timing simulator (first half of \<open>src/pipe_sim.c\<close>): what the
  timing models know of an instruction, and the generator that steps the reference
  processor on demand and keeps the last 32 instructions in a ring. The lemmas say that the
  generator is the silent reference run, and that a live window entry is the instruction it
  is asked for.
\<close>

subsection \<open>Instruction facts\<close>

definition FLAG_REG :: nat where "FLAG_REG = 8"
definition CONTROL_PENALTY :: int where "CONTROL_PENALTY = 2"
definition WIN_CAP :: nat where "WIN_CAP = 32"
definition GEN_LIMIT :: nat where "GEN_LIMIT = 50000000"

text \<open>
  \<open>ii_reads\<close> are the first \<open>nreads\<close> entries of \<open>reads\<close>, \<open>ii_write\<close> is \<open>write_reg\<close> when
  \<open>has_write\<close>, \<open>ii_mem\<close> is \<open>mem_addr\<close> when \<open>accesses_mem\<close>.
\<close>

record inst_info =
  ii_reads :: "nat list"
  ii_write :: "nat option"
  ii_is_load :: bool
  ii_sets_flags :: bool
  ii_is_control :: bool
  ii_is_conditional :: bool
  ii_taken_control :: bool
  ii_pc :: u32
  ii_target :: u32
  ii_mem :: "u32 option"
  ii_latency :: nat

definition op_latency :: "opcode \<Rightarrow> nat" where
  "op_latency op = (case op of OP_DIV \<Rightarrow> 20 | OP_MUL \<Rightarrow> 3 | OP_LOAD \<Rightarrow> 2 | OP_POP \<Rightarrow> 2 | _ \<Rightarrow> 1)"

definition op_is_conditional :: "opcode \<Rightarrow> bool" where
  "op_is_conditional op = (op = OP_JZ \<or> op = OP_JNZ \<or> op = OP_JG \<or> op = OP_JL)"

definition op_is_control :: "opcode \<Rightarrow> bool" where
  "op_is_control op = (op_is_conditional op \<or> op = OP_JMP \<or> op = OP_CALL \<or> op = OP_RET)"

definition op_sets_flags :: "opcode \<Rightarrow> bool" where
  "op_sets_flags op = (op \<in> {OP_ADD, OP_SUB, OP_MUL, OP_DIV, OP_AND, OP_OR, OP_XOR, OP_NOT, OP_SHL, OP_SHR})"

text \<open>The register reads, the write and the load mark of \<open>decode_meta\<close>.\<close>

definition meta_regs :: "opcode \<Rightarrow> nat \<Rightarrow> nat \<Rightarrow> nat list \<times> nat option \<times> bool" where
  "meta_regs op rd rs = (case op of
     OP_ADD \<Rightarrow> ([rd, rs], Some rd, False) | OP_SUB \<Rightarrow> ([rd, rs], Some rd, False)
   | OP_MUL \<Rightarrow> ([rd, rs], Some rd, False) | OP_DIV \<Rightarrow> ([rd, rs], Some rd, False)
   | OP_AND \<Rightarrow> ([rd, rs], Some rd, False) | OP_OR \<Rightarrow> ([rd, rs], Some rd, False)
   | OP_XOR \<Rightarrow> ([rd, rs], Some rd, False) | OP_SHL \<Rightarrow> ([rd, rs], Some rd, False)
   | OP_SHR \<Rightarrow> ([rd, rs], Some rd, False)
   | OP_NOT \<Rightarrow> ([rd], Some rd, False)
   | OP_MOV \<Rightarrow> ([rs], Some rd, False)
   | OP_LOAD \<Rightarrow> ([rs], Some rd, True)
   | OP_STORE \<Rightarrow> ([rd, rs], None, False)
   | OP_LOADI \<Rightarrow> ([], Some rd, False) | OP_IN \<Rightarrow> ([], Some rd, False)
   | OP_PUSH \<Rightarrow> ([rd], None, False) | OP_OUT \<Rightarrow> ([rd], None, False)
   | OP_POP \<Rightarrow> ([], Some rd, True)
   | OP_JZ \<Rightarrow> ([FLAG_REG], None, False) | OP_JNZ \<Rightarrow> ([FLAG_REG], None, False)
   | OP_JG \<Rightarrow> ([FLAG_REG], None, False) | OP_JL \<Rightarrow> ([FLAG_REG], None, False)
   | _ \<Rightarrow> ([], None, False))"

definition decode_meta :: "opcode \<Rightarrow> u8 \<Rightarrow> u8 \<Rightarrow> inst_info" where
  "decode_meta op rd rs = (let (reads, wr, ld) = meta_regs op (unat rd) (unat rs) in
     \<lparr>ii_reads = reads, ii_write = wr, ii_is_load = ld, ii_sets_flags = op_sets_flags op,
      ii_is_control = op_is_control op, ii_is_conditional = op_is_conditional op,
      ii_taken_control = False, ii_pc = 0, ii_target = 0, ii_mem = None, ii_latency = op_latency op\<rparr>)"

text \<open>The address \<open>gen_one\<close> computes for the data cache.\<close>

definition mem_addr_of :: "instruction \<Rightarrow> cpu \<Rightarrow> u32 option" where
  "mem_addr_of ins s = (case opcode ins of
     OP_LOAD \<Rightarrow> Some (reg s (rsrc ins) + imm ins)
   | OP_STORE \<Rightarrow> Some (reg s (rdest ins) + imm ins)
   | OP_PUSH \<Rightarrow> Some (sp s - 4)
   | OP_CALL \<Rightarrow> Some (sp s - 4)
   | OP_POP \<Rightarrow> Some (sp s)
   | OP_RET \<Rightarrow> Some (sp s)
   | _ \<Rightarrow> None)"

subsection \<open>The generator\<close>

text \<open>The ring is a list of \<open>WIN_CAP\<close> entries; the console carries the switches and the
  diagnostics of the reference processor.\<close>

record gen =
  g_cpu :: cpu
  g_con :: console
  g_count :: nat
  g_done :: bool
  g_win :: "inst_info list"

definition no_inst :: inst_info where
  "no_inst = decode_meta OP_NOP 0 0"

definition gen_init :: "memory \<Rightarrow> console \<Rightarrow> gen" where
  "gen_init m con = \<lparr>g_cpu = cpu_init m, g_con = con, g_count = 0, g_done = False,
     g_win = replicate WIN_CAP no_inst\<rparr>"

definition info_of :: "cpu \<Rightarrow> u32 \<Rightarrow> cpu \<Rightarrow> inst_info" where
  "info_of s raw s' = (decode_meta (DECODE_OPCODE raw) (DECODE_RDEST raw) (DECODE_RSRC raw))
     \<lparr>ii_mem := mem_addr_of (decode raw) s, ii_pc := pc s, ii_target := pc s',
      ii_taken_control := (pc s' \<noteq> pc s + 4)\<rparr>"

definition gen_one :: "gen \<Rightarrow> gen res" where
  "gen_one g = res_bind (mem_read32 (mem (g_cpu g)) (pc (g_cpu g))) (\<lambda>raw.
     res_bind (cpu_step (g_cpu g) (g_con g)) (\<lambda>(s', con').
       let count = g_count g + 1 in
       Inr (g\<lparr>g_cpu := s', g_con := con', g_count := count,
              g_done := (g_done g \<or> halted s' \<or> count \<ge> GEN_LIMIT),
              g_win := (g_win g)[g_count g mod WIN_CAP := info_of (g_cpu g) raw s']\<rparr>)))"

lemma gen_one_count: "gen_one g = Inr g' \<Longrightarrow> g_count g' = Suc (g_count g)"
  by (auto simp: gen_one_def res_bind_Inr_iff Let_def)

function gen_fill :: "nat \<Rightarrow> gen \<Rightarrow> gen res" where
  "gen_fill k g = (if g_count g \<le> k \<and> \<not> g_done g then res_bind (gen_one g) (gen_fill k) else Inr g)"
  by pat_completeness auto

termination
  by (relation "measure (\<lambda>(k, g). Suc k - g_count g)") (auto dest: gen_one_count)

declare gen_fill.simps [simp del]

text \<open>The return value of \<open>gen_ensure\<close>, and the generator after it.\<close>

definition gen_ensure :: "nat \<Rightarrow> gen \<Rightarrow> (bool \<times> gen) res" where
  "gen_ensure k g = res_bind (gen_fill k g) (\<lambda>g. Inr (k < g_count g, g))"

definition gen_at :: "gen \<Rightarrow> nat \<Rightarrow> inst_info" where
  "gen_at g k = g_win g ! (k mod WIN_CAP)"

definition produces :: "inst_info \<Rightarrow> nat \<Rightarrow> bool" where
  "produces p slot = (ii_write p = Some slot \<or> (ii_sets_flags p \<and> slot = FLAG_REG))"

subsection \<open>The stream is the reference run\<close>

text \<open>
  The \<open>k\<close>-th dynamic instruction of the reference run from a processor state: the state
  before it, the state after it, and what the timing models are told of it.
\<close>

definition silent_con :: "console \<Rightarrow> console" where
  "silent_con con = con\<lparr>cpu_silent := True\<rparr>"

definition dyn_inst :: "nat \<Rightarrow> cpu \<Rightarrow> console \<Rightarrow> inst_info \<Rightarrow> bool" where
  "dyn_inst k s con d = (\<exists>s1 c1 raw s2 c2. cpu_steps k s con = Inr (s1, c1) \<and> \<not> halted s1 \<and>
     mem_read32 (mem s1) (pc s1) = Inr raw \<and> cpu_step s1 c1 = Inr (s2, c2) \<and> d = info_of s1 raw s2)"

definition gen_ok :: "memory \<Rightarrow> console \<Rightarrow> gen \<Rightarrow> bool" where
  "gen_ok m con g = (cpu_steps (g_count g) (cpu_init m) con = Inr (g_cpu g, g_con g) \<and>
     (g_done g \<longleftrightarrow> halted (g_cpu g) \<or> GEN_LIMIT \<le> g_count g) \<and> g_count g \<le> GEN_LIMIT \<and>
     length (g_win g) = WIN_CAP \<and>
     (\<forall>k < g_count g. g_count g \<le> k + WIN_CAP \<longrightarrow> dyn_inst k (cpu_init m) con (gen_at g k)))"

lemma gen_init_ok: "gen_ok m con (gen_init m con)"
  by (simp add: gen_ok_def gen_init_def cpu_init_def GEN_LIMIT_def)

lemma ring_other: "k < n \<Longrightarrow> n < k + 32 \<Longrightarrow> n mod 32 \<noteq> k mod (32 :: nat)"
  using mod_eq_dvd_iff_nat [of k n 32] by (auto dest: dvd_imp_le)

lemma cpu_steps_Suc_end:
  "cpu_steps n s con = Inr (s1, c1) \<Longrightarrow> \<not> halted s1 \<Longrightarrow> cpu_steps (Suc n) s con = cpu_step s1 c1"
proof -
  assume "cpu_steps n s con = Inr (s1, c1)" "\<not> halted s1"
  then have "cpu_steps (n + 1) s con = res_bind (cpu_step s1 c1) (\<lambda>(s', con'). Inr (s', con'))"
    unfolding cpu_steps_add by (cases "cpu_step s1 c1") auto
  moreover have "res_bind r (\<lambda>(s', con'). Inr (s', con')) = r" for r :: "(cpu \<times> console) res"
    by (cases r) auto
  ultimately show ?thesis by (simp del: cpu_steps.simps)
qed

lemma gen_one_ok:
  assumes ok: "gen_ok m con g" and d: "\<not> g_done g" and one: "gen_one g = Inr g'"
  shows "gen_ok m con g'" "g_count g' = Suc (g_count g)"
proof -
  obtain raw s' con' where r: "mem_read32 (mem (g_cpu g)) (pc (g_cpu g)) = Inr raw"
    "cpu_step (g_cpu g) (g_con g) = Inr (s', con')"
    and g': "g' = g\<lparr>g_cpu := s', g_con := con', g_count := g_count g + 1,
       g_done := halted s' \<or> g_count g + 1 \<ge> GEN_LIMIT,
       g_win := (g_win g)[g_count g mod WIN_CAP := info_of (g_cpu g) raw s']\<rparr>"
    using one d by (auto simp: gen_one_def res_bind_Inr_iff Let_def)
  show c: "g_count g' = Suc (g_count g)" by (simp add: g')
  have nh: "\<not> halted (g_cpu g)" and lim: "Suc (g_count g) \<le> GEN_LIMIT" and l: "length (g_win g) = 32"
    and st: "cpu_steps (g_count g) (cpu_init m) con = Inr (g_cpu g, g_con g)"
    using ok d by (auto simp: gen_ok_def WIN_CAP_def)
  have new: "dyn_inst (g_count g) (cpu_init m) con (info_of (g_cpu g) raw s')"
    unfolding dyn_inst_def using st nh r by blast
  have "dyn_inst k (cpu_init m) con (gen_at g' k)" if k: "k < g_count g'" "g_count g' \<le> k + WIN_CAP" for k
  proof (cases "k = g_count g")
    case True
    with new l show ?thesis by (simp add: gen_at_def g' WIN_CAP_def)
  next
    case False
    with k c have "k < g_count g" "g_count g < k + 32" by (simp_all add: WIN_CAP_def)
    then have "gen_at g' k = gen_at g k" using ring_other [of k "g_count g"] by (simp add: gen_at_def g' WIN_CAP_def)
    moreover have "dyn_inst k (cpu_init m) con (gen_at g k)"
      using ok \<open>k < g_count g\<close> \<open>g_count g < k + 32\<close> by (simp add: gen_ok_def WIN_CAP_def)
    ultimately show ?thesis by simp
  qed
  then show "gen_ok m con g'"
    using cpu_steps_Suc_end [OF st nh] r(2) l lim by (auto simp: gen_ok_def g' WIN_CAP_def)
qed

lemma gen_one_fault:
  assumes "gen_one g = Inl e" shows "cpu_step (g_cpu g) (g_con g) = Inl e"
  using assms by (auto simp: gen_one_def res_bind_Inl_iff Let_def cpu_step_def)

text \<open>Asking for the next instruction produces it, unless the program is over.\<close>

lemma gen_ensure_next:
  assumes "g_count g = k"
  shows "gen_ensure k g =
    (if g_done g then Inr (False, g) else res_bind (gen_one g) (\<lambda>g'. Inr (True, g')))"
proof (cases "gen_one g")
  case (Inr g')
  then have "gen_fill k g' = Inr g'" if "\<not> g_done g"
    using assms gen_one_count [OF Inr] by (subst gen_fill.simps) simp
  with Inr assms gen_one_count [OF Inr] show ?thesis
    by (auto simp: gen_ensure_def gen_fill.simps [of k g])
qed (use assms in \<open>auto simp: gen_ensure_def gen_fill.simps [of k g]\<close>)

lemma dyn_inst_unique: "dyn_inst k s con d \<Longrightarrow> dyn_inst k s con d' \<Longrightarrow> d = d'"
  unfolding dyn_inst_def by auto

text \<open>The instruction that halts the processor is not a control transfer.\<close>

lemma halt_not_control:
  assumes "mem_read32 (mem s) (pc s) = Inr raw" "cpu_step s con = Inr (s', con')" "\<not> halted s" "halted s'"
  shows "\<not> ii_is_control (info_of s raw s') \<and> \<not> ii_taken_control (info_of s raw s')"
proof -
  have "exec_instr (decode raw) (next_state s) con = Inr (s', con')"
    using assms(1,2) step_fetched [of s "decode raw" con] by (simp add: fetched_def)
  moreover have "pc t' = pc t" if "mmio_store t a v c = (t', c')" for t a v c t' c'
    using mmio_store_simps(1) [of t a v c] that by simp
  ultimately have "\<not> op_is_control (DECODE_OPCODE raw) \<and> pc s' = pc s + 4"
    using assms(3,4)
    by (cases "DECODE_OPCODE raw")
      (auto simp: exec_defs res_bind_Inr_iff op_is_control_def op_is_conditional_def split: if_splits prod.splits)
  moreover have "ii_is_control (decode_meta op rd rs) = op_is_control op" for op rd rs
    by (simp add: decode_meta_def split: prod.split)
  ultimately show ?thesis by (simp add: info_of_def)
qed

subsection \<open>How reference runs end\<close>

lemma gen_fault_reference:
  assumes "gen_ok m con g" "\<not> g_done g" "gen_one g = Inl e"
  shows "cpu_steps (Suc (g_count g)) (cpu_init m) con = Inl e \<and> g_count g < GEN_LIMIT"
proof -
  have nh: "\<not> halted (g_cpu g)" and st: "cpu_steps (g_count g) (cpu_init m) con = Inr (g_cpu g, g_con g)"
    and lim: "g_count g < GEN_LIMIT" using assms(1,2) by (auto simp: gen_ok_def)
  from cpu_steps_Suc_end [OF st nh] gen_one_fault [OF assms(3)] lim show ?thesis by simp
qed

lemma steps_final_unique:
  assumes "cpu_steps n s con = r" "cpu_steps k s con = q"
    and "case r of Inl _ \<Rightarrow> True | Inr (t, _) \<Rightarrow> halted t" "case q of Inl _ \<Rightarrow> True | Inr (t, _) \<Rightarrow> halted t"
  shows "r = q"
proof -
  have "cpu_run False s con = Some r" "cpu_run False s con = Some q"
    using assms by (auto intro!: steps_end_run simp: steps_end_def)
  then show ?thesis by simp
qed

lemma steps_after_halt:
  "cpu_steps n s con = Inr (t, c) \<Longrightarrow> halted t \<Longrightarrow> n \<le> k \<Longrightarrow> cpu_steps k s con = Inr (t, c)"
  using cpu_steps_add [of n "k - n" s con] by simp

lemma steps_icount:
  "cpu_steps n s con = Inr (t, c) \<Longrightarrow> (\<And>k u d. k < n \<Longrightarrow> cpu_steps k s con = Inr (u, d) \<Longrightarrow> \<not> halted u) \<Longrightarrow>
   icount t = icount s + of_nat n"
proof (induction n arbitrary: t c)
  case (Suc n)
  have "\<exists>u d. cpu_steps n s con = Inr (u, d)"
    using Suc.prems(1) cpu_steps_add [of n 1 s con] by (cases "cpu_steps n s con") (auto simp del: cpu_steps.simps)
  then obtain u d where u: "cpu_steps n s con = Inr (u, d)" by blast
  with Suc.prems(2) [of n u d] have "\<not> halted u" by simp
  then have "cpu_step u d = Inr (t, c)" using cpu_steps_Suc_end [OF u] Suc.prems(1) by simp
  moreover have "icount u = icount s + of_nat n" by (rule Suc.IH [OF u]) (rule Suc.prems(2), simp_all)
  ultimately show ?case using cpu_step_icount by simp
qed simp

lemma steps_silent:
  "cpu_steps n s con = Inr (t, c) \<Longrightarrow> cpu_silent con \<Longrightarrow> con_sim c con"
proof (induction n arbitrary: s con)
  case (Suc n)
  show ?case
  proof (cases "halted s")
    case False
    with Suc.prems(1) obtain u d where u: "cpu_step s con = Inr (u, d)" "cpu_steps n u d = Inr (t, c)"
      by (auto simp: res_bind_Inr_iff)
    from cpu_step_silent [OF Suc.prems(2) u(1)] Suc.IH [OF u(2)] show ?thesis by (auto intro: con_sim_trans)
  qed (use Suc.prems in simp)
qed simp

lemma con_sim_restore: "con_sim c (silent_con con) \<Longrightarrow> con_sim (c\<lparr>cpu_silent := cpu_silent con\<rparr>) con"
  by (simp add: con_sim_fields silent_con_def)

text \<open>The generator counts what the reference executes: it stops at the first halted state.\<close>

lemma gen_not_halted:
  assumes "gen_ok m con g" "k < g_count g" "cpu_steps k (cpu_init m) con = Inr (u, d)" shows "\<not> halted u"
proof
  assume h: "halted u"
  obtain j where j: "g_count g = Suc j" "k \<le> j" using assms(2) by (cases "g_count g") auto
  have "dyn_inst j (cpu_init m) con (gen_at g j)" using assms(1) j by (simp add: gen_ok_def WIN_CAP_def)
  moreover have "cpu_steps j (cpu_init m) con = Inr (u, d)" by (rule steps_after_halt [OF assms(3) h j(2)])
  ultimately show False using h by (auto simp: dyn_inst_def)
qed

lemma gen_count_icount:
  assumes "gen_ok m con g" shows "icount (g_cpu g) = of_nat (g_count g)"
proof -
  have "cpu_steps (g_count g) (cpu_init m) con = Inr (g_cpu g, g_con g)" using assms by (simp add: gen_ok_def)
  then have "icount (g_cpu g) = icount (cpu_init m) + of_nat (g_count g)"
    by (rule steps_icount) (rule gen_not_halted [OF assms])
  then show ?thesis by (simp add: cpu_init_def)
qed

lemma steps_after_fault: "cpu_steps n s con = Inl e \<Longrightarrow> n \<le> k \<Longrightarrow> cpu_steps k s con = Inl e"
  using cpu_steps_add [of n "k - n" s con] by simp

end
