(* ===== verification/Bpred.thy ===== *)
theory Bpred
  imports Prelude
begin

text \<open>
  Branch predictors and the branch target buffer (\<open>include/bpred.h\<close>, \<open>src/bpred.c\<close>). A table
  access outside its array and a shift by 32 or more are faults; on predictors built by
  \<open>bp_init\<close> with usable sizes there are none. The interfaces \<open>direction_predictor\<close> and
  \<open>target_buffer\<close> say what the pipeline models need; the last section shows that every
  dynamic predictor learns a branch that keeps its direction.
\<close>

subsection \<open>State\<close>

datatype bp_kind = BP_NONE | BP_STATIC_NT | BP_BIMODAL1 | BP_BIMODAL2 | BP_GSHARE
  | BP_TOURNAMENT | BP_TOURNAMENT3

text \<open>A table that is not allocated is the empty list.\<close>

record bpredictor =
  bp_kind_of :: bp_kind
  bp_idx_bits :: int
  bp_mask :: u32
  bp_table :: "u8 list"
  bp_gtable :: "u8 list"
  bp_chooser :: "u8 list"
  bp_ghist :: u32
  bp_ghist_bits :: int
  btb_bits :: int
  btb_mask :: u32
  btb_tag :: "u32 list"
  btb_target :: "u32 list"
  btb_valid :: "bool list"

text \<open>\<open>1u << n\<close>, undefined unless $0 \le n < 32$.\<close>

definition shl1 :: "int \<Rightarrow> u32 res" where
  "shl1 n = (if 0 \<le> n \<and> n < 32 then Inr (push_bit (nat n) 1) else Inl (BadShift (word_of_int n)))"

definition tab_at :: "'a list \<Rightarrow> u32 \<Rightarrow> 'a res" where
  "tab_at xs i = (if unat i < length xs then Inr (xs ! unat i) else Inl (BadIndex i))"

definition tab_put :: "'a list \<Rightarrow> u32 \<Rightarrow> 'a \<Rightarrow> 'a list res" where
  "tab_put xs i v = (if unat i < length xs then Inr (xs[unat i := v]) else Inl (BadIndex i))"

definition pc_index :: "u32 \<Rightarrow> u32" where
  "pc_index p = drop_bit 2 p"

definition sat_update :: "u8 \<Rightarrow> bool \<Rightarrow> u8" where
  "sat_update c taken = (if taken then (if c < 3 then c + 1 else c) else (if c > 0 then c - 1 else c))"

text \<open>\<open>sat_update(&xs[i], taken)\<close>.\<close>

definition sat_at :: "u8 list \<Rightarrow> u32 \<Rightarrow> bool \<Rightarrow> u8 list res" where
  "sat_at xs i taken = res_bind (tab_at xs i) (\<lambda>c. tab_put xs i (sat_update c taken))"

definition bp_init :: "bp_kind \<Rightarrow> int \<Rightarrow> int \<Rightarrow> bpredictor res" where
  "bp_init kind idx_bits ghist_bits = res_bind (shl1 idx_bits) (\<lambda>one.
     (let mask = one - 1;
          entries = 2 ^ nat idx_bits;
          init = (if kind = BP_BIMODAL1 \<or> kind = BP_STATIC_NT \<or> kind = BP_NONE then 0 else 2);
          tour = (kind = BP_TOURNAMENT \<or> kind = BP_TOURNAMENT3)
      in Inr \<lparr>bp_kind_of = kind, bp_idx_bits = idx_bits, bp_mask = mask,
           bp_table = replicate entries init,
           bp_gtable = (if tour then replicate entries 2 else []),
           bp_chooser = (if kind = BP_TOURNAMENT3 then concat (replicate entries [2, 1, 1])
                         else if tour then replicate entries 1 else []),
           bp_ghist = 0, bp_ghist_bits = ghist_bits,
           btb_bits = idx_bits, btb_mask = mask, btb_tag = replicate entries 0,
           btb_target = replicate entries 0, btb_valid = replicate entries False\<rparr>))"

subsection \<open>Prediction\<close>

definition ghist_val :: "bpredictor \<Rightarrow> u32 res" where
  "ghist_val b = res_bind (shl1 (bp_ghist_bits b)) (\<lambda>one. Inr (bp_ghist b AND (one - 1)))"

definition bimodal_idx :: "bpredictor \<Rightarrow> u32 \<Rightarrow> u32" where
  "bimodal_idx b p = pc_index p AND bp_mask b"

definition gshare_idx :: "bpredictor \<Rightarrow> u32 \<Rightarrow> u32 res" where
  "gshare_idx b p = res_bind (ghist_val b) (\<lambda>g. Inr ((pc_index p XOR g) AND bp_mask b))"

definition bimodal_pred :: "bpredictor \<Rightarrow> u32 \<Rightarrow> bool res" where
  "bimodal_pred b p = res_bind (tab_at (bp_table b) (bimodal_idx b p)) (\<lambda>c. Inr (2 \<le> c))"

definition gshare_pred :: "bpredictor \<Rightarrow> u32 \<Rightarrow> bool res" where
  "gshare_pred b p = res_bind (gshare_idx b p) (\<lambda>i. res_bind (tab_at (bp_gtable b) i) (\<lambda>c. Inr (2 \<le> c)))"

definition tournament_use_gshare :: "bpredictor \<Rightarrow> bool res" where
  "tournament_use_gshare b = res_bind (ghist_val b) (\<lambda>g.
     res_bind (tab_at (bp_chooser b) (g AND bp_mask b)) (\<lambda>c. Inr (2 \<le> c)))"

definition bp_predict :: "bpredictor \<Rightarrow> u32 \<Rightarrow> bool res" where
  "bp_predict b p = (case bp_kind_of b of
     BP_STATIC_NT \<Rightarrow> Inr False
   | BP_NONE \<Rightarrow> Inr False
   | BP_BIMODAL1 \<Rightarrow> res_bind (tab_at (bp_table b) (bimodal_idx b p)) (\<lambda>c. Inr (c \<noteq> 0))
   | BP_BIMODAL2 \<Rightarrow> res_bind (tab_at (bp_table b) (bimodal_idx b p)) (\<lambda>c. Inr (2 \<le> c))
   | BP_GSHARE \<Rightarrow> res_bind (gshare_idx b p) (\<lambda>i. res_bind (tab_at (bp_table b) i) (\<lambda>c. Inr (2 \<le> c)))
   | BP_TOURNAMENT \<Rightarrow> res_bind (tournament_use_gshare b) (\<lambda>g.
       if g then gshare_pred b p else bimodal_pred b p)
   | BP_TOURNAMENT3 \<Rightarrow>
       (let base = bimodal_idx b p * 3 in
        res_bind (tab_at (bp_chooser b) base) (\<lambda>cs.
        res_bind (tab_at (bp_chooser b) (base + 1)) (\<lambda>cb.
        res_bind (tab_at (bp_chooser b) (base + 2)) (\<lambda>cg.
          if cg \<ge> cb \<and> cg \<ge> cs then gshare_pred b p
          else if cb \<ge> cs then bimodal_pred b p
          else Inr False)))))"

subsection \<open>Update\<close>

definition push_hist :: "bool \<Rightarrow> bpredictor \<Rightarrow> bpredictor" where
  "push_hist taken b = b\<lparr>bp_ghist := push_bit 1 (bp_ghist b) OR (if taken then 1 else 0)\<rparr>"

text \<open>The tail both tournament cases share: train the two tables, push the history.\<close>

definition train_both :: "bpredictor \<Rightarrow> u32 \<Rightarrow> bool \<Rightarrow> bpredictor res" where
  "train_both b p taken =
     res_bind (sat_at (bp_table b) (bimodal_idx b p) taken) (\<lambda>t.
     (let b = b\<lparr>bp_table := t\<rparr> in
      res_bind (gshare_idx b p) (\<lambda>gi. res_bind (sat_at (bp_gtable b) gi taken) (\<lambda>g.
        Inr (push_hist taken (b\<lparr>bp_gtable := g\<rparr>))))))"

definition bp_update :: "bpredictor \<Rightarrow> u32 \<Rightarrow> bool \<Rightarrow> bpredictor res" where
  "bp_update b p taken = (case bp_kind_of b of
     BP_STATIC_NT \<Rightarrow> Inr b
   | BP_NONE \<Rightarrow> Inr b
   | BP_BIMODAL1 \<Rightarrow> res_bind (tab_put (bp_table b) (bimodal_idx b p) (if taken then 1 else 0)) (\<lambda>t.
       Inr (b\<lparr>bp_table := t\<rparr>))
   | BP_BIMODAL2 \<Rightarrow> res_bind (sat_at (bp_table b) (bimodal_idx b p) taken) (\<lambda>t. Inr (b\<lparr>bp_table := t\<rparr>))
   | BP_GSHARE \<Rightarrow> res_bind (gshare_idx b p) (\<lambda>i. res_bind (sat_at (bp_table b) i taken) (\<lambda>t.
       Inr (push_hist taken (b\<lparr>bp_table := t\<rparr>))))
   | BP_TOURNAMENT \<Rightarrow>
       res_bind (bimodal_pred b p) (\<lambda>bp. res_bind (gshare_pred b p) (\<lambda>gp.
       (let bc = (bp = taken); gc = (gp = taken) in
        res_bind (if bc \<noteq> gc then
                    res_bind (ghist_val b) (\<lambda>g. res_bind (sat_at (bp_chooser b) (g AND bp_mask b) gc)
                      (\<lambda>ch. Inr (b\<lparr>bp_chooser := ch\<rparr>)))
                  else Inr b)
          (\<lambda>b. train_both b p taken))))
   | BP_TOURNAMENT3 \<Rightarrow>
       (let base = bimodal_idx b p * 3 in
        res_bind (sat_at (bp_chooser b) base (False = taken)) (\<lambda>ch. let b = b\<lparr>bp_chooser := ch\<rparr> in
        res_bind (bimodal_pred b p) (\<lambda>bp.
        res_bind (sat_at (bp_chooser b) (base + 1) (bp = taken)) (\<lambda>ch. let b = b\<lparr>bp_chooser := ch\<rparr> in
        res_bind (gshare_pred b p) (\<lambda>gp.
        res_bind (sat_at (bp_chooser b) (base + 2) (gp = taken)) (\<lambda>ch. let b = b\<lparr>bp_chooser := ch\<rparr> in
          train_both b p taken)))))))"

subsection \<open>Branch target buffer\<close>

definition btb_idx :: "bpredictor \<Rightarrow> u32 \<Rightarrow> u32" where
  "btb_idx b p = pc_index p AND btb_mask b"

definition btb_lookup :: "bpredictor \<Rightarrow> u32 \<Rightarrow> u32 option res" where
  "btb_lookup b p = res_bind (tab_at (btb_valid b) (btb_idx b p)) (\<lambda>v.
     if v then res_bind (tab_at (btb_tag b) (btb_idx b p)) (\<lambda>t.
       if t = p then res_bind (tab_at (btb_target b) (btb_idx b p)) (\<lambda>g. Inr (Some g)) else Inr None)
     else Inr None)"

definition btb_update :: "bpredictor \<Rightarrow> u32 \<Rightarrow> u32 \<Rightarrow> bpredictor res" where
  "btb_update b p target =
     res_bind (tab_put (btb_valid b) (btb_idx b p) True) (\<lambda>v.
     res_bind (tab_put (btb_tag b) (btb_idx b p) p) (\<lambda>t.
     res_bind (tab_put (btb_target b) (btb_idx b p) target) (\<lambda>g.
       Inr (b\<lparr>btb_valid := v, btb_tag := t, btb_target := g\<rparr>))))"

fun bp_name :: "bp_kind \<Rightarrow> string" where
  "bp_name BP_NONE = ''none''"
| "bp_name BP_STATIC_NT = ''static-NT''"
| "bp_name BP_BIMODAL1 = ''bimodal-1bit''"
| "bp_name BP_BIMODAL2 = ''bimodal-2bit''"
| "bp_name BP_GSHARE = ''gshare''"
| "bp_name BP_TOURNAMENT = ''tournament''"
| "bp_name BP_TOURNAMENT3 = ''tour+static''"

subsection \<open>What the pipeline models need\<close>

locale direction_predictor =
  fixes predict :: "'s \<Rightarrow> u32 \<Rightarrow> bool res"
    and update :: "'s \<Rightarrow> u32 \<Rightarrow> bool \<Rightarrow> 's res"
    and ok :: "'s \<Rightarrow> bool"
  assumes predict_returns: "ok s \<Longrightarrow> \<exists>t. predict s p = Inr t"
    and update_returns: "ok s \<Longrightarrow> \<exists>s'. update s p taken = Inr s' \<and> ok s'"
begin

lemma run_returns: "ok s \<Longrightarrow> \<exists>s'. res_fold (\<lambda>(p, taken) s. update s p taken) bs s = Inr s' \<and> ok s'"
  using update_returns by (intro res_fold_returns) auto

end

locale target_buffer =
  fixes lookup :: "'s \<Rightarrow> u32 \<Rightarrow> u32 option res"
    and upd :: "'s \<Rightarrow> u32 \<Rightarrow> u32 \<Rightarrow> 's res"
    and ok :: "'s \<Rightarrow> bool"
  assumes lookup_returns: "ok s \<Longrightarrow> \<exists>t. lookup s p = Inr t"
    and upd_returns: "ok s \<Longrightarrow> \<exists>s'. upd s p t = Inr s' \<and> ok s'"
    and lookup_same: "ok s \<Longrightarrow> upd s p t = Inr s' \<Longrightarrow> lookup s' p = Inr (Some t)"
    and lookup_other: "ok s \<Longrightarrow> upd s p t = Inr s' \<Longrightarrow> q \<noteq> p \<Longrightarrow>
      lookup s' q = lookup s q \<or> lookup s' q = Inr None"
begin

text \<open>A hit is never stale: it is the target of the last update of that address.\<close>

lemma hit_is_latest:
  "ok s \<Longrightarrow> (\<And>q. lookup s q = Inr None) \<Longrightarrow>
   \<exists>s'. res_fold (\<lambda>(p, t) s. upd s p t) us s = Inr s' \<and> ok s' \<and>
     (\<forall>q t. lookup s' q = Inr (Some t) \<longrightarrow> map_of (rev us) q = Some t)"
proof (induction us rule: rev_induct)
  case Nil
  then show ?case by simp
next
  case (snoc u us)
  obtain p t where u: "u = (p, t)" by (cases u)
  from snoc obtain s1 where s1: "res_fold (\<lambda>(p, t) s. upd s p t) us s = Inr s1" "ok s1"
    "\<forall>q t. lookup s1 q = Inr (Some t) \<longrightarrow> map_of (rev us) q = Some t" by blast
  obtain s2 where s2: "upd s1 p t = Inr s2" "ok s2" using upd_returns [OF s1(2)] by blast
  have "lookup s2 q = Inr (Some t') \<Longrightarrow> map_of (rev (us @ [u])) q = Some t'" for q t'
    using lookup_same [OF s1(2) s2(1)] lookup_other [OF s1(2) s2(1), of q] s1(3)
    by (cases "q = p") (auto simp: u)
  with s1(1) s2 show ?case by (simp add: u)
qed

end

subsection \<open>Usable predictors\<close>

text \<open>Tables of the sizes \<open>bp_init\<close> allocates, counters of two bits.\<close>

definition bp_ok :: "bpredictor \<Rightarrow> bool" where
  "bp_ok b = (let n = 2 ^ nat (bp_idx_bits b) :: nat; k = bp_kind_of b in
     0 \<le> bp_idx_bits b \<and> bp_idx_bits b \<le> 30 \<and> 0 \<le> bp_ghist_bits b \<and> bp_ghist_bits b < 32 \<and>
     bp_mask b = mask (nat (bp_idx_bits b)) \<and> btb_mask b = bp_mask b \<and>
     length (bp_table b) = n \<and>
     (k = BP_TOURNAMENT \<or> k = BP_TOURNAMENT3 \<longrightarrow> length (bp_gtable b) = n) \<and>
     (k = BP_TOURNAMENT \<longrightarrow> length (bp_chooser b) = n) \<and>
     (k = BP_TOURNAMENT3 \<longrightarrow> length (bp_chooser b) = 3 * n) \<and>
     (\<forall>c \<in> set (bp_table b) \<union> set (bp_gtable b) \<union> set (bp_chooser b). c \<le> 3) \<and>
     length (btb_valid b) = n \<and> length (btb_tag b) = n \<and> length (btb_target b) = n)"

lemma mask_word: "0 \<le> n \<Longrightarrow> n < 32 \<Longrightarrow> shl1 n = Inr (push_bit (nat n) 1)"
  "(2 :: u32) ^ k - 1 = mask k"
  by (simp_all add: shl1_def mask_eq_exp_minus_1)

lemma unat_and_mask: "unat ((x :: u32) AND mask n) < 2 ^ n"
proof -
  have "x AND mask n = take_bit n x" by (simp add: take_bit_eq_mask)
  then show ?thesis by (simp add: unsigned_take_bit_eq)
qed

lemma tab_at_Inr: "unat i < length xs \<Longrightarrow> tab_at xs i = Inr (xs ! unat i)"
  by (simp add: tab_at_def)

lemma sat_at_Inr: "unat i < length xs \<Longrightarrow> sat_at xs i t = Inr (xs[unat i := sat_update (xs ! unat i) t])"
  by (simp add: sat_at_def tab_at_def tab_put_def)

lemma tab_put_Inr: "unat i < length xs \<Longrightarrow> tab_put xs i v = Inr (xs[unat i := v])"
  by (simp add: tab_put_def)

lemma u8_le3: "(c :: u8) \<le> 3 \<longleftrightarrow> c = 0 \<or> c = 1 \<or> c = 2 \<or> c = 3"
proof
  assume "c \<le> 3"
  then have "unat c \<in> {0, 1, 2, 3}" by (auto simp: word_le_nat_alt)
  then show "c = 0 \<or> c = 1 \<or> c = 2 \<or> c = 3" by (auto simp: word_unat_eq_iff)
qed auto

lemma sat_update_le3: "c \<le> 3 \<Longrightarrow> sat_update c t \<le> 3"
  by (auto simp: u8_le3 sat_update_def)

lemma counters_update:
  "\<forall>c \<in> set xs. (c :: u8) \<le> 3 \<Longrightarrow> v \<le> 3 \<Longrightarrow> c \<in> set (xs[i := v]) \<Longrightarrow> c \<le> 3"
  using set_update_subset_insert [of xs i v] by blast

text \<open>History and indices of a usable predictor.\<close>

definition hist_of :: "bpredictor \<Rightarrow> u32" where
  "hist_of b = take_bit (nat (bp_ghist_bits b)) (bp_ghist b)"

definition gidx :: "bpredictor \<Rightarrow> u32 \<Rightarrow> u32" where
  "gidx b p = (pc_index p XOR hist_of b) AND bp_mask b"

lemma ghist_val_ok: "bp_ok b \<Longrightarrow> ghist_val b = Inr (hist_of b)"
  by (simp add: bp_ok_def Let_def ghist_val_def mask_word hist_of_def take_bit_eq_mask)

lemma gshare_idx_ok: "bp_ok b \<Longrightarrow> gshare_idx b p = Inr (gidx b p)"
  by (simp add: gshare_idx_def ghist_val_ok gidx_def)

lemma idx_less:
  "bp_ok b \<Longrightarrow> unat (bimodal_idx b p) < 2 ^ nat (bp_idx_bits b)"
  "bp_ok b \<Longrightarrow> unat (gidx b p) < 2 ^ nat (bp_idx_bits b)"
  "bp_ok b \<Longrightarrow> unat (g AND bp_mask b) < 2 ^ nat (bp_idx_bits b)"
  "bp_ok b \<Longrightarrow> unat (btb_idx b p) < 2 ^ nat (bp_idx_bits b)"
  by (simp_all add: bp_ok_def Let_def bimodal_idx_def gidx_def btb_idx_def unat_and_mask)

lemma chooser_idx:
  assumes "bp_ok b" "k < 3"
  shows "unat (bimodal_idx b p * 3 + of_nat k) = unat (bimodal_idx b p) * 3 + k"
    and "unat (bimodal_idx b p) * 3 + k < 3 * 2 ^ nat (bp_idx_bits b)"
proof -
  let ?i = "unat (bimodal_idx b p)"
  have i: "?i < 2 ^ nat (bp_idx_bits b)" by (rule idx_less(1) [OF assms(1)])
  then show "?i * 3 + k < 3 * 2 ^ nat (bp_idx_bits b)" using assms(2) by linarith
  have "nat (bp_idx_bits b) \<le> 30" using assms(1) by (simp add: bp_ok_def Let_def nat_le_iff)
  then have "(2 :: nat) ^ nat (bp_idx_bits b) \<le> 2 ^ 30" by (rule power_increasing) simp
  with i assms(2) have "?i * 3 + k < 4294967296" by simp
  then show "unat (bimodal_idx b p * 3 + of_nat k) = ?i * 3 + k"
    using assms(2) by (simp add: unat_word_ariths unat_of_nat take_bit_nat_eq_self)
qed

lemma bp_init_ok:
  assumes "bp_init k i g = Inr b" "i \<le> 30" "0 \<le> g" "g < 32" shows "bp_ok b"
  using assms
  by (auto simp: bp_init_def res_bind_Inr_iff shl1_def bp_ok_def Let_def mask_word length_concat
      sum_list_replicate split: if_splits)

text \<open>The BTB and the history do not touch the other parts.\<close>

lemma bp_ok_updates [simp]:
  "bp_ok (b\<lparr>bp_ghist := h\<rparr>) = bp_ok b" "bp_ok (push_hist t b) = bp_ok b"
  by (simp_all add: bp_ok_def push_hist_def)

subsection \<open>Prediction and update never fault\<close>

definition bump :: "u8 list \<Rightarrow> u32 \<Rightarrow> bool \<Rightarrow> u8 list" where
  "bump xs i t = xs[unat i := sat_update (xs ! unat i) t]"

lemma length_bump [simp]: "length (bump xs i t) = length xs"
  by (simp add: bump_def)

lemma sat_at_bump: "unat i < length xs \<Longrightarrow> sat_at xs i t = Inr (bump xs i t)"
  by (simp add: sat_at_Inr bump_def)

lemma bump_le3: "unat i < length xs \<Longrightarrow> \<forall>c \<in> set xs. c \<le> 3 \<Longrightarrow> \<forall>c \<in> set (bump xs i t). c \<le> 3"
  unfolding bump_def using counters_update [of xs "sat_update (xs ! unat i) t"] sat_update_le3 by simp

lemma bump_nth:
  "unat i < length xs \<Longrightarrow> bump xs i t ! j = (if j = unat i then sat_update (xs ! j) t else xs ! j)"
  by (simp add: bump_def nth_list_update)

lemma bp_ok_tables:
  "bp_ok b \<Longrightarrow> \<forall>c \<in> set t. c \<le> 3 \<Longrightarrow> length t = length (bp_table b) \<Longrightarrow> bp_ok (b\<lparr>bp_table := t\<rparr>)"
  "bp_ok b \<Longrightarrow> \<forall>c \<in> set t. c \<le> 3 \<Longrightarrow> length t = length (bp_gtable b) \<Longrightarrow> bp_ok (b\<lparr>bp_gtable := t\<rparr>)"
  "bp_ok b \<Longrightarrow> \<forall>c \<in> set t. c \<le> 3 \<Longrightarrow> length t = length (bp_chooser b) \<Longrightarrow> bp_ok (b\<lparr>bp_chooser := t\<rparr>)"
  by (simp_all add: bp_ok_def Let_def ball_Un)

lemma bp_ok_counters:
  "bp_ok b \<Longrightarrow> \<forall>c \<in> set (bp_table b). c \<le> 3" "bp_ok b \<Longrightarrow> \<forall>c \<in> set (bp_gtable b). c \<le> 3"
  "bp_ok b \<Longrightarrow> \<forall>c \<in> set (bp_chooser b). c \<le> 3"
  by (simp_all add: bp_ok_def Let_def ball_Un)

lemma index_ranges:
  assumes "bp_ok b"
  shows "unat (bimodal_idx b p) < length (bp_table b)" "unat (gidx b p) < length (bp_table b)"
    "bp_kind_of b = BP_TOURNAMENT \<or> bp_kind_of b = BP_TOURNAMENT3 \<Longrightarrow> unat (gidx b p) < length (bp_gtable b)"
    "bp_kind_of b = BP_TOURNAMENT \<Longrightarrow> unat (g AND bp_mask b) < length (bp_chooser b)"
    "bp_kind_of b = BP_TOURNAMENT3 \<Longrightarrow> k < 3 \<Longrightarrow> unat (bimodal_idx b p * 3 + of_nat k) < length (bp_chooser b)"
  using idx_less [OF assms] chooser_idx [OF assms, of k p] assms by (auto simp: bp_ok_def Let_def)

lemma idx_updates [simp]:
  "bimodal_idx (b\<lparr>bp_table := t\<rparr>) p = bimodal_idx b p" "bimodal_idx (b\<lparr>bp_gtable := t\<rparr>) p = bimodal_idx b p"
  "bimodal_idx (b\<lparr>bp_chooser := t\<rparr>) p = bimodal_idx b p" "bimodal_idx (push_hist d b) p = bimodal_idx b p"
  "gidx (b\<lparr>bp_table := t\<rparr>) p = gidx b p" "gidx (b\<lparr>bp_gtable := t\<rparr>) p = gidx b p"
  "gidx (b\<lparr>bp_chooser := t\<rparr>) p = gidx b p" "hist_of (b\<lparr>bp_chooser := t\<rparr>) = hist_of b"
  "hist_of (b\<lparr>bp_table := t\<rparr>) = hist_of b" "hist_of (b\<lparr>bp_gtable := t\<rparr>) = hist_of b"
  by (simp_all add: bimodal_idx_def gidx_def hist_of_def push_hist_def)

lemma push_hist_simps [simp]:
  "bp_kind_of (push_hist t b) = bp_kind_of b" "bp_table (push_hist t b) = bp_table b"
  "bp_gtable (push_hist t b) = bp_gtable b" "bp_chooser (push_hist t b) = bp_chooser b"
  "bp_mask (push_hist t b) = bp_mask b" "bp_ghist_bits (push_hist t b) = bp_ghist_bits b"
  "bp_idx_bits (push_hist t b) = bp_idx_bits b"
  by (simp_all add: push_hist_def)

lemma bimodal_pred_ok: "bp_ok b \<Longrightarrow> bimodal_pred b p = Inr (2 \<le> bp_table b ! unat (bimodal_idx b p))"
  by (simp add: bimodal_pred_def tab_at_Inr index_ranges)

lemma gshare_pred_ok:
  "bp_ok b \<Longrightarrow> bp_kind_of b = BP_TOURNAMENT \<or> bp_kind_of b = BP_TOURNAMENT3 \<Longrightarrow>
   gshare_pred b p = Inr (2 \<le> bp_gtable b ! unat (gidx b p))"
  by (simp add: gshare_pred_def gshare_idx_ok tab_at_Inr index_ranges)

text \<open>One update, as tables.\<close>

definition trained :: "bpredictor \<Rightarrow> u32 \<Rightarrow> bool \<Rightarrow> bpredictor" where
  "trained b p t = push_hist t (b\<lparr>bp_table := bump (bp_table b) (bimodal_idx b p) t,
     bp_gtable := bump (bp_gtable b) (gidx b p) t\<rparr>)"

lemma trained_ok:
  assumes "bp_ok b" "bp_kind_of b = BP_TOURNAMENT \<or> bp_kind_of b = BP_TOURNAMENT3"
  shows "train_both b p t = Inr (trained b p t)" "bp_ok (trained b p t)"
proof -
  note r = index_ranges [OF assms(1)] bp_ok_counters [OF assms(1)]
  have ok1: "bp_ok (b\<lparr>bp_table := bump (bp_table b) (bimodal_idx b p) t\<rparr>)"
    using assms(1) r by (intro bp_ok_tables bump_le3) simp_all
  then show "train_both b p t = Inr (trained b p t)"
    using assms(2) r by (simp add: train_both_def sat_at_bump gshare_idx_ok trained_def Let_def)
  have "bp_ok (b\<lparr>bp_table := bump (bp_table b) (bimodal_idx b p) t,
      bp_gtable := bump (bp_gtable b) (gidx b p) t\<rparr>)"
    by (rule bp_ok_tables(2) [OF ok1 bump_le3]) (use assms(2) r in simp_all)
  then show "bp_ok (trained b p t)" by (simp add: trained_def)
qed

definition choose3 :: "bpredictor \<Rightarrow> u32 \<Rightarrow> bool \<Rightarrow> u8 list" where
  "choose3 b p t = (let base = bimodal_idx b p * 3 in
     bump (bump (bump (bp_chooser b) base (\<not> t))
       (base + 1) ((2 \<le> bp_table b ! unat (bimodal_idx b p)) = t))
       (base + 2) ((2 \<le> bp_gtable b ! unat (gidx b p)) = t))"

definition updated :: "bpredictor \<Rightarrow> u32 \<Rightarrow> bool \<Rightarrow> bpredictor" where
  "updated b p t = (case bp_kind_of b of
     BP_NONE \<Rightarrow> b
   | BP_STATIC_NT \<Rightarrow> b
   | BP_BIMODAL1 \<Rightarrow> b\<lparr>bp_table := (bp_table b)[unat (bimodal_idx b p) := (if t then 1 else 0)]\<rparr>
   | BP_BIMODAL2 \<Rightarrow> b\<lparr>bp_table := bump (bp_table b) (bimodal_idx b p) t\<rparr>
   | BP_GSHARE \<Rightarrow> push_hist t (b\<lparr>bp_table := bump (bp_table b) (gidx b p) t\<rparr>)
   | BP_TOURNAMENT \<Rightarrow>
       (let gc = ((2 \<le> bp_gtable b ! unat (gidx b p)) = t);
            bc = ((2 \<le> bp_table b ! unat (bimodal_idx b p)) = t);
            b = (if bc \<noteq> gc then b\<lparr>bp_chooser := bump (bp_chooser b) (hist_of b AND bp_mask b) gc\<rparr> else b)
        in trained b p t)
   | BP_TOURNAMENT3 \<Rightarrow> trained (b\<lparr>bp_chooser := choose3 b p t\<rparr>) p t)"

lemma bp_update_eq:
  assumes ok: "bp_ok b" shows "bp_update b p t = Inr (updated b p t) \<and> bp_ok (updated b p t)"
proof -
  note r = index_ranges [OF ok] and c = bp_ok_counters [OF ok]
  show ?thesis
  proof (cases "bp_kind_of b")
    case BP_BIMODAL1
    have "bp_ok (b\<lparr>bp_table := (bp_table b)[unat (bimodal_idx b p) := (if t then 1 else 0)]\<rparr>)"
    proof (rule bp_ok_tables(1) [OF ok])
      show "\<forall>c \<in> set ((bp_table b)[unat (bimodal_idx b p) := (if t then 1 else 0)]). c \<le> 3"
        using counters_update [OF c(1), of "if t then 1 else 0"] by (auto split: if_splits)
    qed simp
    with BP_BIMODAL1 r show ?thesis by (simp add: bp_update_def updated_def tab_put_Inr)
  next
    case BP_BIMODAL2
    have "bp_ok (b\<lparr>bp_table := bump (bp_table b) (bimodal_idx b p) t\<rparr>)"
      using ok c r by (intro bp_ok_tables bump_le3) simp_all
    with BP_BIMODAL2 r show ?thesis by (simp add: bp_update_def updated_def sat_at_bump)
  next
    case BP_GSHARE
    have "bp_ok (b\<lparr>bp_table := bump (bp_table b) (gidx b p) t\<rparr>)"
      using ok c r by (intro bp_ok_tables bump_le3) simp_all
    with BP_GSHARE r ok show ?thesis by (simp add: bp_update_def updated_def sat_at_bump gshare_idx_ok)
  next
    case k: BP_TOURNAMENT
    have ok1: "bp_ok (b\<lparr>bp_chooser := bump (bp_chooser b) (hist_of b AND bp_mask b) g\<rparr>)" for g
      using ok c r k by (intro bp_ok_tables bump_le3) simp_all
    show ?thesis
      using k r ok ok1 trained_ok [OF ok] trained_ok [OF ok1]
      by (auto simp: bp_update_def updated_def bimodal_pred_ok gshare_pred_ok ghist_val_ok sat_at_bump Let_def)
  next
    case k: BP_TOURNAMENT3
    define base where "base = bimodal_idx b p * 3"
    define c1 where "c1 = bump (bp_chooser b) base (\<not> t)"
    define c2 where "c2 = bump c1 (base + 1) ((2 \<le> bp_table b ! unat (bimodal_idx b p)) = t)"
    define c3 where "c3 = bump c2 (base + 2) ((2 \<le> bp_gtable b ! unat (gidx b p)) = t)"
    have i: "unat base < length (bp_chooser b)" "unat (base + 1) < length (bp_chooser b)"
      "unat (base + 2) < length (bp_chooser b)"
      using r(5) [OF k, of 0 p] r(5) [OF k, of 1 p] r(5) [OF k, of 2 p] by (simp_all add: base_def)
    have l: "length c1 = length (bp_chooser b)" "length c2 = length (bp_chooser b)"
      "length c3 = length (bp_chooser b)" by (simp_all add: c1_def c2_def c3_def)
    have s1: "sat_at (bp_chooser b) base (False = t) = Inr c1"
      using sat_at_bump [OF i(1)] by (simp add: c1_def)
    have s2: "sat_at c1 (base + 1) ((2 \<le> bp_table b ! unat (bimodal_idx b p)) = t) = Inr c2"
      unfolding c2_def by (rule sat_at_bump) (simp add: l i)
    have s3: "sat_at c2 (base + 2) ((2 \<le> bp_gtable b ! unat (gidx b p)) = t) = Inr c3"
      unfolding c3_def by (rule sat_at_bump) (simp add: l i)
    have cc: "\<forall>c \<in> set c1. c \<le> 3" unfolding c1_def by (rule bump_le3 [OF i(1) c(3)])
    have i2: "unat (base + 1) < length c1" "unat (base + 2) < length c2" using i l by simp_all
    have cc2: "\<forall>c \<in> set c2. c \<le> 3" unfolding c2_def by (rule bump_le3 [OF i2(1) cc])
    have cc3: "\<forall>c \<in> set c3. c \<le> 3" unfolding c3_def by (rule bump_le3 [OF i2(2) cc2])
    from bp_ok_tables(3) [OF ok cc l(1)] bp_ok_tables(3) [OF ok cc2 l(2)] bp_ok_tables(3) [OF ok cc3 l(3)]
    have oks: "bp_ok (b\<lparr>bp_chooser := c1\<rparr>)" "bp_ok (b\<lparr>bp_chooser := c2\<rparr>)" "bp_ok (b\<lparr>bp_chooser := c3\<rparr>)"
      by simp_all
    have ch: "choose3 b p t = c3"
      by (simp only: choose3_def Let_def c1_def c2_def c3_def base_def)
    have tr: "train_both (b\<lparr>bp_chooser := c3\<rparr>) p t = Inr (trained (b\<lparr>bp_chooser := c3\<rparr>) p t)"
      "bp_ok (trained (b\<lparr>bp_chooser := c3\<rparr>) p t)"
      using trained_ok [OF oks(3)] k by simp_all
    have pr: "bimodal_pred (b\<lparr>bp_chooser := c1\<rparr>) p = Inr (2 \<le> bp_table b ! unat (bimodal_idx b p))"
      "gshare_pred (b\<lparr>bp_chooser := c2\<rparr>) p = Inr (2 \<le> bp_gtable b ! unat (gidx b p))"
      using bimodal_pred_ok [OF oks(1), of p] gshare_pred_ok [OF oks(2), of p] k by simp_all
    have "bp_update b p t = Inr (trained (b\<lparr>bp_chooser := c3\<rparr>) p t)"
      unfolding bp_update_def Let_def base_def [symmetric]
      by (simp only: k bp_kind.case s1 s2 s3 pr tr res_bind_simps)
        (simp add: pr tr s2 s3)
    then show ?thesis using tr(2) by (simp add: updated_def k ch)
  qed (use ok in \<open>simp_all add: bp_update_def updated_def\<close>)
qed

lemma bp_predict_returns: "bp_ok b \<Longrightarrow> \<exists>t. bp_predict b p = Inr t"
proof (cases "bp_kind_of b")
  case k: BP_TOURNAMENT3
  assume ok: "bp_ok b"
  note r = index_ranges(5) [OF ok k, of 0 p] index_ranges(5) [OF ok k, of 1 p] index_ranges(5) [OF ok k, of 2 p]
  show ?thesis
    using k ok r by (auto simp: bp_predict_def Let_def tab_at_Inr gshare_pred_ok bimodal_pred_ok)
next
  case k: BP_TOURNAMENT
  assume ok: "bp_ok b"
  show ?thesis
    using k ok index_ranges(4) [OF ok k, of "hist_of b"]
    by (simp add: bp_predict_def tournament_use_gshare_def ghist_val_ok tab_at_Inr gshare_pred_ok bimodal_pred_ok)
qed (auto simp: bp_predict_def tab_at_Inr index_ranges gshare_idx_ok)

interpretation dirs: direction_predictor bp_predict bp_update bp_ok
  using bp_predict_returns bp_update_eq by unfold_locales blast+

lemma btb_update_Inr:
  assumes "bp_ok b"
  shows "btb_update b p t = Inr (b\<lparr>btb_valid := (btb_valid b)[unat (btb_idx b p) := True],
    btb_tag := (btb_tag b)[unat (btb_idx b p) := p], btb_target := (btb_target b)[unat (btb_idx b p) := t]\<rparr>)"
  using idx_less(4) [OF assms, of p] assms by (simp add: btb_update_def tab_put_def bp_ok_def Let_def)

lemma btb_lookup_Inr:
  assumes "bp_ok b"
  shows "btb_lookup b p = Inr (if btb_valid b ! unat (btb_idx b p) \<and> btb_tag b ! unat (btb_idx b p) = p
    then Some (btb_target b ! unat (btb_idx b p)) else None)"
  using idx_less(4) [OF assms, of p] assms by (simp add: btb_lookup_def tab_at_def bp_ok_def Let_def)

lemma btb_update_ok: "bp_ok b \<Longrightarrow> btb_update b p t = Inr b' \<Longrightarrow> bp_ok b'"
  by (auto simp: btb_update_Inr) (simp add: bp_ok_def Let_def)

interpretation btb: target_buffer btb_lookup btb_update bp_ok
proof unfold_locales
  fix b b' p q t
  assume ok: "bp_ok b"
  show "\<exists>u. btb_lookup b p = Inr u" using ok by (simp add: btb_lookup_Inr)
  show "\<exists>b'. btb_update b p t = Inr b' \<and> bp_ok b'"
    using btb_update_Inr [OF ok] btb_update_ok [OF ok] by blast
  assume u: "btb_update b p t = Inr b'"
  have ok': "bp_ok b'" by (rule btb_update_ok [OF ok u])
  have i: "btb_idx b' x = btb_idx b x" for x using u by (auto simp: btb_update_Inr [OF ok] btb_idx_def)
  have l: "unat (btb_idx b x) < length (btb_valid b)" "unat (btb_idx b x) < length (btb_tag b)"
    "unat (btb_idx b x) < length (btb_target b)" for x
    using idx_less(4) [OF ok, of x] ok by (simp_all add: bp_ok_def Let_def)
  show "btb_lookup b' p = Inr (Some t)"
    using u l by (auto simp: btb_lookup_Inr [OF ok'] btb_update_Inr [OF ok] i)
  show "q \<noteq> p \<Longrightarrow> btb_lookup b' q = btb_lookup b q \<or> btb_lookup b' q = Inr None"
    using u l by (cases "unat (btb_idx b p) = unat (btb_idx b q)")
      (auto simp: btb_lookup_Inr [OF ok'] btb_lookup_Inr [OF ok] btb_update_Inr [OF ok] i)
qed

subsection \<open>Every dynamic predictor learns a constant branch\<close>

text \<open>A counter after \<open>m\<close> updates in the same direction.\<close>

definition near :: "bool \<Rightarrow> nat \<Rightarrow> u8 \<Rightarrow> bool" where
  "near t m c = (if t then min 2 m \<le> unat c else unat c + min 2 m \<le> 3)"

lemma near_sat: "near t m c \<Longrightarrow> c \<le> 3 \<Longrightarrow> near t (Suc m) (sat_update c t)"
  by (auto simp: u8_le3 near_def sat_update_def)

lemma near_0: "c \<le> 3 \<Longrightarrow> near t 0 c"
  by (auto simp: u8_le3 near_def)

lemma near_pred: "near t m c \<Longrightarrow> 2 \<le> m \<Longrightarrow> (2 \<le> c) = t"
  by (auto simp: near_def word_le_nat_alt split: if_splits)

text \<open>The gshare index once the history is full of one direction.\<close>

definition full_idx :: "bpredictor \<Rightarrow> u32 \<Rightarrow> bool \<Rightarrow> u32" where
  "full_idx b p t = (pc_index p XOR (if t then mask (nat (bp_ghist_bits b)) else 0)) AND bp_mask b"

definition hist_full :: "nat \<Rightarrow> bool \<Rightarrow> bpredictor \<Rightarrow> bool" where
  "hist_full k t b = (\<forall>m < k. m < 32 \<longrightarrow> bit (bp_ghist b) m = t)"

lemma hist_full_push: "hist_full k t b \<Longrightarrow> hist_full (Suc k) t (push_hist t b)"
proof -
  assume h: "hist_full k t b"
  have "bit (push_bit 1 (bp_ghist b) OR (if t then 1 else 0)) m = (if m = 0 then t else bit (bp_ghist b) (m - 1))"
    if "m < 32" for m
    using that unfolding bit_or_iff bit_push_bit_iff by (cases m) (auto simp: bit_1_iff)
  with h show ?thesis by (auto simp: hist_full_def push_hist_def less_Suc_eq_0_disj simp del: push_bit_Suc)
qed

lemma hist_full_idx:
  assumes "bp_ok b" "hist_full k t b" "nat (bp_ghist_bits b) \<le> k" shows "gidx b p = full_idx b p t"
proof -
  have "hist_of b = (if t then mask (nat (bp_ghist_bits b)) else 0)"
    unfolding hist_of_def by (rule bit_word_eqI) (use assms in \<open>auto simp: hist_full_def bit_simps\<close>)
  then show ?thesis by (simp add: gidx_def full_idx_def)
qed

definition learned :: "nat \<Rightarrow> bpredictor \<Rightarrow> u32 \<Rightarrow> bool \<Rightarrow> bool" where
  "learned k b p t = (let kind = bp_kind_of b; i = unat (bimodal_idx b p); g = nat (bp_ghist_bits b);
       j = unat (full_idx b p t) in
     bp_ok b \<and> (kind = BP_BIMODAL1 \<and> 0 < k \<longrightarrow> bp_table b ! i = (if t then 1 else 0)) \<and>
     (kind \<in> {BP_BIMODAL2, BP_TOURNAMENT, BP_TOURNAMENT3} \<longrightarrow> near t k (bp_table b ! i)) \<and>
     (kind \<in> {BP_GSHARE, BP_TOURNAMENT, BP_TOURNAMENT3} \<longrightarrow> hist_full k t b) \<and>
     (kind = BP_GSHARE \<longrightarrow> near t (k - g) (bp_table b ! j)) \<and>
     (kind \<in> {BP_TOURNAMENT, BP_TOURNAMENT3} \<longrightarrow> near t (k - g) (bp_gtable b ! j)) \<and>
     (kind = BP_TOURNAMENT3 \<and> t \<longrightarrow> unat (bp_chooser b ! unat (bimodal_idx b p * 3)) + min 3 k \<le> 3))"

text \<open>One more update at the index that counts, or at another one while the history fills.\<close>

lemma near_bump_gidx:
  assumes ok: "bp_ok b" and h: "hist_full k t b" and n: "near t (k - nat (bp_ghist_bits b)) (xs ! unat (full_idx b p t))"
    and l: "unat (full_idx b p t) < length xs" "unat (gidx b p) < length xs" and c: "\<forall>c \<in> set xs. c \<le> 3"
  shows "near t (Suc k - nat (bp_ghist_bits b)) (bump xs (gidx b p) t ! unat (full_idx b p t))"
proof (cases "nat (bp_ghist_bits b) \<le> k")
  case True
  then have "gidx b p = full_idx b p t" by (rule hist_full_idx [OF ok h])
  with True n c l(1) show ?thesis by (simp add: bump_nth Suc_diff_le near_sat)
next
  case False
  have "\<forall>c \<in> set (bump xs (gidx b p) t). c \<le> 3" by (rule bump_le3 [OF l(2) c])
  with False l(1) show ?thesis by (simp add: near_0)
qed

lemma full_idx_less: "bp_ok b \<Longrightarrow> unat (full_idx b p t) < 2 ^ nat (bp_idx_bits b)"
  by (simp add: full_idx_def idx_less)

lemma updated_simps [simp]:
  "bp_kind_of (updated b p t) = bp_kind_of b" "bp_ghist_bits (updated b p t) = bp_ghist_bits b"
  "bp_idx_bits (updated b p t) = bp_idx_bits b" "bp_mask (updated b p t) = bp_mask b"
  "bimodal_idx (updated b p t) q = bimodal_idx b q" "full_idx (updated b p t) q d = full_idx b q d"
  by (simp_all add: updated_def trained_def Let_def full_idx_def split: bp_kind.split)

lemma learned_step:
  assumes L: "learned k b p t" shows "learned (Suc k) (updated b p t) p t"
proof -
  have ok: "bp_ok b" using L by (simp add: learned_def Let_def)
  have ok': "bp_ok (updated b p t)" using bp_update_eq [OF ok] by blast
  note r = index_ranges [OF ok] and c = bp_ok_counters [OF ok]
  have j: "unat (full_idx b p t) < length (bp_table b)"
    using full_idx_less [OF ok] ok by (simp add: bp_ok_def Let_def)
  have ci: "bp_table b ! unat (bimodal_idx b p) \<le> 3" using c(1) r(1) by simp
  show ?thesis
  proof (cases "bp_kind_of b")
    case BP_BIMODAL1
    with ok' r(1) show ?thesis by (simp add: learned_def Let_def) (simp add: updated_def)
  next
    case BP_BIMODAL2
    with L ok' r(1) ci show ?thesis
      by (simp add: learned_def Let_def) (simp add: updated_def bump_nth near_sat)
  next
    case k: BP_GSHARE
    have "updated b p t = push_hist t (b\<lparr>bp_table := bump (bp_table b) (gidx b p) t\<rparr>)"
      using k by (simp add: updated_def)
    then have "hist_full (Suc k) t (updated b p t)"
      by (simp only:) (rule hist_full_push, use L k in \<open>simp add: learned_def Let_def hist_full_def\<close>)
    moreover have "near t (Suc k - nat (bp_ghist_bits b)) (bp_table (updated b p t) ! unat (full_idx b p t))"
      using near_bump_gidx [OF ok _ _ j r(2) c(1)] L k by (simp add: learned_def Let_def updated_def)
    ultimately show ?thesis using k ok' by (simp add: learned_def Let_def)
  next
    case k: BP_TOURNAMENT
    have jg: "unat (full_idx b p t) < length (bp_gtable b)"
      using full_idx_less [OF ok] ok k by (simp add: bp_ok_def Let_def)
    obtain ch where u: "updated b p t = trained (b\<lparr>bp_chooser := ch\<rparr>) p t"
    proof -
      define gc where "gc = ((2 \<le> bp_gtable b ! unat (gidx b p)) = t)"
      define bc where "bc = ((2 \<le> bp_table b ! unat (bimodal_idx b p)) = t)"
      have "updated b p t = trained (if bc \<noteq> gc
          then b\<lparr>bp_chooser := bump (bp_chooser b) (hist_of b AND bp_mask b) gc\<rparr> else b) p t"
        unfolding updated_def k bp_kind.case Let_def gc_def bc_def ..
      also have "(if bc \<noteq> gc then b\<lparr>bp_chooser := bump (bp_chooser b) (hist_of b AND bp_mask b) gc\<rparr> else b)
          = b\<lparr>bp_chooser := (if bc \<noteq> gc then bump (bp_chooser b) (hist_of b AND bp_mask b) gc else bp_chooser b)\<rparr>"
        by simp
      finally show ?thesis by (rule that)
    qed
    have "hist_full (Suc k) t (updated b p t)"
      unfolding u trained_def by (rule hist_full_push) (use L k in \<open>simp add: learned_def Let_def hist_full_def\<close>)
    moreover have "near t (Suc k - nat (bp_ghist_bits b)) (bp_gtable (updated b p t) ! unat (full_idx b p t))"
      using near_bump_gidx [OF ok _ _ jg _ c(2)] r(3) L k by (simp add: learned_def Let_def u trained_def)
    moreover have "near t (Suc k) (bp_table (updated b p t) ! unat (bimodal_idx b p))"
      using L k r(1) ci by (simp add: learned_def Let_def u trained_def bump_nth near_sat)
    ultimately show ?thesis using k ok' by (simp add: learned_def Let_def)
  next
    case k: BP_TOURNAMENT3
    have jg: "unat (full_idx b p t) < length (bp_gtable b)"
      using full_idx_less [OF ok] ok k by (simp add: bp_ok_def Let_def)
    have u: "updated b p t = trained (b\<lparr>bp_chooser := choose3 b p t\<rparr>) p t" using k by (simp add: updated_def)
    have "hist_full (Suc k) t (updated b p t)"
      unfolding u trained_def by (rule hist_full_push) (use L k in \<open>simp add: learned_def Let_def hist_full_def\<close>)
    moreover have "near t (Suc k - nat (bp_ghist_bits b)) (bp_gtable (updated b p t) ! unat (full_idx b p t))"
      using near_bump_gidx [OF ok _ _ jg _ c(2)] r(3) L k by (simp add: learned_def Let_def u trained_def)
    moreover have "near t (Suc k) (bp_table (updated b p t) ! unat (bimodal_idx b p))"
      using L k r(1) ci by (simp add: learned_def Let_def u trained_def bump_nth near_sat)
    moreover have "t \<longrightarrow> unat (bp_chooser (updated b p t) ! unat (bimodal_idx b p * 3)) + min 3 (Suc k) \<le> 3"
    proof
      assume t: t
      let ?base = "bimodal_idx b p * 3"
      have n: "unat (?base + 1) = unat (bimodal_idx b p) * 3 + 1" "unat (?base + 2) = unat (bimodal_idx b p) * 3 + 2"
        "unat ?base = unat (bimodal_idx b p) * 3"
        using chooser_idx(1) [OF ok, of 0 p] chooser_idx(1) [OF ok, of 1 p] chooser_idx(1) [OF ok, of 2 p] by simp_all
      have i: "unat ?base < length (bp_chooser b)" "unat (?base + 1) < length (bp_chooser b)"
        "unat (?base + 2) < length (bp_chooser b)"
        using r(5) [OF k, of 0 p] r(5) [OF k, of 1 p] r(5) [OF k, of 2 p] by simp_all
      have "choose3 b p t ! unat ?base = sat_update (bp_chooser b ! unat ?base) False"
        using t i by (simp add: choose3_def Let_def bump_nth) (simp add: n)
      moreover have "unat (bp_chooser b ! unat ?base) + min 3 k \<le> 3"
        using L k t by (simp add: learned_def Let_def)
      moreover have "bp_chooser b ! unat ?base \<le> 3" using c(3) i(1) by simp
      ultimately show "unat (bp_chooser (updated b p t) ! unat ?base) + min 3 (Suc k) \<le> 3"
        by (auto simp: u trained_def u8_le3 sat_update_def)
    qed
    ultimately show ?thesis using k ok' by (simp add: learned_def Let_def)
  qed (use ok' in \<open>simp_all add: learned_def Let_def\<close>)
qed

lemma learned_start:
  assumes ok: "bp_ok b" shows "learned 0 b p t"
proof -
  note r = index_ranges [OF ok] and c = bp_ok_counters [OF ok]
  have j: "unat (full_idx b p t) < length (bp_table b)"
    "bp_kind_of b \<in> {BP_TOURNAMENT, BP_TOURNAMENT3} \<Longrightarrow> unat (full_idx b p t) < length (bp_gtable b)"
    using full_idx_less [OF ok] ok by (auto simp: bp_ok_def Let_def)
  have "bp_kind_of b = BP_TOURNAMENT3 \<Longrightarrow> unat (bp_chooser b ! unat (bimodal_idx b p * 3)) \<le> 3"
    using c(3) r(5) [of 0 p] by (simp add: word_le_nat_alt)
  with j r c ok show ?thesis
    by (simp add: learned_def Let_def near_0 hist_full_def)
qed

lemma learned_run: "learned k b p t \<Longrightarrow> \<exists>b'. res_fold (\<lambda>(p, t) b. bp_update b p t) (replicate n (p, t)) b = Inr b' \<and> learned (k + n) b' p t
    \<and> bp_kind_of b' = bp_kind_of b \<and> bp_ghist_bits b' = bp_ghist_bits b"
proof (induction n arbitrary: k b)
  case (Suc n)
  have ok: "bp_ok b" using Suc.prems by (simp add: learned_def Let_def)
  from Suc.IH [OF learned_step [OF Suc.prems]] bp_update_eq [OF ok, of p t] show ?case by auto
qed simp

lemma learned_predicts:
  assumes L: "learned n b p t" and n: "nat (bp_ghist_bits b) + 3 \<le> n"
    and dyn: "bp_kind_of b \<noteq> BP_NONE" "bp_kind_of b \<noteq> BP_STATIC_NT"
  shows "bp_predict b p = Inr t"
proof -
  have ok: "bp_ok b" using L by (simp add: learned_def Let_def)
  note r = index_ranges [OF ok]
  have g: "gidx b p = full_idx b p t" if "bp_kind_of b \<in> {BP_GSHARE, BP_TOURNAMENT, BP_TOURNAMENT3}"
  proof (rule hist_full_idx [OF ok])
    show "hist_full n t b" using L that unfolding learned_def Let_def by blast
  qed (use n in simp)
  have two: "2 \<le> n" "2 \<le> n - nat (bp_ghist_bits b)" using n by simp_all
  have bim: "(2 \<le> bp_table b ! unat (bimodal_idx b p)) = t"
    if "bp_kind_of b \<in> {BP_BIMODAL2, BP_TOURNAMENT, BP_TOURNAMENT3}"
    by (rule near_pred [OF _ two(1)]) (use L that in \<open>unfold learned_def Let_def, blast\<close>)
  have gsh: "(2 \<le> bp_gtable b ! unat (full_idx b p t)) = t"
    if "bp_kind_of b \<in> {BP_TOURNAMENT, BP_TOURNAMENT3}"
    by (rule near_pred [OF _ two(2)]) (use L that in \<open>unfold learned_def Let_def, blast\<close>)
  have gsh1: "(2 \<le> bp_table b ! unat (full_idx b p t)) = t" if "bp_kind_of b = BP_GSHARE"
    by (rule near_pred [OF _ two(2)]) (use L that in \<open>unfold learned_def Let_def, blast\<close>)
  show ?thesis
  proof (cases "bp_kind_of b")
    case k: BP_BIMODAL1
    have "bp_table b ! unat (bimodal_idx b p) = (if t then 1 else 0)"
      using L k two(1) unfolding learned_def Let_def by simp
    with k r(1) show ?thesis by (simp add: bp_predict_def tab_at_Inr)
  next
    case BP_BIMODAL2
    with r(1) bim show ?thesis by (simp add: bp_predict_def tab_at_Inr)
  next
    case k: BP_GSHARE
    have "unat (full_idx b p t) < length (bp_table b)" using r(2) [of p] g k by simp
    with k gsh1 g show ?thesis
      by (simp add: bp_predict_def gshare_idx_ok [OF ok] tab_at_Inr)
  next
    case k: BP_TOURNAMENT
    with bim gsh g ok r(4) [OF k, of "hist_of b"] show ?thesis
      by (simp add: bp_predict_def tournament_use_gshare_def ghist_val_ok tab_at_Inr gshare_pred_ok
          bimodal_pred_ok)
  next
    case k: BP_TOURNAMENT3
    have both: "gshare_pred b p = Inr t" "bimodal_pred b p = Inr t"
      using k bim gsh g ok by (simp_all add: gshare_pred_ok bimodal_pred_ok)
    have z: "bp_chooser b ! unat (bimodal_idx b p * 3) = 0" if t
    proof -
      have "unat (bp_chooser b ! unat (bimodal_idx b p * 3)) + min 3 n \<le> 3"
        using L k that unfolding learned_def Let_def by blast
      with n show ?thesis by (simp add: word_unat_eq_iff)
    qed
    show ?thesis
      using both z k r(5) [OF k, of 0 p] r(5) [OF k, of 1 p] r(5) [OF k, of 2 p]
      by (cases t) (simp_all add: bp_predict_def Let_def tab_at_Inr)
  qed (use dyn in simp_all)
qed

text \<open>C30: A predictor made by \<open>bp_init\<close> with at most 30 index bits and fewer than 32 history bits never
  leaves its tables and never shifts out of range: every update of every history and every
  prediction returns.\<close>

theorem predictor_total:
  assumes "bp_init kind i g = Inr b" "i \<le> 30" "0 \<le> g" "g < 32"
  shows "\<exists>b' taken. res_fold (\<lambda>(p, t) b. bp_update b p t) hist b = Inr b' \<and> bp_predict b' q = Inr taken"
proof -
  have "bp_ok b" using assms by (rule bp_init_ok)
  then obtain b' where "res_fold (\<lambda>(p, t) b. bp_update b p t) hist b = Inr b'" "bp_ok b'"
    using dirs.run_returns by blast
  with dirs.predict_returns show ?thesis by blast
qed

lemma bp_init_Inr: "0 \<le> i \<Longrightarrow> i < 32 \<Longrightarrow> \<exists>b. bp_init kind i g = Inr b \<and> bp_kind_of b = kind \<and> bp_ghist_bits b = g"
  by (simp add: bp_init_def mask_word Let_def)

theorem predictor_total_witness:
  "\<exists>b b' taken. bp_init BP_TOURNAMENT3 10 8 = Inr b \<and>
     res_fold (\<lambda>(p, t) b. bp_update b p t) [(4, True), (0xFFFFFFFC, False)] b = Inr b' \<and>
     bp_predict b' 4 = Inr taken"
proof -
  obtain b where "bp_init BP_TOURNAMENT3 10 8 = Inr b" using bp_init_Inr [of 10 BP_TOURNAMENT3 8] by auto
  with predictor_total [OF this, of "[(4, True), (0xFFFFFFFC, False)]" 4] show ?thesis by auto
qed

text \<open>C31: Whatever was learned before, a branch that goes the same way three times more than the
  history is long is then predicted that way by every dynamic predictor.\<close>

theorem predictor_learns:
  assumes "bp_init kind i g = Inr b0" "i \<le> 30" "0 \<le> g" "g < 32" "kind \<notin> {BP_NONE, BP_STATIC_NT}"
    and "nat g + 3 \<le> n"
  shows "\<exists>b. res_fold (\<lambda>(p, t) b. bp_update b p t) (hist @ replicate n (p, t)) b0 = Inr b \<and>
    bp_predict b p = Inr t"
proof -
  have same: "res_fold (\<lambda>(p, t) b. bp_update b p t) bs b = Inr b' \<Longrightarrow> bp_ok b \<Longrightarrow>
      bp_kind_of b' = bp_kind_of b \<and> bp_ghist_bits b' = bp_ghist_bits b" for bs b b'
  proof (induction bs arbitrary: b)
    case (Cons x bs)
    then show ?case using bp_update_eq [OF Cons.prems(2), of "fst x" "snd x"] by (cases x) fastforce
  qed simp
  have ok: "bp_ok b0" by (rule bp_init_ok [OF assms(1-4)])
  obtain b1 where b1: "res_fold (\<lambda>(p, t) b. bp_update b p t) hist b0 = Inr b1" "bp_ok b1"
    using dirs.run_returns [OF ok] by blast
  obtain b where b: "res_fold (\<lambda>(p, t) b. bp_update b p t) (replicate n (p, t)) b1 = Inr b"
    "learned n b p t" "bp_kind_of b = bp_kind_of b1" "bp_ghist_bits b = bp_ghist_bits b1"
    using learned_run [OF learned_start [OF b1(2)], of n p t] by auto
  have "bp_kind_of b0 = kind" "bp_ghist_bits b0 = g"
    using assms(1) by (auto simp: bp_init_def Let_def res_bind_Inr_iff)
  with same [OF b1(1) ok] b assms(5,6) have "bp_predict b p = Inr t"
    by (intro learned_predicts [OF b(2)]) auto
  with b b1 show ?thesis by simp
qed

theorem predictor_learns_witness:
  "\<exists>b0 b. bp_init BP_GSHARE 10 2 = Inr b0 \<and>
     res_fold (\<lambda>(p, t) b. bp_update b p t) ([(8, True), (4, True)] @ replicate 5 (4, False)) b0 = Inr b \<and>
     bp_predict b 4 = Inr False"
proof -
  obtain b0 where "bp_init BP_GSHARE 10 2 = Inr b0" using bp_init_Inr [of 10 BP_GSHARE 2] by auto
  with predictor_learns [OF this, of 5 "[(8, True), (4, True)]" 4 False] show ?thesis by auto
qed

text \<open>C32: The branch target buffer is never stale: after any updates of an empty buffer, a hit gives the
  target of the last update of that address.\<close>

theorem btb_latest:
  assumes "bp_init kind i g = Inr b" "i \<le> 30" "0 \<le> g" "g < 32"
  shows "\<exists>b'. res_fold (\<lambda>(p, t) b. btb_update b p t) us b = Inr b' \<and>
    (\<forall>q t. btb_lookup b' q = Inr (Some t) \<longrightarrow> map_of (rev us) q = Some t) \<and>
    (us \<noteq> [] \<longrightarrow> btb_lookup b' (fst (last us)) = Inr (Some (snd (last us))))"
proof -
  have ok: "bp_ok b" by (rule bp_init_ok [OF assms])
  have "btb_valid b = replicate (2 ^ nat i) False" "bp_idx_bits b = i"
    using assms(1) by (auto simp: bp_init_def Let_def res_bind_Inr_iff)
  then have empty: "btb_lookup b q = Inr None" for q
    using idx_less(4) [OF ok, of q] by (simp add: btb_lookup_Inr [OF ok])
  obtain b' where b': "res_fold (\<lambda>(p, t) b. btb_update b p t) us b = Inr b'"
    "\<forall>q t. btb_lookup b' q = Inr (Some t) \<longrightarrow> map_of (rev us) q = Some t"
    using btb.hit_is_latest [OF ok empty, of us] by blast
  have "btb_lookup b' (fst (last us)) = Inr (Some (snd (last us)))" if ne: "us \<noteq> []"
  proof -
    obtain vs p t where us: "us = vs @ [(p, t)]" using ne by (metis append_butlast_last_id prod.exhaust)
    obtain b1 where "res_fold (\<lambda>(p, t) b. btb_update b p t) vs b = Inr b1" "bp_ok b1"
      using btb.hit_is_latest [OF ok empty, of vs] by blast
    with b'(1) btb.lookup_same [of b1 p t b'] show ?thesis by (simp add: us res_bind_Inr_iff)
  qed
  with b' show ?thesis by blast
qed

theorem btb_latest_witness:
  "\<exists>b b'. bp_init BP_BIMODAL2 4 8 = Inr b \<and>
     res_fold (\<lambda>(p, t) b. btb_update b p t) [(4, 100), (68, 200)] b = Inr b' \<and> btb_lookup b' 68 = Inr (Some 200)"
proof -
  obtain b where "bp_init BP_BIMODAL2 4 8 = Inr b" using bp_init_Inr [of 4 BP_BIMODAL2 8] by auto
  with btb_latest [OF this, of "[(4, 100), (68, 200)]"] show ?thesis by auto
qed

end
