(* ===== verification/Cache.thy ===== *)
theory Cache
  imports Prelude
begin

text \<open>
  The set-associative cache of the timing simulator (\<open>include/cache.h\<close>, \<open>src/cache.c\<close>) with
  LRU, FIFO and random replacement. The interface \<open>block_store\<close> says what any cache
  promises (an accessed block is there, nothing appears that was not accessed); the LRU
  policy is shown to refine a stack of tags per set, from which the hits of a whole trace
  and the inclusion of smaller in larger caches follow.

  C ints of the configuration are natural numbers: negative sizes have no meaning in the
  code, and values above the range of \<open>int\<close> cannot be given. \<open>rand()\<close> is a parameter: the
  value it would return in this access.
\<close>

subsection \<open>State\<close>

datatype repl_policy = REPL_LRU | REPL_FIFO | REPL_RANDOM

record cache_config =
  cc_enabled :: bool
  cc_size :: nat
  cc_block :: nat
  cc_assoc :: nat
  cc_repl :: repl_policy
  cc_hit_latency :: int
  cc_miss_penalty :: int

record cache =
  c_cfg :: cache_config
  c_nsets :: nat
  c_valid :: "bool list"
  c_tag :: "u32 list"
  c_order :: "u64 list"
  c_clock :: u64
  c_accesses :: u64
  c_misses :: u64

text \<open>The quotient in \<open>cache_init\<close> is undefined when a block or a set has size zero.\<close>

definition cache_init :: "cache_config \<Rightarrow> cache res" where
  "cache_init cfg =
     (if cc_block cfg * cc_assoc cfg = 0 then Inl BadDiv
      else let nsets = cc_size cfg div (cc_block cfg * cc_assoc cfg);
               lines = nsets * cc_assoc cfg
           in Inr \<lparr>c_cfg = cfg, c_nsets = nsets, c_valid = replicate lines False,
                c_tag = replicate lines 0, c_order = replicate lines 0, c_clock = 0,
                c_accesses = 0, c_misses = 0\<rparr>)"

subsection \<open>Accesses\<close>

text \<open>The loop that keeps the first way with the smallest order value.\<close>

definition oldest_way :: "cache \<Rightarrow> nat \<Rightarrow> nat" where
  "oldest_way c base =
     fst (foldl (\<lambda>(victim, best) w.
            if c_order c ! (base + w) < best then (w, c_order c ! (base + w)) else (victim, best))
          (0, c_order c ! base) [1..<cc_assoc (c_cfg c)])"

definition pick_victim :: "nat \<Rightarrow> cache \<Rightarrow> nat \<Rightarrow> nat" where
  "pick_victim rnd c base =
     (case find (\<lambda>w. \<not> c_valid c ! (base + w)) [0..<cc_assoc (c_cfg c)] of
        Some w \<Rightarrow> w
      | None \<Rightarrow> if cc_repl (c_cfg c) = REPL_RANDOM then rnd mod cc_assoc (c_cfg c)
                else oldest_way c base)"

text \<open>Set number and tag of an address.\<close>

definition cache_set :: "cache \<Rightarrow> u32 \<Rightarrow> nat" where
  "cache_set c addr = unat addr div cc_block (c_cfg c) mod c_nsets c"

definition cache_tag :: "cache \<Rightarrow> u32 \<Rightarrow> u32" where
  "cache_tag c addr = of_nat (unat addr div cc_block (c_cfg c) div c_nsets c)"

definition find_way :: "cache \<Rightarrow> nat \<Rightarrow> u32 \<Rightarrow> nat option" where
  "find_way c base t =
     find (\<lambda>w. c_valid c ! (base + w) \<and> c_tag c ! (base + w) = t) [0..<cc_assoc (c_cfg c)]"

definition cache_access :: "nat \<Rightarrow> cache \<Rightarrow> u32 \<Rightarrow> (bool \<times> cache) res" where
  "cache_access rnd c addr =
     (let c = c\<lparr>c_accesses := c_accesses c + 1\<rparr> in
      if cc_block (c_cfg c) = 0 \<or> c_nsets c = 0 then Inl BadDiv
      else
        (let t = cache_tag c addr; base = cache_set c addr * cc_assoc (c_cfg c) in
         case find_way c base t of
           Some w \<Rightarrow>
             (let c = (if cc_repl (c_cfg c) = REPL_LRU
                       then c\<lparr>c_clock := c_clock c + 1,
                              c_order := (c_order c)[base + w := c_clock c + 1]\<rparr>
                       else c)
              in Inr (True, c))
         | None \<Rightarrow>
             (let c = c\<lparr>c_misses := c_misses c + 1\<rparr>;
                  v = pick_victim rnd c base;
                  c = c\<lparr>c_valid := (c_valid c)[base + v := True],
                        c_tag := (c_tag c)[base + v := t],
                        c_clock := c_clock c + 1,
                        c_order := (c_order c)[base + v := c_clock c + 1]\<rparr>
              in Inr (False, c))))"

subsection \<open>Lines by set and way\<close>

definition assoc_of :: "cache \<Rightarrow> nat" where
  "assoc_of c = cc_assoc (c_cfg c)"

definition line :: "cache \<Rightarrow> nat \<Rightarrow> nat \<Rightarrow> nat" where
  "line c s w = s * assoc_of c + w"

definition valid_at :: "cache \<Rightarrow> nat \<Rightarrow> nat \<Rightarrow> bool" where
  "valid_at c s w = c_valid c ! line c s w"

definition tag_at :: "cache \<Rightarrow> nat \<Rightarrow> nat \<Rightarrow> u32" where
  "tag_at c s w = c_tag c ! line c s w"

definition order_at :: "cache \<Rightarrow> nat \<Rightarrow> nat \<Rightarrow> u64" where
  "order_at c s w = c_order c ! line c s w"

text \<open>Arrays of the right size, and no tag twice in a set.\<close>

definition cache_ok :: "cache \<Rightarrow> bool" where
  "cache_ok c = (0 < cc_block (c_cfg c) \<and> 0 < assoc_of c \<and> 0 < c_nsets c \<and>
     length (c_valid c) = c_nsets c * assoc_of c \<and> length (c_tag c) = c_nsets c * assoc_of c \<and>
     length (c_order c) = c_nsets c * assoc_of c \<and>
     (\<forall>s < c_nsets c. \<forall>w < assoc_of c. \<forall>w' < assoc_of c.
        valid_at c s w \<and> valid_at c s w' \<and> tag_at c s w = tag_at c s w' \<longrightarrow> w = w'))"

lemma line_less:
  assumes "s < n" "w < a" shows "s * a + w < n * (a :: nat)"
proof -
  have "s * a + w < Suc s * a" using assms(2) by simp
  also have "\<dots> \<le> n * a" using assms(1) by (intro mult_le_mono1) simp
  finally show ?thesis .
qed

lemma line_eq:
  assumes "w < a" "w' < a" shows "s * a + w = s' * a + w' \<longleftrightarrow> s = s' \<and> w = (w' :: nat)"
proof
  assume e: "s * a + w = s' * a + w'"
  from assms have "(s * a + w) div a = s" "(s' * a + w') div a = s'"
    "(s * a + w) mod a = w" "(s' * a + w') mod a = w'" by simp_all
  with e show "s = s' \<and> w = w'" by metis
qed simp

text \<open>The states an access leads to.\<close>

definition hit_state :: "cache \<Rightarrow> nat \<Rightarrow> nat \<Rightarrow> cache" where
  "hit_state c s w =
     (if cc_repl (c_cfg c) = REPL_LRU
      then c\<lparr>c_accesses := c_accesses c + 1, c_clock := c_clock c + 1,
             c_order := (c_order c)[line c s w := c_clock c + 1]\<rparr>
      else c\<lparr>c_accesses := c_accesses c + 1\<rparr>)"

definition miss_state :: "cache \<Rightarrow> nat \<Rightarrow> nat \<Rightarrow> u32 \<Rightarrow> cache" where
  "miss_state c s v t = c\<lparr>c_accesses := c_accesses c + 1, c_misses := c_misses c + 1,
     c_valid := (c_valid c)[line c s v := True], c_tag := (c_tag c)[line c s v := t],
     c_clock := c_clock c + 1, c_order := (c_order c)[line c s v := c_clock c + 1]\<rparr>"

definition victim :: "nat \<Rightarrow> cache \<Rightarrow> nat \<Rightarrow> nat" where
  "victim rnd c s = pick_victim rnd c (line c s 0)"

lemma find_way_None:
  "find_way c (line c s 0) t = None \<longleftrightarrow> (\<forall>w < assoc_of c. \<not> (valid_at c s w \<and> tag_at c s w = t))"
  by (auto simp: find_way_def find_None_iff valid_at_def tag_at_def line_def assoc_of_def)

lemma find_way_Some:
  "find_way c (line c s 0) t = Some w \<Longrightarrow> w < assoc_of c \<and> valid_at c s w \<and> tag_at c s w = t"
  by (auto simp: find_way_def find_Some_iff valid_at_def tag_at_def line_def assoc_of_def)

lemma view_accesses [simp]:
  "cache_set (c\<lparr>c_accesses := k\<rparr>) a = cache_set c a" "cache_tag (c\<lparr>c_accesses := k\<rparr>) a = cache_tag c a"
  "find_way (c\<lparr>c_accesses := k\<rparr>) b t = find_way c b t"
  "pick_victim rnd (c\<lparr>c_accesses := k, c_misses := m\<rparr>) b = pick_victim rnd c b"
  by (simp_all add: cache_set_def cache_tag_def find_way_def pick_victim_def oldest_way_def
      split: option.split cong: if_cong)

lemma cache_access_cases:
  assumes "cache_ok c"
  shows "cache_access rnd c a =
    (case find_way c (line c (cache_set c a) 0) (cache_tag c a) of
       Some w \<Rightarrow> Inr (True, hit_state c (cache_set c a) w)
     | None \<Rightarrow> Inr (False, miss_state c (cache_set c a) (victim rnd c (cache_set c a)) (cache_tag c a)))"
proof -
  have "0 < cc_block (c_cfg c)" "0 < c_nsets c" using assms by (simp_all add: cache_ok_def)
  then show ?thesis
    by (simp add: cache_access_def Let_def hit_state_def miss_state_def victim_def line_def
        assoc_of_def split: option.split)
qed

lemma oldest_way_spec:
  assumes "0 < assoc_of c"
  shows "oldest_way c b < assoc_of c \<and> (\<forall>w < assoc_of c. c_order c ! (b + oldest_way c b) \<le> c_order c ! (b + w))"
proof -
  let ?f = "\<lambda>(victim, best) w. if c_order c ! (b + w) < best then (w, c_order c ! (b + w)) else (victim, best)"
  have "(case foldl ?f (0, c_order c ! b) [1..<Suc n] of (v, best) \<Rightarrow> v \<le> n \<and> best = c_order c ! (b + v) \<and>
      (\<forall>w \<le> n. best \<le> c_order c ! (b + w)))" for n
  proof (induction n)
    case (Suc n)
    obtain v best where r: "foldl ?f (0, c_order c ! b) [1..<Suc n] = (v, best)" by fastforce
    have "foldl ?f (0, c_order c ! b) [1..<Suc (Suc n)] = ?f (v, best) (Suc n)"
      using r by simp
    then show ?case
      using Suc unfolding r
      by (auto simp: le_Suc_eq simp del: upt_Suc)
  qed simp
  from this [of "assoc_of c - 1"] assms show ?thesis
    by (auto simp: oldest_way_def assoc_of_def simp del: upt_Suc split: prod.splits)
qed

lemma victim_less: "0 < assoc_of c \<Longrightarrow> victim rnd c s < assoc_of c"
  using oldest_way_spec [of c "line c s 0"]
  by (auto simp: victim_def pick_victim_def find_Some_iff assoc_of_def split: option.split)

lemma victim_free:
  assumes "w < assoc_of c" "\<not> valid_at c s w" shows "\<not> valid_at c s (victim rnd c s)"
proof -
  let ?f = "find (\<lambda>w. \<not> c_valid c ! (line c s 0 + w)) [0..<cc_assoc (c_cfg c)]"
  have "?f \<noteq> None"
    using assms by (auto simp: find_None_iff valid_at_def line_def assoc_of_def)
  then obtain i where i: "?f = Some i" by blast
  then have v: "victim rnd c s = i" unfolding victim_def pick_victim_def i by simp
  from i have "\<not> c_valid c ! (line c s 0 + i)" unfolding find_Some_iff by auto
  then show ?thesis unfolding v by (simp add: valid_at_def line_def)
qed

lemma cache_set_less: "cache_ok c \<Longrightarrow> cache_set c a < c_nsets c"
  by (simp add: cache_set_def cache_ok_def)

text \<open>The lines after an access.\<close>

lemma state_simps [simp]:
  "c_cfg (hit_state c s w) = c_cfg c" "c_nsets (hit_state c s w) = c_nsets c"
  "c_cfg (miss_state c s w t) = c_cfg c" "c_nsets (miss_state c s w t) = c_nsets c"
  "assoc_of (hit_state c s w) = assoc_of c" "assoc_of (miss_state c s w t) = assoc_of c"
  "cache_set (hit_state c s w) = cache_set c" "cache_set (miss_state c s w t) = cache_set c"
  "cache_tag (hit_state c s w) = cache_tag c" "cache_tag (miss_state c s w t) = cache_tag c"
  "line (hit_state c s w) = line c" "line (miss_state c s w t) = line c"
  "valid_at (hit_state c s w) = valid_at c" "tag_at (hit_state c s w) = tag_at c"
  by (simp_all add: hit_state_def miss_state_def assoc_of_def cache_set_def [abs_def]
      cache_tag_def [abs_def] line_def [abs_def] valid_at_def [abs_def] tag_at_def [abs_def])

lemma state_views:
  assumes "cache_ok c" "s < c_nsets c" "v < assoc_of c" "s' < c_nsets c" "w < assoc_of c"
  shows "valid_at (miss_state c s v t) s' w = ((s' = s \<and> w = v) \<or> valid_at c s' w)"
    and "tag_at (miss_state c s v t) s' w = (if s' = s \<and> w = v then t else tag_at c s' w)"
    and "order_at (miss_state c s v t) s' w = (if s' = s \<and> w = v then c_clock c + 1 else order_at c s' w)"
    and "order_at (hit_state c s v) s' w =
      (if cc_repl (c_cfg c) = REPL_LRU \<and> s' = s \<and> w = v then c_clock c + 1 else order_at c s' w)"
proof -
  have l: "line c s v < c_nsets c * assoc_of c" "line c s' w < c_nsets c * assoc_of c"
    using assms by (simp_all add: line_def line_less)
  have e: "line c s v = line c s' w \<longleftrightarrow> s' = s \<and> w = v"
    using line_eq [OF assms(3,5), of s s'] by (auto simp: line_def)
  have len: "length (c_valid c) = c_nsets c * assoc_of c" "length (c_tag c) = c_nsets c * assoc_of c"
    "length (c_order c) = c_nsets c * assoc_of c"
    using assms(1) by (simp_all add: cache_ok_def)
  show "valid_at (miss_state c s v t) s' w = ((s' = s \<and> w = v) \<or> valid_at c s' w)"
    using l len by (simp add: valid_at_def) (auto simp: miss_state_def nth_list_update e split: if_splits)
  show "tag_at (miss_state c s v t) s' w = (if s' = s \<and> w = v then t else tag_at c s' w)"
    using l len by (simp add: tag_at_def) (auto simp: miss_state_def nth_list_update e)
  show "order_at (miss_state c s v t) s' w = (if s' = s \<and> w = v then c_clock c + 1 else order_at c s' w)"
    using l len by (simp add: order_at_def) (auto simp: miss_state_def nth_list_update e)
  show "order_at (hit_state c s v) s' w =
      (if cc_repl (c_cfg c) = REPL_LRU \<and> s' = s \<and> w = v then c_clock c + 1 else order_at c s' w)"
    using l len by (simp add: order_at_def) (auto simp: hit_state_def nth_list_update e)
qed

lemma hit_state_ok: "cache_ok c \<Longrightarrow> cache_ok (hit_state c s w)"
  by (simp add: cache_ok_def) (simp add: hit_state_def)

lemma miss_state_ok:
  assumes ok: "cache_ok c" and s: "s < c_nsets c" and v: "v < assoc_of c"
    and new: "\<forall>w < assoc_of c. \<not> (valid_at c s w \<and> tag_at c s w = t)"
  shows "cache_ok (miss_state c s v t)"
proof -
  have len: "length (c_valid (miss_state c s v t)) = length (c_valid c)"
    "length (c_tag (miss_state c s v t)) = length (c_tag c)"
    "length (c_order (miss_state c s v t)) = length (c_order c)"
    by (simp_all add: miss_state_def)
  have uniq: "w = w'" if "s' < c_nsets c" "w < assoc_of c" "w' < assoc_of c"
    "valid_at (miss_state c s v t) s' w" "valid_at (miss_state c s v t) s' w'"
    "tag_at (miss_state c s v t) s' w = tag_at (miss_state c s v t) s' w'" for s' w w'
    using that ok new state_views(1,2) [OF ok s v that(1) that(2)] state_views(1,2) [OF ok s v that(1) that(3)]
    by (auto simp: cache_ok_def split: if_splits)
  show ?thesis
    using ok uniq unfolding cache_ok_def state_simps len by blast
qed

subsection \<open>What every cache promises\<close>

text \<open>A trace of accesses: the hits, and the final state.\<close>

fun access_all :: "('s \<Rightarrow> 'a \<Rightarrow> (bool \<times> 's) res) \<Rightarrow> 's \<Rightarrow> 'a list \<Rightarrow> (bool list \<times> 's) res" where
  "access_all acc s [] = Inr ([], s)"
| "access_all acc s (a # as) = res_bind (acc s a) (\<lambda>(h, s').
     res_bind (access_all acc s' as) (\<lambda>(hs, s''). Inr (h # hs, s'')))"

definition misses_in :: "bool list \<Rightarrow> nat" where
  "misses_in hs = length (filter Not hs)"

lemma misses_in_simps [simp]:
  "misses_in [] = 0" "misses_in (h # hs) = (if h then misses_in hs else Suc (misses_in hs))"
  by (simp_all add: misses_in_def)

locale block_store =
  fixes acc :: "'s \<Rightarrow> 'a \<Rightarrow> (bool \<times> 's) res"
    and holds :: "'s \<Rightarrow> 'k \<Rightarrow> bool"
    and key :: "'a \<Rightarrow> 'k"
    and ok :: "'s \<Rightarrow> bool"
  assumes acc_returns: "ok s \<Longrightarrow> \<exists>s'. acc s a = Inr (holds s (key a), s') \<and> ok s'"
    and acc_holds: "ok s \<Longrightarrow> acc s a = Inr (h, s') \<Longrightarrow> holds s' (key a)"
    and acc_only: "ok s \<Longrightarrow> acc s a = Inr (h, s') \<Longrightarrow> holds s' k \<Longrightarrow> holds s k \<or> k = key a"
begin

text \<open>Accessing a block again, at once, hits.\<close>

lemma access_twice:
  assumes "ok s" "acc s a = Inr (h, s')" "key b = key a"
  shows "\<exists>s''. acc s' b = Inr (True, s'')"
proof -
  have "ok s'" using acc_returns [OF assms(1), of a] assms(2) by auto
  then show ?thesis using acc_returns [of s' b] acc_holds [OF assms(1,2)] assms(3) by auto
qed

text \<open>A trace returns, with one answer per access.\<close>

lemma trace_returns: "ok s \<Longrightarrow> \<exists>hs s'. access_all acc s as = Inr (hs, s') \<and> ok s' \<and> length hs = length as"
proof (induction as arbitrary: s)
  case (Cons a as)
  obtain s1 where "acc s a = Inr (holds s (key a), s1)" "ok s1"
    using acc_returns [OF Cons.prems] by blast
  with Cons.IH [of s1] show ?case by (auto simp: res_bind_Inr_iff)
qed simp

text \<open>Compulsory misses: every block that is not held at the start misses at least once.\<close>

lemma compulsory:
  "ok s \<Longrightarrow> access_all acc s as = Inr (hs, s') \<Longrightarrow>
   card (key ` set as - {k. holds s k}) \<le> misses_in hs"
proof (induction as arbitrary: s hs)
  case (Cons a as)
  obtain s1 where s1: "acc s a = Inr (holds s (key a), s1)" "ok s1"
    using acc_returns [OF Cons.prems(1)] by blast
  with Cons.prems(2) obtain hs1 where hs: "access_all acc s1 as = Inr (hs1, s')" "hs = holds s (key a) # hs1"
    by (auto simp: res_bind_Inr_iff)
  have ih: "card (key ` set as - {k. holds s1 k}) \<le> misses_in hs1"
    by (rule Cons.IH [OF s1(2) hs(1)])
  have sub: "key ` set (a # as) - {k. holds s k} \<subseteq>
      (if holds s (key a) then {} else {key a}) \<union> (key ` set as - {k. holds s1 k})"
  proof
    fix k assume k: "k \<in> key ` set (a # as) - {k. holds s k}"
    then show "k \<in> (if holds s (key a) then {} else {key a}) \<union> (key ` set as - {k. holds s1 k})"
      using acc_only [OF Cons.prems(1) s1(1), of k] by (cases "k = key a") auto
  qed
  have "card (key ` set (a # as) - {k. holds s k}) \<le>
      card ((if holds s (key a) then {} else {key a}) \<union> (key ` set as - {k. holds s1 k}))"
    by (rule card_mono [OF _ sub]) simp
  also have "\<dots> \<le> (if holds s (key a) then 0 else 1) + card (key ` set as - {k. holds s1 k})"
    using card_Un_le [of "if holds s (key a) then {} else {key a}"] by (auto intro: order_trans)
  finally show ?case using ih by (auto simp: hs(2))
qed simp

end

subsection \<open>The cache keeps the promise\<close>

text \<open>The number of the block of an address, and which blocks are in the cache.\<close>

definition block_of :: "cache_config \<Rightarrow> u32 \<Rightarrow> nat" where
  "block_of cfg a = unat a div cc_block cfg"

definition holds_block :: "cache \<Rightarrow> nat \<Rightarrow> bool" where
  "holds_block c b = (b < 4294967296 \<and> (\<exists>w < assoc_of c. valid_at c (b mod c_nsets c) w \<and>
     tag_at c (b mod c_nsets c) w = of_nat (b div c_nsets c)))"

definition cache_op :: "cache \<Rightarrow> nat \<times> u32 \<Rightarrow> (bool \<times> cache) res" where
  "cache_op c ra = cache_access (fst ra) c (snd ra)"

definition cache_good :: "cache_config \<Rightarrow> cache \<Rightarrow> bool" where
  "cache_good cfg c = (cache_ok c \<and> c_cfg c = cfg)"

lemma block_of_less: "block_of cfg a < 4294967296"
  using div_le_dividend [of "unat a" "cc_block cfg"] unat_u32_less [of a]
  unfolding block_of_def by linarith

lemma set_tag_block:
  "cache_set c a = block_of (c_cfg c) a mod c_nsets c"
  "cache_tag c a = of_nat (block_of (c_cfg c) a div c_nsets c)"
  by (simp_all add: cache_set_def cache_tag_def block_of_def)

lemma holds_find_way:
  "holds_block c (block_of (c_cfg c) a) \<longleftrightarrow>
   find_way c (line c (cache_set c a) 0) (cache_tag c a) \<noteq> None"
  using find_way_None [of c "cache_set c a" "cache_tag c a"]
  by (auto simp: holds_block_def block_of_less set_tag_block)

text \<open>Set and tag determine the block.\<close>

lemma block_eq:
  assumes "b < 4294967296" "b' < 4294967296" "b mod n = b' mod n"
    and "(of_nat (b div n) :: u32) = of_nat (b' div n)"
  shows "b = b'"
proof -
  have "b div n < 4294967296" "b' div n < 4294967296"
    using assms(1,2) div_le_dividend [of b n] div_le_dividend [of b' n] by linarith+
  with assms(4) have "b div n = b' div n"
    by (simp add: word_of_nat_eq_iff take_bit_nat_eq_self)
  with assms(3) show ?thesis by (metis div_mult_mod_eq)
qed

lemma holds_after_access:
  assumes "cache_ok c" "cache_access rnd c a = Inr (h, c')"
  shows "holds_block c' (block_of (c_cfg c) a)"
    and "holds_block c' b \<Longrightarrow> holds_block c b \<or> b = block_of (c_cfg c) a"
proof -
  let ?s = "cache_set c a" and ?t = "cache_tag c a"
  let ?v = "victim rnd c ?s"
  have s: "?s < c_nsets c" using cache_set_less [OF assms(1)] .
  have v: "?v < assoc_of c" using assms(1) by (intro victim_less) (simp add: cache_ok_def)
  have n: "b mod c_nsets c < c_nsets c" for b using assms(1) by (simp add: cache_ok_def)
  consider (hit) w where "find_way c (line c ?s 0) ?t = Some w" "c' = hit_state c ?s w"
    | (miss) "find_way c (line c ?s 0) ?t = None" "c' = miss_state c ?s ?v ?t"
    using assms(2) cache_access_cases [OF assms(1), of rnd a] by (auto split: option.splits)
  then have "holds_block c' (block_of (c_cfg c) a) \<and>
    (holds_block c' b \<longrightarrow> holds_block c b \<or> b = block_of (c_cfg c) a)"
  proof cases
    case hit
    with holds_find_way [of c a] show ?thesis
      by (simp add: holds_block_def)
  next
    case miss
    show ?thesis
      using s v n [of b] state_views(1,2) [OF assms(1) s v s v, of ?t]
        state_views(1,2) [OF assms(1) s v n [of b], of _ ?t] block_eq [of b "block_of (c_cfg c) a" "c_nsets c"]
        block_of_less [of "c_cfg c" a]
      unfolding miss(2) holds_block_def state_simps set_tag_block [symmetric]
      by (auto simp: set_tag_block split: if_splits)
  qed
  then show "holds_block c' (block_of (c_cfg c) a)"
    "holds_block c' b \<Longrightarrow> holds_block c b \<or> b = block_of (c_cfg c) a" by simp_all
qed

lemma cache_access_good:
  assumes "cache_good cfg c"
  shows "\<exists>c'. cache_access rnd c a = Inr (holds_block c (block_of cfg a), c') \<and> cache_good cfg c'"
proof -
  have ok: "cache_ok c" "c_cfg c = cfg" using assms by (simp_all add: cache_good_def)
  have s: "cache_set c a < c_nsets c" using cache_set_less [OF ok(1)] .
  have v: "victim rnd c (cache_set c a) < assoc_of c"
    using ok(1) by (intro victim_less) (simp add: cache_ok_def)
  show ?thesis
    using cache_access_cases [OF ok(1), of rnd a] holds_find_way [of c a] ok hit_state_ok [OF ok(1)]
      miss_state_ok [OF ok(1) s v] find_way_None [of c "cache_set c a" "cache_tag c a"]
    by (cases "find_way c (line c (cache_set c a) 0) (cache_tag c a)") (auto simp: cache_good_def)
qed

interpretation blocks: block_store cache_op holds_block "\<lambda>ra. block_of cfg (snd ra)" "cache_good cfg"
  for cfg
proof unfold_locales
  fix c ra
  assume "cache_good cfg c"
  then show "\<exists>c'. cache_op c ra = Inr (holds_block c (block_of cfg (snd ra)), c') \<and> cache_good cfg c'"
    using cache_access_good by (simp add: cache_op_def)
next
  fix c ra h c'
  assume "cache_good cfg c" "cache_op c ra = Inr (h, c')"
  then show "holds_block c' (block_of cfg (snd ra))"
    "\<And>k. holds_block c' k \<Longrightarrow> holds_block c k \<or> k = block_of cfg (snd ra)"
    using holds_after_access [of c "fst ra" "snd ra" h c'] by (auto simp: cache_good_def cache_op_def)
qed

subsection \<open>Whole traces\<close>

lemma cache_init_good:
  assumes "cache_init cfg = Inr c" "0 < c_nsets c"
  shows "cache_good cfg c" and "\<not> holds_block c b"
    and "c_accesses c = 0" "c_misses c = 0" "c_clock c = 0"
proof -
  have c: "c = \<lparr>c_cfg = cfg, c_nsets = c_nsets c, c_valid = replicate (c_nsets c * cc_assoc cfg) False,
      c_tag = replicate (c_nsets c * cc_assoc cfg) 0, c_order = replicate (c_nsets c * cc_assoc cfg) 0,
      c_clock = 0, c_accesses = 0, c_misses = 0\<rparr>" and p: "0 < cc_block cfg" "0 < cc_assoc cfg"
    using assms(1) by (auto simp: cache_init_def Let_def split: if_splits)
  have v: "s < c_nsets c \<Longrightarrow> w < cc_assoc cfg \<Longrightarrow> \<not> valid_at c s w" for s w
    using line_less [of s "c_nsets c" w "cc_assoc cfg"]
    by (subst c) (simp add: valid_at_def line_def assoc_of_def)
  have a: "assoc_of c = cc_assoc cfg" by (subst c) (simp add: assoc_of_def)
  show "cache_good cfg c"
    using v p assms(2) a unfolding cache_good_def cache_ok_def
    by (intro conjI) (subst c, simp add: assoc_of_def; fail | blast | simp)+
  show "\<not> holds_block c b"
    using v a assms(2) by (auto simp: holds_block_def)
  show "c_accesses c = 0" "c_misses c = 0" "c_clock c = 0" by (subst c, simp)+
qed

lemma access_counters:
  assumes "cache_good cfg c" "cache_op c ra = Inr (h, c')"
  shows "c_accesses c' = c_accesses c + 1 \<and> c_misses c' = c_misses c + (if h then 0 else 1) \<and>
    c_nsets c' = c_nsets c"
  using assms cache_access_cases [of c "fst ra" "snd ra"]
  by (auto simp: cache_good_def cache_op_def hit_state_def miss_state_def split: option.splits)

lemma trace_counters:
  "cache_good cfg c \<Longrightarrow> access_all cache_op c ops = Inr (hs, c') \<Longrightarrow>
   c_accesses c' = c_accesses c + of_nat (length ops) \<and> c_misses c' = c_misses c + of_nat (misses_in hs)"
proof (induction ops arbitrary: c hs)
  case (Cons ra ops)
  obtain c1 where c1: "cache_op c ra = Inr (holds_block c (block_of cfg (snd ra)), c1)" "cache_good cfg c1"
    using blocks.acc_returns [OF Cons.prems(1), of ra] by blast
  with Cons.prems(2) obtain hs1 where hs1: "access_all cache_op c1 ops = Inr (hs1, c')"
    "hs = holds_block c (block_of cfg (snd ra)) # hs1"
    by (auto simp: res_bind_Inr_iff)
  from Cons.IH [OF c1(2) hs1(1)] access_counters [OF Cons.prems(1) c1(1)] show ?case
    by (auto simp: hs1(2))
qed simp


definition small_cache :: "repl_policy \<Rightarrow> nat \<Rightarrow> cache_config" where
  "small_cache r a = \<lparr>cc_enabled = True, cc_size = a * 64, cc_block = 32, cc_assoc = a, cc_repl = r,
     cc_hit_latency = 1, cc_miss_penalty = 10\<rparr>"

lemma small_cache_init:
  "0 < a \<Longrightarrow> \<exists>c. cache_init (small_cache r a) = Inr c \<and> c_nsets c = 2"
  by (simp add: cache_init_def small_cache_def Let_def)


subsection \<open>LRU is a stack\<close>

text \<open>
  The valid ways of a set, most recently used first, witnessed by their time stamps; the
  block number a line holds; and the update an access makes to the list of ways.
\<close>

definition mru :: "cache \<Rightarrow> nat \<Rightarrow> nat list \<Rightarrow> bool" where
  "mru c s ws = (distinct ws \<and> set ws = {w. w < assoc_of c \<and> valid_at c s w} \<and>
     sorted_wrt (\<lambda>w w'. order_at c s w' < order_at c s w) ws)"

definition touched :: "'a \<Rightarrow> 'a list \<Rightarrow> 'a list" where
  "touched x xs = x # filter (\<lambda>y. y \<noteq> x) xs"

definition block_at :: "cache \<Rightarrow> nat \<Rightarrow> nat \<Rightarrow> nat" where
  "block_at c s w = unat (tag_at c s w) * c_nsets c + s"

definition stamps_ok :: "cache \<Rightarrow> bool" where
  "stamps_ok c = (\<forall>s < c_nsets c. \<forall>w < assoc_of c. order_at c s w \<le> c_clock c)"

lemma mru_touched:
  assumes m: "mru c s ws" and w: "w < assoc_of c'" and a: "assoc_of c' = assoc_of c"
    and v: "\<And>x. x < assoc_of c \<Longrightarrow> valid_at c' s x \<longleftrightarrow> x = w \<or> valid_at c s x"
    and o: "\<And>x. x < assoc_of c \<Longrightarrow> order_at c' s x = (if x = w then k else order_at c s x)"
    and k: "\<And>x. x < assoc_of c \<Longrightarrow> order_at c s x < k"
  shows "mru c' s (touched w ws)"
proof -
  have ws: "x \<in> set ws \<Longrightarrow> x < assoc_of c" for x using m by (auto simp: mru_def)
  have "sorted_wrt (\<lambda>w w'. order_at c s w' < order_at c s w) (filter (\<lambda>y. y \<noteq> w) ws)"
    using m by (simp add: mru_def sorted_wrt_filter)
  then have "sorted_wrt (\<lambda>w w'. order_at c' s w' < order_at c' s w) (filter (\<lambda>y. y \<noteq> w) ws)"
    by (rule sorted_wrt_mono_rel [rotated]) (use ws o in auto)
  then have sorted: "sorted_wrt (\<lambda>w w'. order_at c' s w' < order_at c' s w) (touched w ws)"
    using ws o k w a by (simp add: touched_def)
  have "set (touched w ws) = {x. x < assoc_of c' \<and> valid_at c' s x}"
    using m w v a by (auto simp: mru_def touched_def)
  moreover have "distinct (touched w ws)" using m by (simp add: mru_def touched_def)
  ultimately show ?thesis using sorted by (simp add: mru_def)
qed

lemma map_touched:
  assumes "inj_on f (insert x (set xs))" shows "map f (touched x xs) = touched (f x) (map f xs)"
proof -
  have "y \<in> set xs \<Longrightarrow> (y \<noteq> x) = (f y \<noteq> f x)" for y using assms by (auto simp: inj_on_def)
  then show ?thesis by (simp add: touched_def filter_map o_def cong: filter_cong)
qed

text \<open>Keeping the first \<open>a\<close> elements commutes with touching, whatever is below them.\<close>

lemma take_touched_in: "distinct xs \<Longrightarrow> x \<in> set (take a xs) \<Longrightarrow> touched x (take a xs) = take a (touched x xs)"
proof (induction xs arbitrary: a)
  case (Cons y ys)
  then obtain b where a: "a = Suc b" by (cases a) auto
  show ?case
  proof (cases "y = x")
    case True
    with Cons.prems(1) have "filter (\<lambda>z. z \<noteq> x) ys = ys" "filter (\<lambda>z. z \<noteq> x) (take b ys) = take b ys"
      by (auto intro!: filter_True dest: in_set_takeD)
    with True a show ?thesis by (simp add: touched_def)
  next
    case False
    with Cons a have "touched x (take b ys) = take b (touched x ys)" by simp
    with False a Cons.prems show ?thesis by (cases b) (auto simp: touched_def)
  qed
qed simp

lemma take_touched_new:
  assumes "x \<notin> set (take a xs)" "0 < a"
  shows "take a (touched x xs) = x # take (a - 1) (take a xs)"
proof -
  have "filter (\<lambda>z. z \<noteq> x) xs = take a xs @ filter (\<lambda>z. z \<noteq> x) (drop a xs)"
    using assms(1) by (subst append_take_drop_id [of a xs, symmetric], subst filter_append)
      (auto simp del: append_take_drop_id intro!: filter_True)
  with assms(2) show ?thesis
    by (cases a) (auto simp: touched_def min_def)
qed

text \<open>The victim of a full set is the least recently used way.\<close>

lemma victim_full:
  assumes m: "mru c s ws" and full: "\<forall>w < assoc_of c. valid_at c s w" and r: "cc_repl (c_cfg c) = REPL_LRU"
    and p: "0 < assoc_of c"
  shows "ws \<noteq> [] \<and> victim rnd c s = last ws \<and> length ws = assoc_of c"
proof -
  have ws: "set ws = {..<assoc_of c}" "distinct ws" using m full by (auto simp: mru_def)
  then have len: "length ws = assoc_of c" by (metis card_lessThan distinct_card)
  with p have ne: "ws \<noteq> []" by auto
  have "find (\<lambda>w. \<not> c_valid c ! (line c s 0 + w)) [0..<cc_assoc (c_cfg c)] = None"
    using full by (auto simp: find_None_iff valid_at_def line_def assoc_of_def)
  then have v: "victim rnd c s = oldest_way c (line c s 0)" by (simp add: victim_def pick_victim_def r)
  have old: "victim rnd c s < assoc_of c" "\<forall>w < assoc_of c. order_at c s (victim rnd c s) \<le> order_at c s w"
    using oldest_way_spec [OF p, of "line c s 0"] by (auto simp: v order_at_def line_def)
  have "victim rnd c s = last ws"
  proof (rule ccontr)
    assume n: "victim rnd c s \<noteq> last ws"
    from ne have e: "ws = butlast ws @ [last ws]" by simp
    from old(1) ws(1) n e have "victim rnd c s \<in> set (butlast ws)"
      by (metis Un_iff lessThan_iff list.set(1) list.set(2) set_append singletonD insertE)
    moreover have "sorted_wrt (\<lambda>w w'. order_at c s w' < order_at c s w) (butlast ws @ [last ws])"
      using m e by (simp add: mru_def)
    ultimately have "order_at c s (last ws) < order_at c s (victim rnd c s)"
      by (auto simp: sorted_wrt_append)
    moreover have "last ws < assoc_of c" using ne ws(1) by (metis last_in_set lessThan_iff)
    ultimately show False using old(2) by (metis not_less)
  qed
  with ne len show ?thesis by simp
qed

definition lru_inv :: "cache \<Rightarrow> (nat \<Rightarrow> nat list) \<Rightarrow> bool" where
  "lru_inv c st = (cache_ok c \<and> cc_repl (c_cfg c) = REPL_LRU \<and> stamps_ok c \<and>
     (\<forall>s < c_nsets c. distinct (st s) \<and>
        (\<exists>ws. mru c s ws \<and> map (block_at c s) ws = take (assoc_of c) (st s))))"

lemma block_at_hit [simp]: "block_at (hit_state c s w) = block_at c"
  by (simp add: block_at_def [abs_def])

lemma block_at_inj:
  assumes "cache_ok c" "s < c_nsets c" "x < assoc_of c" "y < assoc_of c" "valid_at c s x" "valid_at c s y"
    and "block_at c s x = block_at c s y"
  shows "x = y"
proof -
  have "tag_at c s x = tag_at c s y"
    using assms(1,7) by (auto simp: block_at_def cache_ok_def word_unat_eq_iff)
  with assms show ?thesis by (auto simp: cache_ok_def)
qed

lemma tag_block:
  assumes "0 < c_nsets c" "block_of (c_cfg c) a mod c_nsets c = s"
  shows "tag_at c s w = cache_tag c a \<longleftrightarrow> block_at c s w = block_of (c_cfg c) a"
    and "unat (cache_tag c a) * c_nsets c + s = block_of (c_cfg c) a"
proof -
  let ?b = "block_of (c_cfg c) a"
  have "?b div c_nsets c < 4294967296"
    using block_of_less [of "c_cfg c" a] div_le_dividend [of ?b "c_nsets c"] by linarith
  then have u: "unat (cache_tag c a) = ?b div c_nsets c"
    by (simp add: set_tag_block unat_of_nat take_bit_nat_eq_self)
  show e: "unat (cache_tag c a) * c_nsets c + s = ?b"
    using assms(2) div_mult_mod_eq [of ?b "c_nsets c"] by (simp add: u)
  show "tag_at c s w = cache_tag c a \<longleftrightarrow> block_at c s w = ?b"
    using assms(1) unfolding block_at_def e [symmetric] by (simp add: word_unat_eq_iff)
qed

lemma clock_grows: "(k :: u64) + 1 \<noteq> 0 \<Longrightarrow> x \<le> k \<Longrightarrow> x < k + 1"
  using unatSuc [of k] by (simp add: word_less_nat_alt word_le_nat_alt add.commute)

lemma stamps_ok_step:
  assumes ok: "cache_ok c" and st: "stamps_ok c" and nw: "c_clock c + 1 \<noteq> 0"
    and s: "s < c_nsets c" and w: "w < assoc_of c" and r: "cc_repl (c_cfg c) = REPL_LRU"
  shows "stamps_ok (hit_state c s w)" "stamps_ok (miss_state c s w t)"
proof -
  have le: "x \<le> c_clock c \<Longrightarrow> x \<le> c_clock c + 1" for x using clock_grows [OF nw] by (simp add: less_imp_le)
  have c: "c_clock (hit_state c s w) = c_clock c + 1" "c_clock (miss_state c s w t) = c_clock c + 1"
    using r by (simp_all add: hit_state_def miss_state_def)
  show "stamps_ok (hit_state c s w)" "stamps_ok (miss_state c s w t)"
    using st le state_views [OF ok s w] by (auto simp: stamps_ok_def c)
qed

text \<open>Equal views of a set, equal list of ways.\<close>

lemma mru_same_views:
  assumes "mru c s ws" "assoc_of d = assoc_of c"
    and "\<And>x. x < assoc_of c \<Longrightarrow> valid_at d s x = valid_at c s x"
    and "\<And>x. x < assoc_of c \<Longrightarrow> order_at d s x = order_at c s x"
  shows "mru d s ws"
proof -
  have ws: "set ws = {w. w < assoc_of c \<and> valid_at c s w}" using assms(1) by (simp add: mru_def)
  have "sorted_wrt (\<lambda>x y. order_at c s y < order_at c s x) ws" using assms(1) by (simp add: mru_def)
  then have "sorted_wrt (\<lambda>x y. order_at d s y < order_at d s x) ws"
    by (rule sorted_wrt_mono_rel [rotated]) (simp add: ws assms(4))
  moreover have "{w. w < assoc_of c \<and> valid_at c s w} = {w. w < assoc_of d \<and> valid_at d s w}"
    using assms(2,3) by auto
  ultimately show ?thesis using assms(1) by (simp add: mru_def)
qed

lemma mru_other_set:
  assumes "cache_ok c" "s < c_nsets c" "w < assoc_of c" "s' < c_nsets c" "s' \<noteq> s" "mru c s' ws"
  shows "mru (hit_state c s w) s' ws" "mru (miss_state c s w t) s' ws"
    "map (block_at (miss_state c s w t) s') ws = map (block_at c s') ws"
proof -
  note v = state_views [OF assms(1-4)]
  show "mru (hit_state c s w) s' ws"
    by (rule mru_same_views [OF assms(6)]) (use assms(5) v(4) in simp_all)
  show "mru (miss_state c s w t) s' ws"
    by (rule mru_same_views [OF assms(6)]) (use assms(5) v(1,3) in simp_all)
  have ws: "x \<in> set ws \<Longrightarrow> x < assoc_of c" for x using assms(6) by (auto simp: mru_def)
  then show "map (block_at (miss_state c s w t) s') ws = map (block_at c s') ws"
    using v(2) assms(5) by (simp add: block_at_def)
qed

lemma filter_last: "distinct ws \<Longrightarrow> ws \<noteq> [] \<Longrightarrow> filter (\<lambda>y. y \<noteq> last ws) ws = butlast ws"
  by (induction ws rule: rev_induct) (auto intro!: filter_True)

text \<open>After a miss the set holds the new block first and its other ways in their order.\<close>

lemma miss_ways:
  assumes ok: "cache_ok c" and m: "mru c s ws" and s: "s < c_nsets c" and r: "cc_repl (c_cfg c) = REPL_LRU"
  shows "map f (filter (\<lambda>y. y \<noteq> victim rnd c s) ws) = take (assoc_of c - 1) (map f ws)"
proof (cases "\<forall>w < assoc_of c. valid_at c s w")
  case True
  have "0 < assoc_of c" using ok by (simp add: cache_ok_def)
  note v = victim_full [OF m True r this, of rnd]
  have "filter (\<lambda>y. y \<noteq> victim rnd c s) ws = butlast ws"
    using v m filter_last [of ws] by (simp add: mru_def)
  then show ?thesis using v by (simp add: butlast_conv_take take_map)
next
  case False
  then have nv: "\<not> valid_at c s (victim rnd c s)" using victim_free by blast
  have sub: "set ws \<subseteq> {..<assoc_of c} - {victim rnd c s}" using m nv by (auto simp: mru_def)
  have "victim rnd c s < assoc_of c" using ok by (intro victim_less) (simp add: cache_ok_def)
  then have "card ({..<assoc_of c} - {victim rnd c s}) = assoc_of c - 1" by simp
  with sub have "card (set ws) \<le> assoc_of c - 1"
    using card_mono [OF _ sub] by simp
  moreover have "card (set ws) = length ws" using m by (intro distinct_card) (simp add: mru_def)
  ultimately have "length ws \<le> assoc_of c - 1" by simp
  moreover have "filter (\<lambda>y. y \<noteq> victim rnd c s) ws = ws" using sub by (auto intro!: filter_True)
  ultimately show ?thesis by simp
qed

lemma lru_inv_update:
  assumes inv: "lru_inv c st" and ok: "cache_ok c'" "stamps_ok c'" "c_cfg c' = c_cfg c" "c_nsets c' = c_nsets c"
    and s: "mru c' s ws" "map (block_at c' s) ws = take (assoc_of c) bs" "distinct bs"
    and other: "\<And>s' us. s' < c_nsets c \<Longrightarrow> s' \<noteq> s \<Longrightarrow> mru c s' us \<Longrightarrow>
      mru c' s' us \<and> map (block_at c' s') us = map (block_at c s') us"
  shows "lru_inv c' (st(s := bs))"
proof -
  have a: "assoc_of c' = assoc_of c" by (simp add: assoc_of_def ok)
  have "distinct ((st(s := bs)) s') \<and>
      (\<exists>us. mru c' s' us \<and> map (block_at c' s') us = take (assoc_of c) ((st(s := bs)) s'))"
    if s': "s' < c_nsets c" for s'
  proof (cases "s' = s")
    case True
    with s show ?thesis by auto
  next
    case False
    from inv s' obtain us where "distinct (st s')" "mru c s' us" "map (block_at c s') us = take (assoc_of c) (st s')"
      by (auto simp: lru_inv_def)
    with other [OF s' False, of us] False show ?thesis by (intro conjI exI [of _ us]) simp_all
  qed
  then show ?thesis using inv ok unfolding lru_inv_def a ok(3,4) by blast
qed

lemma lru_step:
  assumes inv: "lru_inv c st" and nw: "c_clock c + 1 \<noteq> 0" and acc: "cache_access rnd c a = Inr (h, c')"
    and b: "b = block_of (c_cfg c) a" and s: "s = b mod c_nsets c"
  shows "h \<longleftrightarrow> b \<in> set (take (assoc_of c) (st s))" and "lru_inv c' (st(s := touched b (st s)))"
proof -
  have ok: "cache_ok c" and r: "cc_repl (c_cfg c) = REPL_LRU" and so: "stamps_ok c"
    using inv by (simp_all add: lru_inv_def)
  have n: "0 < c_nsets c" and p: "0 < assoc_of c" using ok by (simp_all add: cache_ok_def)
  have sn: "s < c_nsets c" using n by (simp add: s)
  have cs: "cache_set c a = s" by (simp add: set_tag_block s b)
  have bs: "block_of (c_cfg c) a mod c_nsets c = s" by (simp add: s b)
  obtain ws where ws: "mru c s ws" "map (block_at c s) ws = take (assoc_of c) (st s)" and ds: "distinct (st s)"
    using inv sn by (auto simp: lru_inv_def)
  have mem: "b \<in> set (take (assoc_of c) (st s)) \<longleftrightarrow> (\<exists>w < assoc_of c. valid_at c s w \<and> block_at c s w = b)"
    using ws by (auto simp flip: ws(2) simp: mru_def)
  have k: "x < assoc_of c \<Longrightarrow> order_at c s x < c_clock c + 1" for x
    using so sn clock_grows [OF nw] by (simp add: stamps_ok_def)
  have "(h \<longleftrightarrow> b \<in> set (take (assoc_of c) (st s))) \<and> lru_inv c' (st(s := touched b (st s)))"
  proof (cases "find_way c (line c s 0) (cache_tag c a)")
    case (Some w)
    then have w: "w < assoc_of c" "valid_at c s w" "block_at c s w = b"
      using find_way_Some [of c s "cache_tag c a" w] tag_block(1) [OF n bs, of w] by (auto simp: b)
    have c': "c' = hit_state c s w" "h"
      using acc Some cache_access_cases [OF ok, of rnd a] by (auto simp: cs)
    have inj: "inj_on (block_at c s) (insert w (set ws))"
      using w(1,2) ws(1) block_at_inj [OF ok sn] by (auto simp: inj_on_def mru_def)
    have "mru c' s (touched w ws)"
      unfolding c' by (rule mru_touched [OF ws(1), where k = "c_clock c + 1"])
        (use w state_views(4) [OF ok sn w(1) sn] r k in auto)
    moreover have "map (block_at c' s) (touched w ws) = take (assoc_of c) (touched b (st s))"
    proof -
      have "map (block_at c' s) (touched w ws) = touched b (map (block_at c s) ws)"
        using map_touched [OF inj] w(3) by (simp add: c')
      also have "\<dots> = take (assoc_of c) (touched b (st s))"
        unfolding ws(2) by (rule take_touched_in [OF ds]) (use mem w in blast)
      finally show ?thesis .
    qed
    moreover have "b \<in> set (take (assoc_of c) (st s))" using mem w by blast
    moreover have "distinct (touched b (st s))" using ds by (simp add: touched_def)
    ultimately show ?thesis
      using hit_state_ok [OF ok] stamps_ok_step(1) [OF ok so nw sn w(1) r] c'
        mru_other_set(1) [OF ok sn w(1)]
      by (intro conjI lru_inv_update [OF inv]) auto
  next
    case None
    let ?v = "victim rnd c s"
    have v: "?v < assoc_of c" by (rule victim_less [OF p])
    have new: "\<forall>w < assoc_of c. \<not> (valid_at c s w \<and> tag_at c s w = cache_tag c a)"
      using None find_way_None by blast
    then have nb: "b \<notin> set (take (assoc_of c) (st s))"
      using mem tag_block(1) [OF n bs] by (auto simp: b)
    have c': "c' = miss_state c s ?v (cache_tag c a)" "\<not> h"
      using acc None cache_access_cases [OF ok, of rnd a] by (auto simp: cs)
    have "mru c' s (touched ?v ws)"
      unfolding c' by (rule mru_touched [OF ws(1), where k = "c_clock c + 1"])
        (use v state_views(1,3) [OF ok sn v sn] k in auto)
    moreover have "map (block_at c' s) (touched ?v ws) = take (assoc_of c) (touched b (st s))"
    proof -
      have wl: "x \<in> set ws \<Longrightarrow> x < assoc_of c" for x using ws(1) by (auto simp: mru_def)
      have "block_at c' s ?v = b"
        using tag_block(2) [OF n bs] state_views(2) [OF ok sn v sn v] by (simp add: c' block_at_def b)
      moreover have "x \<in> set ws \<Longrightarrow> x \<noteq> ?v \<Longrightarrow> block_at c' s x = block_at c s x" for x
        using wl state_views(2) [OF ok sn v sn] by (simp add: c' block_at_def)
      ultimately have "map (block_at c' s) (touched ?v ws) =
          b # map (block_at c s) (filter (\<lambda>y. y \<noteq> ?v) ws)"
        by (simp add: touched_def)
      also have "\<dots> = b # take (assoc_of c - 1) (take (assoc_of c) (st s))"
        by (simp only: miss_ways [OF ok ws(1) sn r] ws(2))
      finally show ?thesis using take_touched_new [OF nb p] by simp
    qed
    moreover have "distinct (touched b (st s))" using ds by (simp add: touched_def)
    ultimately show ?thesis
      using miss_state_ok [OF ok sn v new] stamps_ok_step(2) [OF ok so nw sn v r] c' nb
        mru_other_set(2) [OF ok sn v] mru_other_set(3) [OF ok sn v, of _ _ "cache_tag c a"]
      by (intro conjI lru_inv_update [OF inv]) simp_all
  qed
  then show "h \<longleftrightarrow> b \<in> set (take (assoc_of c) (st s))" "lru_inv c' (st(s := touched b (st s)))"
    by simp_all
qed

text \<open>
  The reference for a trace: a stack of blocks per set, unbounded; an access hits when its
  block is among the first \<open>a\<close> of its set's stack, and moves it to the top.
\<close>

fun stack_hits :: "nat \<Rightarrow> nat \<Rightarrow> (nat \<Rightarrow> nat list) \<Rightarrow> nat list \<Rightarrow> bool list" where
  "stack_hits n a st [] = []"
| "stack_hits n a st (b # bs) =
     (b \<in> set (take a (st (b mod n)))) # stack_hits n a (st(b mod n := touched b (st (b mod n)))) bs"

lemma lru_access_all:
  "lru_inv c st \<Longrightarrow> c_cfg c = cfg \<Longrightarrow> unat (c_clock c) + length ops < 18446744073709551616 \<Longrightarrow>
   \<exists>c'. access_all cache_op c ops =
     Inr (stack_hits (c_nsets c) (cc_assoc cfg) st (map (\<lambda>ra. block_of cfg (snd ra)) ops), c')"
proof (induction ops arbitrary: c st)
  case (Cons ra ops)
  let ?b = "block_of cfg (snd ra)"
  have g: "cache_good cfg c" using Cons.prems(1,2) by (simp add: lru_inv_def cache_good_def)
  obtain c1 where c1: "cache_op c ra = Inr (holds_block c ?b, c1)" "cache_good cfg c1"
    using blocks.acc_returns [OF g, of ra] by blast
  have "unat (c_clock c + 1) = unat (c_clock c) + 1"
    using Cons.prems(3) by (simp add: unat_word_ariths)
  then have nw: "c_clock c + 1 \<noteq> 0" by (metis Zero_not_Suc Suc_eq_plus1 unat_0)
  have step: "holds_block c ?b \<longleftrightarrow> ?b \<in> set (take (assoc_of c) (st (?b mod c_nsets c)))"
    "lru_inv c1 (st(?b mod c_nsets c := touched ?b (st (?b mod c_nsets c))))"
    using lru_step [OF Cons.prems(1) nw c1(1) [unfolded cache_op_def] _ refl] Cons.prems(2) by simp_all
  have cl: "c_clock c1 = c_clock c + 1" "c_nsets c1 = c_nsets c"
    using c1(1) cache_access_cases [of c "fst ra" "snd ra"] Cons.prems(1)
    by (auto simp: cache_op_def lru_inv_def hit_state_def miss_state_def split: option.splits)
  have "unat (c_clock c1) + length ops < 18446744073709551616"
    using Cons.prems(3) by (simp add: cl unat_word_ariths)
  moreover have "c_cfg c1 = cfg" using c1(2) by (simp add: cache_good_def)
  ultimately obtain c' where "access_all cache_op c1 ops = Inr (stack_hits (c_nsets c) (cc_assoc cfg)
      (st(?b mod c_nsets c := touched ?b (st (?b mod c_nsets c)))) (map (\<lambda>ra. block_of cfg (snd ra)) ops), c')"
    using Cons.IH [OF step(2)] by (auto simp: cl fun_upd_def)
  with c1(1) step(1) Cons.prems(2) show ?case by (simp add: assoc_of_def)
qed simp

lemma lru_inv_init:
  assumes "cache_init cfg = Inr c" "0 < c_nsets c" "cc_repl cfg = REPL_LRU"
  shows "lru_inv c (\<lambda>_. [])"
proof -
  have good: "cache_good cfg c" using cache_init_good(1) [OF assms(1,2)] .
  have c: "c_valid c = replicate (c_nsets c * cc_assoc cfg) False"
    "c_order c = replicate (c_nsets c * cc_assoc cfg) 0" "c_cfg c = cfg"
    using assms(1) by (auto simp: cache_init_def Let_def split: if_splits)
  have line: "s < c_nsets c \<Longrightarrow> w < assoc_of c \<Longrightarrow> line c s w < c_nsets c * cc_assoc cfg" for s w
    using line_less [of s "c_nsets c" w "assoc_of c"] by (simp add: line_def assoc_of_def c)
  then have "\<forall>s < c_nsets c. mru c s []" "stamps_ok c"
    by (auto simp: mru_def valid_at_def stamps_ok_def order_at_def c(1,2))
  with good assms(3) show ?thesis
    by (auto simp: lru_inv_def cache_good_def)
qed

text \<open>C28: An LRU cache hits exactly when the block is among the most recently used ones of its set, as
  many as the associativity, on every trace of fewer than $2^{64}$ accesses.\<close>

theorem lru_refines_stack:
  assumes "cache_init cfg = Inr c" "0 < c_nsets c" "cc_repl cfg = REPL_LRU"
    and "length ops < 18446744073709551616"
  shows "\<exists>c'. access_all cache_op c ops =
    Inr (stack_hits (c_nsets c) (cc_assoc cfg) (\<lambda>_. []) (map (\<lambda>ra. block_of cfg (snd ra)) ops), c')"
proof -
  have "c_cfg c = cfg" using cache_init_good(1) [OF assms(1,2)] by (simp add: cache_good_def)
  with lru_access_all [OF lru_inv_init [OF assms(1-3)]] cache_init_good(5) [OF assms(1,2)] assms(4)
  show ?thesis by simp
qed

theorem lru_refines_stack_witness:
  "\<exists>c c'. cache_init (small_cache REPL_LRU 2) = Inr c \<and>
     access_all cache_op c [(0, 0), (0, 64), (0, 0), (0, 128), (0, 64)] =
       Inr ([False, False, True, False, False], c')"
proof -
  obtain c where c: "cache_init (small_cache REPL_LRU 2) = Inr c" "c_nsets c = 2"
    using small_cache_init [of 2 REPL_LRU] by auto
  then have p: "0 < c_nsets c" "cc_repl (small_cache REPL_LRU 2) = REPL_LRU"
    by (simp_all add: small_cache_def)
  define ops :: "(nat \<times> u32) list" where "ops = [(0, 0), (0, 64), (0, 0), (0, 128), (0, 64)]"
  have "length ops < 18446744073709551616" by (simp add: ops_def)
  then obtain c' where t: "access_all cache_op c ops =
      Inr (stack_hits 2 (cc_assoc (small_cache REPL_LRU 2)) (\<lambda>_. [])
        (map (\<lambda>ra. block_of (small_cache REPL_LRU 2) (snd ra)) ops), c')"
    using lru_refines_stack [OF c(1) p, of ops] unfolding c(2) by blast
  have m: "map (\<lambda>ra. block_of (small_cache REPL_LRU 2) (snd ra)) ops = [0, 2, 0, 4, 2]"
    by (simp add: block_of_def small_cache_def ops_def)
  have h: "stack_hits 2 2 (\<lambda>_. []) [0, 2, 0, 4, 2] = [False, False, True, False, False]"
    by (simp add: touched_def)
  have a: "cc_assoc (small_cache REPL_LRU 2) = 2" by (simp add: small_cache_def)
  from t have "access_all cache_op c [(0, 0), (0, 64), (0, 0), (0, 128), (0, 64)] =
      Inr ([False, False, True, False, False], c')"
    unfolding m a h by (simp only: ops_def)
  with c(1) show ?thesis by blast
qed

lemma stack_hits_more:
  "a \<le> a' \<Longrightarrow> list_all2 (\<longrightarrow>) (stack_hits n a st bs) (stack_hits n a' st bs)"
  by (induction bs arbitrary: st) (auto dest: set_take_subset_set_take [THEN subsetD])

lemma misses_in_less: "list_all2 (\<longrightarrow>) hs hs' \<Longrightarrow> misses_in hs' \<le> misses_in hs"
  by (induction hs hs' rule: list_all2_induct) auto

text \<open>C29: The inclusion property of LRU: with the same sets and blocks and a higher associativity,
  every access that hit still hits, so no trace has more misses.\<close>

theorem lru_inclusion:
  assumes "cache_init cfg = Inr c" "0 < c_nsets c" "cc_repl cfg = REPL_LRU"
    and "cache_init cfg' = Inr d" "c_nsets d = c_nsets c" "cc_repl cfg' = REPL_LRU"
    and "cc_block cfg' = cc_block cfg" "cc_assoc cfg \<le> cc_assoc cfg'"
    and "length ops < 18446744073709551616"
  shows "\<exists>hs c' hs' d'. access_all cache_op c ops = Inr (hs, c') \<and> access_all cache_op d ops = Inr (hs', d') \<and>
    list_all2 (\<longrightarrow>) hs hs' \<and> misses_in hs' \<le> misses_in hs"
proof -
  have d: "0 < c_nsets d" "c_cfg d = cfg'" "c_cfg c = cfg"
    using assms(2,5) cache_init_good(1) [OF assms(1,2)] cache_init_good(1) [OF assms(4)]
    by (simp_all add: cache_good_def)
  note r = lru_access_all [OF lru_inv_init [OF assms(1-3)], of cfg ops]
    lru_access_all [OF lru_inv_init [OF assms(4) d(1) assms(6)], of cfg' ops]
  have b: "block_of cfg' = block_of cfg" by (simp add: block_of_def [abs_def] assms(7))
  show ?thesis
    using r d cache_init_good(5) [OF assms(1,2)] cache_init_good(5) [OF assms(4) d(1)] assms(5,9)
      stack_hits_more [OF assms(8)] misses_in_less
    by (auto simp: b)
qed

theorem lru_inclusion_witness:
  "\<exists>c d hs c' hs' d'. cache_init (small_cache REPL_LRU 1) = Inr c \<and> cache_init (small_cache REPL_LRU 2) = Inr d \<and>
     access_all cache_op c [(0, 0), (0, 64), (0, 0)] = Inr (hs, c') \<and>
     access_all cache_op d [(0, 0), (0, 64), (0, 0)] = Inr (hs', d') \<and> misses_in hs' \<le> misses_in hs"
proof -
  obtain c d where cd: "cache_init (small_cache REPL_LRU 1) = Inr c" "c_nsets c = 2"
    "cache_init (small_cache REPL_LRU 2) = Inr d" "c_nsets d = 2"
    using small_cache_init [of 1 REPL_LRU] small_cache_init [of 2 REPL_LRU] by auto
  with lru_inclusion [OF cd(1) _ _ cd(3), of "[(0, 0), (0, 64), (0, 0)]"] show ?thesis
    by (auto simp: small_cache_def)
qed

end
