(* ===== verification/Frontend.thy ===== *)
theory Frontend
  imports InstStream Bpred Cache
begin

text \<open>
  What the three timing models of \<open>src/pipe_sim.c\<close> share: the configuration and the
  statistics (\<open>include/pipe_sim.h\<close>), the penalty of a control transfer with its predictor
  and target buffer, and the loop that feeds the instruction stream to a model one
  instruction at a time. The loop is shown to be a fold over the reference run.
\<close>

subsection \<open>Configuration and statistics\<close>

record pipe_config =
  pc_forwarding :: bool
  pc_bp :: bp_kind
  pc_idx_bits :: int
  pc_ghist_bits :: int
  pc_icache :: cache_config
  pc_dcache :: cache_config
  pc_l2 :: cache_config

text \<open>The average access times, floating point numbers, are left out.\<close>

record pipe_stats =
  st_instructions :: u64
  st_cycles :: u64
  st_data_stalls :: u64
  st_control_stalls :: u64
  st_mem_stalls :: u64
  st_cond_branches :: u64
  st_branch_mispredicts :: u64
  st_icache :: "u64 \<times> u64"
  st_dcache :: "u64 \<times> u64"
  st_l2 :: "u64 \<times> u64"
  st_regs :: "u32 list"
  st_pc :: u32
  st_sp :: u32
  st_flags :: cpu_flags

text \<open>\<open>PipeStats st = {0}\<close>, then the part of the end of each model that copies the final
  architectural state.\<close>

definition no_stats :: pipe_stats where
  "no_stats = \<lparr>st_instructions = 0, st_cycles = 0, st_data_stalls = 0, st_control_stalls = 0,
     st_mem_stalls = 0, st_cond_branches = 0, st_branch_mispredicts = 0, st_icache = (0, 0),
     st_dcache = (0, 0), st_l2 = (0, 0), st_regs = replicate NUM_REGS 0, st_pc = 0, st_sp = 0,
     st_flags = \<lparr>flag_z = False, flag_c = False, flag_o = False, flag_n = False\<rparr>\<rparr>"

definition final_state :: "gen \<Rightarrow> pipe_stats \<Rightarrow> pipe_stats" where
  "final_state g st = st\<lparr>st_instructions := of_nat (g_count g), st_regs := regs (g_cpu g),
     st_pc := pc (g_cpu g), st_sp := sp (g_cpu g), st_flags := flags (g_cpu g)\<rparr>"

subsection \<open>Control transfers\<close>

text \<open>
  The predictor is there when the kind is not \<open>BP_NONE\<close>. Counters of the code are
  \<open>uint64_t\<close> and only ever incremented; the models count in natural numbers and read them
  as 64-bit words.
\<close>

record fetch_unit =
  fu_bp :: "bpredictor option"
  fu_cond :: nat
  fu_mis :: nat

definition fetch_unit_init :: "pipe_config \<Rightarrow> fetch_unit res" where
  "fetch_unit_init cfg =
     (if pc_bp cfg = BP_NONE then Inr \<lparr>fu_bp = None, fu_cond = 0, fu_mis = 0\<rparr>
      else res_bind (bp_init (pc_bp cfg) (if pc_idx_bits cfg \<noteq> 0 then pc_idx_bits cfg else 10)
             (if pc_ghist_bits cfg \<noteq> 0 then pc_ghist_bits cfg else 8))
        (\<lambda>b. Inr \<lparr>fu_bp = Some b, fu_cond = 0, fu_mis = 0\<rparr>))"

definition control_penalty :: "fetch_unit \<Rightarrow> inst_info \<Rightarrow> (int \<times> fetch_unit) res" where
  "control_penalty fu d = (case fu_bp fu of
     None \<Rightarrow> Inr (if ii_taken_control d then CONTROL_PENALTY else 0, fu)
   | Some b \<Rightarrow>
       res_bind (if ii_is_conditional d then bp_predict b (ii_pc d) else Inr True) (\<lambda>pred_taken.
       res_bind (btb_lookup b (ii_pc d)) (\<lambda>hit.
         (let actual = ii_taken_control d;
              mispredict = (pred_taken \<noteq> actual \<or> actual \<and> hit \<noteq> Some (ii_target d));
              cond = fu_cond fu + (if ii_is_conditional d then 1 else 0);
              mis = fu_mis fu + (if ii_is_conditional d \<and> pred_taken \<noteq> actual then 1 else 0)
          in res_bind (if ii_is_conditional d then bp_update b (ii_pc d) actual else Inr b) (\<lambda>b.
             res_bind (if actual then btb_update b (ii_pc d) (ii_target d) else Inr b) (\<lambda>b.
               Inr (if mispredict then CONTROL_PENALTY else 0,
                    \<lparr>fu_bp = Some b, fu_cond = cond, fu_mis = mis\<rparr>)))))))"

text \<open>\<open>if (d->is_control || d->taken_control) pen = control_penalty(...)\<close>.\<close>

definition control_of :: "fetch_unit \<Rightarrow> inst_info \<Rightarrow> (int \<times> fetch_unit) res" where
  "control_of fu d =
     (if ii_is_control d \<or> ii_taken_control d then control_penalty fu d else Inr (0, fu))"

definition fu_ok :: "fetch_unit \<Rightarrow> bool" where
  "fu_ok fu = (case fu_bp fu of None \<Rightarrow> True | Some b \<Rightarrow> bp_ok b)"

text \<open>Index widths and history lengths for which the tables of the predictor are usable.\<close>

definition bp_cfg_ok :: "pipe_config \<Rightarrow> bool" where
  "bp_cfg_ok cfg = (pc_bp cfg = BP_NONE \<or>
     (0 \<le> pc_idx_bits cfg \<and> pc_idx_bits cfg \<le> 30 \<and> 0 \<le> pc_ghist_bits cfg \<and> pc_ghist_bits cfg < 32))"

lemma fetch_unit_init_returns:
  assumes "bp_cfg_ok cfg" shows "returns fu_ok (fetch_unit_init cfg)"
proof (cases "pc_bp cfg = BP_NONE")
  case False
  let ?i = "if pc_idx_bits cfg \<noteq> 0 then pc_idx_bits cfg else 10"
  let ?g = "if pc_ghist_bits cfg \<noteq> 0 then pc_ghist_bits cfg else 8"
  have r: "0 \<le> ?i" "?i < 32" "?i \<le> 30" "0 \<le> ?g" "?g < 32" using assms False by (auto simp: bp_cfg_ok_def)
  then obtain b where b: "bp_init (pc_bp cfg) ?i ?g = Inr b" using bp_init_Inr by blast
  from bp_init_ok [OF this] r have "bp_ok b" by blast
  with b False show ?thesis by (simp add: fetch_unit_init_def fu_ok_def)
qed (simp add: fetch_unit_init_def fu_ok_def)

text \<open>A control transfer costs nothing or two cycles, and leaves the unit usable.\<close>

lemma control_penalty_returns:
  assumes "fu_ok fu"
  shows "returns (\<lambda>(p, fu'). (p = 0 \<or> p = CONTROL_PENALTY) \<and> fu_ok fu') (control_penalty fu d)"
proof (cases "fu_bp fu")
  case None
  then show ?thesis by (simp add: control_penalty_def fu_ok_def)
next
  case (Some b)
  with assms have ok: "bp_ok b" by (simp add: fu_ok_def)
  let ?p = "ii_pc d"
  obtain t where t: "(if ii_is_conditional d then bp_predict b ?p else Inr True) = Inr t"
    using dirs.predict_returns [OF ok] by (cases "ii_is_conditional d") auto
  obtain h where h: "btb_lookup b ?p = Inr h" using btb.lookup_returns [OF ok] by blast
  obtain b1 where b1: "(if ii_is_conditional d then bp_update b ?p (ii_taken_control d) else Inr b) = Inr b1"
    "bp_ok b1" using dirs.update_returns [OF ok] ok by (cases "ii_is_conditional d") auto
  obtain b2 where b2: "(if ii_taken_control d then btb_update b1 ?p (ii_target d) else Inr b1) = Inr b2"
    "bp_ok b2" using btb.upd_returns [OF b1(2)] b1(2) by (cases "ii_taken_control d") auto
  show ?thesis
    unfolding control_penalty_def Some option.case t h b1 res_bind_simps Let_def b2
    by (simp add: fu_ok_def b2)
qed

lemma control_of_returns:
  "fu_ok fu \<Longrightarrow> returns (\<lambda>(p, fu'). (p = 0 \<or> p = CONTROL_PENALTY) \<and> fu_ok fu') (control_of fu d)"
  by (simp add: control_of_def control_penalty_returns)

text \<open>Without a predictor every redirected fetch costs the penalty, nothing else does.\<close>

lemma control_of_none:
  "fu_bp fu = None \<Longrightarrow> control_of fu d = Inr (if ii_taken_control d then CONTROL_PENALTY else 0, fu)"
  by (simp add: control_of_def control_penalty_def)

end
