(* ===== verification/Pipeline.thy ===== *)
theory Pipeline
  imports Frontend
begin

text \<open>
  The five-stage pipeline of \<open>pipe_run\<close> (\<open>src/pipe_sim.c\<close>), one cycle at a time: the latches
  hold instruction numbers, the hazard unit looks at the EX and MEM latches, the fetch stage
  takes instructions from the generator through the instruction cache and the predictor, the
  MEM stage goes through the data cache, and both caches may share a second level. The loop
  ends when everything has retired, or when its safety net on the number of cycles fires.
\<close>

subsection \<open>The memory hierarchy\<close>

text \<open>
  A cache is there when its configuration enables it. \<open>rnd j\<close> is what \<open>rand()\<close> returns if the
  \<open>j\<close>-th cache access of the run calls it.
\<close>

record hierarchy =
  h_ic :: "cache option"
  h_dc :: "cache option"
  h_l2 :: "cache option"
  h_draws :: nat

definition level_init :: "cache_config \<Rightarrow> cache option res" where
  "level_init cfg = (if cc_enabled cfg then res_bind (cache_init cfg) (\<lambda>c. Inr (Some c)) else Inr None)"

definition hierarchy_init :: "pipe_config \<Rightarrow> hierarchy res" where
  "hierarchy_init cfg =
     res_bind (level_init (pc_icache cfg)) (\<lambda>ic.
     res_bind (level_init (pc_dcache cfg)) (\<lambda>dc.
     res_bind (level_init (pc_l2 cfg)) (\<lambda>l2.
       Inr \<lparr>h_ic = ic, h_dc = dc, h_l2 = l2, h_draws = 0\<rparr>)))"

text \<open>The penalty of a first-level miss: \<open>long pen = ...\<close> in both places.\<close>

definition miss_penalty :: "(nat \<Rightarrow> nat) \<Rightarrow> cache_config \<Rightarrow> pipe_config \<Rightarrow> u32 \<Rightarrow> hierarchy \<Rightarrow> (int \<times> hierarchy) res" where
  "miss_penalty rnd l1 cfg addr h = (case h_l2 h of
     None \<Rightarrow> Inr (cc_miss_penalty l1, h)
   | Some c \<Rightarrow> res_bind (cache_access (rnd (h_draws h)) c addr) (\<lambda>(hit, c).
       Inr (if hit then cc_hit_latency (pc_l2 cfg) else cc_miss_penalty (pc_l2 cfg),
            h\<lparr>h_l2 := Some c, h_draws := h_draws h + 1\<rparr>)))"

text \<open>\<open>None\<close> is a hit, or no cache; \<open>Some pen\<close> a miss that costs \<open>pen\<close>.\<close>

definition icache_fetch :: "(nat \<Rightarrow> nat) \<Rightarrow> pipe_config \<Rightarrow> u32 \<Rightarrow> hierarchy \<Rightarrow> (int option \<times> hierarchy) res" where
  "icache_fetch rnd cfg addr h = (case h_ic h of
     None \<Rightarrow> Inr (None, h)
   | Some c \<Rightarrow> res_bind (cache_access (rnd (h_draws h)) c addr) (\<lambda>(hit, c).
       (let h = h\<lparr>h_ic := Some c, h_draws := h_draws h + 1\<rparr> in
        if hit then Inr (None, h)
        else res_bind (miss_penalty rnd (pc_icache cfg) cfg addr h) (\<lambda>(pen, h). Inr (Some pen, h)))))"

definition dcache_access :: "(nat \<Rightarrow> nat) \<Rightarrow> pipe_config \<Rightarrow> u32 option \<Rightarrow> hierarchy \<Rightarrow> (int option \<times> hierarchy) res" where
  "dcache_access rnd cfg addr h = (case (h_dc h, addr) of
     (Some c, Some a) \<Rightarrow> res_bind (cache_access (rnd (h_draws h)) c a) (\<lambda>(hit, c).
       (let h = h\<lparr>h_dc := Some c, h_draws := h_draws h + 1\<rparr> in
        if hit then Inr (None, h)
        else res_bind (miss_penalty rnd (pc_dcache cfg) cfg a h) (\<lambda>(pen, h). Inr (Some pen, h))))
   | _ \<Rightarrow> Inr (None, h))"

subsection \<open>State\<close>

text \<open>
  A latch of the code is \<open>-1\<close> when empty: \<open>None\<close>. The four cycle counters are \<open>uint64_t\<close>
  that are only incremented; they are natural numbers here and read as 64-bit words.
\<close>

record pipe =
  p_gen :: gen
  p_fu :: fetch_unit
  p_hier :: hierarchy
  p_IF :: "nat option"
  p_ID :: "nat option"
  p_EX :: "nat option"
  p_MEM :: "nat option"
  p_WB :: "nat option"
  p_next :: nat
  p_retired :: nat
  p_pending :: "nat option"
  p_ctrl :: int
  p_fetch_stall :: int
  p_mem_stall :: int
  p_cycles :: nat
  p_data_stalls :: nat
  p_control_stalls :: nat
  p_mem_stalls :: nat

text \<open>\<open>int per_inst = 20 + icache.miss_penalty + dcache.miss_penalty\<close>.\<close>

definition per_inst :: "pipe_config \<Rightarrow> int" where
  "per_inst cfg = 20 + cc_miss_penalty (pc_icache cfg) + cc_miss_penalty (pc_dcache cfg)"

definition pipe_init :: "pipe_config \<Rightarrow> memory \<Rightarrow> console \<Rightarrow> pipe res" where
  "pipe_init cfg m con =
     res_bind (fetch_unit_init cfg) (\<lambda>fu.
     res_bind (hierarchy_init cfg) (\<lambda>h.
       if per_inst cfg < - 2147483648 \<or> 2147483648 \<le> per_inst cfg then Inl BadInt
       else Inr \<lparr>p_gen = gen_init m con, p_fu = fu, p_hier = h,
         p_IF = None, p_ID = None, p_EX = None, p_MEM = None, p_WB = None,
         p_next = 0, p_retired = 0, p_pending = None,
         p_ctrl = 0, p_fetch_stall = 0, p_mem_stall = 0,
         p_cycles = 0, p_data_stalls = 0, p_control_stalls = 0, p_mem_stalls = 0\<rparr>))"

subsection \<open>One cycle\<close>

definition needs_stall :: "gen \<Rightarrow> nat option \<Rightarrow> nat option \<Rightarrow> nat option \<Rightarrow> bool \<Rightarrow> bool" where
  "needs_stall g i e m fwd = (case i of
     None \<Rightarrow> False
   | Some k \<Rightarrow> list_ex (\<lambda>s.
       if fwd then (case e of None \<Rightarrow> False | Some x \<Rightarrow> ii_is_load (gen_at g x) \<and> produces (gen_at g x) s)
       else (case e of None \<Rightarrow> False | Some x \<Rightarrow> produces (gen_at g x) s) \<or>
            (case m of None \<Rightarrow> False | Some x \<Rightarrow> produces (gen_at g x) s)) (ii_reads (gen_at g k)))"

text \<open>\<open>WB = MEM; MEM = EX;\<close> and the data cache.\<close>

definition mem_phase :: "(nat \<Rightarrow> nat) \<Rightarrow> pipe_config \<Rightarrow> pipe \<Rightarrow> pipe res" where
  "mem_phase rnd cfg p =
     (let p = p\<lparr>p_WB := p_MEM p, p_MEM := p_EX p\<rparr>;
          addr = (case p_MEM p of None \<Rightarrow> None | Some k \<Rightarrow> ii_mem (gen_at (p_gen p) k))
      in res_bind (dcache_access rnd cfg addr (p_hier p)) (\<lambda>(pen, h).
         (let p = p\<lparr>p_hier := h\<rparr> in
          Inr (case pen of None \<Rightarrow> p | Some pen \<Rightarrow> p\<lparr>p_mem_stall := pen\<rparr>))))"

text \<open>An instruction enters the IF latch: \<open>IF = k; if (...) ctrl_pending = control_penalty(...)\<close>.\<close>

definition enter_IF :: "nat \<Rightarrow> pipe \<Rightarrow> pipe res" where
  "enter_IF k p =
     (let p = p\<lparr>p_IF := Some k\<rparr>; d = gen_at (p_gen p) k in
      if ii_is_control d \<or> ii_taken_control d then
        res_bind (control_penalty (p_fu p) d) (\<lambda>(pen, fu). Inr (p\<lparr>p_ctrl := pen, p_fu := fu\<rparr>))
      else Inr p)"

definition fetch_phase :: "(nat \<Rightarrow> nat) \<Rightarrow> pipe_config \<Rightarrow> pipe \<Rightarrow> pipe res" where
  "fetch_phase rnd cfg p =
     (if p_ctrl p > 0 then
        Inr (p\<lparr>p_IF := None, p_ctrl := p_ctrl p - 1, p_control_stalls := p_control_stalls p + 1\<rparr>)
      else if p_fetch_stall p > 0 then
        Inr (p\<lparr>p_IF := None, p_fetch_stall := p_fetch_stall p - 1, p_mem_stalls := p_mem_stalls p + 1\<rparr>)
      else (case p_pending p of
        Some k \<Rightarrow> enter_IF k (p\<lparr>p_pending := None\<rparr>)
      | None \<Rightarrow>
          res_bind (gen_ensure (p_next p) (p_gen p)) (\<lambda>(more, g).
            (let p = p\<lparr>p_gen := g\<rparr> in
             if more then
               (let k = p_next p; p = p\<lparr>p_next := k + 1\<rparr>; d = gen_at g k in
                res_bind (icache_fetch rnd cfg (ii_pc d) (p_hier p)) (\<lambda>(pen, h).
                  (let p = p\<lparr>p_hier := h\<rparr> in
                   case pen of
                     Some pen \<Rightarrow> Inr (p\<lparr>p_pending := Some k, p_fetch_stall := pen - 1, p_IF := None,
                                        p_mem_stalls := p_mem_stalls p + 1\<rparr>)
                   | None \<Rightarrow> enter_IF k p)))
             else Inr (p\<lparr>p_IF := None\<rparr>)))))"

text \<open>The body of the loop, without the safety net.\<close>

definition pipe_cycle :: "(nat \<Rightarrow> nat) \<Rightarrow> pipe_config \<Rightarrow> pipe \<Rightarrow> pipe res" where
  "pipe_cycle rnd cfg p =
     (let p = p\<lparr>p_cycles := p_cycles p + 1\<rparr> in
      if p_mem_stall p > 0 then
        Inr (p\<lparr>p_mem_stall := p_mem_stall p - 1, p_mem_stalls := p_mem_stalls p + 1\<rparr>)
      else
        (let stall = needs_stall (p_gen p) (p_ID p) (p_EX p) (p_MEM p) (pc_forwarding cfg) in
         res_bind (mem_phase rnd cfg p) (\<lambda>p.
         res_bind (if stall then Inr (p\<lparr>p_EX := None, p_data_stalls := p_data_stalls p + 1\<rparr>)
                   else fetch_phase rnd cfg (p\<lparr>p_EX := p_ID p, p_ID := p_IF p\<rparr>)) (\<lambda>p.
           Inr (if p_WB p \<noteq> None then p\<lparr>p_retired := p_retired p + 1\<rparr> else p)))))"

text \<open>
  \<open>bound\<close> is computed from the count before the cycle, in \<open>uint64_t\<close>, and compared with
  \<open>cycles\<close> after it.
\<close>

definition cycle_bound :: "pipe_config \<Rightarrow> nat \<Rightarrow> u64" where
  "cycle_bound cfg count = (of_nat count + 16) * word_of_int (per_inst cfg) + 64"

definition net_fires :: "pipe_config \<Rightarrow> pipe \<Rightarrow> pipe \<Rightarrow> bool" where
  "net_fires cfg p p' = (cycle_bound cfg (g_count (p_gen p)) < of_nat (p_cycles p'))"

definition pipe_done :: "pipe \<Rightarrow> bool" where
  "pipe_done p = (g_done (p_gen p) \<and> g_count (p_gen p) \<le> p_retired p)"

partial_function (option) pipe_loop :: "(nat \<Rightarrow> nat) \<Rightarrow> pipe_config \<Rightarrow> pipe \<Rightarrow> pipe res option" where
  "pipe_loop rnd cfg p =
     (if pipe_done p then Some (Inr p)
      else (case pipe_cycle rnd cfg p of
        Inl e \<Rightarrow> Some (Inl e)
      | Inr p' \<Rightarrow> if net_fires cfg p p' then Some (Inr p') else pipe_loop rnd cfg p'))"

subsection \<open>The whole run\<close>

definition cache_stats :: "cache option \<Rightarrow> u64 \<times> u64" where
  "cache_stats c = (case c of None \<Rightarrow> (0, 0) | Some c \<Rightarrow> (c_accesses c, c_misses c))"

definition pipe_result :: "pipe \<Rightarrow> pipe_stats" where
  "pipe_result p = (final_state (p_gen p) no_stats)
     \<lparr>st_cycles := of_nat (p_cycles p), st_data_stalls := of_nat (p_data_stalls p),
      st_control_stalls := of_nat (p_control_stalls p), st_mem_stalls := of_nat (p_mem_stalls p),
      st_cond_branches := of_nat (fu_cond (p_fu p)), st_branch_mispredicts := of_nat (fu_mis (p_fu p)),
      st_icache := cache_stats (h_ic (p_hier p)), st_dcache := cache_stats (h_dc (p_hier p)),
      st_l2 := cache_stats (h_l2 (p_hier p))\<rparr>"

text \<open>The statistics, the memory the program has changed, and the console with its switch
  restored.\<close>

definition pipe_run ::
    "(nat \<Rightarrow> nat) \<Rightarrow> pipe_config \<Rightarrow> memory \<Rightarrow> console \<Rightarrow> (pipe_stats \<times> memory \<times> console) res option" where
  "pipe_run rnd cfg m con =
     (let prev_silent = cpu_silent con in
      case pipe_init cfg m (silent_con con) of
        Inl e \<Rightarrow> Some (Inl e)
      | Inr p \<Rightarrow>
          map_option (\<lambda>r. res_bind r (\<lambda>p. Inr (pipe_result p, mem (g_cpu (p_gen p)),
            (g_con (p_gen p))\<lparr>cpu_silent := prev_silent\<rparr>))) (pipe_loop rnd cfg p))"

end
