(* ===== verification/PipeSteps.thy ===== *)
theory PipeSteps
  imports Pipeline
begin

text \<open>
  The cycles of the pipeline as a step relation, one rule for each way a cycle can go, and the
  states a run can reach. \<open>pipe_cycle\<close> takes exactly these steps; the configurations for
  which no cycle faults in the caches or the predictor are named here, with the largest
  penalty they can charge.
\<close>

subsection \<open>The step relation\<close>

definition retire :: "pipe \<Rightarrow> pipe" where
  "retire p = (if p_WB p \<noteq> None then p\<lparr>p_retired := p_retired p + 1\<rparr> else p)"

text \<open>The front of the pipeline advances: ID to EX, IF to ID, and one more cycle.\<close>

definition advance :: "pipe \<Rightarrow> pipe" where
  "advance p = p\<lparr>p_EX := p_ID p, p_ID := p_IF p, p_cycles := p_cycles p + 1\<rparr>"

definition stalls :: "pipe_config \<Rightarrow> pipe \<Rightarrow> bool" where
  "stalls cfg p = needs_stall (p_gen p) (p_ID p) (p_EX p) (p_MEM p) (pc_forwarding cfg)"

inductive pipe_step :: "(nat \<Rightarrow> nat) \<Rightarrow> pipe_config \<Rightarrow> pipe \<Rightarrow> pipe \<Rightarrow> bool" for rnd cfg where
  hold: "p_mem_stall p > 0 \<Longrightarrow>
    pipe_step rnd cfg p (p\<lparr>p_cycles := p_cycles p + 1, p_mem_stall := p_mem_stall p - 1,
      p_mem_stalls := p_mem_stalls p + 1\<rparr>)"
| data_stall: "p_mem_stall p \<le> 0 \<Longrightarrow> stalls cfg p \<Longrightarrow> mem_phase rnd cfg p = Inr q \<Longrightarrow>
    pipe_step rnd cfg p (retire (q\<lparr>p_cycles := p_cycles q + 1, p_EX := None,
      p_data_stalls := p_data_stalls q + 1\<rparr>))"
| control_bubble: "p_mem_stall p \<le> 0 \<Longrightarrow> \<not> stalls cfg p \<Longrightarrow> mem_phase rnd cfg p = Inr q \<Longrightarrow>
    p_ctrl q > 0 \<Longrightarrow>
    pipe_step rnd cfg p (retire ((advance q)\<lparr>p_IF := None, p_ctrl := p_ctrl q - 1,
      p_control_stalls := p_control_stalls q + 1\<rparr>))"
| fetch_bubble: "p_mem_stall p \<le> 0 \<Longrightarrow> \<not> stalls cfg p \<Longrightarrow> mem_phase rnd cfg p = Inr q \<Longrightarrow>
    p_ctrl q \<le> 0 \<Longrightarrow> p_fetch_stall q > 0 \<Longrightarrow>
    pipe_step rnd cfg p (retire ((advance q)\<lparr>p_IF := None, p_fetch_stall := p_fetch_stall q - 1,
      p_mem_stalls := p_mem_stalls q + 1\<rparr>))"
| refill: "p_mem_stall p \<le> 0 \<Longrightarrow> \<not> stalls cfg p \<Longrightarrow> mem_phase rnd cfg p = Inr q \<Longrightarrow>
    p_ctrl q \<le> 0 \<Longrightarrow> p_fetch_stall q \<le> 0 \<Longrightarrow> p_pending q = Some k \<Longrightarrow>
    enter_IF k ((advance q)\<lparr>p_pending := None\<rparr>) = Inr r \<Longrightarrow>
    pipe_step rnd cfg p (retire r)"
| fetch_hit: "p_mem_stall p \<le> 0 \<Longrightarrow> \<not> stalls cfg p \<Longrightarrow> mem_phase rnd cfg p = Inr q \<Longrightarrow>
    p_ctrl q \<le> 0 \<Longrightarrow> p_fetch_stall q \<le> 0 \<Longrightarrow> p_pending q = None \<Longrightarrow>
    gen_ensure (p_next q) (p_gen q) = Inr (True, g) \<Longrightarrow>
    icache_fetch rnd cfg (ii_pc (gen_at g (p_next q))) (p_hier q) = Inr (None, h) \<Longrightarrow>
    enter_IF (p_next q) ((advance q)\<lparr>p_gen := g, p_next := p_next q + 1, p_hier := h\<rparr>) = Inr r \<Longrightarrow>
    pipe_step rnd cfg p (retire r)"
| fetch_miss: "p_mem_stall p \<le> 0 \<Longrightarrow> \<not> stalls cfg p \<Longrightarrow> mem_phase rnd cfg p = Inr q \<Longrightarrow>
    p_ctrl q \<le> 0 \<Longrightarrow> p_fetch_stall q \<le> 0 \<Longrightarrow> p_pending q = None \<Longrightarrow>
    gen_ensure (p_next q) (p_gen q) = Inr (True, g) \<Longrightarrow>
    icache_fetch rnd cfg (ii_pc (gen_at g (p_next q))) (p_hier q) = Inr (Some pen, h) \<Longrightarrow>
    pipe_step rnd cfg p (retire ((advance q)\<lparr>p_gen := g, p_next := p_next q + 1, p_hier := h,
      p_pending := Some (p_next q), p_fetch_stall := pen - 1, p_IF := None,
      p_mem_stalls := p_mem_stalls q + 1\<rparr>))"
| drain: "p_mem_stall p \<le> 0 \<Longrightarrow> \<not> stalls cfg p \<Longrightarrow> mem_phase rnd cfg p = Inr q \<Longrightarrow>
    p_ctrl q \<le> 0 \<Longrightarrow> p_fetch_stall q \<le> 0 \<Longrightarrow> p_pending q = None \<Longrightarrow>
    gen_ensure (p_next q) (p_gen q) = Inr (False, g) \<Longrightarrow>
    pipe_step rnd cfg p (retire ((advance q)\<lparr>p_gen := g, p_IF := None\<rparr>))"

text \<open>What the MEM phase changes.\<close>

lemma mem_phase_cases:
  assumes "mem_phase rnd cfg p = Inr q"
  obtains h pen where "q = p\<lparr>p_WB := p_MEM p, p_MEM := p_EX p, p_hier := h,
      p_mem_stall := (case pen of None \<Rightarrow> p_mem_stall p | Some x \<Rightarrow> x)\<rparr>"
    "dcache_access rnd cfg (case p_EX p of None \<Rightarrow> None | Some k \<Rightarrow> ii_mem (gen_at (p_gen p) k)) (p_hier p) = Inr (pen, h)"
  using assms by (fastforce simp: mem_phase_def Let_def res_bind_Inr_iff split: prod.splits option.splits)

lemma mem_phase_cycles:
  "mem_phase rnd cfg (p\<lparr>p_cycles := n\<rparr>) = res_bind (mem_phase rnd cfg p) (\<lambda>q. Inr (q\<lparr>p_cycles := n\<rparr>))"
  by (cases "dcache_access rnd cfg (case p_EX p of None \<Rightarrow> None | Some k \<Rightarrow> ii_mem (gen_at (p_gen p) k)) (p_hier p)")
    (auto simp: mem_phase_def Let_def split: prod.splits option.splits)

lemma mem_phase_cycles_same: "mem_phase rnd cfg p = Inr q \<Longrightarrow> p_cycles q = p_cycles p"
  by (elim mem_phase_cases) simp

text \<open>\<open>pipe_cycle\<close> takes a step.\<close>

lemma pipe_cycle_step:
  assumes c: "pipe_cycle rnd cfg p = Inr p'" shows "pipe_step rnd cfg p p'"
proof (cases "p_mem_stall p > 0")
  case True
  with c show ?thesis using hold [OF True] by (simp add: pipe_cycle_def Let_def)
next
  case False
  then have ms: "p_mem_stall p \<le> 0" by simp
  obtain q where q: "mem_phase rnd cfg p = Inr q"
    using c False by (auto simp: pipe_cycle_def Let_def mem_phase_cycles res_bind_Inr_iff)
  note cyc = mem_phase_cycles_same [OF q]
  show ?thesis
  proof (cases "stalls cfg p")
    case True
    with c ms q cyc have "p' = retire (q\<lparr>p_cycles := p_cycles q + 1, p_EX := None, p_data_stalls := p_data_stalls q + 1\<rparr>)"
      by (simp add: pipe_cycle_def Let_def mem_phase_cycles stalls_def retire_def)
    with data_stall [OF ms True q] show ?thesis by simp
  next
    case ns: False
    have a: "(q\<lparr>p_cycles := p_cycles p + 1\<rparr>)\<lparr>p_EX := p_ID q, p_ID := p_IF q\<rparr> = advance q"
      using cyc by (simp add: advance_def)
    have "res_bind (fetch_phase rnd cfg (advance q)) (\<lambda>p. Inr (retire p)) = Inr p'"
      using c ms q ns a by (simp add: pipe_cycle_def Let_def mem_phase_cycles stalls_def retire_def)
    then obtain r where f: "fetch_phase rnd cfg (advance q) = Inr r" and p': "p' = retire r"
      by (auto simp: res_bind_Inr_iff)
    have adv: "p_ctrl (advance q) = p_ctrl q" "p_fetch_stall (advance q) = p_fetch_stall q"
      "p_pending (advance q) = p_pending q" "p_next (advance q) = p_next q" "p_gen (advance q) = p_gen q"
      "p_hier (advance q) = p_hier q" "p_control_stalls (advance q) = p_control_stalls q"
      "p_mem_stalls (advance q) = p_mem_stalls q" by (simp_all add: advance_def)
    consider "p_ctrl q > 0" | "p_ctrl q \<le> 0" "p_fetch_stall q > 0"
      | k where "p_ctrl q \<le> 0" "p_fetch_stall q \<le> 0" "p_pending q = Some k"
      | "p_ctrl q \<le> 0" "p_fetch_stall q \<le> 0" "p_pending q = None" by fastforce
    then show ?thesis
    proof cases
      case 1
      with control_bubble [OF ms ns q 1] f show ?thesis unfolding p' by (simp add: fetch_phase_def adv)
    next
      case 2
      with fetch_bubble [OF ms ns q 2] f show ?thesis unfolding p' by (simp add: fetch_phase_def adv)
    next
      case 3
      with f have "enter_IF k ((advance q)\<lparr>p_pending := None\<rparr>) = Inr r" by (simp add: fetch_phase_def adv)
      with refill [OF ms ns q 3] show ?thesis unfolding p' by simp
    next
      case 4
      from f 4 obtain more g where g: "gen_ensure (p_next q) (p_gen q) = Inr (more, g)"
        by (auto simp: fetch_phase_def adv res_bind_Inr_iff)
      show ?thesis
      proof (cases more)
        case False
        with g f 4 have "r = (advance q)\<lparr>p_gen := g, p_IF := None\<rparr>" by (simp add: fetch_phase_def adv Let_def)
        with drain [OF ms ns q 4] g False show ?thesis unfolding p' by simp
      next
        case True
        with g True f 4 obtain pen h where h: "icache_fetch rnd cfg (ii_pc (gen_at g (p_next q))) (p_hier q) = Inr (pen, h)"
          by (auto simp: fetch_phase_def adv Let_def res_bind_Inr_iff)
        from g True have g: "gen_ensure (p_next q) (p_gen q) = Inr (True, g)" by simp
        show ?thesis
        proof (cases pen)
          case (Some x)
          with g h f 4 have "r = (advance q)\<lparr>p_gen := g, p_next := p_next q + 1, p_hier := h,
              p_pending := Some (p_next q), p_fetch_stall := x - 1, p_IF := None, p_mem_stalls := p_mem_stalls q + 1\<rparr>"
            by (simp add: fetch_phase_def adv Let_def)
          with fetch_miss [OF ms ns q 4 g h [unfolded Some]] show ?thesis unfolding p' by simp
        next
          case None
          with g h f 4 have "enter_IF (p_next q) ((advance q)\<lparr>p_gen := g, p_next := p_next q + 1, p_hier := h\<rparr>) = Inr r"
            by (simp add: fetch_phase_def adv Let_def)
          with fetch_hit [OF ms ns q 4 g h [unfolded None]] show ?thesis unfolding p' by simp
        qed
      qed
    qed
  qed
qed

subsection \<open>Usable configurations\<close>

definition level_ok :: "cache_config \<Rightarrow> cache option \<Rightarrow> bool" where
  "level_ok cc c = (case c of None \<Rightarrow> \<not> cc_enabled cc | Some c \<Rightarrow> cc_enabled cc \<and> cache_good cc c)"

definition hier_ok :: "pipe_config \<Rightarrow> hierarchy \<Rightarrow> bool" where
  "hier_ok cfg h = (level_ok (pc_icache cfg) (h_ic h) \<and> level_ok (pc_dcache cfg) (h_dc h) \<and> level_ok (pc_l2 cfg) (h_l2 h))"

text \<open>An enabled cache has at least one set.\<close>

definition cache_cfg_ok :: "cache_config \<Rightarrow> bool" where
  "cache_cfg_ok cc = (cc_enabled cc \<longrightarrow> 0 < cc_block cc * cc_assoc cc \<and> cc_block cc * cc_assoc cc \<le> cc_size cc)"

definition pipe_cfg_ok :: "pipe_config \<Rightarrow> bool" where
  "pipe_cfg_ok cfg = (bp_cfg_ok cfg \<and> cache_cfg_ok (pc_icache cfg) \<and> cache_cfg_ok (pc_dcache cfg) \<and>
     cache_cfg_ok (pc_l2 cfg) \<and> - 2147483648 \<le> per_inst cfg \<and> per_inst cfg < 2147483648)"

text \<open>The largest penalty of a miss in a first-level cache.\<close>

definition worst :: "cache_config \<Rightarrow> pipe_config \<Rightarrow> int" where
  "worst l1 cfg = (if cc_enabled l1 then
       (if cc_enabled (pc_l2 cfg) then max (cc_hit_latency (pc_l2 cfg)) (cc_miss_penalty (pc_l2 cfg))
        else cc_miss_penalty l1)
     else 0)"

lemma level_init_returns:
  assumes "cache_cfg_ok cc" shows "returns (level_ok cc) (level_init cc)"
proof (cases "cc_enabled cc")
  case True
  let ?b = "cc_block cc * cc_assoc cc"
  have b: "0 < ?b" "?b \<le> cc_size cc" using assms True by (simp_all add: cache_cfg_ok_def)
  then obtain c where c: "cache_init cc = Inr c" "c_nsets c = cc_size cc div ?b"
    by (simp add: cache_init_def Let_def)
  have "0 < c_nsets c" using b c(2) by (simp add: div_greater_zero_iff)
  with cache_init_good(1) [OF c(1)] c(1) True show ?thesis by (simp add: level_init_def level_ok_def)
qed (simp add: level_init_def level_ok_def)

lemma hierarchy_init_returns:
  assumes "pipe_cfg_ok cfg" shows "returns (hier_ok cfg) (hierarchy_init cfg)"
proof -
  have "cache_cfg_ok (pc_icache cfg)" "cache_cfg_ok (pc_dcache cfg)" "cache_cfg_ok (pc_l2 cfg)"
    using assms by (simp_all add: pipe_cfg_ok_def)
  then obtain i d l where "level_init (pc_icache cfg) = Inr i" "level_ok (pc_icache cfg) i"
    "level_init (pc_dcache cfg) = Inr d" "level_ok (pc_dcache cfg) d"
    "level_init (pc_l2 cfg) = Inr l" "level_ok (pc_l2 cfg) l"
    by (metis returnsE level_init_returns)
  then show ?thesis by (simp add: hierarchy_init_def hier_ok_def)
qed

text \<open>An access returns, keeps the hierarchy usable and costs at most the worst penalty.\<close>

lemma level_access:
  assumes "level_ok cc (Some c)"
  obtains hit c' where "cache_access rnd c a = Inr (hit, c')" "level_ok cc (Some c')"
  using cache_access_good [of cc c rnd a] assms by (auto simp: level_ok_def)

lemma miss_penalty_returns:
  assumes "hier_ok cfg h" "cc_enabled l1"
  shows "returns (\<lambda>(pen, h'). hier_ok cfg h' \<and> pen \<le> worst l1 cfg) (miss_penalty rnd l1 cfg a h)"
proof (cases "h_l2 h")
  case None
  with assms show ?thesis by (simp add: miss_penalty_def worst_def hier_ok_def level_ok_def)
next
  case (Some c)
  with assms(1) have l: "level_ok (pc_l2 cfg) (Some c)" by (simp add: hier_ok_def)
  then have e: "cc_enabled (pc_l2 cfg)" by (simp add: level_ok_def)
  obtain hit c' where "cache_access (rnd (h_draws h)) c a = Inr (hit, c')" "level_ok (pc_l2 cfg) (Some c')"
    using level_access [OF l] .
  with Some e assms show ?thesis by (simp add: miss_penalty_def worst_def hier_ok_def)
qed

lemma icache_fetch_returns:
  assumes "hier_ok cfg h"
  shows "returns (\<lambda>(pen, h'). hier_ok cfg h' \<and> (\<forall>x. pen = Some x \<longrightarrow> x \<le> worst (pc_icache cfg) cfg))
    (icache_fetch rnd cfg a h)"
proof (cases "h_ic h")
  case None
  with assms show ?thesis by (simp add: icache_fetch_def)
next
  case (Some c)
  with assms have l: "level_ok (pc_icache cfg) (Some c)" by (simp add: hier_ok_def)
  then have e: "cc_enabled (pc_icache cfg)" by (simp add: level_ok_def)
  obtain hit c' where c': "cache_access (rnd (h_draws h)) c a = Inr (hit, c')" "level_ok (pc_icache cfg) (Some c')"
    using level_access [OF l] .
  let ?h = "h\<lparr>h_ic := Some c', h_draws := Suc (h_draws h)\<rparr>"
  have h: "hier_ok cfg ?h" using assms c'(2) by (simp add: hier_ok_def)
  show ?thesis using miss_penalty_returns [OF h e, of rnd a]
    by (cases hit) (auto simp: icache_fetch_def Some c' Let_def h elim!: returnsE)
qed

lemma dcache_access_returns:
  assumes "hier_ok cfg h"
  shows "returns (\<lambda>(pen, h'). hier_ok cfg h' \<and> (\<forall>x. pen = Some x \<longrightarrow> a \<noteq> None \<and> x \<le> worst (pc_dcache cfg) cfg))
    (dcache_access rnd cfg a h)"
proof (cases "h_dc h = None \<or> a = None")
  case True
  with assms show ?thesis by (auto simp: dcache_access_def split: option.split)
next
  case False
  then obtain c x where Some: "h_dc h = Some c" "a = Some x" by auto
  with assms have l: "level_ok (pc_dcache cfg) (Some c)" by (simp add: hier_ok_def)
  then have e: "cc_enabled (pc_dcache cfg)" by (simp add: level_ok_def)
  obtain hit c' where c': "cache_access (rnd (h_draws h)) c x = Inr (hit, c')" "level_ok (pc_dcache cfg) (Some c')"
    using level_access [OF l] .
  let ?h = "h\<lparr>h_dc := Some c', h_draws := Suc (h_draws h)\<rparr>"
  have h: "hier_ok cfg ?h" using assms c'(2) by (simp add: hier_ok_def)
  show ?thesis using miss_penalty_returns [OF h e, of rnd x]
    by (cases hit) (auto simp: dcache_access_def Some c' Let_def h elim!: returnsE)
qed

end
