(* ===== verification/PipeCorrect.thy ===== *)
theory PipeCorrect
  imports PipeSteps
begin

text \<open>
  What holds in every state a pipeline run reaches: the in-flight instructions are exactly
  those fetched and not retired, in program order, all inside the generator's window; every
  cycle is accounted for by an instruction, a stall or one of the last four cycles; stalls
  are bounded by the instructions fetched. From these follow the correctness of
  \<open>pipe_run\<close> against the reference run, its termination, its cycle formula and the
  silence of its safety net.
\<close>

subsection \<open>Reachable states\<close>

inductive pipe_reach :: "(nat \<Rightarrow> nat) \<Rightarrow> pipe_config \<Rightarrow> memory \<Rightarrow> console \<Rightarrow> pipe \<Rightarrow> bool" for rnd cfg m con where
  start: "pipe_init cfg m con = Inr p \<Longrightarrow> pipe_reach rnd cfg m con p"
| cycle: "pipe_reach rnd cfg m con p \<Longrightarrow> \<not> pipe_done p \<Longrightarrow> pipe_step rnd cfg p p' \<Longrightarrow> pipe_reach rnd cfg m con p'"

text \<open>The occupied slots of a list, and whether a slot is occupied, as a number.\<close>

definition olist :: "'a option list \<Rightarrow> 'a list" where
  "olist xs = concat (map (\<lambda>x. case x of None \<Rightarrow> [] | Some y \<Rightarrow> [y]) xs)"

definition occ :: "'a option \<Rightarrow> int" where
  "occ x = (case x of None \<Rightarrow> 0 | Some _ \<Rightarrow> 1)"

lemma olist_simps [simp]:
  "olist [] = []" "olist (None # xs) = olist xs" "olist (Some y # xs) = y # olist xs"
  by (simp_all add: olist_def)

lemma occ_simps [simp]: "occ None = 0" "occ (Some y) = 1"
  by (simp_all add: occ_def)

lemma occ_bounds: "0 \<le> occ x" "occ x \<le> 1"
  by (cases x; simp)+

lemma length_olist: "length (olist xs) \<le> length xs"
proof (induction xs)
  case (Cons x xs)
  then show ?case by (cases x) simp_all
qed simp

text \<open>The instructions fetched and not retired, oldest first.\<close>

definition in_flight :: "pipe \<Rightarrow> nat list" where
  "in_flight p = olist [p_MEM p, p_EX p, p_ID p, p_IF p, p_pending p]"

lemma retire_simps [simp]:
  "p_gen (retire p) = p_gen p" "p_fu (retire p) = p_fu p" "p_hier (retire p) = p_hier p"
  "p_IF (retire p) = p_IF p" "p_ID (retire p) = p_ID p" "p_EX (retire p) = p_EX p"
  "p_MEM (retire p) = p_MEM p" "p_WB (retire p) = p_WB p" "p_next (retire p) = p_next p"
  "p_pending (retire p) = p_pending p" "p_ctrl (retire p) = p_ctrl p"
  "p_fetch_stall (retire p) = p_fetch_stall p" "p_mem_stall (retire p) = p_mem_stall p"
  "p_cycles (retire p) = p_cycles p" "p_data_stalls (retire p) = p_data_stalls p"
  "p_control_stalls (retire p) = p_control_stalls p" "p_mem_stalls (retire p) = p_mem_stalls p"
  "int (p_retired (retire p)) = int (p_retired p) + occ (p_WB p)"
  by (auto simp: retire_def occ_def)

lemma enter_IF_cases:
  assumes "enter_IF k p = Inr r"
  obtains pen fu where "control_of (p_fu p) (gen_at (p_gen p) k) = Inr (pen, fu)"
    "r = p\<lparr>p_IF := Some k, p_ctrl := (if ii_is_control (gen_at (p_gen p) k) \<or> ii_taken_control (gen_at (p_gen p) k)
       then pen else p_ctrl p), p_fu := fu\<rparr>"
proof (cases "ii_is_control (gen_at (p_gen p) k) \<or> ii_taken_control (gen_at (p_gen p) k)")
  case True
  then obtain pen fu where "control_penalty (p_fu p) (gen_at (p_gen p) k) = Inr (pen, fu)"
    "r = p\<lparr>p_IF := Some k, p_ctrl := pen, p_fu := fu\<rparr>"
    using assms by (auto simp: enter_IF_def Let_def res_bind_Inr_iff)
  with True that show thesis by (simp add: control_of_def)
next
  case False
  with assms have "r = p\<lparr>p_IF := Some k\<rparr>" by (simp add: enter_IF_def Let_def)
  with False that [of 0 "p_fu p"] show thesis by (simp add: control_of_def)
qed

subsection \<open>The environment of the latches\<close>

definition env_ok :: "pipe_config \<Rightarrow> memory \<Rightarrow> console \<Rightarrow> pipe \<Rightarrow> bool" where
  "env_ok cfg m con p = (gen_ok m con (p_gen p) \<and> p_next p = g_count (p_gen p) \<and> fu_ok (p_fu p) \<and>
     hier_ok cfg (p_hier p))"

lemma gen_ensure_more:
  assumes "gen_ok m con g" "gen_ensure (g_count g) g = Inr (True, g')"
  shows "\<not> g_done g" "gen_one g = Inr g'" "gen_ok m con g'" "g_count g' = Suc (g_count g)"
proof -
  show d: "\<not> g_done g" and o: "gen_one g = Inr g'"
    using assms(2) gen_ensure_next [of g, OF refl] by (auto simp: res_bind_Inr_iff split: if_splits)
  show "gen_ok m con g'" "g_count g' = Suc (g_count g)" using gen_one_ok [OF assms(1) d o] .
qed

lemma gen_ensure_end:
  assumes "gen_ensure (g_count g) g = Inr (False, g')" shows "g_done g" "g' = g"
  using assms gen_ensure_next [of g, OF refl] by (auto simp: res_bind_Inr_iff split: if_splits)

lemma fu_ok_control: "control_of fu d = Inr (pen, fu') \<Longrightarrow> fu_ok fu \<Longrightarrow> fu_ok fu' \<and> (pen = 0 \<or> pen = CONTROL_PENALTY)"
  using control_of_returns [of fu d] by simp

lemma dcache_access_hier:
  "dcache_access rnd cfg a h = Inr (pen, h') \<Longrightarrow> hier_ok cfg h \<Longrightarrow>
   hier_ok cfg h' \<and> (\<forall>x. pen = Some x \<longrightarrow> a \<noteq> None \<and> x \<le> worst (pc_dcache cfg) cfg)"
  using dcache_access_returns [of cfg h a rnd] by simp

lemma mem_phase_env:
  assumes "env_ok cfg m con p" "mem_phase rnd cfg p = Inr q" shows "env_ok cfg m con q"
  using assms(2)
proof (cases rule: mem_phase_cases)
  case (1 h pen)
  with assms(1) dcache_access_hier [OF 1(2)] show ?thesis by (simp add: env_ok_def)
qed

lemma icache_fetch_hier:
  "icache_fetch rnd cfg a h = Inr (pen, h') \<Longrightarrow> hier_ok cfg h \<Longrightarrow> hier_ok cfg h'"
  using icache_fetch_returns [of cfg h rnd a] by simp

lemma env_ok_step:
  assumes "pipe_step rnd cfg p p'" "env_ok cfg m con p" shows "env_ok cfg m con p'"
  using assms(1)
proof cases
  case (refill q k r)
  have q: "env_ok cfg m con q" using mem_phase_env [OF assms(2)] refill by blast
  from refill(8) show ?thesis
  proof (cases rule: enter_IF_cases)
    case (1 pen fu)
    with q refill(1) fu_ok_control [OF 1(1)] show ?thesis by (auto simp: env_ok_def advance_def)
  qed
next
  case (fetch_hit q g h r)
  have q: "env_ok cfg m con q" using mem_phase_env [OF assms(2)] fetch_hit by blast
  then have e: "gen_ensure (g_count (p_gen q)) (p_gen q) = Inr (True, g)" "gen_ok m con (p_gen q)"
    using fetch_hit by (simp_all add: env_ok_def)
  note g = gen_ensure_more [OF e(2,1)] and h = icache_fetch_hier [OF fetch_hit(9)]
  from fetch_hit(10) show ?thesis
  proof (cases rule: enter_IF_cases)
    case (1 pen fu)
    with q fetch_hit(1) g h fu_ok_control [OF 1(1)] show ?thesis by (auto simp: env_ok_def advance_def)
  qed
next
  case (fetch_miss q g pen h)
  have q: "env_ok cfg m con q" using mem_phase_env [OF assms(2)] fetch_miss by blast
  then have e: "gen_ensure (g_count (p_gen q)) (p_gen q) = Inr (True, g)" "gen_ok m con (p_gen q)"
    using fetch_miss by (simp_all add: env_ok_def)
  note g = gen_ensure_more [OF e(2,1)] and h = icache_fetch_hier [OF fetch_miss(9)]
  with q fetch_miss(1) show ?thesis by (simp add: env_ok_def advance_def)
next
  case (drain q g)
  have q: "env_ok cfg m con q" using mem_phase_env [OF assms(2)] drain by blast
  then have "g = p_gen q" using drain gen_ensure_end [of "p_gen q" g] by (simp add: env_ok_def)
  with q drain(1) show ?thesis by (simp add: env_ok_def advance_def)
qed (use assms(2) mem_phase_env [OF assms(2)] in \<open>auto simp: env_ok_def advance_def\<close>)

subsection \<open>Program order\<close>

definition order_ok :: "pipe \<Rightarrow> bool" where
  "order_ok p = (in_flight p = [p_retired p..<p_next p] \<and> p_retired p \<le> p_next p)"

lemma olist_Cons: "olist (x # xs) = (case x of None \<Rightarrow> [] | Some y \<Rightarrow> [y]) @ olist xs"
  by (cases x) simp_all

lemma olist_pop:
  assumes "olist (x # xs) = [r..<n]" "r \<le> n"
  shows "olist xs = [(if x = None then r else Suc r)..<n]" "(if x = None then r else Suc r) \<le> n"
  using assms by (cases x; auto simp: upt_eq_Cons_conv eq_commute [of _ "[r..<n]"])+

lemma retired_retire: "p_retired (retire p) = (if p_WB p = None then p_retired p else Suc (p_retired p))"
  by (simp add: retire_def)

lemma mem_phase_order:
  assumes "order_ok p" "mem_phase rnd cfg p = Inr q"
  shows "olist [p_EX p, p_ID p, p_IF p, p_pending p] = [p_retired (retire q)..<p_next p]"
    "p_retired (retire q) \<le> p_next p"
    "p_MEM q = p_EX p" "p_WB q = p_MEM p" "p_ID q = p_ID p" "p_IF q = p_IF p" "p_pending q = p_pending p"
    "p_next q = p_next p" "p_retired q = p_retired p"
  using olist_pop [of "p_MEM p" "[p_EX p, p_ID p, p_IF p, p_pending p]" "p_retired p" "p_next p"] assms
  by (auto simp: order_ok_def in_flight_def retired_retire elim!: mem_phase_cases)

lemma order_ok_step:
  assumes "pipe_step rnd cfg p p'" "order_ok p" shows "order_ok p'"
  using assms(1)
proof cases
  case hold
  with assms(2) show ?thesis by (simp add: order_ok_def in_flight_def)
next
  case (refill q k r)
  note m = mem_phase_order [OF assms(2) refill(4)]
  from refill(8) show ?thesis
  proof (cases rule: enter_IF_cases)
    case (1 pen fu)
    with m refill(1,7) show ?thesis
      by (auto simp: order_ok_def in_flight_def retired_retire advance_def olist_Cons split: if_splits)
  qed
next
  case (fetch_hit q g h r)
  note m = mem_phase_order [OF assms(2) fetch_hit(4)]
  from fetch_hit(10) show ?thesis
  proof (cases rule: enter_IF_cases)
    case (1 pen fu)
    with m fetch_hit(1,7) show ?thesis
      by (auto simp: order_ok_def in_flight_def retired_retire advance_def olist_Cons split: if_splits)
  qed
next
  case (fetch_miss q g pen h)
  note m = mem_phase_order [OF assms(2) fetch_miss(4)]
  with fetch_miss(1,7) show ?thesis
    by (auto simp: order_ok_def in_flight_def retired_retire advance_def olist_Cons split: if_splits)
next
  case (data_stall q)
  note m = mem_phase_order [OF assms(2) data_stall(4)]
  with data_stall(1) show ?thesis
    by (auto simp: order_ok_def in_flight_def retired_retire advance_def olist_Cons split: if_splits)
next
  case (control_bubble q)
  note m = mem_phase_order [OF assms(2) control_bubble(4)]
  with control_bubble(1) show ?thesis
    by (auto simp: order_ok_def in_flight_def retired_retire advance_def olist_Cons split: if_splits)
next
  case (fetch_bubble q)
  note m = mem_phase_order [OF assms(2) fetch_bubble(4)]
  with fetch_bubble(1) show ?thesis
    by (auto simp: order_ok_def in_flight_def retired_retire advance_def olist_Cons split: if_splits)
next
  case (drain q g)
  note m = mem_phase_order [OF assms(2) drain(4)]
  with drain(1,7) show ?thesis
    by (auto simp: order_ok_def in_flight_def retired_retire advance_def olist_Cons split: if_splits)
qed

subsection \<open>Every cycle is accounted for\<close>

text \<open>
  \<open>drained\<close> is the number of cycles that neither bring an instruction into IF nor count as a
  stall, \<open>age\<close> the number of empty slots behind the youngest instruction.
\<close>

definition drained :: "pipe \<Rightarrow> int" where
  "drained p = int (p_cycles p) - (int (p_next p) - occ (p_pending p)) - int (p_data_stalls p)
     - int (p_control_stalls p) - int (p_mem_stalls p)"

definition age :: "pipe \<Rightarrow> int" where
  "age p = (if p_pending p \<noteq> None \<or> p_IF p \<noteq> None then 0 else if p_ID p \<noteq> None then 1
     else if p_EX p \<noteq> None then 2 else if p_MEM p \<noteq> None then 3 else 4)"

definition acct_ok :: "pipe \<Rightarrow> bool" where
  "acct_ok p = ((\<not> g_done (p_gen p) \<longrightarrow> drained p = 0) \<and> 0 \<le> drained p \<and> drained p \<le> age p \<and>
     (halted (g_cpu (p_gen p)) \<longrightarrow> drained p = age p \<and> p_ctrl p \<le> 0 \<and>
        (p_pending p = None \<longrightarrow> p_fetch_stall p \<le> 0)))"

lemma last_not_control:
  assumes ok: "gen_ok m con g" and h: "halted (g_cpu g)" and c: "g_count g = Suc k"
  shows "\<not> ii_is_control (gen_at g k) \<and> \<not> ii_taken_control (gen_at g k)"
proof -
  have "dyn_inst k (cpu_init m) con (gen_at g k)" using ok c by (simp add: gen_ok_def WIN_CAP_def)
  then obtain s1 c1 raw s2 c2 where d: "cpu_steps k (cpu_init m) con = Inr (s1, c1)" "\<not> halted s1"
    "mem_read32 (mem s1) (pc s1) = Inr raw" "cpu_step s1 c1 = Inr (s2, c2)" "gen_at g k = info_of s1 raw s2"
    unfolding dyn_inst_def by blast
  have "cpu_step s1 c1 = Inr (g_cpu g, g_con g)"
    using cpu_steps_Suc_end [OF d(1,2)] ok c by (simp add: gen_ok_def)
  with d h halt_not_control [OF d(3,4,2)] show ?thesis by simp
qed

lemma pending_last:
  assumes "order_ok p" "p_pending p = Some k" shows "p_next p = Suc k"
proof -
  have "last (in_flight p) = k" using assms(2) by (simp add: in_flight_def olist_Cons)
  moreover have "in_flight p \<noteq> []" using assms(2) by (simp add: in_flight_def olist_Cons)
  ultimately show ?thesis using assms(1) by (auto simp: order_ok_def last_upt)
qed

lemma mem_phase_fields:
  assumes "mem_phase rnd cfg p = Inr q"
  shows "p_MEM q = p_EX p" "p_WB q = p_MEM p" "p_ID q = p_ID p" "p_IF q = p_IF p" "p_EX q = p_EX p"
    "p_pending q = p_pending p" "p_next q = p_next p" "p_retired q = p_retired p" "p_gen q = p_gen p"
    "p_fu q = p_fu p" "p_ctrl q = p_ctrl p" "p_fetch_stall q = p_fetch_stall p" "p_cycles q = p_cycles p"
    "p_data_stalls q = p_data_stalls p" "p_control_stalls q = p_control_stalls p" "p_mem_stalls q = p_mem_stalls p"
  using assms by (auto elim!: mem_phase_cases)

lemma stalls_slots:
  "stalls cfg p \<Longrightarrow> p_ID p \<noteq> None" "stalls cfg p \<Longrightarrow> p_EX p \<noteq> None \<or> p_MEM p \<noteq> None"
  by (auto simp: stalls_def needs_stall_def list_ex_iff split: option.splits if_splits)

text \<open>A cycle that lets nothing new into IF moves the youngest instruction on by one slot.\<close>

lemma age_bubble:
  assumes "p_MEM p' = p_EX p" "p_EX p' = p_ID p" "p_ID p' = p_IF p" "p_IF p' = None" "p_pending p' = p_pending p"
  shows "age p' = (if p_pending p = None then min 4 (age p + 1) else 0)"
  using assms by (cases "p_pending p"; cases "p_IF p"; cases "p_ID p"; cases "p_EX p") (simp_all add: age_def)

lemma age_zero: "p_IF p \<noteq> None \<or> p_pending p \<noteq> None \<Longrightarrow> age p = 0"
  by (auto simp: age_def)

lemma age_bounds: "0 \<le> age p" "age p \<le> 4"
  by (simp_all add: age_def)

lemma age_three: "in_flight p \<noteq> [] \<Longrightarrow> age p \<le> 3"
  by (auto simp: in_flight_def age_def olist_Cons split: option.splits)

lemma acct_ok_step:
  assumes step: "pipe_step rnd cfg p p'" and env: "env_ok cfg m con p" and ord: "order_ok p"
    and nd: "\<not> pipe_done p" and ok: "acct_ok p"
  shows "acct_ok p'"
proof -
  have gen: "gen_ok m con (p_gen p)" "p_next p = g_count (p_gen p)" using env by (simp_all add: env_ok_def)
  note b = age_bounds [of p]
  from step show ?thesis
  proof cases
    case hold
    then have "drained p' = drained p" "age p' = age p" by (simp_all add: drained_def age_def)
    with ok hold show ?thesis by (simp add: acct_ok_def)
  next
    case (data_stall q)
    note q = mem_phase_fields [OF data_stall(4)]
    have "p_ID p \<noteq> None" using data_stall(3) by (rule stalls_slots)
    with q data_stall(1) have "drained p' = drained p" "age p' = age p"
      by (simp_all add: drained_def age_def)
    with ok q data_stall(1) show ?thesis by (simp add: acct_ok_def)
  next
    case (control_bubble q)
    note q = mem_phase_fields [OF control_bubble(4)]
    with control_bubble(1) have "drained p' = drained p" "age p' = (if p_pending p = None then min 4 (age p + 1) else 0)"
      by (simp_all add: drained_def advance_def age_bubble)
    with ok b q control_bubble show ?thesis by (auto simp: acct_ok_def advance_def age_zero)
  next
    case (fetch_bubble q)
    note q = mem_phase_fields [OF fetch_bubble(4)]
    with fetch_bubble(1) have "drained p' = drained p" "age p' = (if p_pending p = None then min 4 (age p + 1) else 0)"
      by (simp_all add: drained_def advance_def age_bubble)
    with ok b q fetch_bubble show ?thesis by (auto simp: acct_ok_def advance_def age_zero)
  next
    case (refill q k r)
    note q = mem_phase_fields [OF refill(4)]
    have pk: "p_pending p = Some k" using q refill(7) by simp
    have last: "halted (g_cpu (p_gen p)) \<Longrightarrow>
        \<not> ii_is_control (gen_at (p_gen p) k) \<and> \<not> ii_taken_control (gen_at (p_gen p) k)"
      using last_not_control [OF gen(1)] pending_last [OF ord pk] gen(2) by simp
    from refill(8) show ?thesis
    proof (cases rule: enter_IF_cases)
      case (1 pen fu)
      with q refill(1) pk have "drained p' = drained p" by (simp add: drained_def advance_def)
      moreover have "age p' = 0" "age p = 0" using 1 pk refill(1) by (simp_all add: age_zero)
      ultimately show ?thesis using ok q refill(1,5,6) last 1 by (auto simp: acct_ok_def advance_def)
    qed
  next
    case (fetch_hit q g h r)
    note q = mem_phase_fields [OF fetch_hit(4)]
    have e: "gen_ensure (g_count (p_gen p)) (p_gen p) = Inr (True, g)" using fetch_hit q gen by simp
    note g = gen_ensure_more [OF gen(1) e]
    have last: "halted (g_cpu g) \<Longrightarrow>
        \<not> ii_is_control (gen_at g (p_next p)) \<and> \<not> ii_taken_control (gen_at g (p_next p))"
      using last_not_control [OF g(3)] g(4) gen(2) by simp
    from fetch_hit(10) show ?thesis
    proof (cases rule: enter_IF_cases)
      case (1 pen fu)
      with q fetch_hit(1,7) have "drained p' = drained p" by (simp add: drained_def advance_def)
      moreover have "age p' = 0" using 1 fetch_hit(1) by (simp add: age_zero)
      ultimately show ?thesis using ok q fetch_hit(1,5-7) last g(1) 1 by (auto simp: acct_ok_def advance_def)
    qed
  next
    case (fetch_miss q g pen h)
    note q = mem_phase_fields [OF fetch_miss(4)]
    have e: "gen_ensure (g_count (p_gen p)) (p_gen p) = Inr (True, g)" using fetch_miss q gen by simp
    have "drained p' = drained p" using q fetch_miss(1,7) by (simp add: drained_def advance_def)
    moreover have "age p' = 0" using fetch_miss(1) by (simp add: age_zero)
    ultimately show ?thesis
      using ok q fetch_miss(1,5-7) gen_ensure_more(1) [OF gen(1) e] by (auto simp: acct_ok_def advance_def)
  next
    case (drain q g)
    note q = mem_phase_fields [OF drain(4)]
    have e: "gen_ensure (g_count (p_gen p)) (p_gen p) = Inr (False, g)" using drain q gen by simp
    note g = gen_ensure_end [OF e]
    have "in_flight p \<noteq> []" using nd g(1) ord gen(2) by (auto simp: pipe_done_def order_ok_def)
    then have "age p \<le> 3" by (rule age_three)
    with q drain(1,7) have "drained p' = drained p + 1" "age p' = age p + 1"
      by (simp_all add: drained_def advance_def age_bubble)
    with ok q drain(1,5-7) g show ?thesis by (auto simp: acct_ok_def advance_def)
  qed
qed

subsection \<open>Stalls are bounded by the instructions\<close>

text \<open>\<open>pot\<close> is the number of data stalls the instruction in ID can still suffer.\<close>

definition pot :: "pipe \<Rightarrow> int" where
  "pot p = (if p_EX p \<noteq> None then 2 else occ (p_MEM p))"

definition worst_d :: "pipe_config \<Rightarrow> int" where "worst_d cfg = max 0 (worst (pc_dcache cfg) cfg)"
definition worst_i :: "pipe_config \<Rightarrow> int" where "worst_i cfg = max 1 (worst (pc_icache cfg) cfg)"

definition data_ok :: "pipe \<Rightarrow> bool" where
  "data_ok p = (int (p_data_stalls p) + pot p \<le> 2 * (int (p_retired p) + occ (p_MEM p) + occ (p_EX p)))"

definition control_ok :: "pipe \<Rightarrow> bool" where
  "control_ok p = (int (p_control_stalls p) + max 0 (p_ctrl p) \<le> 2 * (int (p_next p) - occ (p_pending p)))"

definition mem_ok :: "pipe_config \<Rightarrow> pipe \<Rightarrow> bool" where
  "mem_ok cfg p = (int (p_mem_stalls p) + max 0 (p_mem_stall p) + max 0 (p_fetch_stall p)
     \<le> worst_d cfg * (int (p_retired p) + occ (p_MEM p)) + worst_i cfg * int (p_next p))"

lemma mem_phase_frame:
  assumes "mem_phase rnd cfg p = Inr q"
  shows "p_MEM q = p_EX p \<and> p_WB q = p_MEM p \<and> p_ID q = p_ID p \<and> p_retired q = p_retired p \<and>
    p_data_stalls q = p_data_stalls p"
  by (simp add: mem_phase_fields [OF assms])

lemma data_ok_advance:
  assumes "data_ok p" "p_MEM p' = p_EX p" "p_EX p' = p_ID p" "p_data_stalls p' = p_data_stalls p"
    "int (p_retired p') = int (p_retired p) + occ (p_MEM p)"
  shows "data_ok p'"
  using assms by (cases "p_MEM p"; cases "p_EX p"; cases "p_ID p") (auto simp: data_ok_def pot_def)

lemma data_ok_step:
  assumes "pipe_step rnd cfg p p'" "data_ok p" shows "data_ok p'"
  using assms(1)
proof cases
  case hold
  then have "pot p' = pot p" by (simp add: pot_def)
  with hold assms(2) show ?thesis by (simp add: data_ok_def)
next
  case (data_stall q)
  note q = mem_phase_fields [OF data_stall(4)]
  with stalls_slots(2) [OF data_stall(3)] assms(2) data_stall(1) show ?thesis
    by (cases "p_EX p"; cases "p_MEM p") (auto simp: data_ok_def pot_def)
next
  case (refill q k r)
  from refill(8) mem_phase_fields [OF refill(4)] refill(1) show ?thesis
    by (auto elim!: enter_IF_cases intro!: data_ok_advance [OF assms(2)] simp: advance_def)
next
  case (fetch_hit q g h r)
  from fetch_hit(10) mem_phase_fields [OF fetch_hit(4)] fetch_hit(1) show ?thesis
    by (auto elim!: enter_IF_cases intro!: data_ok_advance [OF assms(2)] simp: advance_def)
qed (auto dest!: mem_phase_frame intro!: data_ok_advance [OF assms(2)] simp: advance_def)

lemma control_ok_step:
  assumes "pipe_step rnd cfg p p'" "control_ok p" "fu_ok (p_fu p)" shows "control_ok p'"
  using assms(1)
proof cases
  case (refill q k r)
  note q = mem_phase_fields [OF refill(4)]
  have pk: "p_pending p = Some k" using q refill(7) by simp
  from refill(8) show ?thesis
  proof (cases rule: enter_IF_cases)
    case (1 pen fu)
    have "pen \<le> 2" using fu_ok_control [OF 1(1)] assms(3) q by (auto simp: advance_def CONTROL_PENALTY_def)
    with 1 q refill(1,5) pk assms(2) show ?thesis by (auto simp: control_ok_def advance_def)
  qed
next
  case (fetch_hit q g h r)
  note q = mem_phase_fields [OF fetch_hit(4)]
  from fetch_hit(10) show ?thesis
  proof (cases rule: enter_IF_cases)
    case (1 pen fu)
    have "pen \<le> 2" using fu_ok_control [OF 1(1)] assms(3) q by (auto simp: advance_def CONTROL_PENALTY_def)
    with 1 q fetch_hit(1,5,7) assms(2) show ?thesis by (auto simp: control_ok_def advance_def)
  qed
next
  case (data_stall q)
  with assms(2) mem_phase_fields [OF data_stall(4)] show ?thesis by (simp add: control_ok_def)
next
  case (control_bubble q)
  with assms(2) mem_phase_fields [OF control_bubble(4)] show ?thesis by (simp add: control_ok_def advance_def)
next
  case (fetch_bubble q)
  with assms(2) mem_phase_fields [OF fetch_bubble(4)] show ?thesis by (simp add: control_ok_def advance_def)
next
  case (fetch_miss q g pen h)
  with assms(2) mem_phase_fields [OF fetch_miss(4)] show ?thesis by (simp add: control_ok_def advance_def)
next
  case (drain q g)
  with assms(2) mem_phase_fields [OF drain(4)] show ?thesis by (simp add: control_ok_def advance_def)
qed (use assms(2) in \<open>simp add: control_ok_def\<close>)

lemma mem_phase_mem:
  assumes "mem_phase rnd cfg p = Inr q" "hier_ok cfg (p_hier p)" "p_mem_stall p \<le> 0"
  shows "max 0 (p_mem_stall q) \<le> worst_d cfg * occ (p_EX p)" "hier_ok cfg (p_hier q)"
  using assms(1)
proof -
  from assms(1) show "max 0 (p_mem_stall q) \<le> worst_d cfg * occ (p_EX p)"
  proof (cases rule: mem_phase_cases)
    case (1 h pen)
    have "0 \<le> worst_d cfg * occ (p_EX p)" by (simp add: worst_d_def occ_def split: option.split)
    with 1 dcache_access_hier [OF 1(2) assms(2)] assms(3) show ?thesis
      by (cases pen; cases "p_EX p") (auto simp: worst_d_def)
  qed
  from assms(1) show "hier_ok cfg (p_hier q)"
    by (cases rule: mem_phase_cases) (use dcache_access_hier assms(2) in auto)
qed

lemma mem_ok_step:
  assumes "pipe_step rnd cfg p p'" "mem_ok cfg p" "hier_ok cfg (p_hier p)" shows "mem_ok cfg p'"
  using assms(1)
proof cases
  case hold
  with assms(2) show ?thesis by (simp add: mem_ok_def)
next
  case (refill q k r)
  note q = mem_phase_fields [OF refill(4)] mem_phase_mem(1) [OF refill(4) assms(3) refill(2)]
  from refill(8) q refill(1,2) assms(2) show ?thesis
    by (auto elim!: enter_IF_cases simp: mem_ok_def advance_def distrib_left del: max.bounded_iff)
next
  case (fetch_hit q g h r)
  note q = mem_phase_fields [OF fetch_hit(4)] mem_phase_mem(1) [OF fetch_hit(4) assms(3) fetch_hit(2)]
  have "0 \<le> worst_i cfg" by (simp add: worst_i_def)
  with fetch_hit(10) q fetch_hit(1,2) assms(2) show ?thesis
    by (auto elim!: enter_IF_cases simp: mem_ok_def advance_def distrib_left del: max.bounded_iff)
next
  case (fetch_miss q g pen h)
  note q = mem_phase_fields [OF fetch_miss(4)] mem_phase_mem [OF fetch_miss(4) assms(3) fetch_miss(2)]
  have "pen \<le> worst (pc_icache cfg) cfg"
    using icache_fetch_returns [OF q(18), of rnd "ii_pc (gen_at g (p_next q))"] fetch_miss(9) by simp
  then have "1 + max 0 (pen - 1) \<le> worst_i cfg" by (simp add: worst_i_def)
  with q fetch_miss(1,2,6) assms(2) show ?thesis
    by (simp add: mem_ok_def advance_def distrib_left del: max.bounded_iff)
next
  case (data_stall q)
  note q = mem_phase_fields [OF data_stall(4)] mem_phase_mem(1) [OF data_stall(4) assms(3) data_stall(2)]
  with data_stall(1,2) assms(2) show ?thesis by (simp add: mem_ok_def advance_def distrib_left del: max.bounded_iff)
next
  case (control_bubble q)
  note q = mem_phase_fields [OF control_bubble(4)] mem_phase_mem(1) [OF control_bubble(4) assms(3) control_bubble(2)]
  with control_bubble(1,2) assms(2) show ?thesis by (simp add: mem_ok_def advance_def distrib_left del: max.bounded_iff)
next
  case (fetch_bubble q)
  note q = mem_phase_fields [OF fetch_bubble(4)] mem_phase_mem(1) [OF fetch_bubble(4) assms(3) fetch_bubble(2)]
  with fetch_bubble(1,2,6) assms(2) show ?thesis by (simp add: mem_ok_def advance_def distrib_left del: max.bounded_iff)
next
  case (drain q g)
  note q = mem_phase_fields [OF drain(4)] mem_phase_mem(1) [OF drain(4) assms(3) drain(2)]
  with drain(1,2) assms(2) show ?thesis by (simp add: mem_ok_def advance_def distrib_left del: max.bounded_iff)
qed

end
