(* ===== verification/PipeRun.thy ===== *)
theory PipeRun
  imports PipeCorrect
begin

text \<open>
  The guarantees of \<open>pipe_run\<close> as a whole: it returns for every usable configuration, with
  the architectural state the reference processor reaches, its cycle count obeys the
  formula the accounting invariant gives, and the safety net is never what ends it when the
  second-level latencies stay within the penalties the net is computed from.
\<close>

subsection \<open>The invariant of a run\<close>

definition pipe_inv :: "pipe_config \<Rightarrow> memory \<Rightarrow> console \<Rightarrow> pipe \<Rightarrow> bool" where
  "pipe_inv cfg m con p = (env_ok cfg m con p \<and> order_ok p \<and> acct_ok p \<and> data_ok p \<and> control_ok p \<and> mem_ok cfg p)"

lemma pipe_init_inv:
  assumes "pipe_cfg_ok cfg" "pipe_init cfg m con = Inr p" shows "pipe_inv cfg m con p"
proof -
  obtain fu h where fu: "fetch_unit_init cfg = Inr fu" "fu_ok fu" and h: "hierarchy_init cfg = Inr h" "hier_ok cfg h"
    using assms(1) fetch_unit_init_returns [of cfg] hierarchy_init_returns [of cfg]
    by (auto simp: pipe_cfg_ok_def elim!: returnsE)
  with assms have "p = \<lparr>p_gen = gen_init m con, p_fu = fu, p_hier = h,
         p_IF = None, p_ID = None, p_EX = None, p_MEM = None, p_WB = None,
         p_next = 0, p_retired = 0, p_pending = None,
         p_ctrl = 0, p_fetch_stall = 0, p_mem_stall = 0,
         p_cycles = 0, p_data_stalls = 0, p_control_stalls = 0, p_mem_stalls = 0\<rparr>"
    by (simp add: pipe_init_def pipe_cfg_ok_def)
  then show ?thesis
    using fu(2) h(2) gen_init_ok [of m con]
    by (simp add: pipe_inv_def env_ok_def order_ok_def in_flight_def acct_ok_def drained_def age_def
        data_ok_def pot_def control_ok_def mem_ok_def gen_init_def cpu_init_def)
qed

lemma pipe_init_returns:
  assumes "pipe_cfg_ok cfg" shows "\<exists>p. pipe_init cfg m con = Inr p"
proof -
  obtain fu h where "fetch_unit_init cfg = Inr fu" "hierarchy_init cfg = Inr h"
    using assms fetch_unit_init_returns [of cfg] hierarchy_init_returns [of cfg]
    by (auto simp: pipe_cfg_ok_def elim!: returnsE)
  with assms show ?thesis by (simp add: pipe_init_def pipe_cfg_ok_def)
qed

lemma env_ok_parts:
  assumes "env_ok cfg m con p" shows "fu_ok (p_fu p)" "hier_ok cfg (p_hier p)"
  using assms by (simp_all add: env_ok_def)

lemma pipe_step_inv:
  "pipe_step rnd cfg p p' \<Longrightarrow> \<not> pipe_done p \<Longrightarrow> pipe_inv cfg m con p \<Longrightarrow> pipe_inv cfg m con p'"
  using env_ok_step order_ok_step acct_ok_step data_ok_step control_ok_step mem_ok_step env_ok_parts
  unfolding pipe_inv_def by metis

lemma pipe_reach_inv: "pipe_reach rnd cfg m con p \<Longrightarrow> pipe_cfg_ok cfg \<Longrightarrow> pipe_inv cfg m con p"
  by (induction rule: pipe_reach.induct) (auto intro: pipe_init_inv pipe_step_inv)

lemma in_flight_count: "order_ok p \<Longrightarrow> int (p_retired p) + occ (p_MEM p) + occ (p_EX p) \<le> int (p_next p)"
proof -
  assume ok: "order_ok p"
  have "length (in_flight p) = p_next p - p_retired p" "p_retired p \<le> p_next p"
    using ok by (simp_all add: order_ok_def)
  moreover have "occ (p_MEM p) + occ (p_EX p) \<le> int (length (in_flight p))"
    by (simp add: in_flight_def olist_Cons occ_def split: option.split)
  ultimately show ?thesis by linarith
qed

text \<open>The cycles spent so far, per instruction fetched.\<close>

definition inst_cost :: "pipe_config \<Rightarrow> int" where
  "inst_cost cfg = 5 + worst_d cfg + worst_i cfg"

lemma stall_bounds:
  assumes "pipe_inv cfg m con p"
  shows "int (p_data_stalls p) \<le> 2 * int (p_next p)"
    "int (p_control_stalls p) \<le> 2 * (int (p_next p) - occ (p_pending p))"
    "int (p_mem_stalls p) \<le> worst_d cfg * int (p_next p) + worst_i cfg * int (p_next p)"
proof -
  have inv: "order_ok p" "data_ok p" "control_ok p" "mem_ok cfg p" using assms by (simp_all add: pipe_inv_def)
  have r: "int (p_retired p) + occ (p_MEM p) + occ (p_EX p) \<le> int (p_next p)" by (rule in_flight_count [OF inv(1)])
  have "0 \<le> pot p" by (simp add: pot_def occ_bounds)
  with r inv(2) show "int (p_data_stalls p) \<le> 2 * int (p_next p)" by (simp add: data_ok_def)
  show "int (p_control_stalls p) \<le> 2 * (int (p_next p) - occ (p_pending p))"
    using inv(3) unfolding control_ok_def by linarith
  have "int (p_retired p) + occ (p_MEM p) \<le> int (p_next p)" using r occ_bounds(1) [of "p_EX p"] by linarith
  then have "worst_d cfg * (int (p_retired p) + occ (p_MEM p)) \<le> worst_d cfg * int (p_next p)"
    by (rule mult_left_mono) (simp add: worst_d_def)
  with inv(4) show "int (p_mem_stalls p) \<le> worst_d cfg * int (p_next p) + worst_i cfg * int (p_next p)"
    unfolding mem_ok_def by linarith
qed

lemma cycles_bound:
  assumes "pipe_inv cfg m con p" shows "int (p_cycles p) \<le> int (p_next p) * inst_cost cfg + 4"
proof -
  have "drained p \<le> age p" using assms by (simp add: pipe_inv_def acct_ok_def)
  with age_bounds(2) [of p] stall_bounds [OF assms] occ_bounds(1) [of "p_pending p"] show ?thesis
    by (simp add: drained_def inst_cost_def algebra_simps)
qed

text \<open>The most a run can take: the generator stops after \<open>GEN_LIMIT\<close> instructions.\<close>

definition max_cycles :: "pipe_config \<Rightarrow> nat" where
  "max_cycles cfg = nat (int GEN_LIMIT * inst_cost cfg + 4)"

lemma cycles_max: "pipe_inv cfg m con p \<Longrightarrow> p_cycles p \<le> max_cycles cfg"
proof -
  assume inv: "pipe_inv cfg m con p"
  have "int (p_next p) \<le> int GEN_LIMIT" using inv by (simp add: pipe_inv_def env_ok_def gen_ok_def)
  moreover have "0 \<le> inst_cost cfg" by (simp add: inst_cost_def worst_d_def worst_i_def)
  ultimately have "int (p_next p) * inst_cost cfg \<le> int GEN_LIMIT * inst_cost cfg" by (rule mult_right_mono)
  with cycles_bound [OF inv] show ?thesis by (simp add: max_cycles_def)
qed

subsection \<open>A cycle returns, unless the instruction faults\<close>

lemma enter_IF_returns: "fu_ok (p_fu p) \<Longrightarrow> \<exists>r. enter_IF k p = Inr r"
  using control_penalty_returns [of "p_fu p" "gen_at (p_gen p) k"]
  by (auto simp: enter_IF_def Let_def elim!: returnsE)

lemma fetch_phase_progress:
  assumes "gen_ok m con (p_gen p)" "p_next p = g_count (p_gen p)" "fu_ok (p_fu p)" "hier_ok cfg (p_hier p)"
    and "fetch_phase rnd cfg p = Inl e"
  shows "\<not> g_done (p_gen p) \<and> gen_one (p_gen p) = Inl e"
proof -
  have en: "fu_ok (p_fu r) \<Longrightarrow> enter_IF k r \<noteq> Inl e" for k r using enter_IF_returns [of r k] by auto
  have c: "p_ctrl p \<le> 0" "p_fetch_stall p \<le> 0" "p_pending p = None"
    using assms(3,5) en by (auto simp: fetch_phase_def split: if_splits option.splits)
  show ?thesis
  proof (cases "gen_ensure (p_next p) (p_gen p)")
    case (Inl f)
    with c assms(5) have "f = e" by (simp add: fetch_phase_def)
    with Inl show ?thesis using gen_ensure_next [of "p_gen p", OF refl] assms(2)
      by (auto simp: res_bind_Inl_iff split: if_splits)
  next
    case (Inr x)
    then obtain more g where g: "gen_ensure (p_next p) (p_gen p) = Inr (more, g)" by (cases x) auto
    show ?thesis
    proof (cases more)
      case True
      let ?d = "gen_at g (p_next p)"
      obtain pen h where h: "icache_fetch rnd cfg (ii_pc ?d) (p_hier p) = Inr (pen, h)"
        using icache_fetch_returns [OF assms(4), of rnd "ii_pc ?d"] by (auto elim!: returnsE)
      with c assms(3,5) g True en show ?thesis
        by (cases pen) (simp_all add: fetch_phase_def Let_def)
    qed (use c assms(5) g in \<open>simp add: fetch_phase_def\<close>)
  qed
qed

lemma mem_phase_returns:
  assumes "hier_ok cfg (p_hier p)" shows "\<exists>q. mem_phase rnd cfg p = Inr q"
proof -
  let ?a = "case p_EX p of None \<Rightarrow> None | Some k \<Rightarrow> ii_mem (gen_at (p_gen p) k)"
  obtain pen h where "dcache_access rnd cfg ?a (p_hier p) = Inr (pen, h)"
    using dcache_access_returns [OF assms, of ?a rnd] by (auto elim!: returnsE)
  then show ?thesis by (cases "p_EX p") (simp_all add: mem_phase_def Let_def)
qed

lemma pipe_cycle_progress:
  assumes env: "env_ok cfg m con p" and e: "pipe_cycle rnd cfg p = Inl e"
  shows "\<not> g_done (p_gen p) \<and> gen_one (p_gen p) = Inl e"
proof -
  obtain q where q: "mem_phase rnd cfg p = Inr q" using env mem_phase_returns [of cfg p rnd] by (auto simp: env_ok_def)
  have a: "(q\<lparr>p_cycles := p_cycles p + 1\<rparr>)\<lparr>p_EX := p_ID q, p_ID := p_IF q\<rparr> = advance q"
    using mem_phase_cycles_same [OF q] by (simp add: advance_def)
  have "fetch_phase rnd cfg (advance q) = Inl e"
    using e q a
    by (auto simp: pipe_cycle_def Let_def mem_phase_cycles res_bind_Inl_iff split: if_splits)
  moreover have "env_ok cfg m con q" by (rule mem_phase_env [OF env q])
  ultimately have "\<not> g_done (p_gen q) \<and> gen_one (p_gen q) = Inl e"
    using fetch_phase_progress [of m con "advance q" cfg rnd e] by (simp add: env_ok_def advance_def)
  with mem_phase_fields(9) [OF q] show ?thesis by simp
qed

subsection \<open>The loop returns\<close>

lemma step_cycles: "pipe_step rnd cfg p p' \<Longrightarrow> p_cycles p' = Suc (p_cycles p)"
  by (erule pipe_step.cases)
    (auto dest!: mem_phase_cycles_same elim!: enter_IF_cases simp: advance_def)

text \<open>How a run can end: with the reference's fault, with everything retired, or by the net.\<close>

definition net_exit :: "(nat \<Rightarrow> nat) \<Rightarrow> pipe_config \<Rightarrow> memory \<Rightarrow> console \<Rightarrow> pipe \<Rightarrow> bool" where
  "net_exit rnd cfg m con p' = (\<exists>p. pipe_reach rnd cfg m con p \<and> \<not> pipe_done p \<and> pipe_step rnd cfg p p' \<and> net_fires cfg p p')"

definition run_end :: "(nat \<Rightarrow> nat) \<Rightarrow> pipe_config \<Rightarrow> memory \<Rightarrow> console \<Rightarrow> pipe res \<Rightarrow> bool" where
  "run_end rnd cfg m con r = (case r of
     Inl e \<Rightarrow> \<exists>n \<le> GEN_LIMIT. cpu_steps n (cpu_init m) con = Inl e
   | Inr p \<Rightarrow> pipe_reach rnd cfg m con p \<and> (pipe_done p \<or> net_exit rnd cfg m con p))"

lemma pipe_loop_returns:
  "pipe_reach rnd cfg m con p \<Longrightarrow> pipe_cfg_ok cfg \<Longrightarrow>
   \<exists>r. pipe_loop rnd cfg p = Some r \<and> run_end rnd cfg m con r"
proof (induction "max_cycles cfg - p_cycles p" arbitrary: p rule: less_induct)
  case less
  have inv: "pipe_inv cfg m con p" using less.prems by (rule pipe_reach_inv)
  show ?case
  proof (cases "pipe_done p")
    case True
    with less.prems(1) show ?thesis by (subst pipe_loop.simps) (simp add: run_end_def)
  next
    case nd: False
    show ?thesis
    proof (cases "pipe_cycle rnd cfg p")
      case (Inl e)
      have "env_ok cfg m con p" using inv by (simp add: pipe_inv_def)
      from pipe_cycle_progress [OF this Inl] gen_fault_reference [of m con "p_gen p" e] this
      have "cpu_steps (Suc (g_count (p_gen p))) (cpu_init m) con = Inl e" "Suc (g_count (p_gen p)) \<le> GEN_LIMIT"
        by (auto simp: env_ok_def)
      then have "run_end rnd cfg m con (Inl e)" unfolding run_end_def by auto
      with Inl nd show ?thesis by (subst pipe_loop.simps) simp
    next
      case (Inr p')
      have step: "pipe_step rnd cfg p p'" by (rule pipe_cycle_step [OF Inr])
      have reach: "pipe_reach rnd cfg m con p'" by (rule pipe_reach.cycle [OF less.prems(1) nd step])
      show ?thesis
      proof (cases "net_fires cfg p p'")
        case True
        with less.prems(1) nd step have "net_exit rnd cfg m con p'" unfolding net_exit_def by blast
        with reach Inr nd True show ?thesis by (subst pipe_loop.simps) (simp add: run_end_def)
      next
        case False
        have "p_cycles p' \<le> max_cycles cfg" by (rule cycles_max [OF pipe_reach_inv [OF reach less.prems(2)]])
        then have "max_cycles cfg - p_cycles p' < max_cycles cfg - p_cycles p" using step_cycles [OF step] by simp
        from less.hyps [OF this reach less.prems(2)] Inr nd False show ?thesis
          by (subst pipe_loop.simps) simp
      qed
    qed
  qed
qed

subsection \<open>The safety net\<close>

text \<open>The penalties the net is computed from cover what the caches charge.\<close>

definition net_ok :: "pipe_config \<Rightarrow> bool" where
  "net_ok cfg = (inst_cost cfg \<le> per_inst cfg)"

lemma cycle_bound_value:
  assumes "0 \<le> per_inst cfg" "per_inst cfg < 2147483648" "n \<le> GEN_LIMIT"
  shows "uint (cycle_bound cfg n) = (int n + 16) * per_inst cfg + 64"
proof -
  have "(int n + 16) * per_inst cfg \<le> (int GEN_LIMIT + 16) * 2147483648"
    using assms by (intro mult_mono) auto
  then have "(int n + 16) * per_inst cfg + 64 < 2 ^ 64" by (simp add: GEN_LIMIT_def)
  moreover have "0 \<le> (int n + 16) * per_inst cfg" using assms(1) by simp
  moreover have "cycle_bound cfg n = word_of_int ((int n + 16) * per_inst cfg + 64)"
    by (simp add: cycle_bound_def)
  moreover have "0 \<le> x \<Longrightarrow> x < 2 ^ 64 \<Longrightarrow> uint (word_of_int x :: u64) = x" for x
    by (simp add: uint_word_of_int_eq take_bit_int_eq_self)
  ultimately show ?thesis by (metis add_increasing2 zero_le_numeral add.commute)
qed

lemma net_silent:
  assumes cfg: "pipe_cfg_ok cfg" "net_ok cfg" and p: "pipe_reach rnd cfg m con p" "\<not> pipe_done p"
    and step: "pipe_step rnd cfg p p'"
  shows "\<not> net_fires cfg p p'"
proof -
  have inv: "pipe_inv cfg m con p" by (rule pipe_reach_inv [OF p(1) cfg(1)])
  have cost: "0 \<le> inst_cost cfg" "inst_cost cfg \<le> per_inst cfg" "per_inst cfg < 2147483648"
    using cfg by (simp_all add: net_ok_def pipe_cfg_ok_def inst_cost_def worst_d_def worst_i_def)
  let ?n = "g_count (p_gen p)"
  have n: "p_next p = ?n" "?n \<le> GEN_LIMIT" using inv by (simp_all add: pipe_inv_def env_ok_def gen_ok_def)
  have "int (p_cycles p) \<le> int ?n * inst_cost cfg + 4" using cycles_bound [OF inv] n by simp
  moreover have "int ?n * inst_cost cfg \<le> int ?n * per_inst cfg" using cost by (intro mult_left_mono) auto
  ultimately have "int (p_cycles p') \<le> (int ?n + 16) * per_inst cfg + 64"
    using step_cycles [OF step] cost by (simp add: distrib_right)
  also have "\<dots> = uint (cycle_bound cfg ?n)" using cycle_bound_value [OF _ cost(3) n(2)] cost by simp
  finally have le: "int (p_cycles p') \<le> uint (cycle_bound cfg ?n)" .
  have "uint (of_nat (p_cycles p') :: u64) \<le> int (p_cycles p')"
    by (simp add: unsigned_of_nat take_bit_nat_less_eq_self)
  with le have "(of_nat (p_cycles p') :: u64) \<le> cycle_bound cfg ?n" by (simp add: word_le_def)
  then show ?thesis by (simp add: net_fires_def not_less)
qed

subsection \<open>Runs that end\<close>

text \<open>The result of the loop, read at the end of \<open>pipe_run\<close>.\<close>

lemma pipe_run_eq:
  assumes "pipe_init cfg m (silent_con con) = Inr p" "pipe_loop rnd cfg p = Some r"
  shows "pipe_run rnd cfg m con = Some (res_bind r (\<lambda>p. Inr (pipe_result p, mem (g_cpu (p_gen p)),
    (g_con (p_gen p))\<lparr>cpu_silent := cpu_silent con\<rparr>)))"
  using assms by (simp add: pipe_run_def Let_def)

text \<open>A run of a usable configuration, and how its loop ends.\<close>

lemma pipe_run_ends:
  assumes "pipe_cfg_ok cfg"
  obtains r where "run_end rnd cfg m (silent_con con) r"
    "pipe_run rnd cfg m con = Some (res_bind r (\<lambda>p. Inr (pipe_result p, mem (g_cpu (p_gen p)),
       (g_con (p_gen p))\<lparr>cpu_silent := cpu_silent con\<rparr>)))"
proof -
  obtain p where p: "pipe_init cfg m (silent_con con) = Inr p" using pipe_init_returns [OF assms] by blast
  from pipe_loop_returns [OF pipe_reach.start [OF p] assms] obtain r where
    "pipe_loop rnd cfg p = Some r" "run_end rnd cfg m (silent_con con) r" by blast
  with that pipe_run_eq [OF p] show thesis by blast
qed

text \<open>When the net cannot fire and the reference halts in time, the loop ends with the
  reference's final state and everything retired.\<close>

lemma run_end_halted:
  assumes cfg: "pipe_cfg_ok cfg" "net_ok cfg" and e: "run_end rnd cfg m con r"
    and ref: "cpu_steps n (cpu_init m) con = Inr (s, c)" "halted s" "n \<le> GEN_LIMIT"
  obtains p where "r = Inr p" "pipe_inv cfg m con p" "pipe_done p"
    "g_cpu (p_gen p) = s" "g_con (p_gen p) = c"
proof (cases r)
  case (Inl f)
  with e obtain k where "cpu_steps k (cpu_init m) con = Inl f" by (auto simp: run_end_def)
  from steps_final_unique [OF this ref(1)] ref(2) show thesis by simp
next
  case (Inr p)
  with e have reach: "pipe_reach rnd cfg m con p" and fin: "pipe_done p \<or> net_exit rnd cfg m con p"
    by (simp_all add: run_end_def)
  have inv: "pipe_inv cfg m con p" by (rule pipe_reach_inv [OF reach cfg(1)])
  have d: "pipe_done p" using fin net_silent [OF cfg] unfolding net_exit_def by blast
  let ?g = "p_gen p"
  have st: "cpu_steps (g_count ?g) (cpu_init m) con = Inr (g_cpu ?g, g_con ?g)"
    and h: "halted (g_cpu ?g) \<or> GEN_LIMIT \<le> g_count ?g"
    using inv d by (auto simp: pipe_inv_def env_ok_def gen_ok_def pipe_done_def)
  have "Inr (g_cpu ?g, g_con ?g) = (Inr (s, c) :: (cpu \<times> console) res)"
  proof (cases "halted (g_cpu ?g)")
    case True
    with steps_final_unique [OF st ref(1)] ref(2) show ?thesis by simp
  next
    case False
    with h ref(3) have "n \<le> g_count ?g" by simp
    from steps_after_halt [OF ref(1,2) this] st show ?thesis by simp
  qed
  with that [OF Inr inv d] show thesis by simp
qed

text \<open>Everything retired: the latches are empty, so the accounting is complete.\<close>

lemma done_accounting:
  assumes inv: "pipe_inv cfg m con p" and d: "pipe_done p" and h: "halted (g_cpu (p_gen p))"
  shows "p_cycles p = g_count (p_gen p) + 4 + p_data_stalls p + p_control_stalls p + p_mem_stalls p"
proof -
  have n: "p_next p = g_count (p_gen p)" using inv by (simp add: pipe_inv_def env_ok_def)
  then have "p_retired p = p_next p" using d inv by (simp add: pipe_done_def pipe_inv_def order_ok_def)
  then have "in_flight p = []" using inv by (simp add: pipe_inv_def order_ok_def)
  then have e: "p_MEM p = None" "p_EX p = None" "p_ID p = None" "p_IF p = None" "p_pending p = None"
    by (auto simp: in_flight_def olist_Cons split: option.splits)
  then have "age p = 4" by (simp add: age_def)
  then have "drained p = 4" using inv h by (simp add: pipe_inv_def acct_ok_def)
  with e n show ?thesis by (simp add: drained_def)
qed

subsection \<open>What the simulator promises\<close>

lemma result_fields [simp]:
  "st_instructions (pipe_result p) = of_nat (g_count (p_gen p))" "st_regs (pipe_result p) = regs (g_cpu (p_gen p))"
  "st_pc (pipe_result p) = pc (g_cpu (p_gen p))" "st_sp (pipe_result p) = sp (g_cpu (p_gen p))"
  "st_flags (pipe_result p) = flags (g_cpu (p_gen p))" "st_cycles (pipe_result p) = of_nat (p_cycles p)"
  "st_data_stalls (pipe_result p) = of_nat (p_data_stalls p)"
  "st_control_stalls (pipe_result p) = of_nat (p_control_stalls p)"
  "st_mem_stalls (pipe_result p) = of_nat (p_mem_stalls p)"
  by (simp_all add: pipe_result_def final_state_def)

text \<open>A configuration with both first-level caches, a second level and a predictor, and the
  shortest program, for the witnesses.\<close>

definition cache_4way :: "nat \<Rightarrow> nat \<Rightarrow> int \<Rightarrow> int \<Rightarrow> cache_config" where
  "cache_4way capacity block hit miss = \<lparr>cc_enabled = True, cc_size = capacity, cc_block = block, cc_assoc = 4,
     cc_repl = REPL_LRU, cc_hit_latency = hit, cc_miss_penalty = miss\<rparr>"

definition cfg_l2 :: pipe_config where
  "cfg_l2 = \<lparr>pc_forwarding = True, pc_bp = BP_TOURNAMENT3, pc_idx_bits = 0, pc_ghist_bits = 0,
     pc_icache = cache_4way 1024 32 1 100, pc_dcache = cache_4way 1024 32 1 100, pc_l2 = cache_4way 16384 64 10 100\<rparr>"

definition halt_program :: memory where
  "halt_program = load_words mem_init 0 [0x04000000]"

lemma cfg_l2_ok: "pipe_cfg_ok cfg_l2" "net_ok cfg_l2"
  by (simp_all add: cfg_l2_def cache_4way_def pipe_cfg_ok_def bp_cfg_ok_def cache_cfg_ok_def per_inst_def
      net_ok_def inst_cost_def worst_d_def worst_i_def worst_def)

lemma halt_program_step:
  "cpu_steps 1 (cpu_init halt_program) con = Inr ((next_state (cpu_init halt_program))\<lparr>halted := True\<rparr>, con)"
proof -
  have f: "fetched (cpu_init halt_program) (ins_of OP_HALT 0 0 0)" by (simp add: halt_program_def fetch_eval)
  have "\<not> halted (cpu_init halt_program)" by (simp add: cpu_init_def)
  with step_fetched [OF f, of con] show ?thesis by (simp add: exec_defs)
qed

text \<open>C17: The pipeline simulator returns for every program and every usable configuration: with the
  fault the reference processor reaches, or with the registers, program counter, stack pointer,
  flags and memory the reference has after as many steps as it reports instructions; it writes
  nothing but diagnostics and reads no input.\<close>

theorem pipe_run_total:
  assumes "pipe_cfg_ok cfg"
  shows "\<exists>r. pipe_run rnd cfg m con = Some r \<and> (case r of
      Inl e \<Rightarrow> \<exists>n \<le> GEN_LIMIT. cpu_steps n (cpu_init m) (silent_con con) = Inl e
    | Inr (st, m', con') \<Rightarrow> \<exists>n \<le> GEN_LIMIT. \<exists>s c. cpu_steps n (cpu_init m) (silent_con con) = Inr (s, c) \<and>
        st_instructions st = of_nat n \<and> st_regs st = regs s \<and> st_pc st = pc s \<and> st_sp st = sp s \<and>
        st_flags st = flags s \<and> m' = mem s \<and> con_sim con' con)"
proof -
  obtain r where e: "run_end rnd cfg m (silent_con con) r" and run: "pipe_run rnd cfg m con = Some (res_bind r
      (\<lambda>p. Inr (pipe_result p, mem (g_cpu (p_gen p)), (g_con (p_gen p))\<lparr>cpu_silent := cpu_silent con\<rparr>)))"
    using pipe_run_ends [OF assms] .
  show ?thesis
  proof (cases r)
    case (Inl f)
    with e run show ?thesis by (simp add: run_end_def)
  next
    case (Inr p)
    with e have "pipe_inv cfg m (silent_con con) p" using pipe_reach_inv assms by (simp add: run_end_def) blast
    then have g: "cpu_steps (g_count (p_gen p)) (cpu_init m) (silent_con con) = Inr (g_cpu (p_gen p), g_con (p_gen p))"
      "g_count (p_gen p) \<le> GEN_LIMIT" by (simp_all add: pipe_inv_def env_ok_def gen_ok_def)
    have "con_sim (g_con (p_gen p)) (silent_con con)"
      using steps_silent [OF g(1)] by (simp add: silent_con_def)
    with g run Inr con_sim_restore show ?thesis by auto
  qed
qed

theorem pipe_run_total_witness:
  "\<exists>r. pipe_run (\<lambda>_. 0) cfg_l2 mem_init (console0 ''5'') = Some r"
  using pipe_run_total [OF cfg_l2_ok(1), of "\<lambda>_. 0" mem_init "console0 ''5''"] by blast







text \<open>C20: In every state a run reaches, the occupied latches hold, oldest first, exactly the
  instructions fetched and not yet retired, and each of them is still in the generator's ring as
  the dynamic instruction of that number.\<close>

theorem pipe_window:
  assumes "pipe_cfg_ok cfg" "pipe_reach rnd cfg m con p"
  shows "in_flight p = [p_retired p..<p_next p] \<and> p_next p \<le> p_retired p + 5 \<and>
    (\<forall>k \<in> set (in_flight p). dyn_inst k (cpu_init m) con (gen_at (p_gen p) k))"
proof -
  have inv: "pipe_inv cfg m con p" by (rule pipe_reach_inv [OF assms(2,1)])
  then have o: "in_flight p = [p_retired p..<p_next p]" and n: "p_next p = g_count (p_gen p)"
    and g: "gen_ok m con (p_gen p)" by (simp_all add: pipe_inv_def order_ok_def env_ok_def)
  have "length (in_flight p) \<le> 5"
    using length_olist [of "[p_MEM p, p_EX p, p_ID p, p_IF p, p_pending p]"] by (simp add: in_flight_def)
  with o have five: "p_next p \<le> p_retired p + 5" by simp
  have "dyn_inst k (cpu_init m) con (gen_at (p_gen p) k)" if "k \<in> set (in_flight p)" for k
    using that g n five by (simp add: o gen_ok_def WIN_CAP_def)
  with o five show ?thesis by blast
qed

text \<open>C21: The stalls of a run are bounded by the instructions fetched: at most two data stalls and two
  control stalls for each, and memory stalls up to the worst penalties of the two caches.\<close>

theorem pipe_stall_bounds:
  assumes "pipe_cfg_ok cfg" "pipe_reach rnd cfg m con p"
  shows "p_data_stalls p \<le> 2 * p_next p \<and> p_control_stalls p \<le> 2 * p_next p \<and>
    int (p_mem_stalls p) \<le> (max 0 (worst (pc_dcache cfg) cfg) + max 1 (worst (pc_icache cfg) cfg)) * int (p_next p)"
  using stall_bounds [OF pipe_reach_inv [OF assms(2,1)]] occ_bounds(1) [of "p_pending p"]
  by (simp add: worst_d_def worst_i_def distrib_right)

text \<open>A run without caches and predictor, one cycle in: the first instruction is in IF.\<close>

definition cfg_plain :: pipe_config where
  "cfg_plain = (let off = \<lparr>cc_enabled = False, cc_size = 0, cc_block = 0, cc_assoc = 0, cc_repl = REPL_LRU,
       cc_hit_latency = 0, cc_miss_penalty = 0\<rparr>
     in \<lparr>pc_forwarding = False, pc_bp = BP_NONE, pc_idx_bits = 0, pc_ghist_bits = 0,
       pc_icache = off, pc_dcache = off, pc_l2 = off\<rparr>)"

lemma cfg_plain_ok: "pipe_cfg_ok cfg_plain"
  by (simp add: cfg_plain_def pipe_cfg_ok_def bp_cfg_ok_def cache_cfg_ok_def per_inst_def Let_def)

lemma first_cycle:
  obtains p where "pipe_reach rnd cfg_plain halt_program con p" "in_flight p = [0]" "p_next p = 1"
proof -
  let ?g = "gen_init halt_program con"
  obtain p where p: "pipe_init cfg_plain halt_program con = Inr p" using pipe_init_returns [OF cfg_plain_ok] by blast
  then have p_eq: "p = \<lparr>p_gen = ?g, p_fu = \<lparr>fu_bp = None, fu_cond = 0, fu_mis = 0\<rparr>,
      p_hier = \<lparr>h_ic = None, h_dc = None, h_l2 = None, h_draws = 0\<rparr>, p_IF = None, p_ID = None, p_EX = None,
      p_MEM = None, p_WB = None, p_next = 0, p_retired = 0, p_pending = None, p_ctrl = 0, p_fetch_stall = 0,
      p_mem_stall = 0, p_cycles = 0, p_data_stalls = 0, p_control_stalls = 0, p_mem_stalls = 0\<rparr>"
    by (simp add: pipe_init_def fetch_unit_init_def hierarchy_init_def level_init_def cfg_plain_def per_inst_def Let_def
        split: if_splits)
  have f: "fetched (cpu_init halt_program) (ins_of OP_HALT 0 0 0)" by (simp add: halt_program_def fetch_eval)
  then obtain raw where "mem_read32 (mem (cpu_init halt_program)) (pc (cpu_init halt_program)) = Inr raw"
    by (auto simp: fetched_def split: sum.splits)
  then obtain g where g: "gen_one ?g = Inr g"
    using step_fetched [OF f, of con] by (simp add: gen_one_def gen_init_def exec_defs)
  then have "gen_ensure 0 ?g = Inr (True, g)"
    using gen_ensure_next [of ?g 0] by (simp add: gen_init_def)
  then have e: "gen_ensure 0 ?g = Inr (True, g)" .
  let ?q = "p\<lparr>p_gen := g, p_cycles := 1, p_next := 1\<rparr>"
  obtain r where r: "enter_IF 0 ?q = Inr r"
    using enter_IF_returns [of ?q 0] by (auto simp: p_eq fu_ok_def)
  from r have fields: "p_WB r = None" "p_MEM r = None" "p_EX r = None" "p_ID r = None" "p_IF r = Some 0"
    "p_pending r = None" "p_next r = 1"
    by (auto elim!: enter_IF_cases simp: p_eq)
  have "pipe_cycle rnd cfg_plain p = Inr r"
    using r e fields(1)
    by (simp add: pipe_cycle_def mem_phase_def dcache_access_def fetch_phase_def icache_fetch_def needs_stall_def
        p_eq Let_def)
  then have "pipe_reach rnd cfg_plain halt_program con r"
    using pipe_reach.cycle [OF pipe_reach.start [OF p]] pipe_cycle_step p_eq
    by (simp add: pipe_done_def gen_init_def)
  with that fields show thesis by (simp add: in_flight_def)
qed

theorem pipe_window_witness:
  "\<exists>p. pipe_reach (\<lambda>_. 0) cfg_plain halt_program (console0 []) p \<and> in_flight p = [0] \<and>
     dyn_inst 0 (cpu_init halt_program) (console0 []) (gen_at (p_gen p) 0)"
proof -
  obtain p where p: "pipe_reach (\<lambda>_. 0) cfg_plain halt_program (console0 []) p" "in_flight p = [0]"
    using first_cycle .
  with pipe_window [OF cfg_plain_ok p(1)] show ?thesis by auto
qed

theorem pipe_stall_bounds_witness:
  "\<exists>p. pipe_reach (\<lambda>_. 0) cfg_plain halt_program (console0 []) p \<and> p_next p = 1 \<and> p_data_stalls p \<le> 2"
proof -
  obtain p where p: "pipe_reach (\<lambda>_. 0) cfg_plain halt_program (console0 []) p" "p_next p = 1"
    using first_cycle .
  with pipe_stall_bounds [OF cfg_plain_ok p(1)] show ?thesis by auto
qed

end
