(* ===== verification/StreamLoop.thy ===== *)
theory StreamLoop
  imports Frontend
begin

text \<open>
  The loop \<open>for (long i = 0; ; i++) { if (!gen_ensure(&g, i)) break; ... }\<close> that the
  superscalar and the out-of-order model of \<open>src/pipe_sim.c\<close> share: each instruction of the
  stream passes once through the model's scoreboard. The interface \<open>timing_model\<close> is what such a
  scoreboard promises, \<open>timing_order\<close> what makes one scoreboard never slower than another; the
  loop is then shown to follow the reference run and to keep the order.
\<close>

subsection \<open>The loop\<close>

text \<open>The number of instructions the generator can still reach bounds the loop.\<close>

definition gen_room :: "gen \<Rightarrow> nat" where
  "gen_room g = (if g_done g then g_count g else max (Suc (g_count g)) GEN_LIMIT)"

lemma gen_one_room: "gen_one g = Inr g' \<Longrightarrow> \<not> g_done g \<Longrightarrow> gen_room g' \<le> gen_room g"
  by (auto simp: gen_one_def gen_room_def res_bind_Inr_iff Let_def)

lemma gen_fill_room: "gen_fill k g = Inr g' \<Longrightarrow> gen_room g' \<le> gen_room g"
proof (induction k g rule: gen_fill.induct)
  case (1 k g)
  show ?case
  proof (cases "g_count g \<le> k \<and> \<not> g_done g")
    case True
    with "1.prems" obtain h where h: "gen_one g = Inr h" "gen_fill k h = Inr g'"
      by (auto simp: gen_fill.simps [of k g] res_bind_Inr_iff)
    with "1.IH" [OF True, of h] gen_one_room [OF h(1)] True show ?thesis by simp
  next
    case False
    with "1.prems" show ?thesis by (auto simp: gen_fill.simps [of k g])
  qed
qed

lemma count_room: "g_count g \<le> gen_room g"
  by (simp add: gen_room_def le_max_iff_disj)

function stream_loop :: "(nat \<Rightarrow> inst_info \<Rightarrow> 's \<Rightarrow> 's res) \<Rightarrow> nat \<Rightarrow> gen \<Rightarrow> 's \<Rightarrow> (gen \<times> 's) res" where
  "stream_loop f i g s = res_bind (gen_ensure i g) (\<lambda>(more, g).
     if \<not> more then Inr (g, s)
     else res_bind (f i (gen_at g i) s) (stream_loop f (i + 1) g))"
  by pat_completeness auto

termination
proof (relation "measure (\<lambda>(f, i, g, s). gen_room g - i)", goal_cases)
  case (2 f i g s x more g' s')
  then have "gen_fill i g = Inr g'" "i < g_count g'" by (auto simp: gen_ensure_def res_bind_Inr_iff)
  with gen_fill_room [of i g g'] count_room [of g'] show ?case by simp
qed simp

declare stream_loop.simps [simp del]

subsection \<open>What the instructions of the stream look like\<close>

text \<open>Registers 0 to 7 and the flags; a latency of 1 to 20 cycles.\<close>

definition info_ok :: "inst_info \<Rightarrow> bool" where
  "info_ok d = ((\<forall>r \<in> set (ii_reads d). r \<le> FLAG_REG) \<and> (\<forall>r. ii_write d = Some r \<longrightarrow> r < FLAG_REG) \<and>
     1 \<le> ii_latency d \<and> ii_latency d \<le> 20)"

lemma dyn_inst_info_ok: "dyn_inst k s con d \<Longrightarrow> info_ok d"
proof -
  assume "dyn_inst k s con d"
  then obtain s1 raw s2 where d: "d = info_of s1 raw s2" unfolding dyn_inst_def by blast
  have r: "unat (DECODE_RDEST raw) < 8" "unat (DECODE_RSRC raw) < 8"
    using decode_reg_less [of raw] by (simp_all add: word_less_nat_alt)
  then show ?thesis
    by (auto simp: d info_of_def decode_meta_def meta_regs_def info_ok_def op_latency_def FLAG_REG_def
        split: opcode.splits prod.splits)
qed

subsection \<open>Scoreboards\<close>

locale timing_model =
  fixes f :: "nat \<Rightarrow> inst_info \<Rightarrow> 's \<Rightarrow> 's res"
    and inv :: "nat \<Rightarrow> 's \<Rightarrow> bool"
  assumes step_returns: "inv i s \<Longrightarrow> info_ok d \<Longrightarrow> \<exists>s'. f i d s = Inr s' \<and> inv (Suc i) s'"
begin

text \<open>The loop ends with the reference's fault, or where the generator ends.\<close>

lemma loop_result:
  "gen_ok m con g \<Longrightarrow> g_count g = i \<Longrightarrow> inv i s \<Longrightarrow>
   (case stream_loop f i g s of
      Inl e \<Rightarrow> \<exists>n \<le> GEN_LIMIT. cpu_steps n (cpu_init m) con = Inl e
    | Inr (g', s') \<Rightarrow> gen_ok m con g' \<and> g_done g' \<and> inv (g_count g') s')"
proof (induction "GEN_LIMIT - i" arbitrary: i g s rule: less_induct)
  case less
  note ens = gen_ensure_next [OF less.prems(2)]
  show ?case
  proof (cases "g_done g")
    case True
    with ens less.prems show ?thesis by (simp add: stream_loop.simps [of f i g s])
  next
    case nd: False
    show ?thesis
    proof (cases "gen_one g")
      case (Inl e)
      from gen_fault_reference [OF less.prems(1) nd Inl] have "\<exists>n \<le> GEN_LIMIT. cpu_steps n (cpu_init m) con = Inl e"
        by (meson Suc_leI)
      with Inl ens nd show ?thesis by (simp add: stream_loop.simps [of f i g s])
    next
      case (Inr g')
      note g' = gen_one_ok [OF less.prems(1) nd Inr]
      have "dyn_inst i (cpu_init m) con (gen_at g' i)"
        using g' less.prems(2) by (simp add: gen_ok_def WIN_CAP_def)
      from step_returns [OF less.prems(3) dyn_inst_info_ok [OF this]] obtain s' where
        s': "f i (gen_at g' i) s = Inr s'" "inv (Suc i) s'" by blast
      have lt: "i < GEN_LIMIT" using less.prems(1,2) nd by (simp add: gen_ok_def)
      have "stream_loop f i g s = stream_loop f (Suc i) g' s'"
        using Inr ens nd s'(1) by (simp add: stream_loop.simps [of f i g s])
      moreover have "case stream_loop f (Suc i) g' s' of
          Inl e \<Rightarrow> \<exists>n \<le> GEN_LIMIT. cpu_steps n (cpu_init m) con = Inl e
        | Inr (g', s') \<Rightarrow> gen_ok m con g' \<and> g_done g' \<and> inv (g_count g') s'"
        using lt g' less.prems(2) s'(2) by (intro less.hyps) simp_all
      ultimately show ?thesis by simp
    qed
  qed
qed

end

text \<open>
  A second scoreboard that is never later than the first: \<open>le\<close> relates its states to the
  first's, and every instruction keeps the relation.
\<close>

locale timing_order = A: timing_model f inv + B: timing_model f' inv'
  for f :: "nat \<Rightarrow> inst_info \<Rightarrow> 's \<Rightarrow> 's res" and inv and f' :: "nat \<Rightarrow> inst_info \<Rightarrow> 't \<Rightarrow> 't res" and inv' +
  fixes le :: "nat \<Rightarrow> 't \<Rightarrow> 's \<Rightarrow> bool"
  assumes step_order: "inv i s \<Longrightarrow> inv' i s' \<Longrightarrow> le i s' s \<Longrightarrow> info_ok d \<Longrightarrow> f i d s = Inr t \<Longrightarrow>
    f' i d s' = Inr t' \<Longrightarrow> le (Suc i) t' t"
begin

lemma loop_order:
  "gen_ok m con g \<Longrightarrow> g_count g = i \<Longrightarrow> inv i s \<Longrightarrow> inv' i s' \<Longrightarrow> le i s' s \<Longrightarrow>
   (case (stream_loop f i g s, stream_loop f' i g s') of
      (Inl e, Inl e') \<Rightarrow> e = e'
    | (Inr (h, t), Inr (h', t')) \<Rightarrow> h = h' \<and> le (g_count h) t' t \<and> inv (g_count h) t \<and> inv' (g_count h) t'
    | _ \<Rightarrow> False)"
proof (induction "GEN_LIMIT - i" arbitrary: i g s s' rule: less_induct)
  case less
  note ens = gen_ensure_next [OF less.prems(2)]
  show ?case
  proof (cases "g_done g")
    case True
    with ens less.prems show ?thesis by (simp add: stream_loop.simps [of f i g s] stream_loop.simps [of f' i g s'])
  next
    case nd: False
    show ?thesis
    proof (cases "gen_one g")
      case (Inl e)
      with ens nd show ?thesis by (simp add: stream_loop.simps [of f i g s] stream_loop.simps [of f' i g s'])
    next
      case (Inr g')
      note g' = gen_one_ok [OF less.prems(1) nd Inr]
      have "dyn_inst i (cpu_init m) con (gen_at g' i)"
        using g' less.prems(2) by (simp add: gen_ok_def WIN_CAP_def)
      note d = dyn_inst_info_ok [OF this]
      from A.step_returns [OF less.prems(3) d] B.step_returns [OF less.prems(4) d] obtain t t' where
        t: "f i (gen_at g' i) s = Inr t" "inv (Suc i) t" "f' i (gen_at g' i) s' = Inr t'" "inv' (Suc i) t'" by blast
      have le: "le (Suc i) t' t" by (rule step_order [OF less.prems(3-5) d t(1,3)])
      have lt: "i < GEN_LIMIT" using less.prems(1,2) nd by (simp add: gen_ok_def)
      have "stream_loop f i g s = stream_loop f (Suc i) g' t" "stream_loop f' i g s' = stream_loop f' (Suc i) g' t'"
        using Inr ens nd t by (simp_all add: stream_loop.simps [of f i g s] stream_loop.simps [of f' i g s'])
      moreover have "case (stream_loop f (Suc i) g' t, stream_loop f' (Suc i) g' t') of
          (Inl e, Inl e') \<Rightarrow> e = e'
        | (Inr (h, t), Inr (h', t')) \<Rightarrow> h = h' \<and> le (g_count h) t' t \<and> inv (g_count h) t \<and> inv' (g_count h) t'
        | _ \<Rightarrow> False"
        using lt g' less.prems(2) t le by (intro less.hyps) simp_all
      ultimately show ?thesis by simp
    qed
  qed
qed

end

end
