(* ===== verification/Slots.thy ===== *)
theory Slots
  imports StreamLoop
begin

text \<open>
  Cycles with a width: both scoreboards of \<open>src/pipe_sim.c\<close> hand out places of a cycle, at
  most \<open>width\<close> of them, in program order (\<open>cur_if\<close>/\<open>cur_count\<close>, \<open>disp_cycle\<close>/\<open>disp_count\<close>,
  \<open>com_cycle\<close>/\<open>com_count\<close>). A cycle with its count is a slot; slots are ordered by cycle, then
  count, and taking a slot is monotone in the slot, in the width and in the earliest cycle.
  Also here: the ready cycles of the operands, and the penalty of a control instruction, which the
  two models compute alike.
\<close>

datatype slot = Slot (slot_cycle: int) (slot_count: int)

instantiation slot :: linorder
begin

definition less_eq_slot :: "slot \<Rightarrow> slot \<Rightarrow> bool" where
  "less_eq_slot a b = (slot_cycle a < slot_cycle b \<or> slot_cycle a = slot_cycle b \<and> slot_count a \<le> slot_count b)"

definition less_slot :: "slot \<Rightarrow> slot \<Rightarrow> bool" where
  "less_slot a b = (slot_cycle a < slot_cycle b \<or> slot_cycle a = slot_cycle b \<and> slot_count a < slot_count b)"

instance
proof
  fix a b c :: slot
  show "(a < b) = (a \<le> b \<and> \<not> b \<le> a)" by (auto simp: less_eq_slot_def less_slot_def)
  show "a \<le> a" by (simp add: less_eq_slot_def)
  show "a \<le> b \<Longrightarrow> b \<le> c \<Longrightarrow> a \<le> c" by (auto simp: less_eq_slot_def)
  show "a \<le> b \<Longrightarrow> b \<le> a \<Longrightarrow> a = b" by (cases a; cases b) (auto simp: less_eq_slot_def)
  show "a \<le> b \<or> b \<le> a" by (auto simp: less_eq_slot_def)
qed

end

text \<open>The first cycle the slot still has room for, and the slot after taking a place in \<open>x\<close>.\<close>

definition next_cycle :: "int \<Rightarrow> slot \<Rightarrow> int" where
  "next_cycle width s = (if slot_count s < width then slot_cycle s else slot_cycle s + 1)"

definition take_slot :: "int \<Rightarrow> int \<Rightarrow> slot \<Rightarrow> slot" where
  "take_slot width x s =
     (if x = slot_cycle s \<and> slot_count s < width then Slot (slot_cycle s) (slot_count s + 1) else Slot x 1)"

lemma take_slot_cycle [simp]: "slot_cycle (take_slot width x s) = x"
  by (simp add: take_slot_def)

lemma slot_le_cycle: "a \<le> b \<Longrightarrow> slot_cycle a \<le> slot_cycle b"
  by (auto simp: less_eq_slot_def)

lemma next_cycle_bounds: "slot_cycle s \<le> next_cycle w s" "next_cycle w s \<le> slot_cycle s + 1"
  by (simp_all add: next_cycle_def)

lemma next_cycle_mono: "w \<le> w' \<Longrightarrow> s' \<le> s \<Longrightarrow> next_cycle w' s' \<le> next_cycle w s"
  by (auto simp: next_cycle_def less_eq_slot_def)

lemma take_slot_mono:
  assumes "w \<le> w'" "s' \<le> s" "0 \<le> slot_count s" "next_cycle w s \<le> x" "next_cycle w' s' \<le> x'" "x' \<le> x"
  shows "take_slot w' x' s' \<le> take_slot w x s"
  using assms by (auto simp: take_slot_def next_cycle_def less_eq_slot_def split: if_splits)

lemma take_slot_count: "0 \<le> slot_count s \<Longrightarrow> 0 \<le> slot_count (take_slot w x s)"
  by (simp add: take_slot_def)

text \<open>At most \<open>width\<close> places of every cycle are taken, so the cycles so far hold what has been placed.\<close>

definition slot_fits :: "int \<Rightarrow> int \<Rightarrow> slot \<Rightarrow> bool" where
  "slot_fits width n s = (slot_count s \<le> width \<and> n \<le> width * (slot_cycle s - 1) + slot_count s)"

lemma slot_fits_take:
  assumes "slot_fits w n s" "1 \<le> w" "next_cycle w s \<le> x" shows "slot_fits w (n + 1) (take_slot w x s)"
proof (cases "x = slot_cycle s \<and> slot_count s < w")
  case True
  with assms show ?thesis by (simp add: slot_fits_def take_slot_def)
next
  case False
  then have "slot_cycle s + 1 \<le> x" using assms(3) by (auto simp: next_cycle_def split: if_splits)
  then have "w * slot_cycle s \<le> w * (x - 1)" using assms(2) by (intro mult_left_mono) simp_all
  moreover have "n \<le> w * slot_cycle s" using assms(1,2) by (simp add: slot_fits_def algebra_simps)
  ultimately have "n \<le> w * (x - 1)" by linarith
  with False assms(2) show ?thesis by (auto simp: slot_fits_def take_slot_def)
qed

text \<open>Cycle counts are far from the limit of 64 bits, so comparing them as words is comparing numbers.\<close>

lemma uint_u64: "0 \<le> x \<Longrightarrow> x < 2 ^ 64 \<Longrightarrow> uint (word_of_int x :: u64) = x"
  by (simp add: uint_word_of_int_eq take_bit_int_eq_self)

lemma u64_le: "0 \<le> a \<Longrightarrow> a \<le> b \<Longrightarrow> b < 2 ^ 64 \<Longrightarrow> (word_of_int a :: u64) \<le> word_of_int b"
  unfolding word_le_def by (subst uint_u64, simp, simp)+ simp

subsection \<open>Ready cycles\<close>

text \<open>\<open>ready[s] - late\<close> of every source, and at least \<open>x\<close>: the loop over \<open>reads\<close>.\<close>

definition after_reads :: "int list \<Rightarrow> int \<Rightarrow> nat list \<Rightarrow> int \<Rightarrow> int" where
  "after_reads ready late rs x = foldl (\<lambda>x r. if ready ! r - late > x then ready ! r - late else x) x rs"

lemma after_reads_simps [simp]:
  "after_reads ready late [] x = x"
  "after_reads ready late (r # rs) x = after_reads ready late rs (max x (ready ! r - late))"
  by (simp_all add: after_reads_def max_def not_less)

lemma after_reads_ge: "x \<le> after_reads ready late rs x"
proof (induction rs arbitrary: x)
  case (Cons r rs)
  from Cons [of "max x (ready ! r - late)"] show ?case by simp
qed simp

lemma after_reads_le:
  "x \<le> b \<Longrightarrow> (\<And>r. r \<in> set rs \<Longrightarrow> ready ! r - late \<le> b) \<Longrightarrow> after_reads ready late rs x \<le> b"
  by (induction rs arbitrary: x) simp_all

lemma after_reads_mono:
  "x' \<le> x \<Longrightarrow> (\<And>r. r \<in> set rs \<Longrightarrow> ready' ! r \<le> ready ! r) \<Longrightarrow>
   after_reads ready' late rs x' \<le> after_reads ready late rs x"
proof (induction rs arbitrary: x x')
  case (Cons r rs)
  then show ?case by simp (intro Cons.IH; fastforce)
qed simp

text \<open>The result of the instruction is ready at \<open>w\<close>, its flags at \<open>fl\<close>: the two assignments.\<close>

definition set_ready :: "inst_info \<Rightarrow> int \<Rightarrow> int \<Rightarrow> int list \<Rightarrow> int list" where
  "set_ready d w fl ready =
     (let ready = (case ii_write d of None \<Rightarrow> ready | Some r \<Rightarrow> ready[r := w])
      in if ii_sets_flags d then ready[FLAG_REG := fl] else ready)"

lemma length_set_ready [simp]: "length (set_ready d w fl ready) = length ready"
  by (simp add: set_ready_def Let_def split: option.split)

lemma nth_update: "j < length xs \<Longrightarrow> xs[i := v] ! j = (if i = j then v else xs ! j)"
  by auto

lemma set_ready_mono:
  assumes "length ready' = length ready" "\<And>r. r < length ready \<Longrightarrow> ready' ! r \<le> ready ! r" "w' \<le> w" "fl' \<le> fl"
    and "r < length ready"
  shows "set_ready d w' fl' ready' ! r \<le> set_ready d w fl ready ! r"
  using assms by (simp add: set_ready_def Let_def nth_update split: option.split)

lemma set_ready_bounds:
  assumes "\<forall>x \<in> set ready. lo \<le> x \<and> x \<le> hi" "lo \<le> w" "w \<le> hi" "lo \<le> fl" "fl \<le> hi"
  shows "\<forall>x \<in> set (set_ready d w fl ready). lo \<le> x \<and> x \<le> hi"
proof -
  have "set (ready[r := w, q := fl]) \<subseteq> insert fl (insert w (set ready))" for r q
    using set_update_subset_insert [of "ready[r := w]" q fl] set_update_subset_insert [of ready r w] by blast
  moreover have "set (ready[r := x]) \<subseteq> insert x (set ready)" for r x by (rule set_update_subset_insert)
  ultimately show ?thesis
    using assms by (auto simp: set_ready_def Let_def split: option.splits if_splits) blast+
qed

text \<open>A scoreboard without ready cycles of its own starts with nine zeros.\<close>

definition ready0 :: "int list" where
  "ready0 = replicate (FLAG_REG + 1) 0"

lemma ready0_simps [simp]: "length ready0 = 9" "r < 9 \<Longrightarrow> ready0 ! r = 0" "set ready0 = {0}"
  by (auto simp: ready0_def FLAG_REG_def)

subsection \<open>Control instructions\<close>

text \<open>\<open>if (d->is_control || d->taken_control) { pen = control_penalty(...); if (pen) fetch_block = x + pen; }\<close>.\<close>

definition block_fetch :: "int \<Rightarrow> inst_info \<Rightarrow> int \<Rightarrow> fetch_unit \<Rightarrow> (int \<times> fetch_unit) res" where
  "block_fetch x d fb fu =
     (if ii_is_control d \<or> ii_taken_control d then
        res_bind (control_penalty fu d) (\<lambda>(pen, fu). Inr (if pen \<noteq> 0 then x + pen else fb, fu))
      else Inr (fb, fu))"

lemma block_fetch_cases:
  assumes "fu_ok fu"
  obtains pen fu' where "\<And>x fb. block_fetch x d fb fu = Inr (if pen then x + 2 else fb, fu')" "fu_ok fu'"
proof (cases "ii_is_control d \<or> ii_taken_control d")
  case True
  obtain p fu' where c: "control_penalty fu d = Inr (p, fu')" "p = 0 \<or> p = 2" "fu_ok fu'"
    using control_penalty_returns [OF assms, of d] by (auto simp: CONTROL_PENALTY_def elim!: returnsE)
  have "block_fetch x d fb fu = Inr (if p \<noteq> 0 then x + 2 else fb, fu')" for x fb
    using c True by (auto simp: block_fetch_def)
  with c that show thesis by blast
next
  case False
  then have "block_fetch x d fb fu = Inr (if False then x + 2 else fb, fu)" for x fb by (simp add: block_fetch_def)
  with that assms show thesis by blast
qed

end
