(* ===== verification/Superscalar.thy ===== *)
theory Superscalar
  imports Slots PipeRun
begin

text \<open>
  The in-order superscalar model \<open>pipe_run_ss\<close> (\<open>src/pipe_sim.c\<close>): every instruction gets a
  fetch cycle, up to \<open>width\<close> of them share one, and its sources must be ready two cycles
  later. The lemmas bound the scoreboard, so that no counter overflows, show that
  no more than \<open>width\<close> instructions finish per cycle, and that a wider machine or one with
  forwarding is never slower.
\<close>

subsection \<open>The model\<close>

record ss =
  ss_ready :: "int list"
  ss_slot :: slot            \<comment> \<open>\<open>cur_if\<close> and \<open>cur_count\<close>\<close>
  ss_last_if :: int
  ss_fetch_block :: int
  ss_fu :: fetch_unit

definition ss_init :: "fetch_unit \<Rightarrow> ss" where
  "ss_init fu = \<lparr>ss_ready = ready0, ss_slot = Slot 0 0, ss_last_if = 0, ss_fetch_block = 0, ss_fu = fu\<rparr>"

definition ss_step :: "pipe_config \<Rightarrow> int \<Rightarrow> nat \<Rightarrow> inst_info \<Rightarrow> ss \<Rightarrow> ss res" where
  "ss_step cfg width i d s =
     (let earliest = (if i = 0 then 1 else next_cycle width (ss_slot s));
          earliest = (if earliest < ss_fetch_block s then ss_fetch_block s else earliest);
          iff = after_reads (ss_ready s) 2 (ii_reads d) earliest;
          fwd = pc_forwarding cfg;
          s = s\<lparr>ss_slot := take_slot width iff (ss_slot s),
                ss_ready := set_ready d
                  (if fwd then (if ii_is_load d then iff + 4 else iff + 3) else iff + 5)
                  (if fwd then iff + 3 else iff + 5) (ss_ready s)\<rparr>
      in res_bind (block_fetch (iff + 1) d (ss_fetch_block s) (ss_fu s)) (\<lambda>(fb, fu).
         Inr (s\<lparr>ss_fetch_block := fb, ss_fu := fu, ss_last_if := iff\<rparr>)))"

text \<open>The statistics both scoreboards report, with their own count of cycles.\<close>

definition stream_result :: "gen \<Rightarrow> int \<Rightarrow> fetch_unit \<Rightarrow> pipe_stats" where
  "stream_result g cycles fu = (final_state g no_stats)\<lparr>
     st_cycles := (if g_count g \<noteq> 0 then word_of_int cycles else 0),
     st_cond_branches := of_nat (fu_cond fu), st_branch_mispredicts := of_nat (fu_mis fu)\<rparr>"

definition stream_end :: "console \<Rightarrow> gen \<Rightarrow> pipe_stats \<Rightarrow> pipe_stats \<times> memory \<times> console" where
  "stream_end con g st = (st, mem (g_cpu g), (g_con g)\<lparr>cpu_silent := cpu_silent con\<rparr>)"

definition pipe_run_ss :: "pipe_config \<Rightarrow> int \<Rightarrow> memory \<Rightarrow> console \<Rightarrow> (pipe_stats \<times> memory \<times> console) res" where
  "pipe_run_ss cfg width m con =
     res_bind (fetch_unit_init cfg) (\<lambda>fu.
     res_bind (stream_loop (ss_step cfg width) 0 (gen_init m (silent_con con)) (ss_init fu)) (\<lambda>(g, s).
       Inr (stream_end con g (stream_result g (ss_last_if s + 4) (ss_fu s)))))"

subsection \<open>The scoreboard returns and stays in bounds\<close>

definition ss_inv :: "int \<Rightarrow> nat \<Rightarrow> ss \<Rightarrow> bool" where
  "ss_inv width i s = (fu_ok (ss_fu s) \<and> length (ss_ready s) = 9 \<and>
     (\<forall>x \<in> set (ss_ready s). 0 \<le> x \<and> x \<le> 4 * int i + 2) \<and>
     0 \<le> slot_count (ss_slot s) \<and> 0 \<le> slot_cycle (ss_slot s) \<and> slot_cycle (ss_slot s) \<le> 4 * int i \<and>
     ss_fetch_block s \<le> 4 * int i \<and> ss_last_if s = slot_cycle (ss_slot s) \<and>
     (i = 0 \<longrightarrow> ss_slot s = Slot 0 0) \<and> (0 < i \<longrightarrow> 1 \<le> width \<longrightarrow> slot_fits width (int i) (ss_slot s)))"

text \<open>The fetch cycle of an instruction.\<close>

definition ss_iff :: "int \<Rightarrow> nat \<Rightarrow> inst_info \<Rightarrow> ss \<Rightarrow> int" where
  "ss_iff width i d s = after_reads (ss_ready s) 2 (ii_reads d)
     (max (if i = 0 then 1 else next_cycle width (ss_slot s)) (ss_fetch_block s))"

definition ss_ready_next :: "pipe_config \<Rightarrow> inst_info \<Rightarrow> int \<Rightarrow> ss \<Rightarrow> int list" where
  "ss_ready_next cfg d x s = set_ready d
     (if pc_forwarding cfg then (if ii_is_load d then x + 4 else x + 3) else x + 5)
     (if pc_forwarding cfg then x + 3 else x + 5) (ss_ready s)"

lemma ss_step_eq:
  "ss_step cfg width i d s =
     (let iff = ss_iff width i d s in
      res_bind (block_fetch (iff + 1) d (ss_fetch_block s) (ss_fu s)) (\<lambda>(fb, fu).
        Inr (s\<lparr>ss_slot := take_slot width iff (ss_slot s), ss_ready := ss_ready_next cfg d iff s,
               ss_fetch_block := fb, ss_fu := fu, ss_last_if := iff\<rparr>)))"
  by (simp add: ss_step_def ss_iff_def ss_ready_next_def Let_def max_def not_less)

lemma ss_iff_bounds:
  assumes "ss_inv width i s" "info_ok d"
  shows "next_cycle width (ss_slot s) \<le> ss_iff width i d s \<or> i = 0" "0 < ss_iff width i d s \<or> i \<noteq> 0"
    "slot_cycle (ss_slot s) \<le> ss_iff width i d s" "ss_iff width i d s \<le> 4 * int i + 1"
proof -
  let ?e = "max (if i = 0 then 1 else next_cycle width (ss_slot s)) (ss_fetch_block s)"
  note b = next_cycle_bounds [where s = "ss_slot s" and w = width]
  have ge: "?e \<le> ss_iff width i d s" unfolding ss_iff_def by (rule after_reads_ge)
  then show "next_cycle width (ss_slot s) \<le> ss_iff width i d s \<or> i = 0" "0 < ss_iff width i d s \<or> i \<noteq> 0" by auto
  show "slot_cycle (ss_slot s) \<le> ss_iff width i d s"
    using ge b assms(1) by (cases "i = 0") (auto simp: ss_inv_def)
  show "ss_iff width i d s \<le> 4 * int i + 1"
    unfolding ss_iff_def
  proof (rule after_reads_le)
    show "?e \<le> 4 * int i + 1" using b assms(1) by (auto simp: ss_inv_def)
    fix r assume "r \<in> set (ii_reads d)"
    then have "r < length (ss_ready s)" using assms by (auto simp: info_ok_def ss_inv_def FLAG_REG_def)
    then have "ss_ready s ! r \<in> set (ss_ready s)" by (rule nth_mem)
    then have "ss_ready s ! r \<le> 4 * int i + 2" using assms(1) unfolding ss_inv_def by blast
    then show "ss_ready s ! r - 2 \<le> 4 * int i + 1" by simp
  qed
qed

lemma ss_step_returns:
  assumes inv: "ss_inv width i s" and d: "info_ok d"
  shows "\<exists>s'. ss_step cfg width i d s = Inr s' \<and> ss_inv width (Suc i) s'"
proof -
  let ?x = "ss_iff width i d s"
  note x = ss_iff_bounds [OF inv d]
  have fu: "fu_ok (ss_fu s)" using inv by (simp add: ss_inv_def)
  obtain pen fu' where b: "\<And>x fb. block_fetch x d fb (ss_fu s) = Inr (if pen then x + 2 else fb, fu')" "fu_ok fu'"
    using block_fetch_cases [OF fu, of d] by metis
  have r: "\<forall>y \<in> set (ss_ready_next cfg d ?x s). 0 \<le> y \<and> y \<le> 4 * int (Suc i) + 2"
    unfolding ss_ready_next_def using inv x(3,4) by (intro set_ready_bounds) (auto simp: ss_inv_def)
  have "slot_fits width (int (Suc i)) (take_slot width ?x (ss_slot s))" if w: "1 \<le> width"
  proof (cases "i = 0")
    case True
    with inv x(2) w show ?thesis by (simp add: ss_inv_def take_slot_def slot_fits_def)
  next
    case False
    with inv w x(1) have "slot_fits width (int i + 1) (take_slot width ?x (ss_slot s))"
      by (intro slot_fits_take) (auto simp: ss_inv_def)
    then show ?thesis by (simp add: add.commute)
  qed
  with inv b x r show ?thesis
    by (auto simp: ss_step_eq Let_def ss_inv_def take_slot_count ss_ready_next_def)
qed

interpretation ss: timing_model "ss_step cfg width" "ss_inv width" for cfg width
  by unfold_locales (rule ss_step_returns)

lemma ss_init_inv: "fu_ok fu \<Longrightarrow> ss_inv width 0 (ss_init fu)"
  by (simp add: ss_inv_def ss_init_def)

subsection \<open>Wider, or with forwarding, is never slower\<close>

definition ss_le :: "pipe_config \<Rightarrow> int \<Rightarrow> pipe_config \<Rightarrow> int \<Rightarrow> nat \<Rightarrow> ss \<Rightarrow> ss \<Rightarrow> bool" where
  "ss_le cfg w cfg' w' i s' s = (w \<le> w' \<and> (pc_forwarding cfg \<longrightarrow> pc_forwarding cfg') \<and> ss_fu s' = ss_fu s \<and>
     ss_slot s' \<le> ss_slot s \<and> ss_fetch_block s' \<le> ss_fetch_block s \<and>
     (\<forall>r < 9. ss_ready s' ! r \<le> ss_ready s ! r))"

lemma ss_step_order:
  assumes inv: "ss_inv w i s" "ss_inv w' i s'" and le: "ss_le cfg w cfg' w' i s' s" and d: "info_ok d"
    and t: "ss_step cfg w i d s = Inr t" "ss_step cfg' w' i d s' = Inr t'"
  shows "ss_le cfg w cfg' w' (Suc i) t' t"
proof -
  let ?x = "ss_iff w i d s" and ?x' = "ss_iff w' i d s'"
  have n: "next_cycle w' (ss_slot s') \<le> next_cycle w (ss_slot s)"
    using le by (intro next_cycle_mono) (auto simp: ss_le_def)
  have rd: "r \<in> set (ii_reads d) \<Longrightarrow> ss_ready s' ! r \<le> ss_ready s ! r" for r
    using le d by (auto simp: ss_le_def info_ok_def FLAG_REG_def)
  have xx: "?x' \<le> ?x"
    unfolding ss_iff_def using n le rd by (intro after_reads_mono) (auto simp: ss_le_def)
  have sl: "take_slot w' ?x' (ss_slot s') \<le> take_slot w ?x (ss_slot s)"
  proof (cases "i = 0")
    case True
    with inv ss_iff_bounds(2) [OF inv(1) d] ss_iff_bounds(2) [OF inv(2) d] xx show ?thesis
      by (auto simp: ss_inv_def take_slot_def less_eq_slot_def)
  next
    case False
    with ss_iff_bounds(1) [OF inv(1) d] ss_iff_bounds(1) [OF inv(2) d] le inv(1) xx show ?thesis
      by (intro take_slot_mono) (auto simp: ss_le_def ss_inv_def)
  qed
  have len: "length (ss_ready s) = 9" "length (ss_ready s') = 9" using inv by (simp_all add: ss_inv_def)
  have rdy: "ss_ready_next cfg' d ?x' s' ! r \<le> ss_ready_next cfg d ?x s ! r" if "r < 9" for r
    unfolding ss_ready_next_def using le len xx that by (intro set_ready_mono) (auto simp: ss_le_def)
  obtain pen fu where b: "\<And>x fb. block_fetch x d fb (ss_fu s) = Inr (if pen then x + 2 else fb, fu)"
    using block_fetch_cases [of "ss_fu s" d] inv(1) unfolding ss_inv_def by metis
  have "ss_fu s' = ss_fu s" "ss_fetch_block s' \<le> ss_fetch_block s" using le by (simp_all add: ss_le_def)
  with t b xx sl rdy le show ?thesis by (auto simp: ss_step_eq Let_def ss_le_def)
qed

interpretation ss_order: timing_order "ss_step cfg w" "ss_inv w" "ss_step cfg' w'" "ss_inv w'" "ss_le cfg w cfg' w'"
  for cfg w cfg' w'
  by unfold_locales (rule ss_step_order)

subsection \<open>The properties of whole runs\<close>

lemma stream_result_simps [simp]:
  "st_cycles (stream_result g n fu) = (if g_count g \<noteq> 0 then word_of_int n else 0)"
  "st_instructions (stream_result g n fu) = of_nat (g_count g)" "st_regs (stream_result g n fu) = regs (g_cpu g)"
  "st_pc (stream_result g n fu) = pc (g_cpu g)" "st_sp (stream_result g n fu) = sp (g_cpu g)"
  "st_flags (stream_result g n fu) = flags (g_cpu g)"
  by (simp_all add: stream_result_def final_state_def)

text \<open>What both models say of the program: the state after some number of reference steps, at its
  halt or at the generator's limit.\<close>

definition reference_state :: "memory \<Rightarrow> console \<Rightarrow> nat \<Rightarrow> pipe_stats \<times> memory \<times> console \<Rightarrow> bool" where
  "reference_state m con n r = (case r of (st, m', con') \<Rightarrow> n \<le> GEN_LIMIT \<and>
     (\<exists>s c. cpu_steps n (cpu_init m) (silent_con con) = Inr (s, c) \<and> (halted s \<or> n = GEN_LIMIT) \<and>
        st_instructions st = of_nat n \<and> st_regs st = regs s \<and> st_pc st = pc s \<and> st_sp st = sp s \<and>
        st_flags st = flags s \<and> m' = mem s \<and> con_sim con' con))"

lemma stream_end_reference:
  assumes "gen_ok m (silent_con con) g" "g_done g"
  shows "reference_state m con (g_count g) (stream_end con g (stream_result g n fu))"
proof -
  have st: "cpu_steps (g_count g) (cpu_init m) (silent_con con) = Inr (g_cpu g, g_con g)"
    and l: "g_count g \<le> GEN_LIMIT" and h: "halted (g_cpu g) \<or> g_count g = GEN_LIMIT"
    using assms by (auto simp: gen_ok_def)
  have "con_sim (g_con g) (silent_con con)" using steps_silent [OF st] by (simp add: silent_con_def)
  with st l h con_sim_restore show ?thesis
    unfolding reference_state_def stream_end_def by auto
qed

lemma count_positive:
  assumes "gen_ok m con g" "g_done g" shows "0 < g_count g"
proof (rule ccontr)
  assume "\<not> 0 < g_count g"
  with assms have "g_cpu g = cpu_init m" "halted (g_cpu g)" by (auto simp: gen_ok_def GEN_LIMIT_def)
  then show False by (simp add: cpu_init_def)
qed

lemma ss_run:
  assumes "bp_cfg_ok cfg"
  obtains fu where "fetch_unit_init cfg = Inr fu" "ss_inv w 0 (ss_init fu)"
    "case stream_loop (ss_step cfg w) 0 (gen_init m con) (ss_init fu) of
       Inl e \<Rightarrow> \<exists>n \<le> GEN_LIMIT. cpu_steps n (cpu_init m) con = Inl e
     | Inr (g', s') \<Rightarrow> gen_ok m con g' \<and> g_done g' \<and> ss_inv w (g_count g') s'"
proof -
  obtain fu where fu: "fetch_unit_init cfg = Inr fu" "fu_ok fu"
    using fetch_unit_init_returns [OF assms] by (auto elim!: returnsE)
  note inv = ss_init_inv [OF fu(2), of w]
  have "g_count (gen_init m con) = 0" by (simp add: gen_init_def)
  from ss.loop_result [OF gen_init_ok this inv] fu inv that show thesis by blast
qed

text \<open>C26: The superscalar model returns for every program: with the fault the reference reaches, or with
  the reference's state at its halt; and then it counts at most \<open>width\<close> instructions per
  cycle beyond the four that fill the pipeline, and at most four cycles per instruction.\<close>

theorem ss_reference:
  assumes "bp_cfg_ok cfg" "1 \<le> width"
  shows "case pipe_run_ss cfg width m con of
      Inl e \<Rightarrow> \<exists>n \<le> GEN_LIMIT. cpu_steps n (cpu_init m) (silent_con con) = Inl e
    | Inr r \<Rightarrow> \<exists>n. reference_state m con n r \<and>
        int n \<le> width * (uint (st_cycles (fst r)) - 4) \<and> uint (st_cycles (fst r)) \<le> 4 * int n + 4"
proof -
  obtain fu where fu: "fetch_unit_init cfg = Inr fu" and run:
    "case stream_loop (ss_step cfg width) 0 (gen_init m (silent_con con)) (ss_init fu) of
       Inl e \<Rightarrow> \<exists>n \<le> GEN_LIMIT. cpu_steps n (cpu_init m) (silent_con con) = Inl e
     | Inr (g', s') \<Rightarrow> gen_ok m (silent_con con) g' \<and> g_done g' \<and> ss_inv width (g_count g') s'"
    using ss_run [OF assms(1)] .
  show ?thesis
  proof (cases "stream_loop (ss_step cfg width) 0 (gen_init m (silent_con con)) (ss_init fu)")
    case (Inl e)
    with fu run show ?thesis by (simp add: pipe_run_ss_def)
  next
    case (Inr x)
    then obtain g s where x: "x = (g, s)" and g: "gen_ok m (silent_con con) g" "g_done g" "ss_inv width (g_count g) s"
      using run by (cases x) auto
    have n: "0 < g_count g" "g_count g \<le> GEN_LIMIT" using count_positive [OF g(1,2)] g(1) by (simp_all add: gen_ok_def)
    let ?c = "ss_last_if s + 4"
    have c: "0 \<le> ?c" "?c \<le> 4 * int (g_count g) + 4" using g(3) by (simp_all add: ss_inv_def)
    have u: "uint (word_of_int ?c :: u64) = ?c" using c n(2) by (intro uint_u64) (simp_all add: GEN_LIMIT_def)
    have "slot_fits width (int (g_count g)) (ss_slot s)" "ss_last_if s = slot_cycle (ss_slot s)"
      using g(3) n(1) assms(2) by (simp_all add: ss_inv_def)
    then have "int (g_count g) \<le> width * ss_last_if s" by (simp add: slot_fits_def algebra_simps)
    with fu Inr x u c(2) n(1) stream_end_reference [OF g(1,2), of ?c "ss_fu s"] show ?thesis
      by (auto simp: pipe_run_ss_def stream_end_def)
  qed
qed

theorem ss_reference_witness:
  "\<exists>n. case pipe_run_ss cfg_l2 2 halt_program (console0 []) of
      Inl e \<Rightarrow> n \<le> GEN_LIMIT \<and> cpu_steps n (cpu_init halt_program) (silent_con (console0 [])) = Inl e
    | Inr r \<Rightarrow> reference_state halt_program (console0 []) n r \<and> int n \<le> 2 * (uint (st_cycles (fst r)) - 4)"
proof -
  have "bp_cfg_ok cfg_l2" using cfg_l2_ok by (simp add: pipe_cfg_ok_def)
  from ss_reference [OF this, of 2 halt_program "console0 []"] show ?thesis
    by (cases "pipe_run_ss cfg_l2 2 halt_program (console0 [])") auto
qed

text \<open>C24: A wider machine, or one with forwarding where the other has none, executes every program in at
  most as many cycles and reports the same everything else.\<close>

theorem ss_faster:
  assumes "bp_cfg_ok cfg" "w \<le> w'" "pc_forwarding cfg \<longrightarrow> fwd"
    and "pipe_run_ss cfg w m con = Inr (st, m', con')"
  shows "\<exists>st'. pipe_run_ss (cfg\<lparr>pc_forwarding := fwd\<rparr>) w' m con = Inr (st', m', con') \<and>
    st_cycles st' \<le> st_cycles st \<and> st'\<lparr>st_cycles := st_cycles st\<rparr> = st"
proof -
  let ?cfg = "cfg\<lparr>pc_forwarding := fwd\<rparr>" and ?g0 = "gen_init m (silent_con con)"
  obtain fu where fu: "fetch_unit_init cfg = Inr fu" "fu_ok fu"
    using fetch_unit_init_returns [OF assms(1)] by (auto elim!: returnsE)
  have "fetch_unit_init ?cfg = fetch_unit_init cfg" by (simp add: fetch_unit_init_def)
  with fu have fu': "fetch_unit_init ?cfg = Inr fu" by simp
  note inv = ss_init_inv [OF fu(2)]
  have le: "ss_le cfg w ?cfg w' 0 (ss_init fu) (ss_init fu)" using assms(2,3) by (simp add: ss_le_def)
  have "g_count ?g0 = 0" by (simp add: gen_init_def)
  note order = ss_order.loop_order [OF gen_init_ok this inv inv le]
  obtain g s where l: "stream_loop (ss_step cfg w) 0 ?g0 (ss_init fu) = Inr (g, s)"
    and r: "stream_end con g (stream_result g (ss_last_if s + 4) (ss_fu s)) = (st, m', con')"
    using assms(4) fu(1) by (auto simp: pipe_run_ss_def res_bind_Inr_iff)
  obtain s' where l': "stream_loop (ss_step ?cfg w') 0 ?g0 (ss_init fu) = Inr (g, s')"
    and R: "ss_le cfg w ?cfg w' (g_count g) s' s" "ss_inv w (g_count g) s" "ss_inv w' (g_count g) s'"
    using order l by (cases "stream_loop (ss_step ?cfg w') 0 ?g0 (ss_init fu)") auto
  have "gen_ok m (silent_con con) g"
    using ss.loop_result [where cfg = cfg and width = w, OF gen_init_ok \<open>g_count ?g0 = 0\<close> inv] l by simp
  then have n: "g_count g \<le> GEN_LIMIT" by (simp add: gen_ok_def)
  have b: "0 \<le> ss_last_if s'" "ss_last_if s' \<le> ss_last_if s" "ss_last_if s \<le> 4 * int (g_count g)"
    using R slot_le_cycle by (auto simp: ss_inv_def ss_le_def)
  then have "(word_of_int (ss_last_if s' + 4) :: u64) \<le> word_of_int (ss_last_if s + 4)"
    using n by (intro u64_le) (simp_all add: GEN_LIMIT_def)
  with fu' l' r R(1) show ?thesis
    by (auto simp: pipe_run_ss_def stream_end_def stream_result_def ss_le_def)
qed

theorem ss_faster_witness:
  "\<exists>st m' c' st'. pipe_run_ss cfg_plain 1 halt_program (console0 []) = Inr (st, m', c') \<and>
     pipe_run_ss (cfg_plain\<lparr>pc_forwarding := True\<rparr>) 4 halt_program (console0 []) = Inr (st', m', c') \<and>
     st_cycles st' \<le> st_cycles st"
proof -
  have ok: "bp_cfg_ok cfg_plain" using cfg_plain_ok by (simp add: pipe_cfg_ok_def)
  obtain fu where fu: "fetch_unit_init cfg_plain = Inr fu" and run:
    "case stream_loop (ss_step cfg_plain 1) 0 (gen_init halt_program (silent_con (console0 []))) (ss_init fu) of
       Inl e \<Rightarrow> \<exists>n \<le> GEN_LIMIT. cpu_steps n (cpu_init halt_program) (silent_con (console0 [])) = Inl e
     | Inr (g', s') \<Rightarrow> gen_ok halt_program (silent_con (console0 [])) g' \<and> g_done g' \<and> ss_inv 1 (g_count g') s'"
    using ss_run [OF ok] .
  have "\<nexists>e n. cpu_steps n (cpu_init halt_program) (silent_con (console0 [])) = Inl e"
    using steps_final_unique [OF _ halt_program_step] by fastforce
  with run obtain g s where "stream_loop (ss_step cfg_plain 1) 0 (gen_init halt_program (silent_con (console0 []))) (ss_init fu) = Inr (g, s)"
    by (auto split: sum.splits)
  with fu obtain st m' c' where "pipe_run_ss cfg_plain 1 halt_program (console0 []) = Inr (st, m', c')"
    by (simp add: pipe_run_ss_def stream_end_def)
  from ss_faster [OF ok _ _ this, of 4 True] this show ?thesis by auto
qed

end
