(* ===== verification/OutOfOrder.thy ===== *)
theory OutOfOrder
  imports Superscalar
begin

text \<open>
  The out-of-order model \<open>pipe_run_ooo\<close> (\<open>src/pipe_sim.c\<close>): dispatch and commit in program
  order, up to \<open>width\<close> a cycle, execution when the operands are ready, a reorder buffer of
  \<open>rob_size\<close> entries that holds dispatch back until the entry it reuses has committed. The
  lemmas bound the scoreboard and show that more width, a larger reorder buffer and
  out-of-order execution never cost cycles.
\<close>

subsection \<open>The model\<close>

record ooo =
  oo_ready :: "int list"
  oo_rob :: "int list"
  oo_disp :: slot            \<comment> \<open>\<open>disp_cycle\<close> and \<open>disp_count\<close>\<close>
  oo_com :: slot             \<comment> \<open>\<open>com_cycle\<close> and \<open>com_count\<close>\<close>
  oo_fetch_block :: int
  oo_last_exec :: int
  oo_last_commit :: int
  oo_fu :: fetch_unit

definition ooo_init :: "nat \<Rightarrow> fetch_unit \<Rightarrow> ooo" where
  "ooo_init rob fu = \<lparr>oo_ready = ready0, oo_rob = replicate rob 0, oo_disp = Slot 1 0, oo_com = Slot 1 0,
     oo_fetch_block = 0, oo_last_exec = 0, oo_last_commit = 0, oo_fu = fu\<rparr>"

text \<open>The cycle of dispatch, and of execution.\<close>

definition ooo_disp :: "int \<Rightarrow> nat \<Rightarrow> nat \<Rightarrow> ooo \<Rightarrow> int" where
  "ooo_disp width rob i s =
     (let disp = next_cycle width (oo_disp s);
          disp = (if disp < oo_fetch_block s then oo_fetch_block s else disp)
      in if i \<ge> rob then
           (let slot_free = oo_rob s ! (i mod rob) + 1 in if disp < slot_free then slot_free else disp)
         else disp)"

definition ooo_exec :: "bool \<Rightarrow> inst_info \<Rightarrow> int \<Rightarrow> ooo \<Rightarrow> int" where
  "ooo_exec in_order d disp s =
     (let exec = after_reads (oo_ready s) 0 (ii_reads d) disp
      in if in_order \<and> exec < oo_last_exec s then oo_last_exec s else exec)"

definition ooo_commit :: "int \<Rightarrow> int \<Rightarrow> ooo \<Rightarrow> int" where
  "ooo_commit width complete s =
     (let commit = next_cycle width (oo_com s) in if commit < complete then complete else commit)"

text \<open>A reorder buffer without entries makes \<open>i % rob_size\<close> undefined.\<close>

definition ooo_step :: "int \<Rightarrow> nat \<Rightarrow> bool \<Rightarrow> nat \<Rightarrow> inst_info \<Rightarrow> ooo \<Rightarrow> ooo res" where
  "ooo_step width rob in_order i d s =
     (if rob = 0 then Inl BadDiv
      else
        (let disp = ooo_disp width rob i s;
             exec = ooo_exec in_order d disp s;
             complete = exec + int (ii_latency d);
             commit = ooo_commit width complete s;
             s = s\<lparr>oo_disp := take_slot width disp (oo_disp s), oo_last_exec := exec,
                   oo_ready := set_ready d complete complete (oo_ready s),
                   oo_com := take_slot width commit (oo_com s),
                   oo_rob := (oo_rob s)[i mod rob := commit], oo_last_commit := commit\<rparr>
         in res_bind (block_fetch exec d (oo_fetch_block s) (oo_fu s)) (\<lambda>(fb, fu).
              Inr (s\<lparr>oo_fetch_block := fb, oo_fu := fu\<rparr>))))"

definition pipe_run_ooo ::
    "pipe_config \<Rightarrow> int \<Rightarrow> nat \<Rightarrow> bool \<Rightarrow> memory \<Rightarrow> console \<Rightarrow> (pipe_stats \<times> memory \<times> console) res" where
  "pipe_run_ooo cfg width rob in_order m con =
     res_bind (fetch_unit_init cfg) (\<lambda>fu.
     res_bind (stream_loop (ooo_step width rob in_order) 0 (gen_init m (silent_con con)) (ooo_init rob fu)) (\<lambda>(g, s).
       Inr (stream_end con g (stream_result g (oo_last_commit s) (oo_fu s)))))"

subsection \<open>The scoreboard returns and stays in bounds\<close>

text \<open>The latest any of the recorded cycles can be after \<open>i\<close> instructions.\<close>

definition latest :: "nat \<Rightarrow> int" where
  "latest i = 21 * int i + 1"

definition ooo_inv :: "int \<Rightarrow> nat \<Rightarrow> nat \<Rightarrow> ooo \<Rightarrow> bool" where
  "ooo_inv width rob i s = (fu_ok (oo_fu s) \<and> 0 < rob \<and> length (oo_ready s) = 9 \<and> length (oo_rob s) = rob \<and>
     (\<forall>x \<in> set (oo_ready s). 0 \<le> x \<and> x \<le> latest i) \<and> (\<forall>x \<in> set (oo_rob s). x \<le> latest i) \<and>
     0 \<le> slot_count (oo_disp s) \<and> 0 \<le> slot_count (oo_com s) \<and> 1 \<le> slot_cycle (oo_com s) \<and>
     1 \<le> slot_cycle (oo_disp s) \<and> slot_cycle (oo_disp s) \<le> latest i \<and> slot_cycle (oo_com s) \<le> latest i \<and>
     oo_fetch_block s \<le> latest i \<and> oo_last_exec s \<le> latest i \<and>
     (0 < i \<longrightarrow> oo_last_commit s = slot_cycle (oo_com s)) \<and>
     (1 \<le> width \<longrightarrow> slot_fits width (int i) (oo_com s)))"

lemma ooo_disp_bounds:
  assumes "ooo_inv w rob i s"
  shows "next_cycle w (oo_disp s) \<le> ooo_disp w rob i s" "ooo_disp w rob i s \<le> latest i + 1"
proof -
  show "next_cycle w (oo_disp s) \<le> ooo_disp w rob i s" by (simp add: ooo_disp_def Let_def)
  have "i mod rob < length (oo_rob s)" using assms by (simp add: ooo_inv_def)
  then have "oo_rob s ! (i mod rob) \<in> set (oo_rob s)" by (rule nth_mem)
  then have "oo_rob s ! (i mod rob) \<le> latest i" using assms unfolding ooo_inv_def by blast
  then show "ooo_disp w rob i s \<le> latest i + 1"
    using assms next_cycle_bounds [where s = "oo_disp s" and w = w] by (simp add: ooo_disp_def Let_def ooo_inv_def)
qed

lemma ooo_exec_bounds:
  assumes "ooo_inv w rob i s" "info_ok d" "x \<le> latest i + 1"
  shows "x \<le> ooo_exec io d x s" "ooo_exec io d x s \<le> latest i + 1"
proof -
  show "x \<le> ooo_exec io d x s"
    using after_reads_ge [of x "oo_ready s" 0 "ii_reads d"] by (simp add: ooo_exec_def Let_def)
  have "oo_ready s ! r - 0 \<le> latest i + 1" if "r \<in> set (ii_reads d)" for r
  proof -
    have "r < length (oo_ready s)" using assms(1,2) that by (auto simp: info_ok_def ooo_inv_def FLAG_REG_def)
    then have "oo_ready s ! r \<in> set (oo_ready s)" by (rule nth_mem)
    then have "oo_ready s ! r \<le> latest i" using assms(1) unfolding ooo_inv_def by blast
    then show ?thesis by simp
  qed
  then have "after_reads (oo_ready s) 0 (ii_reads d) x \<le> latest i + 1" using assms(3) by (intro after_reads_le)
  then show "ooo_exec io d x s \<le> latest i + 1" using assms(1) by (simp add: ooo_exec_def Let_def ooo_inv_def)
qed

lemma ooo_commit_bounds:
  assumes "ooo_inv w rob i s" "c \<le> latest i + 21"
  shows "next_cycle w (oo_com s) \<le> ooo_commit w c s" "c \<le> ooo_commit w c s" "ooo_commit w c s \<le> latest i + 21"
  using assms next_cycle_bounds [where s = "oo_com s" and w = w] by (simp_all add: ooo_commit_def Let_def ooo_inv_def)

lemma latest_Suc: "latest (Suc i) = latest i + 21" "1 \<le> latest i"
  by (simp_all add: latest_def)

lemma set_update_all: "\<forall>x \<in> set xs. P x \<Longrightarrow> P v \<Longrightarrow> \<forall>x \<in> set (xs[k := v]). P x"
  using set_update_subset_insert [of xs k v] by blast

lemma ooo_step_returns:
  assumes inv: "ooo_inv w rob i s" and d: "info_ok d"
  shows "\<exists>s'. ooo_step w rob io i d s = Inr s' \<and> ooo_inv w rob (Suc i) s'"
proof -
  let ?disp = "ooo_disp w rob i s"
  let ?exec = "ooo_exec io d ?disp s"
  let ?done = "?exec + int (ii_latency d)"
  let ?com = "ooo_commit w ?done s"
  note b = ooo_disp_bounds [OF inv]
  note e = ooo_exec_bounds [OF inv d b(2), of io]
  have lat: "1 \<le> ii_latency d" "ii_latency d \<le> 20" using d by (simp_all add: info_ok_def)
  then have dn: "?done \<le> latest i + 21" using e(2) by simp
  note c = ooo_commit_bounds [OF inv dn]
  have one: "1 \<le> ?disp" "1 \<le> ?com"
    using inv b(1) c(1) next_cycle_bounds(1) [of "oo_disp s" w] next_cycle_bounds(1) [of "oo_com s" w]
    unfolding ooo_inv_def by linarith+
  obtain pen fu where bf: "\<And>x fb. block_fetch x d fb (oo_fu s) = Inr (if pen then x + 2 else fb, fu)" "fu_ok fu"
    using block_fetch_cases [of "oo_fu s" d] inv unfolding ooo_inv_def by metis
  have "\<forall>x \<in> set (set_ready d ?done ?done (oo_ready s)). 0 \<le> x \<and> x \<le> latest (Suc i)"
    using inv dn one e(1) lat(1) by (intro set_ready_bounds) (auto simp: ooo_inv_def latest_Suc)
  moreover have "\<forall>x \<in> set ((oo_rob s)[i mod rob := ?com]). x \<le> latest (Suc i)"
    using inv c(3) by (intro set_update_all) (auto simp: ooo_inv_def latest_Suc)
  moreover have "slot_fits w (int (Suc i)) (take_slot w ?com (oo_com s))" if "1 \<le> w"
    using slot_fits_take [OF _ that c(1), of "int i"] inv that by (simp add: ooo_inv_def add.commute)
  ultimately show ?thesis
    using inv bf b c e one by (auto simp: ooo_step_def Let_def ooo_inv_def take_slot_count latest_Suc)
qed

interpretation ooo: timing_model "ooo_step width rob in_order" "ooo_inv width rob" for width rob in_order
  by unfold_locales (rule ooo_step_returns)

lemma ooo_init_inv: "fu_ok fu \<Longrightarrow> 0 < rob \<Longrightarrow> ooo_inv width rob 0 (ooo_init rob fu)"
  by (simp add: ooo_inv_def ooo_init_def latest_def slot_fits_def)

subsection \<open>More hardware never costs cycles\<close>

text \<open>The reorder buffer as the history of commits: entry \<open>j mod n\<close> holds the commit of
  instruction \<open>j\<close> while it is among the last \<open>n\<close>.\<close>

definition rob_holds :: "nat \<Rightarrow> int list \<Rightarrow> int list \<Rightarrow> bool" where
  "rob_holds n h rb = (length rb = n \<and> (\<forall>j < length h. length h \<le> j + n \<longrightarrow> rb ! (j mod n) = h ! j))"

lemma rob_holds_step:
  assumes "rob_holds n h rb" "0 < n" shows "rob_holds n (h @ [c]) (rb[length h mod n := c])"
proof -
  have "rb[length h mod n := c] ! (j mod n) = (h @ [c]) ! j" if j: "j < Suc (length h)" "Suc (length h) \<le> j + n" for j
  proof (cases "j = length h")
    case True
    with assms show ?thesis by (simp add: rob_holds_def)
  next
    case False
    then have "length h mod n \<noteq> j mod n"
      using j mod_eq_dvd_iff_nat [of j "length h" n] by (auto dest: dvd_imp_le)
    with assms False j show ?thesis by (simp add: rob_holds_def nth_append)
  qed
  with assms show ?thesis by (simp add: rob_holds_def)
qed

lemma rob_holds_oldest: "rob_holds n h rb \<Longrightarrow> n \<le> length h \<Longrightarrow> 0 < n \<Longrightarrow> rb ! (length h mod n) = h ! (length h - n)"
  by (auto simp: rob_holds_def le_mod_geq dest!: spec [of _ "length h - n"])

definition ooo_le :: "int \<Rightarrow> nat \<Rightarrow> bool \<Rightarrow> int \<Rightarrow> nat \<Rightarrow> bool \<Rightarrow> nat \<Rightarrow> ooo \<Rightarrow> ooo \<Rightarrow> bool" where
  "ooo_le w rob io w' rob' io' i s' s = (w \<le> w' \<and> rob \<le> rob' \<and> (io' \<longrightarrow> io) \<and> oo_fu s' = oo_fu s \<and>
     oo_disp s' \<le> oo_disp s \<and> oo_com s' \<le> oo_com s \<and> oo_fetch_block s' \<le> oo_fetch_block s \<and>
     oo_last_exec s' \<le> oo_last_exec s \<and> (\<forall>r < 9. oo_ready s' ! r \<le> oo_ready s ! r) \<and>
     (\<exists>h h'. length h = i \<and> length h' = i \<and> (\<forall>j < i. h' ! j \<le> h ! j) \<and> sorted h' \<and>
        (\<forall>x \<in> set h'. x \<le> slot_cycle (oo_com s')) \<and>
        rob_holds rob h (oo_rob s) \<and> rob_holds rob' h' (oo_rob s')))"

lemma ooo_step_order:
  assumes inv: "ooo_inv w rob i s" "ooo_inv w' rob' i s'" and le: "ooo_le w rob io w' rob' io' i s' s" and d: "info_ok d"
    and t: "ooo_step w rob io i d s = Inr t" "ooo_step w' rob' io' i d s' = Inr t'"
  shows "ooo_le w rob io w' rob' io' (Suc i) t' t"
proof -
  obtain h h' where h: "length h = i" "length h' = i" "\<forall>j < i. h' ! j \<le> h ! j" "sorted h'"
    "\<forall>x \<in> set h'. x \<le> slot_cycle (oo_com s')" "rob_holds rob h (oo_rob s)" "rob_holds rob' h' (oo_rob s')"
    using le unfolding ooo_le_def by blast
  have le': "w \<le> w'" "rob \<le> rob'" "io' \<longrightarrow> io" "oo_fu s' = oo_fu s" "oo_disp s' \<le> oo_disp s" "oo_com s' \<le> oo_com s"
    "oo_fetch_block s' \<le> oo_fetch_block s" "oo_last_exec s' \<le> oo_last_exec s" "\<forall>r < 9. oo_ready s' ! r \<le> oo_ready s ! r"
    using le unfolding ooo_le_def by blast+
  have pos: "0 < rob" "0 < rob'" using inv by (simp_all add: ooo_inv_def)
  let ?d = "ooo_disp w rob i s" and ?d' = "ooo_disp w' rob' i s'"
  let ?e = "ooo_exec io d ?d s" and ?e' = "ooo_exec io' d ?d' s'"
  let ?l = "int (ii_latency d)"
  let ?c = "ooo_commit w (?e + ?l) s" and ?c' = "ooo_commit w' (?e' + ?l) s'"
  have free: "oo_rob s' ! (i mod rob') \<le> oo_rob s ! (i mod rob)" if "rob' \<le> i"
  proof -
    have "oo_rob s' ! (i mod rob') = h' ! (i - rob')" using rob_holds_oldest [OF h(7)] h(2) that pos by simp
    also have "\<dots> \<le> h' ! (i - rob)" using h(2,4) that pos le'(2) by (intro sorted_nth_mono) auto
    also have "\<dots> \<le> h ! (i - rob)" using h(3) that pos le'(2) by simp
    also have "\<dots> = oo_rob s ! (i mod rob)" using rob_holds_oldest [OF h(6)] h(1) that le'(2) pos by simp
    finally show ?thesis .
  qed
  have dd: "?d' \<le> ?d"
    using free le'(2,7) next_cycle_mono [OF le'(1,5)] by (auto simp: ooo_disp_def Let_def)
  have rd: "r \<in> set (ii_reads d) \<Longrightarrow> oo_ready s' ! r \<le> oo_ready s ! r" for r
    using le'(9) d by (auto simp: info_ok_def FLAG_REG_def)
  have "after_reads (oo_ready s') 0 (ii_reads d) ?d' \<le> after_reads (oo_ready s) 0 (ii_reads d) ?d"
    by (rule after_reads_mono [OF dd rd])
  then have ee: "?e' \<le> ?e" using le'(3,8) by (auto simp: ooo_exec_def Let_def)
  have cc: "?c' \<le> ?c" using ee next_cycle_mono [OF le'(1,6)] by (auto simp: ooo_commit_def Let_def)
  have nc: "next_cycle w (oo_com s) \<le> ?c" "next_cycle w' (oo_com s') \<le> ?c'" by (simp_all add: ooo_commit_def Let_def)
  have sd: "take_slot w' ?d' (oo_disp s') \<le> take_slot w ?d (oo_disp s)"
    using ooo_disp_bounds(1) [OF inv(1)] ooo_disp_bounds(1) [OF inv(2)] dd inv(1) le'
    by (intro take_slot_mono) (auto simp: ooo_inv_def)
  have sc: "take_slot w' ?c' (oo_com s') \<le> take_slot w ?c (oo_com s)"
    using nc cc inv(1) le' by (intro take_slot_mono) (auto simp: ooo_inv_def)
  have rdy: "set_ready d (?e' + ?l) (?e' + ?l) (oo_ready s') ! r \<le> set_ready d (?e + ?l) (?e + ?l) (oo_ready s) ! r"
    if "r < 9" for r
    using inv le'(9) ee that by (intro set_ready_mono) (auto simp: ooo_inv_def)
  obtain pen fu where b: "\<And>x fb. block_fetch x d fb (oo_fu s) = Inr (if pen then x + 2 else fb, fu)"
    using block_fetch_cases [of "oo_fu s" d] inv(1) unfolding ooo_inv_def by metis
  have last: "\<forall>x \<in> set h'. x \<le> ?c'"
    using h(5) nc(2) next_cycle_bounds(1) [of "oo_com s'" w'] by fastforce
  have hist: "length (h @ [?c]) = Suc i \<and> length (h' @ [?c']) = Suc i \<and> (\<forall>j < Suc i. (h' @ [?c']) ! j \<le> (h @ [?c]) ! j) \<and>
      sorted (h' @ [?c']) \<and> (\<forall>x \<in> set (h' @ [?c']). x \<le> ?c') \<and>
      rob_holds rob (h @ [?c]) ((oo_rob s)[i mod rob := ?c]) \<and> rob_holds rob' (h' @ [?c']) ((oo_rob s')[i mod rob' := ?c'])"
    using h cc last rob_holds_step [OF h(6) pos(1), of ?c] rob_holds_step [OF h(7) pos(2), of ?c']
    by (auto simp: nth_append sorted_append less_Suc_eq)
  have t_eq: "oo_fu t = fu" "oo_disp t = take_slot w ?d (oo_disp s)" "oo_com t = take_slot w ?c (oo_com s)"
    "oo_fetch_block t = (if pen then ?e + 2 else oo_fetch_block s)" "oo_last_exec t = ?e"
    "oo_ready t = set_ready d (?e + ?l) (?e + ?l) (oo_ready s)" "oo_rob t = (oo_rob s)[i mod rob := ?c]"
    using t(1) b pos by (auto simp: ooo_step_def Let_def)
  have t_eq': "oo_fu t' = fu" "oo_disp t' = take_slot w' ?d' (oo_disp s')" "oo_com t' = take_slot w' ?c' (oo_com s')"
    "oo_fetch_block t' = (if pen then ?e' + 2 else oo_fetch_block s')" "oo_last_exec t' = ?e'"
    "oo_ready t' = set_ready d (?e' + ?l) (?e' + ?l) (oo_ready s')" "oo_rob t' = (oo_rob s')[i mod rob' := ?c']"
    using t(2) b pos le'(4) by (auto simp: ooo_step_def Let_def)
  show ?thesis
    unfolding ooo_le_def t_eq t_eq' using le'(1-3,7) sd sc ee rdy hist
    by (intro conjI exI [of _ "h @ [?c]"] exI [of _ "h' @ [?c']"]) auto
qed

interpretation ooo_order: timing_order "ooo_step w rob io" "ooo_inv w rob" "ooo_step w' rob' io'" "ooo_inv w' rob'"
    "ooo_le w rob io w' rob' io'"
  for w rob io w' rob' io'
  by unfold_locales (rule ooo_step_order)

subsection \<open>The properties of whole runs\<close>

lemma ooo_init_le: "w \<le> w' \<Longrightarrow> rob \<le> rob' \<Longrightarrow> (io' \<longrightarrow> io) \<Longrightarrow>
  ooo_le w rob io w' rob' io' 0 (ooo_init rob' fu) (ooo_init rob fu)"
  unfolding ooo_le_def ooo_init_def rob_holds_def by auto

text \<open>C25: The out-of-order model returns for every program: with the fault the reference reaches, or with
  the reference's state at its halt; it then commits at most \<open>width\<close> instructions per cycle,
  and spends at most 21 cycles on each.\<close>

theorem ooo_reference:
  assumes "bp_cfg_ok cfg" "1 \<le> width" "0 < rob"
  shows "case pipe_run_ooo cfg width rob in_order m con of
      Inl e \<Rightarrow> \<exists>n \<le> GEN_LIMIT. cpu_steps n (cpu_init m) (silent_con con) = Inl e
    | Inr r \<Rightarrow> \<exists>n. reference_state m con n r \<and>
        int n \<le> width * uint (st_cycles (fst r)) \<and> uint (st_cycles (fst r)) \<le> 21 * int n + 1"
proof -
  obtain fu where fu: "fetch_unit_init cfg = Inr fu" "fu_ok fu"
    using fetch_unit_init_returns [OF assms(1)] by (auto elim!: returnsE)
  let ?g0 = "gen_init m (silent_con con)" and ?run = "stream_loop (ooo_step width rob in_order) 0"
  have "g_count ?g0 = 0" by (simp add: gen_init_def)
  note run = ooo.loop_result [OF gen_init_ok this ooo_init_inv [OF fu(2) assms(3)], of width in_order]
  show ?thesis
  proof (cases "?run ?g0 (ooo_init rob fu)")
    case (Inl e)
    with fu run show ?thesis by (simp add: pipe_run_ooo_def)
  next
    case (Inr x)
    then obtain g s where x: "x = (g, s)" and g: "gen_ok m (silent_con con) g" "g_done g" "ooo_inv width rob (g_count g) s"
      using run by (cases x) auto
    have n: "0 < g_count g" "g_count g \<le> GEN_LIMIT" using count_positive [OF g(1,2)] g(1) by (simp_all add: gen_ok_def)
    let ?c = "oo_last_commit s"
    have c: "0 \<le> ?c" "?c \<le> 21 * int (g_count g) + 1" "?c = slot_cycle (oo_com s)" "slot_fits width (int (g_count g)) (oo_com s)"
      using g(3) n(1) assms(2) by (simp_all add: ooo_inv_def latest_def)
    have u: "uint (word_of_int ?c :: u64) = ?c" using c(1,2) n(2) by (intro uint_u64) (simp_all add: GEN_LIMIT_def)
    have "int (g_count g) \<le> width * ?c" using c(3,4) by (simp add: slot_fits_def algebra_simps)
    with fu Inr x u c(2) n(1) stream_end_reference [OF g(1,2), of ?c "oo_fu s"] show ?thesis
      by (auto simp: pipe_run_ooo_def stream_end_def)
  qed
qed

theorem ooo_reference_witness:
  "\<exists>n. case pipe_run_ooo cfg_l2 2 64 False halt_program (console0 []) of
      Inl e \<Rightarrow> n \<le> GEN_LIMIT \<and> cpu_steps n (cpu_init halt_program) (silent_con (console0 [])) = Inl e
    | Inr r \<Rightarrow> reference_state halt_program (console0 []) n r \<and> int n \<le> 2 * uint (st_cycles (fst r))"
proof -
  have "bp_cfg_ok cfg_l2" using cfg_l2_ok by (simp add: pipe_cfg_ok_def)
  from ooo_reference [OF this, where width = 2 and rob = 64 and in_order = False and m = halt_program and con = "console0 []"] show ?thesis
    by (cases "pipe_run_ooo cfg_l2 2 64 False halt_program (console0 [])") auto
qed

text \<open>C23: More width, a larger reorder buffer, and out-of-order instead of in-order execution never cost
  a cycle on any program, and change nothing else in the report.\<close>

theorem ooo_faster:
  assumes "bp_cfg_ok cfg" "w \<le> w'" "0 < rob" "rob \<le> rob'" "io' \<longrightarrow> io"
    and "pipe_run_ooo cfg w rob io m con = Inr (st, m', con')"
  shows "\<exists>st'. pipe_run_ooo cfg w' rob' io' m con = Inr (st', m', con') \<and>
    st_cycles st' \<le> st_cycles st \<and> st'\<lparr>st_cycles := st_cycles st\<rparr> = st"
proof -
  let ?g0 = "gen_init m (silent_con con)"
  obtain fu where fu: "fetch_unit_init cfg = Inr fu" "fu_ok fu"
    using fetch_unit_init_returns [OF assms(1)] by (auto elim!: returnsE)
  have r0: "0 < rob'" using assms(3,4) by simp
  note inv = ooo_init_inv [OF fu(2) assms(3)] ooo_init_inv [OF fu(2) r0]
  have g0: "g_count ?g0 = 0" by (simp add: gen_init_def)
  note order = ooo_order.loop_order [OF gen_init_ok g0 inv ooo_init_le [OF assms(2,4,5)]]
  obtain g s where l: "stream_loop (ooo_step w rob io) 0 ?g0 (ooo_init rob fu) = Inr (g, s)"
    and r: "stream_end con g (stream_result g (oo_last_commit s) (oo_fu s)) = (st, m', con')"
    using assms(6) fu(1) by (auto simp: pipe_run_ooo_def res_bind_Inr_iff)
  obtain s' where l': "stream_loop (ooo_step w' rob' io') 0 ?g0 (ooo_init rob' fu) = Inr (g, s')"
    and R: "ooo_le w rob io w' rob' io' (g_count g) s' s" "ooo_inv w rob (g_count g) s" "ooo_inv w' rob' (g_count g) s'"
    using order l by (cases "stream_loop (ooo_step w' rob' io') 0 ?g0 (ooo_init rob' fu)") auto
  have g: "gen_ok m (silent_con con) g" "g_done g"
    using ooo.loop_result [OF gen_init_ok g0 inv(1), of w io] l by simp_all
  have n: "0 < g_count g" "g_count g \<le> GEN_LIMIT" using count_positive [OF g] g(1) by (simp_all add: gen_ok_def)
  have "0 \<le> oo_last_commit s'" "oo_last_commit s' \<le> oo_last_commit s" "oo_last_commit s \<le> 21 * int (g_count g) + 1"
    using R slot_le_cycle n(1) by (auto simp: ooo_inv_def ooo_le_def latest_def)
  then have "(word_of_int (oo_last_commit s') :: u64) \<le> word_of_int (oo_last_commit s)"
    using n(2) by (intro u64_le) (simp_all add: GEN_LIMIT_def)
  moreover have "oo_fu s' = oo_fu s" using R(1) by (simp add: ooo_le_def)
  ultimately show ?thesis
    using fu(1) l' r by (auto simp: pipe_run_ooo_def stream_end_def stream_result_def)
qed

theorem ooo_faster_witness:
  "\<exists>st m' c' st'. pipe_run_ooo cfg_l2 1 4 True halt_program (console0 []) = Inr (st, m', c') \<and>
     pipe_run_ooo cfg_l2 2 64 False halt_program (console0 []) = Inr (st', m', c') \<and> st_cycles st' \<le> st_cycles st"
proof -
  let ?c = "silent_con (console0 [])"
  have ok: "bp_cfg_ok cfg_l2" using cfg_l2_ok by (simp add: pipe_cfg_ok_def)
  obtain fu where fu: "fetch_unit_init cfg_l2 = Inr fu" "fu_ok fu"
    using fetch_unit_init_returns [OF ok] by (auto elim!: returnsE)
  have "g_count (gen_init halt_program ?c) = 0" by (simp add: gen_init_def)
  note run = ooo.loop_result [OF gen_init_ok this ooo_init_inv [OF fu(2), of 4], of 1 True]
  have "\<nexists>e n. cpu_steps n (cpu_init halt_program) ?c = Inl e"
    using steps_final_unique [OF _ halt_program_step] by fastforce
  with run obtain g s where "stream_loop (ooo_step 1 4 True) 0 (gen_init halt_program ?c) (ooo_init 4 fu) = Inr (g, s)"
    by (auto split: sum.splits)
  with fu obtain st m' c' where "pipe_run_ooo cfg_l2 1 4 True halt_program (console0 []) = Inr (st, m', c')"
    by (simp add: pipe_run_ooo_def stream_end_def)
  from ooo_faster [OF ok _ _ _ _ this, of 2 64 False] this show ?thesis by auto
qed

end
