(* ===== verification/PipeTool.thy ===== *)
theory PipeTool
  imports PipeRun Superscalar OutOfOrder Emulator Scan
begin

text \<open>
  The command line tool of the timing simulators (\<open>src/main_pipe.c\<close>): option parsing, the
  configurations it runs, and the text of the report and of the CSV line. Floating-point numbers
  are expressions over the integers of the code; what \<open>printf\<close> makes of their IEEE value is a
  parameter. The cache fields are natural numbers in the model of the caches; a negative number
  on the command line is answered by \<open>Outside\<close>.
\<close>

subsection \<open>Results and numbers\<close>

datatype 'a tool = Done 'a | Failed fault | NoEnd | Outside

fun tool_bind :: "'a tool \<Rightarrow> ('a \<Rightarrow> 'b tool) \<Rightarrow> 'b tool" where
  "tool_bind (Done x) f = f x"
| "tool_bind (Failed e) f = Failed e"
| "tool_bind NoEnd f = NoEnd"
| "tool_bind Outside f = Outside"

text \<open>The \<open>double\<close> expressions of the tool.\<close>

datatype dbl = DInt int | DU u64 | DMul dbl dbl | DDiv dbl dbl | DAdd dbl dbl

definition pct :: "u64 \<Rightarrow> u64 \<Rightarrow> dbl" where
  "pct num den = (if den \<noteq> 0 then DDiv (DMul (DInt 100) (DU num)) (DU den) else DInt 0)"

text \<open>\<open>cache_amat\<close>; the field of the statistics is 0 when there is no such cache.\<close>

definition cache_amat :: "cache_config \<Rightarrow> u64 \<times> u64 \<Rightarrow> dbl" where
  "cache_amat cfg am = (let (accesses, misses) = am in
     if accesses = 0 then DInt (cc_hit_latency cfg)
     else DAdd (DInt (cc_hit_latency cfg))
            (DMul (DDiv (DU misses) (DU accesses)) (DInt (cc_miss_penalty cfg))))"

definition padl :: "nat \<Rightarrow> string \<Rightarrow> string" where
  "padl k s = replicate (k - length s) (CHR '' '') @ s"

definition llu :: "u64 \<Rightarrow> string" where
  "llu v = fmt_base 10 (unat v)"

subsection \<open>Options\<close>

definition parse_pred :: "string \<Rightarrow> bp_kind" where
  "parse_pred s =
     (if s = ''none'' then BP_NONE else if s = ''static'' then BP_STATIC_NT
      else if s = ''1bit'' then BP_BIMODAL1 else if s = ''2bit'' then BP_BIMODAL2
      else if s = ''gshare'' then BP_GSHARE else if s = ''tournament'' then BP_TOURNAMENT
      else if s = ''tournament3'' then BP_TOURNAMENT3 else BP_BIMODAL2)"

definition parse_repl :: "string \<Rightarrow> repl_policy" where
  "parse_repl s = (if s = ''fifo'' then REPL_FIFO else if s = ''random'' then REPL_RANDOM else REPL_LRU)"

text \<open>\<open>sscanf(s, "%d:%d:%d", ...)\<close>: size, ways, block; what is not read stays 0.\<close>

definition scan_cache :: "string \<Rightarrow> i32 \<times> i32 \<times> i32" where
  "scan_cache s =
     (let field = (\<lambda>r. Option.bind (sc_lit '':'' r) sc_int) in
      case sc_int (cstr s) of None \<Rightarrow> (0, 0, 0)
      | Some (a, r) \<Rightarrow> (case field r of None \<Rightarrow> (a, 0, 0)
          | Some (b, r) \<Rightarrow> (case field r of None \<Rightarrow> (a, b, 0) | Some (c, _) \<Rightarrow> (a, b, c))))"

definition cache_off :: cache_config where
  "cache_off = \<lparr>cc_enabled = False, cc_size = 0, cc_block = 0, cc_assoc = 0, cc_repl = REPL_LRU,
     cc_hit_latency = 0, cc_miss_penalty = 0\<rparr>"

definition parse_cache :: "string \<Rightarrow> repl_policy \<Rightarrow> int \<Rightarrow> cache_config tool" where
  "parse_cache s policy miss =
     (let (sz, assoc, block) = scan_cache s in
      if sint sz < 0 \<or> sint assoc < 0 \<or> sint block < 0 then Outside
      else Done \<lparr>cc_enabled = True, cc_size = unat sz, cc_block = unat block, cc_assoc = unat assoc,
             cc_repl = policy, cc_hit_latency = 1, cc_miss_penalty = miss\<rparr>)"

record popts =
  po_csv :: bool
  po_forwarding :: bool
  po_ghist :: i32
  po_miss :: i32
  po_pred :: bp_kind
  po_repl :: repl_policy
  po_l1i :: "string option"
  po_l1d :: "string option"
  po_path :: "string option"

definition popts0 :: popts where
  "popts0 = \<lparr>po_csv = False, po_forwarding = True, po_ghist = 8, po_miss = 10, po_pred = BP_BIMODAL2,
     po_repl = REPL_LRU, po_l1i = None, po_l1d = None, po_path = None\<rparr>"

fun pipe_args :: "string list \<Rightarrow> popts \<Rightarrow> popts" where
  "pipe_args [] p = p"
| "pipe_args (a # as) p =
     (if a = ''--csv'' then pipe_args as (p\<lparr>po_csv := True\<rparr>)
      else if a = ''--no-forward'' then pipe_args as (p\<lparr>po_forwarding := False\<rparr>)
      else if a = ''--predictor'' \<and> as \<noteq> [] then pipe_args (tl as) (p\<lparr>po_pred := parse_pred (hd as)\<rparr>)
      else if a = ''--ghist-bits'' \<and> as \<noteq> [] then pipe_args (tl as) (p\<lparr>po_ghist := atoi (hd as)\<rparr>)
      else if a = ''--miss-penalty'' \<and> as \<noteq> [] then pipe_args (tl as) (p\<lparr>po_miss := atoi (hd as)\<rparr>)
      else if a = ''--repl'' \<and> as \<noteq> [] then pipe_args (tl as) (p\<lparr>po_repl := parse_repl (hd as)\<rparr>)
      else if a = ''--l1i'' \<and> as \<noteq> [] then pipe_args (tl as) (p\<lparr>po_l1i := Some (hd as)\<rparr>)
      else if a = ''--l1d'' \<and> as \<noteq> [] then pipe_args (tl as) (p\<lparr>po_l1d := Some (hd as)\<rparr>)
      else pipe_args as (p\<lparr>po_path := Some a\<rparr>))"

subsection \<open>Runs\<close>

text \<open>Each run works on a copy of the loaded memory; the console goes from one to the next.\<close>

definition tool_run ::
  "(nat \<Rightarrow> nat) \<Rightarrow> memory \<Rightarrow> pipe_config \<Rightarrow> console \<Rightarrow> (pipe_stats \<times> console) tool" where
  "tool_run rnd m cfg con = (case pipe_run rnd cfg m con of
     None \<Rightarrow> NoEnd | Some (Inl e) \<Rightarrow> Failed e | Some (Inr (st, _, con)) \<Rightarrow> Done (st, con))"

definition run_ss :: "memory \<Rightarrow> pipe_config \<Rightarrow> int \<Rightarrow> console \<Rightarrow> (pipe_stats \<times> console) tool" where
  "run_ss m cfg w con =
     (case pipe_run_ss cfg w m con of Inl e \<Rightarrow> Failed e | Inr (st, _, con) \<Rightarrow> Done (st, con))"

definition run_ooo ::
  "memory \<Rightarrow> pipe_config \<Rightarrow> int \<Rightarrow> nat \<Rightarrow> bool \<Rightarrow> console \<Rightarrow> (pipe_stats \<times> console) tool" where
  "run_ooo m cfg w rob io con =
     (case pipe_run_ooo cfg w rob io m con of Inl e \<Rightarrow> Failed e | Inr (st, _, con) \<Rightarrow> Done (st, con))"

text \<open>A run for each entry of a list, with the line it prints.\<close>

fun run_rows ::
  "('c \<Rightarrow> console \<Rightarrow> (pipe_stats \<times> console) tool) \<Rightarrow> ('c \<Rightarrow> pipe_stats \<Rightarrow> string) \<Rightarrow> 'c list \<Rightarrow> console \<Rightarrow>
   (string \<times> console) tool" where
  "run_rows run row [] con = Done ([], con)"
| "run_rows run row (c # cs) con =
     tool_bind (run c con) (\<lambda>(st, con).
     tool_bind (run_rows run row cs con) (\<lambda>(t, con). Done (row c st @ t, con)))"

text \<open>\<open>(PipeConfig){ .forwarding = 1, .bp = kind }\<close>.\<close>

definition plain_cfg :: "bool \<Rightarrow> bp_kind \<Rightarrow> pipe_config" where
  "plain_cfg fwd kind = \<lparr>pc_forwarding = fwd, pc_bp = kind, pc_idx_bits = 0, pc_ghist_bits = 0,
     pc_icache = cache_off, pc_dcache = cache_off, pc_l2 = cache_off\<rparr>"

definition lru_cache :: "nat \<Rightarrow> nat \<Rightarrow> nat \<Rightarrow> int \<Rightarrow> int \<Rightarrow> cache_config" where
  "lru_cache sz block assoc hit miss = \<lparr>cc_enabled = True, cc_size = sz, cc_block = block,
     cc_assoc = assoc, cc_repl = REPL_LRU, cc_hit_latency = hit, cc_miss_penalty = miss\<rparr>"

subsection \<open>The report\<close>

text \<open>\<open>fx k e\<close> is what \<open>%.kf\<close> prints for \<open>e\<close>; \<open>n\<close> is the instruction count as a \<open>long\<close>.\<close>

definition cpi :: "int \<Rightarrow> u64 \<Rightarrow> dbl" where
  "cpi n cycles = DDiv (DU cycles) (DInt n)"

definition forwarding_part :: "(nat \<Rightarrow> dbl \<Rightarrow> string) \<Rightarrow> string \<Rightarrow> int \<Rightarrow> pipe_stats \<Rightarrow> pipe_stats \<Rightarrow> string" where
  "forwarding_part fx path n nofwd fwd =
     ''=== pipeline analysis: '' @ path @ '' ===\<newline>'' @
     ''dynamic instructions : '' @ fmt_int n @ ''\<newline>'' @
     ''ideal cycles (CPI=1) : '' @ fmt_int (n + 4) @ ''  (CPI '' @ fx 3 (DDiv (DInt (n + 4)) (DInt n)) @ '')\<newline>\<newline>'' @
     concat (map (\<lambda>(label, st). label @ llu (st_cycles st) @ '' cycles  CPI '' @ fx 3 (cpi n (st_cycles st)) @
         ''  (data '' @ llu (st_data_stalls st) @ '', ctrl '' @ llu (st_control_stalls st) @ '')\<newline>'')
       [(''no forwarding        : '', nofwd), (''with forwarding      : '', fwd)]) @
     ''forwarding speedup   : '' @ fx 2 (DDiv (DU (st_cycles nofwd)) (DU (st_cycles fwd))) @ ''x\<newline>\<newline>''"

definition predictor_row :: "(nat \<Rightarrow> dbl \<Rightarrow> string) \<Rightarrow> int \<Rightarrow> bp_kind \<Rightarrow> pipe_stats \<Rightarrow> string" where
  "predictor_row fx n kind st =
     padr 13 (bp_name kind) @ '' '' @ padl 8 (llu (st_cond_branches st)) @ '' '' @
     padl 8 (llu (st_branch_mispredicts st)) @ '' '' @
     padl 7 (fx 1 (pct (st_cond_branches st - st_branch_mispredicts st) (st_cond_branches st))) @ ''% '' @
     padl 7 (fx 2 (DDiv (DMul (DInt 1000) (DU (st_branch_mispredicts st))) (DInt n))) @ '' '' @
     padl 9 (llu (st_cycles st)) @ '' '' @ padl 6 (fx 3 (cpi n (st_cycles st))) @ ''\<newline>''"

definition cache_row :: "(nat \<Rightarrow> dbl \<Rightarrow> string) \<Rightarrow> string \<Rightarrow> cache_config \<Rightarrow> u64 \<times> u64 \<Rightarrow> string" where
  "cache_row fx label cfg am =
     padr 8 label @ '' '' @ padl 9 (llu (fst am)) @ '' '' @ padl 8 (llu (snd am)) @ '' '' @
     padl 7 (fx 2 (pct (snd am) (fst am))) @ ''% '' @ padl 6 (fx 2 (cache_amat cfg am)) @ ''\<newline>''"

definition cache_part :: "(nat \<Rightarrow> dbl \<Rightarrow> string) \<Rightarrow> int \<Rightarrow> cache_config \<Rightarrow> pipe_stats \<Rightarrow> string" where
  "cache_part fx n l1 st =
     ''\<newline>=== caches (L1 1KB, 32B blocks, 4-way LRU, miss=10) ===\<newline>'' @
     padr 8 ''cache'' @ '' '' @ padl 9 ''accesses'' @ '' '' @ padl 8 ''misses'' @ '' '' @ padl 8 ''miss%'' @ '' '' @
     padl 7 ''AMAT'' @ ''\<newline>'' @
     cache_row fx ''L1-I'' l1 (st_icache st) @ cache_row fx ''L1-D'' l1 (st_dcache st) @
     ''cycles with caches   : '' @ llu (st_cycles st) @ ''  CPI '' @ fx 3 (cpi n (st_cycles st)) @
     ''  (mem stalls '' @ llu (st_mem_stalls st) @ '')\<newline>''"

text \<open>A line with a label, the cycles, CPI and IPC.\<close>

definition ipc_row :: "(nat \<Rightarrow> dbl \<Rightarrow> string) \<Rightarrow> nat \<Rightarrow> int \<Rightarrow> string \<Rightarrow> pipe_stats \<Rightarrow> string" where
  "ipc_row fx k n label st =
     padr k label @ '' '' @ padl 9 (llu (st_cycles st)) @ '' '' @ padl 7 (fx 3 (cpi n (st_cycles st))) @ '' '' @
     padl 7 (fx 3 (DDiv (DInt n) (DU (st_cycles st)))) @ ''\<newline>''"

definition hierarchy_row :: "(nat \<Rightarrow> dbl \<Rightarrow> string) \<Rightarrow> int \<Rightarrow> string \<Rightarrow> pipe_stats \<Rightarrow> string" where
  "hierarchy_row fx n label st =
     padr 10 label @ '' '' @ padl 9 (llu (st_cycles st)) @ '' '' @ padl 7 (fx 3 (cpi n (st_cycles st))) @ '' '' @
     padl 11 (llu (st_mem_stalls st)) @ ''\<newline>''"

definition l2_line :: "(nat \<Rightarrow> dbl \<Rightarrow> string) \<Rightarrow> pipe_stats \<Rightarrow> string" where
  "l2_line fx st =
     (let (accesses, misses) = st_l2 st; (dacc, dmiss) = st_dcache st;
          l2_amat = DAdd (DInt 10) (DMul (DDiv (DU misses) (DU accesses)) (DInt 100));
          dmr = (if dacc \<noteq> 0 then DDiv (DU dmiss) (DU dacc) else DInt 0)
      in if accesses \<noteq> 0 then
           ''L2: '' @ llu accesses @ '' accesses, '' @ fx 2 (pct misses accesses) @
           ''% miss   L1-D AMAT(+L2) = '' @ fx 2 (DAdd (DInt 1) (DMul dmr l2_amat)) @ '' cycles\<newline>''
         else [])"

definition superscalar_part ::
  "(nat \<Rightarrow> dbl \<Rightarrow> string) \<Rightarrow> int \<Rightarrow> memory \<Rightarrow> console \<Rightarrow> (string \<times> console) tool" where
  "superscalar_part fx n m con =
     tool_bind (run_rows (run_ss m (plain_cfg True BP_BIMODAL2))
         (\<lambda>w. ipc_row fx 6 n (fmt_int w)) [1, 2, 4] con) (\<lambda>(rows, con).
     Done (''\<newline>=== superscalar issue width (forwarding on, bimodal-2bit) ===\<newline>'' @
       padr 6 ''width'' @ '' '' @ padl 9 ''cycles'' @ '' '' @ padl 7 ''CPI'' @ '' '' @ padl 7 ''IPC'' @ ''\<newline>'' @ rows, con))"

definition ooo_part ::
  "(nat \<Rightarrow> dbl \<Rightarrow> string) \<Rightarrow> int \<Rightarrow> memory \<Rightarrow> console \<Rightarrow> (string \<times> console) tool" where
  "ooo_part fx n m con =
     tool_bind (run_ooo m (plain_cfg False BP_BIMODAL2) 2 64 True con) (\<lambda>(io, con).
     tool_bind (run_ooo m (plain_cfg False BP_BIMODAL2) 2 64 False con) (\<lambda>(oo, con).
     Done (''\<newline>=== out-of-order (width 2, ROB 64; DIV=20 MUL=3 LOAD=2) ===\<newline>'' @
       padr 10 ''mode'' @ '' '' @ padl 9 ''cycles'' @ '' '' @ padl 7 ''CPI'' @ '' '' @ padl 7 ''IPC'' @ ''\<newline>'' @
       ipc_row fx 10 n ''in-order'' io @ ipc_row fx 10 n ''OoO'' oo @
       ''OoO speedup          : '' @ fx 2 (DDiv (DU (st_cycles io)) (DU (st_cycles oo))) @ ''x\<newline>'', con)))"

definition hierarchy_part ::
  "(nat \<Rightarrow> dbl \<Rightarrow> string) \<Rightarrow> (nat \<Rightarrow> nat) \<Rightarrow> int \<Rightarrow> memory \<Rightarrow> console \<Rightarrow> (string \<times> console) tool" where
  "hierarchy_part fx rnd n m con =
     (let l1 = lru_cache 1024 32 4 1 100; l2 = lru_cache 16384 64 8 10 100;
          cfg = (plain_cfg True BP_BIMODAL2)\<lparr>pc_icache := l1, pc_dcache := l1\<rparr> in
      tool_bind (tool_run rnd m cfg con) (\<lambda>(m1, con).
      tool_bind (tool_run rnd m (cfg\<lparr>pc_l2 := l2\<rparr>) con) (\<lambda>(m2, con).
      Done (''\<newline>=== memory hierarchy: L1-only vs +L2 (L1 1KB, L2 16KB, mem=100) ===\<newline>'' @
        padr 10 ''config'' @ '' '' @ padl 9 ''cycles'' @ '' '' @ padl 7 ''CPI'' @ '' '' @ padl 11 ''mem stalls'' @ ''\<newline>'' @
        hierarchy_row fx n ''L1 only'' m1 @ hierarchy_row fx n ''L1 + L2'' m2 @ l2_line fx m2 @
        ''L2 speedup           : '' @ fx 2 (DDiv (DU (st_cycles m1)) (DU (st_cycles m2))) @ ''x\<newline>'', con))))"

definition full_report ::
  "(nat \<Rightarrow> dbl \<Rightarrow> string) \<Rightarrow> (nat \<Rightarrow> nat) \<Rightarrow> string \<Rightarrow> memory \<Rightarrow> console \<Rightarrow> (string \<times> console) tool" where
  "full_report fx rnd path m con =
     tool_bind (tool_run rnd m (plain_cfg False BP_NONE) con) (\<lambda>(nofwd, con).
     tool_bind (tool_run rnd m (plain_cfg True BP_NONE) con) (\<lambda>(fwd, con).
     let n = sint (st_instructions fwd); l1 = lru_cache 1024 32 4 1 10 in
     tool_bind (run_rows (\<lambda>kind. tool_run rnd m (plain_cfg True kind)) (predictor_row fx n)
         [BP_STATIC_NT, BP_BIMODAL1, BP_BIMODAL2, BP_GSHARE, BP_TOURNAMENT, BP_TOURNAMENT3] con) (\<lambda>(rows, con).
     tool_bind (tool_run rnd m ((plain_cfg True BP_TOURNAMENT)\<lparr>pc_icache := l1, pc_dcache := l1\<rparr>) con) (\<lambda>(cs, con).
     tool_bind (superscalar_part fx n m con) (\<lambda>(ss, con).
     tool_bind (ooo_part fx n m con) (\<lambda>(ooo, con).
     tool_bind (hierarchy_part fx rnd n m con) (\<lambda>(hier, con).
     Done (forwarding_part fx path n nofwd fwd @
       ''=== branch prediction (forwarding on) ===\<newline>'' @
       padr 13 ''predictor'' @ '' '' @ padl 8 ''cond'' @ '' '' @ padl 8 ''mispred'' @ '' '' @ padl 8 ''acc%'' @ '' '' @
       padl 7 ''MPKI'' @ '' '' @ padl 9 ''cycles'' @ '' '' @ padl 6 ''CPI'' @ ''\<newline>'' @ rows @
       cache_part fx n l1 cs @ ss @ ooo @ hier, con))))))))"

subsection \<open>\<open>main\<close>\<close>

definition csv_line :: "(nat \<Rightarrow> dbl \<Rightarrow> string) \<Rightarrow> popts \<Rightarrow> i32 \<times> i32 \<times> i32 \<Rightarrow> pipe_stats \<Rightarrow> string" where
  "csv_line fx p dcfg st =
     (let n = sint (st_instructions st); (sz, assoc, block) = dcfg in
      bp_name (po_pred p) @ '','' @ fmt_d (po_ghist p) @ '','' @ fmt_d sz @ '','' @ fmt_d assoc @ '','' @
      fmt_d block @ '','' @ fmt_int n @ '','' @ llu (st_cond_branches st) @ '','' @
      llu (st_branch_mispredicts st) @ '','' @
      fx 2 (pct (st_cond_branches st - st_branch_mispredicts st) (st_cond_branches st)) @ '','' @
      fx 2 (DDiv (DMul (DInt 1000) (DU (st_branch_mispredicts st))) (DInt n)) @ '','' @
      fx 2 (pct (snd (st_icache st)) (fst (st_icache st))) @ '','' @
      fx 2 (pct (snd (st_dcache st)) (fst (st_dcache st))) @ '','' @
      llu (st_cycles st) @ '','' @ fx 3 (cpi n (st_cycles st)) @ ''\<newline>'')"

definition option_cache :: "string option \<Rightarrow> popts \<Rightarrow> cache_config tool" where
  "option_cache s p = (case s of None \<Rightarrow> Done cache_off | Some t \<Rightarrow> parse_cache t (po_repl p) (sint (po_miss p)))"

definition main_pipe ::
  "(nat \<Rightarrow> dbl \<Rightarrow> string) \<Rightarrow> (nat \<Rightarrow> nat) \<Rightarrow> string \<Rightarrow> string list \<Rightarrow> files \<Rightarrow> console \<Rightarrow> (nat \<times> console) tool" where
  "main_pipe fx rnd argv0 args fs con =
     (let p = pipe_args args popts0 in
      case po_path p of
        None \<Rightarrow> Done (2, print_err (''usage: '' @ argv0 @ '' [--csv] [--predictor N] [--ghist-bits N] '' @
          ''[--no-forward] [--l1i S:A:B] [--l1d S:A:B] [--repl R] [--miss-penalty N] program.bin\<newline>'') con)
      | Some path \<Rightarrow>
          (case read_file fs path of
             Inl e \<Rightarrow> Done (1, print_err e con)
           | Inr t \<Rightarrow>
              (let m = load_bytes mem_init t in
               if \<not> po_csv p then
                 tool_bind (full_report fx rnd path m con) (\<lambda>(text, con). Done (0, print_out text con))
               else
                 tool_bind (option_cache (po_l1i p) p) (\<lambda>ic.
                 tool_bind (option_cache (po_l1d p) p) (\<lambda>dc.
                 tool_bind (tool_run rnd m ((plain_cfg (po_forwarding p) (po_pred p))
                     \<lparr>pc_ghist_bits := sint (po_ghist p), pc_icache := ic, pc_dcache := dc\<rparr>) con) (\<lambda>(st, con).
                   Done (0, print_out (csv_line fx p
                     (case po_l1d p of None \<Rightarrow> (0, 0, 0) | Some s \<Rightarrow> scan_cache s) st) con)))))))"

end
