(* ===== verification/AsmLines.thy ===== *)
theory AsmLines
  imports Execution Roundtrip
begin

text \<open>
  Assembly text by lines, as the compiler emits it, and a machine that executes the lines. A line
  is an instruction, a jump or call to a label, a load of a label's address, a label, a data word
  or the comment; \<open>line_text\<close> is what the compiler writes for it. The machine steps through the
  list: data instructions are executed by the emulator's own \<open>exec_instr\<close>, jumps go to the place
  of the label in the list, and the hardware stack is a list of values and return places. It only
  reads and writes memory that belongs to the program's variables.
\<close>

subsection \<open>Lines\<close>

datatype aline =
    AIns opcode u8 u8 i32
  | AJump opcode string
  | AAddr u8 string
  | AMark string
  | AData int
  | AComment

definition indented :: "string \<Rightarrow> string" where
  "indented t = replicate 8 (CHR '' '') @ t"

fun line_text :: "aline \<Rightarrow> string" where
  "line_text (AIns op rd rs im) = indented (disasm_text (ENCODE_INSTR op rd rs im))"
| "line_text (AJump op l) = indented (opcode_name op @ '' '' @ l)"
| "line_text (AAddr r l) = indented (''LOADI '' @ fmt_reg r @ '', '' @ l)"
| "line_text (AMark l) = l @ '':''"
| "line_text (AData v) = indented (''.word '' @ fmt_int v)"
| "line_text AComment = ''; generated by mcc''"

text \<open>Names that the assembler reads as a label.\<close>

definition label_ok :: "string \<Rightarrow> bool" where
  "label_ok l = (l \<noteq> [] \<and> (isalpha (hd l) \<or> hd l = CHR ''_'') \<and> list_all ident_char l \<and>
     length l < TEXT_SIZE \<and> is_reg l = None)"

fun line_ok :: "aline \<Rightarrow> bool" where
  "line_ok (AIns op rd rs im) = (op_known op \<and> rd < 8 \<and> rs < 8 \<and> imm_fits im \<and>
     canonical (ENCODE_INSTR op rd rs im))"
| "line_ok (AJump op l) = (op_known op \<and> opcode_format op = OPF_IMM \<and> label_ok l)"
| "line_ok (AAddr r l) = (r < 8 \<and> label_ok l)"
| "line_ok (AMark l) = label_ok l"
| "line_ok (AData v) = (- LONG_MAX \<le> v \<and> v \<le> LONG_MAX)"
| "line_ok AComment = True"

declare line_ok.simps(1) [simp del]

definition marks :: "aline list \<Rightarrow> string list" where
  "marks ls = concat (map (\<lambda>l. case l of AMark n \<Rightarrow> [n] | _ \<Rightarrow> []) ls)"

lemma marks_simps [simp]:
  "marks [] = []" "marks (AMark n # ls) = n # marks ls" "marks (AIns op rd rs im # ls) = marks ls"
  "marks (AJump op n # ls) = marks ls" "marks (AAddr r n # ls) = marks ls"
  "marks (AData v # ls) = marks ls" "marks (AComment # ls) = marks ls"
  "marks (xs @ ys) = marks xs @ marks ys"
  by (simp_all add: marks_def)

subsection \<open>The machine\<close>

datatype sval = Val u32 | Ret nat

text \<open>The processor's program counter, stack pointer and instruction count play no part.\<close>

record lstate =
  l_at :: nat
  l_cpu :: cpu
  l_stk :: "sval list"
  l_con :: console

text \<open>The bytes of variables, and the addresses of the labels.\<close>

record lenv =
  user :: "u32 \<Rightarrow> bool"
  addr_of :: "string \<Rightarrow> u32 option"

definition cell :: "u32 \<Rightarrow> u32 list" where
  "cell a = [a, a + 1, a + 2, a + 3]"

definition accessible :: "(u32 \<Rightarrow> bool) \<Rightarrow> u32 \<Rightarrow> bool" where
  "accessible U a = (unat a + 4 \<le> 65536 \<and> list_all U (cell a) \<and> \<not> mmio_is_device a)"

text \<open>Where a label is defined.\<close>

fun place :: "string \<Rightarrow> aline list \<Rightarrow> nat option" where
  "place n [] = None"
| "place n (l # ls) = (if l = AMark n then Some 0 else map_option Suc (place n ls))"

definition is_data_op :: "opcode \<Rightarrow> bool" where
  "is_data_op op = (op \<in> {OP_ADD, OP_SUB, OP_MUL, OP_DIV, OP_AND, OP_OR, OP_XOR, OP_NOT, OP_SHL, OP_SHR,
     OP_MOV, OP_LOAD, OP_STORE, OP_LOADI, OP_IN, OP_OUT})"

definition data_ok :: "(u32 \<Rightarrow> bool) \<Rightarrow> instruction \<Rightarrow> cpu \<Rightarrow> bool" where
  "data_ok U ins s = (is_data_op (opcode ins) \<and>
     (opcode ins = OP_LOAD \<longrightarrow> accessible U (reg s (rsrc ins) + imm ins)) \<and>
     (opcode ins = OP_STORE \<longrightarrow> accessible U (reg s (rdest ins) + imm ins)) \<and>
     (opcode ins = OP_DIV \<longrightarrow> reg s (rsrc ins) \<noteq> 0))"

definition next_line :: "lstate \<Rightarrow> lstate" where
  "next_line st = st\<lparr>l_at := Suc (l_at st)\<rparr>"

definition jump_taken :: "opcode \<Rightarrow> cpu_flags \<Rightarrow> bool" where
  "jump_taken op f = (case op of
     OP_JMP \<Rightarrow> True | OP_JZ \<Rightarrow> flag_z f | OP_JNZ \<Rightarrow> \<not> flag_z f
   | OP_JG \<Rightarrow> \<not> flag_z f \<and> flag_n f = flag_o f | OP_JL \<Rightarrow> flag_n f \<noteq> flag_o f | OP_CALL \<Rightarrow> True
   | _ \<Rightarrow> False)"

definition step_ins :: "lenv \<Rightarrow> instruction \<Rightarrow> lstate \<Rightarrow> lstate option" where
  "step_ins E ins st =
     (let s = l_cpu st in case opcode ins of
        OP_PUSH \<Rightarrow> Some (next_line (st\<lparr>l_stk := Val (reg s (rdest ins)) # l_stk st\<rparr>))
      | OP_POP \<Rightarrow> (case l_stk st of
            Val v # t \<Rightarrow> Some (next_line (st\<lparr>l_cpu := set_reg s (rdest ins) v, l_stk := t\<rparr>))
          | _ \<Rightarrow> None)
      | OP_RET \<Rightarrow> (case l_stk st of Ret k # t \<Rightarrow> Some (st\<lparr>l_at := k, l_stk := t\<rparr>) | _ \<Rightarrow> None)
      | _ \<Rightarrow> if data_ok (user E) ins s then
               (case exec_instr ins s (l_con st) of
                  Inl _ \<Rightarrow> None
                | Inr (s, con) \<Rightarrow> Some (next_line (st\<lparr>l_cpu := s, l_con := con\<rparr>)))
             else None)"

definition step_jump :: "aline list \<Rightarrow> opcode \<Rightarrow> string \<Rightarrow> lstate \<Rightarrow> lstate option" where
  "step_jump prog op l st =
     (if \<not> jump_taken op (flags (l_cpu st)) then Some (next_line st)
      else case place l prog of
             None \<Rightarrow> None
           | Some k \<Rightarrow> Some (if op = OP_CALL then st\<lparr>l_at := k, l_stk := Ret (Suc (l_at st)) # l_stk st\<rparr>
                            else st\<lparr>l_at := k\<rparr>))"

text \<open>One line that falls through to the next, except for \<open>RET\<close>.\<close>

definition plain_step :: "lenv \<Rightarrow> aline \<Rightarrow> lstate \<Rightarrow> lstate option" where
  "plain_step E l st = (case l of
     AIns op rd rs im \<Rightarrow> step_ins E \<lparr>opcode = op, rdest = rd, rsrc = rs, imm = im\<rparr> st
   | AAddr r n \<Rightarrow> map_option (\<lambda>a. next_line (st\<lparr>l_cpu := set_reg (l_cpu st) r a\<rparr>)) (addr_of E n)
   | AMark _ \<Rightarrow> Some (next_line st)
   | AComment \<Rightarrow> Some (next_line st)
   | _ \<Rightarrow> None)"

definition lstep :: "lenv \<Rightarrow> aline list \<Rightarrow> lstate \<Rightarrow> lstate option" where
  "lstep E prog st =
     (if l_at st < length prog then
        (case prog ! l_at st of
           AJump op n \<Rightarrow> step_jump prog op n st
         | l \<Rightarrow> plain_step E l st)
      else None)"

inductive lruns :: "lenv \<Rightarrow> aline list \<Rightarrow> lstate \<Rightarrow> lstate \<Rightarrow> bool" for E prog where
  here: "lruns E prog st st"
| there: "lstep E prog st = Some st1 \<Longrightarrow> lruns E prog st1 st2 \<Longrightarrow> lruns E prog st st2"

lemma lruns_trans: "lruns E prog a b \<Longrightarrow> lruns E prog b c \<Longrightarrow> lruns E prog a c"
  by (induction rule: lruns.induct) (auto intro: lruns.intros)

lemma lruns_step: "lstep E prog a = Some b \<Longrightarrow> lruns E prog a b"
  by (blast intro: lruns.intros)

subsection \<open>Code in a program\<close>

definition at :: "aline list \<Rightarrow> nat \<Rightarrow> aline list \<Rightarrow> bool" where
  "at prog i ls = (i + length ls \<le> length prog \<and> take (length ls) (drop i prog) = ls)"

lemma at_append: "at prog i (xs @ ys) = (at prog i xs \<and> at prog (i + length xs) ys)"
proof -
  have "take (length xs + length ys) (drop i prog) =
      take (length xs) (drop i prog) @ take (length ys) (drop (i + length xs) prog)"
    by (simp add: take_add add.commute)
  moreover have "length (take (length xs) (drop i prog)) = length xs"
    if "i + (length xs + length ys) \<le> length prog" using that by simp
  ultimately show ?thesis unfolding at_def by (auto simp: append_eq_append_conv)
qed

lemma at_Cons: "at prog i (l # ls) = (i < length prog \<and> prog ! i = l \<and> at prog (Suc i) ls)"
proof -
  have "at prog i [l] = (i < length prog \<and> prog ! i = l)"
    by (auto simp: at_def take_Suc_conv_app_nth hd_drop_conv_nth take_Suc)
  then show ?thesis using at_append [of prog i "[l]" ls] by simp
qed

lemma at_Nil [simp]: "at prog i [] = (i \<le> length prog)"
  by (simp add: at_def)

lemma place_at:
  "distinct (marks prog) \<Longrightarrow> i < length prog \<Longrightarrow> prog ! i = AMark n \<Longrightarrow> place n prog = Some i"
proof (induction prog arbitrary: i)
  case (Cons l ls)
  show ?case
  proof (cases i)
    case 0
    with Cons.prems show ?thesis by simp
  next
    case (Suc k)
    with Cons.prems have k: "k < length ls" "ls ! k = AMark n" by simp_all
    have "n \<in> set (marks ls)"
    proof -
      have "AMark n \<in> set ls" using k nth_mem by metis
      then show ?thesis by (force simp: marks_def)
    qed
    with Cons.prems(1) have "l \<noteq> AMark n" by auto
    moreover have "distinct (marks ls)" using Cons.prems(1) by (cases l) auto
    ultimately show ?thesis using Cons.IH [of k] k Suc by simp
  qed
qed simp

subsection \<open>Running a block\<close>

definition runs_to :: "lenv \<Rightarrow> aline list \<Rightarrow> lstate \<Rightarrow> (lstate \<Rightarrow> bool) \<Rightarrow> bool" where
  "runs_to E prog st Q = (\<exists>st'. lruns E prog st st' \<and> Q st')"

lemma runs_to_here: "Q st \<Longrightarrow> runs_to E prog st Q"
  unfolding runs_to_def by (blast intro: lruns.intros)

lemma runs_to_step: "lstep E prog st = Some st1 \<Longrightarrow> runs_to E prog st1 Q \<Longrightarrow> runs_to E prog st Q"
  unfolding runs_to_def by (blast intro: lruns.intros)

lemma runs_to_trans:
  "runs_to E prog st P \<Longrightarrow> (\<And>st1. P st1 \<Longrightarrow> runs_to E prog st1 Q) \<Longrightarrow> runs_to E prog st Q"
  unfolding runs_to_def by (blast intro: lruns_trans)

text \<open>Straight-line code, without looking at the rest of the program.\<close>

fun brun :: "lenv \<Rightarrow> aline list \<Rightarrow> lstate \<Rightarrow> lstate option" where
  "brun E [] st = Some st"
| "brun E (l # ls) st = (case plain_step E l st of
     None \<Rightarrow> None
   | Some st1 \<Rightarrow> if l_at st1 = Suc (l_at st) then brun E ls st1 else None)"

lemma plain_not_jump: "plain_step E l st = Some st1 \<Longrightarrow> (case l of AJump _ _ \<Rightarrow> False | _ \<Rightarrow> True)"
  by (simp add: plain_step_def split: aline.splits)

lemma brun_lruns:
  "at prog (l_at st) ls \<Longrightarrow> brun E ls st = Some st' \<Longrightarrow>
   lruns E prog st st' \<and> l_at st' = l_at st + length ls"
proof (induction ls arbitrary: st)
  case Nil
  then show ?case by (simp add: lruns.intros)
next
  case (Cons l ls)
  from Cons.prems(2) obtain st1 where 1: "plain_step E l st = Some st1" "l_at st1 = Suc (l_at st)"
    "brun E ls st1 = Some st'" by (auto split: option.splits if_splits)
  have p: "l_at st < length prog" "prog ! l_at st = l" "at prog (l_at st1) ls"
    using Cons.prems(1) 1(2) by (simp_all add: at_Cons)
  have "lstep E prog st = Some st1"
    using p 1(1) plain_not_jump [OF 1(1)] by (simp add: lstep_def split: aline.splits)
  moreover from Cons.IH [OF p(3) 1(3)] have "lruns E prog st1 st'" "l_at st' = l_at st1 + length ls"
    by simp_all
  ultimately show ?case using 1(2) by (auto intro: lruns.intros)
qed

lemma runs_to_block:
  "at prog (l_at st) ls \<Longrightarrow> brun E ls st = Some st1 \<Longrightarrow> runs_to E prog st1 Q \<Longrightarrow> runs_to E prog st Q"
  using brun_lruns unfolding runs_to_def by (blast intro: lruns_trans)

lemma runs_to_jump:
  "at prog (l_at st) [AJump op n] \<Longrightarrow> jump_taken op (flags (l_cpu st)) \<Longrightarrow> op \<noteq> OP_CALL \<Longrightarrow>
   place n prog = Some k \<Longrightarrow> runs_to E prog (st\<lparr>l_at := k\<rparr>) Q \<Longrightarrow> runs_to E prog st Q"
  by (rule runs_to_step) (simp_all add: at_Cons lstep_def step_jump_def)

lemma runs_to_pass:
  "at prog (l_at st) [AJump op n] \<Longrightarrow> \<not> jump_taken op (flags (l_cpu st)) \<Longrightarrow>
   runs_to E prog (next_line st) Q \<Longrightarrow> runs_to E prog st Q"
  by (rule runs_to_step) (simp_all add: at_Cons lstep_def step_jump_def)

lemma runs_to_call:
  "at prog (l_at st) [AJump OP_CALL n] \<Longrightarrow> place n prog = Some k \<Longrightarrow>
   runs_to E prog (st\<lparr>l_at := k, l_stk := Ret (Suc (l_at st)) # l_stk st\<rparr>) Q \<Longrightarrow> runs_to E prog st Q"
  by (rule runs_to_step) (simp_all add: at_Cons lstep_def step_jump_def jump_taken_def)

subsection \<open>What the instructions do\<close>

named_theorems line_step \<open>one line of straight code\<close>

lemma next_line_simps [simp]:
  "l_at (next_line st) = Suc (l_at st)" "l_cpu (next_line st) = l_cpu st"
  "l_stk (next_line st) = l_stk st" "l_con (next_line st) = l_con st"
  by (simp_all add: next_line_def)

lemma reg_exec [simp]:
  assumes "cpu_ok s" "a < 8"
  shows "reg (exec_add s (ins_of op a b im)) r = (if r = a then reg s a + reg s b else reg s r)"
    and "reg (exec_sub s (ins_of op a b im)) r = (if r = a then reg s a - reg s b else reg s r)"
    and "reg (set_result s a v) r = (if r = a then v else reg s r)"
  using assms by (simp_all add: exec_add_def exec_sub_def set_result_def Let_def ucast_wide_add)

lemma flag_z_set_result [simp]: "flag_z (flags (set_result s a v)) = (v = 0)"
  by (simp add: set_result_def)

lemma plain_arith [line_step]:
  "plain_step E (AIns OP_ADD a b im) st =
     Some (next_line (st\<lparr>l_cpu := exec_add (l_cpu st) (ins_of OP_ADD a b im)\<rparr>))"
  "plain_step E (AIns OP_SUB a b im) st =
     Some (next_line (st\<lparr>l_cpu := exec_sub (l_cpu st) (ins_of OP_SUB a b im)\<rparr>))"
  "plain_step E (AIns OP_MUL a b im) st =
     Some (next_line (st\<lparr>l_cpu := set_result (l_cpu st) a (reg (l_cpu st) a * reg (l_cpu st) b)\<rparr>))"
  "reg (l_cpu st) b \<noteq> 0 \<Longrightarrow> plain_step E (AIns OP_DIV a b im) st =
     Some (next_line (st\<lparr>l_cpu := set_result (l_cpu st) a (reg (l_cpu st) a div reg (l_cpu st) b)\<rparr>))"
  "plain_step E (AIns OP_AND a b im) st =
     Some (next_line (st\<lparr>l_cpu := set_result (l_cpu st) a (reg (l_cpu st) a AND reg (l_cpu st) b)\<rparr>))"
  "plain_step E (AIns OP_OR a b im) st =
     Some (next_line (st\<lparr>l_cpu := set_result (l_cpu st) a (reg (l_cpu st) a OR reg (l_cpu st) b)\<rparr>))"
  "plain_step E (AIns OP_XOR a b im) st =
     Some (next_line (st\<lparr>l_cpu := set_result (l_cpu st) a (reg (l_cpu st) a XOR reg (l_cpu st) b)\<rparr>))"
  "plain_step E (AIns OP_NOT a b im) st =
     Some (next_line (st\<lparr>l_cpu := set_result (l_cpu st) a (NOT (reg (l_cpu st) a))\<rparr>))"
  "reg (l_cpu st) b < 32 \<Longrightarrow> plain_step E (AIns OP_SHL a b im) st =
     Some (next_line (st\<lparr>l_cpu := set_result (l_cpu st) a
       (push_bit (unat (reg (l_cpu st) b)) (reg (l_cpu st) a))\<rparr>))"
  "reg (l_cpu st) b < 32 \<Longrightarrow> plain_step E (AIns OP_SHR a b im) st =
     Some (next_line (st\<lparr>l_cpu := set_result (l_cpu st) a
       (drop_bit (unat (reg (l_cpu st) b)) (reg (l_cpu st) a))\<rparr>))"
  by (simp_all add: plain_step_def step_ins_def Let_def data_ok_def is_data_op_def exec_instr_def
      shl32_def shr32_def)

lemma plain_moves [line_step]:
  "plain_step E (AIns OP_MOV a b im) st =
     Some (next_line (st\<lparr>l_cpu := set_reg (l_cpu st) a (reg (l_cpu st) b)\<rparr>))"
  "plain_step E (AIns OP_LOADI a b im) st = Some (next_line (st\<lparr>l_cpu := set_reg (l_cpu st) a im\<rparr>))"
  "plain_step E (AIns OP_PUSH a b im) st =
     Some (next_line (st\<lparr>l_stk := Val (reg (l_cpu st) a) # l_stk st\<rparr>))"
  "l_stk st = Val v # K \<Longrightarrow> plain_step E (AIns OP_POP a b im) st =
     Some (next_line (st\<lparr>l_cpu := set_reg (l_cpu st) a v, l_stk := K\<rparr>))"
  "addr_of E n = Some v \<Longrightarrow> plain_step E (AAddr a n) st =
     Some (next_line (st\<lparr>l_cpu := set_reg (l_cpu st) a v\<rparr>))"
  "plain_step E (AMark n) st = Some (next_line st)"
  "plain_step E AComment st = Some (next_line st)"
  by (simp_all add: plain_step_def step_ins_def Let_def data_ok_def is_data_op_def exec_instr_def)

lemma accessible_range:
  "accessible U a \<Longrightarrow> unat a + 4 \<le> 65536" "accessible U a \<Longrightarrow> \<not> mmio_is_device a"
  by (simp_all add: accessible_def)

lemma plain_memory [line_step]:
  "accessible (user E) (reg (l_cpu st) b + im) \<Longrightarrow> plain_step E (AIns OP_LOAD a b im) st =
     Some (next_line (st\<lparr>l_cpu := set_reg (l_cpu st) a
       (word_at (mem (l_cpu st)) (reg (l_cpu st) b + im))\<rparr>))"
  "accessible (user E) (reg (l_cpu st) b + im) \<Longrightarrow> plain_step E (AIns OP_STORE b a im) st =
     Some (next_line (st\<lparr>l_cpu := (l_cpu st)\<lparr>mem :=
       put_word (mem (l_cpu st)) (reg (l_cpu st) b + im) (reg (l_cpu st) a)\<rparr>\<rparr>))"
  by (simp_all add: plain_step_def step_ins_def Let_def data_ok_def is_data_op_def exec_instr_def
      accessible_range mem_read32_in_range mem_write32_in_range)

lemma plain_io [line_step]:
  "plain_step E (AIns OP_OUT a b im) st =
     Some (next_line (st\<lparr>l_con := if cpu_silent (l_con st) then l_con st
       else cpu_emit (fmt_u (reg (l_cpu st) a) @ ''\<newline>'') (l_con st)\<rparr>))"
  "plain_step E (AIns OP_IN a b im) st =
     (let r = if cpu_silent (l_con st) then (0, l_con st) else read_number (l_con st)
      in Some (next_line (st\<lparr>l_cpu := set_reg (l_cpu st) a (fst r), l_con := snd r\<rparr>)))"
  by (simp_all add: plain_step_def step_ins_def Let_def data_ok_def is_data_op_def exec_instr_def
      case_prod_beta)

end
