(* ===== verification/AsmText.thy ===== *)
theory AsmText
  imports AsmLines
begin

text \<open>
  From lines of assembly text to the bytes of the binary: the tokens and the statement of a line, where
  the assembler places it, and the word it writes there. The lemmas follow a list of lines through the
  lexer, the parser and the two passes.
\<close>

subsection \<open>Tokens of a line\<close>

definition name_tok :: "nat \<Rightarrow> string \<Rightarrow> token" where
  "name_tok line n = (tok T_IDENT line)\<lparr>tok_text := n\<rparr>"

definition int_toks :: "nat \<Rightarrow> int \<Rightarrow> token list" where
  "int_toks line v = (if v < 0 then [tok T_MINUS line, num_tok line (nat (- v))] else [num_tok line (nat v)])"

fun line_toks :: "nat \<Rightarrow> aline \<Rightarrow> token list" where
  "line_toks line (AIns op rd rs im) = word_toks line (ENCODE_INSTR op rd rs im)"
| "line_toks line (AJump op n) = [name_tok line (opcode_name op), name_tok line n]"
| "line_toks line (AAddr r n) = [name_tok line ''LOADI'', reg_tok line r, tok T_COMMA line, name_tok line n]"
| "line_toks line (AMark n) = [name_tok line n, tok T_COLON line]"
| "line_toks line (AData v) = (tok T_DIRECTIVE line)\<lparr>tok_text := ''word''\<rparr> # int_toks line v"
| "line_toks line AComment = []"

fun lines_toks :: "nat \<Rightarrow> aline list \<Rightarrow> token list" where
  "lines_toks line [] = [tok T_EOF line]"
| "lines_toks line (l # ls) = line_toks line l @ tok T_NEWLINE line # lines_toks (Suc line) ls"

lemma lex_blanks: "lex_from line (indented t @ rest) = lex_from line (t @ rest)"
  by (simp add: indented_def eval_nat_numeral lex_from_space mark_class)

lemma lex_label:
  assumes "label_ok n" "rest = [] \<or> \<not> ident_char (hd rest)"
  shows "lex_from line (n @ rest) = lex_push (name_tok line n) (lex_from line rest)"
proof -
  obtain c v where n: "n = c # v" "isalpha c \<or> c = CHR ''_''" using assms(1) by (cases n) (auto simp: label_ok_def)
  have "takeWhile ident_char (n @ rest) = n"
    using takeWhile_all_append [of n ident_char rest] assms by (auto simp: label_ok_def list_all_iff)
  then have "scan_text ident_char (n @ rest) = n"
    using assms(1) by (simp add: scan_text_def TEXT_SIZE_def label_ok_def)
  moreover have "ident_token n line = name_tok line n" using assms(1) by (simp add: ident_token_def label_ok_def name_tok_def)
  ultimately show ?thesis using lex_from_word [OF n(2), of line "v @ rest"] n(1) by simp
qed

lemma lex_int:
  assumes "- LONG_MAX \<le> v" "v \<le> LONG_MAX" "rest = [] \<or> \<not> isalnum (hd rest)"
  shows "lex_from line (fmt_int v @ rest) = lex_pushes (int_toks line v) (lex_from line rest)"
  using lex_number_piece [of "nat v" rest line] lex_number_piece [of "nat (- v)" rest line] assms
  by (auto simp: fmt_int_def int_toks_def num_tok_def lex_from_marks)

lemma newline_class: "\<not> ident_char (CHR ''\<newline>'')" "\<not> isalnum (CHR ''\<newline>'')" "\<not> ident_char (CHR '':'')"
  by (simp_all add: ident_char_def ctype_defs)

lemma lex_word_directive:
  "lex_from line (''.word '' @ t) = lex_push ((tok T_DIRECTIVE line)\<lparr>tok_text := ''word''\<rparr>) (lex_from line t)"
proof -
  have "scan_text isalnum (''word '' @ t) = ''word''" by (simp add: scan_text_def TEXT_SIZE_def ctype_defs)
  then show ?thesis by (simp add: lex_from_marks lex_from_space mark_class)
qed

lemma lex_line:
  assumes "line_ok l"
  shows "lex_from line (line_text l @ CHR ''\<newline>'' # rest) =
    lex_pushes (line_toks line l) (lex_push (tok T_NEWLINE line) (lex_from (Suc line) rest))"
proof (cases l)
  case (AIns op a b im)
  then have "DECODE_OPCODE (ENCODE_INSTR op a b im) = op" "op_known op"
    using assms by (simp_all add: line_ok.simps(1) decode_opcode_encode)
  then show ?thesis by (simp add: AIns lex_blanks lex_word_text)
next
  case (AJump op n)
  then have k: "op_known op" "label_ok n" using assms by simp_all
  show ?thesis
    using lex_name [OF k(1), of "CHR '' '' # n @ CHR ''\<newline>'' # rest" line] lex_label [OF k(2), of "CHR ''\<newline>'' # rest" line]
    by (simp add: AJump lex_blanks mark_class lex_from_space lex_from_marks newline_class name_tok_def)
next
  case (AAddr r n)
  then have k: "r < 8" "label_ok n" using assms by simp_all
  show ?thesis
    using lex_name [of OP_LOADI "CHR '' '' # fmt_reg r @ '', '' @ n @ CHR ''\<newline>'' # rest" line]
      lex_reg [OF k(1), of "'', '' @ n @ CHR ''\<newline>'' # rest" line] lex_label [OF k(2), of "CHR ''\<newline>'' # rest" line]
    by (simp add: AAddr lex_blanks mark_class lex_from_space lex_from_marks newline_class name_tok_def)
next
  case (AMark n)
  then show ?thesis using assms lex_label [of n "CHR '':'' # CHR ''\<newline>'' # rest" line]
    by (simp add: lex_from_marks newline_class)
next
  case (AData v)
  then show ?thesis
    using assms lex_word_directive [of line "fmt_int v @ CHR ''\<newline>'' # rest"] lex_int [of v "CHR ''\<newline>'' # rest" line]
    by (simp add: lex_blanks lex_from_marks newline_class)
next
  case AComment
  then show ?thesis by (simp add: lex_from_marks)
qed

definition lines_text :: "aline list \<Rightarrow> string" where
  "lines_text ls = concat (map (\<lambda>l. line_text l @ ''\<newline>'') ls)"

lemma lex_lines: "list_all line_ok ls \<Longrightarrow> lex_from line (lines_text ls) = Inr (lines_toks line ls)"
  by (induction ls arbitrary: line) (simp_all add: lines_text_def lex_line)

lemma no_nul_label: "label_ok n \<Longrightarrow> no_nul n"
  by (auto simp: label_ok_def no_nul_def list_all_iff ident_char_def ctype_defs)

lemma no_nul_indented [simp]: "no_nul (indented t) = no_nul t"
  by (simp add: no_nul_def indented_def)

lemma no_nul_line: "line_ok l \<Longrightarrow> no_nul (line_text l)"
  by (cases l) (simp_all add: no_nul_text no_nul_label fmt_int_def)

lemma lex_program: "list_all line_ok ls \<Longrightarrow> lex (lines_text ls) = Inr (lines_toks 1 ls)"
proof -
  assume ok: "list_all line_ok ls"
  then have "no_nul (lines_text ls)" by (induction ls) (simp_all add: lines_text_def no_nul_line)
  then show ?thesis by (simp add: lex_def cstr_id lex_lines [OF ok])
qed

subsection \<open>Statements of a line\<close>

fun line_stmts :: "nat \<Rightarrow> aline \<Rightarrow> stmt list" where
  "line_stmts line (AIns op rd rs im) = [word_stmt line (ENCODE_INSTR op rd rs im)]"
| "line_stmts line (AJump op n) = [(stmt_of ST_INSTR line)\<lparr>st_op := op, st_imm_label := n\<rparr>]"
| "line_stmts line (AAddr r n) = [(stmt_of ST_INSTR line)\<lparr>st_op := OP_LOADI, st_rdest := r, st_imm_label := n\<rparr>]"
| "line_stmts line (AMark n) = [(stmt_of ST_LABEL line)\<lparr>st_name := n\<rparr>]"
| "line_stmts line (AData v) = [(stmt_of ST_WORD line)\<lparr>st_value := word_of_int v\<rparr>]"
| "line_stmts line AComment = []"

fun lines_stmts :: "nat \<Rightarrow> aline list \<Rightarrow> stmt list" where
  "lines_stmts line [] = []"
| "lines_stmts line (l # ls) = line_stmts line l @ lines_stmts (Suc line) ls"

lemma name_tok_simps [simp]: "tok_type (name_tok line n) = T_IDENT" "tok_text (name_tok line n) = n" "tok_line (name_tok line n) = line"
  by (simp_all add: name_tok_def)

lemma parse_loop_newline:
  assumes "left p = tok T_NEWLINE line # ts" "\<not> p_error p"
  shows "parse_loop p = parse_loop (skips 1 p)"
  using assms by (subst parse_loop.simps) (simp add: parse_step_def skip_skips)

lemma parse_loop_step:
  assumes "left p = t # ts" "\<not> p_error p" "tok_type t \<noteq> T_EOF" "parse_step t p = Inr q"
  shows "parse_loop p = parse_loop q"
  using assms by (subst parse_loop.simps) simp

lemma skips_push [simp]: "skips n (push_stmt s p) = push_stmt s (skips n p)"
  by (simp add: skips_def push_stmt_def)

lemma push_simps [simp]: "p_error (push_stmt s p) = p_error p" "p_msgs (push_stmt s p) = p_msgs p"
  "p_out (push_stmt s p) = p_out p @ [s]" "p_i (push_stmt s p) = p_i p"
  by (simp_all add: push_stmt_def)

lemma parse_label_operand:
  assumes "left p = name_tok line n # ts" "length n < TEXT_SIZE"
  shows "parse_imm_or_label s p = Inr (s\<lparr>st_imm_label := n\<rparr>, skips 1 p)"
  using assms by (simp add: parse_imm_or_label_def skip_skips)

lemma parse_int:
  assumes "left p = int_toks line v @ ts"
  shows "parse_signed p = Inr (Some (word_of_int v), skips (length (int_toks line v)) p)"
  using assms by (auto simp: int_toks_def parse_signed_def Let_def skip_skips eval_nat_numeral to_int32_def split: if_splits)

text \<open>The turns of the parse loop on a line that is no plain instruction.\<close>

lemma parse_turn:
  assumes l: "left p = line_toks line l @ tok T_NEWLINE line # ts" and ok: "line_ok l" and e: "\<not> p_error p"
    and ni: "\<And>op a b im. l \<noteq> AIns op a b im" "l \<noteq> AComment"
  shows "\<exists>t us s. left p = t # us \<and> tok_type t \<noteq> T_EOF \<and> line_stmts line l = [s] \<and>
    parse_step t p = Inr (push_stmt s (skips (length (line_toks line l)) p))"
proof (cases l)
  case (AJump op n)
  then have k: "op_known op" "opcode_format op = OPF_IMM" "label_ok n" using ok by simp_all
  have lt: "left p = name_tok line (opcode_name op) # name_tok line n # tok T_NEWLINE line # ts" using l AJump by simp
  have t1: "tok_at p (p_i p + 1) = Inr (name_tok line n)" using tok_at_left [OF lt, of 1] by simp
  have "parse_imm_or_label s (skips 1 p) = Inr (s\<lparr>st_imm_label := n\<rparr>, skips 2 p)" for s
    using parse_label_operand [of "skips 1 p" line n "tok T_NEWLINE line # ts"] lt k(3)
    by (simp add: label_ok_def numeral_2_eq_2)
  then have "parse_step (name_tok line (opcode_name op)) p =
      Inr (push_stmt ((stmt_of ST_INSTR line)\<lparr>st_op := op, st_imm_label := n\<rparr>) (skips 2 p))"
    using t1 k e by (simp add: parse_step_def find_mnem_name parse_instr_def parse_operands_def skip_skips)
  with lt show ?thesis by (simp add: AJump numeral_2_eq_2)
next
  case (AAddr r n)
  then have k: "r < 8" "label_ok n" using ok by simp_all
  have lt: "left p = name_tok line ''LOADI'' # reg_tok line r # tok T_COMMA line # name_tok line n # tok T_NEWLINE line # ts"
    using l AAddr by simp
  have t1: "tok_at p (p_i p + 1) = Inr (reg_tok line r)" using tok_at_left [OF lt, of 1] by simp
  have m: "find_mnem ''LOADI'' = Some (''LOADI'', OP_LOADI)" using find_mnem_name [of OP_LOADI] by simp
  have "parse_imm_or_label s (skips 3 p) = Inr (s\<lparr>st_imm_label := n\<rparr>, skips 4 p)" for s
    using parse_label_operand [of "skips 3 p" line n "tok T_NEWLINE line # ts"] lt k(2)
    by (simp add: label_ok_def eval_nat_numeral)
  then have "parse_step (name_tok line ''LOADI'') p =
      Inr (push_stmt ((stmt_of ST_INSTR line)\<lparr>st_op := OP_LOADI, st_rdest := r, st_imm_label := n\<rparr>) (skips 4 p))"
    using t1 m e lt
    by (simp add: parse_step_def parse_instr_def parse_operands_def skip_skips expect_reg_left expect_left eval_nat_numeral)
  with lt show ?thesis by (simp add: AAddr eval_nat_numeral)
next
  case (AMark n)
  then have k: "label_ok n" using ok by simp
  have lt: "left p = name_tok line n # tok T_COLON line # tok T_NEWLINE line # ts" using l AMark by simp
  have t1: "tok_at p (p_i p + 1) = Inr (tok T_COLON line)" using tok_at_left [OF lt, of 1] by simp
  have "parse_step (name_tok line n) p = Inr (push_stmt ((stmt_of ST_LABEL line)\<lparr>st_name := n\<rparr>) (skips 2 p))"
    using t1 k by (simp add: parse_step_def label_ok_def push_stmt_def skips_def)
  with lt show ?thesis by (simp add: AMark numeral_2_eq_2)
next
  case (AData v)
  let ?t = "(tok T_DIRECTIVE line)\<lparr>tok_text := ''word''\<rparr>"
  have lt: "left p = ?t # int_toks line v @ tok T_NEWLINE line # ts" using l AData by simp
  have "left (skips 1 p) = int_toks line v @ tok T_NEWLINE line # ts" using lt by simp
  note parse_int [OF this]
  moreover obtain h us where "int_toks line v @ tok T_NEWLINE line # ts = h # us" "tok_type h \<noteq> T_IDENT"
    by (cases "v < 0") (auto simp: int_toks_def)
  then have "peek (skips 1 p) = Inr h" "tok_type h \<noteq> T_IDENT" using lt by simp_all
  ultimately have "parse_step ?t p = Inr (push_stmt ((stmt_of ST_WORD line)\<lparr>st_value := word_of_int v\<rparr>)
      (skips (Suc (length (int_toks line v))) p))"
    by (simp add: parse_step_def parse_directive_def skip_skips strcaseeq_def tolower_def isupper_def)
  with lt show ?thesis by (simp add: AData)
qed (use ni in auto)

lemma parse_loop_line:
  assumes l: "left p = line_toks line l @ tok T_NEWLINE line # ts" and ok: "line_ok l" and e: "\<not> p_error p"
  shows "\<exists>q. parse_loop p = parse_loop q \<and> left q = ts \<and> \<not> p_error q \<and> p_msgs q = p_msgs p \<and>
    p_out q = p_out p @ line_stmts line l"
proof (cases "(\<exists>op a b im. l = AIns op a b im) \<or> l = AComment")
  case True
  then show ?thesis
  proof (elim disjE exE)
    fix op a b im
    assume i: "l = AIns op a b im"
    let ?w = "ENCODE_INSTR op a b im"
    have c: "canonical ?w" using ok i by (simp add: line_ok.simps(1))
    let ?q = "push_stmt (word_stmt line ?w) (skips (Suc (length (word_toks line ?w))) p)"
    have "parse_loop p = parse_loop ?q" using parse_loop_word [of p line ?w ts] l c e i by simp
    then show ?thesis using l e i by (intro exI [of _ ?q]) simp
  next
    assume "l = AComment"
    then show ?thesis using l e parse_loop_newline [of p line ts] by (intro exI [of _ "skips 1 p"]) simp
  qed
next
  case False
  from parse_turn [OF l ok e] False obtain t us s where
    t: "left p = t # us" "tok_type t \<noteq> T_EOF" "line_stmts line l = [s]"
    "parse_step t p = Inr (push_stmt s (skips (length (line_toks line l)) p))" by blast
  let ?q = "push_stmt s (skips (length (line_toks line l)) p)"
  have "parse_loop p = parse_loop ?q" by (rule parse_loop_step [OF t(1) e t(2,4)])
  moreover have lq: "left ?q = tok T_NEWLINE line # ts" using l by simp
  then have "parse_loop ?q = parse_loop (skips 1 ?q)" using e by (intro parse_loop_newline) simp_all
  moreover have "left (skips 1 ?q) = ts" using lq by (simp del: skips_push)
  ultimately show ?thesis using e t(3) by (intro exI [of _ "skips 1 ?q"]) simp
qed

lemma parse_loop_lines:
  "left p = lines_toks line ls \<Longrightarrow> list_all line_ok ls \<Longrightarrow> \<not> p_error p \<Longrightarrow>
   \<exists>q. parse_loop p = Inr q \<and> \<not> p_error q \<and> p_msgs q = p_msgs p \<and> p_out q = p_out p @ lines_stmts line ls"
proof (induction ls arbitrary: p line)
  case Nil
  then show ?case by (subst parse_loop.simps) simp
next
  case (Cons l ls)
  then obtain q where q: "parse_loop p = parse_loop q" "left q = lines_toks (Suc line) ls" "\<not> p_error q"
    "p_msgs q = p_msgs p" "p_out q = p_out p @ line_stmts line l"
    using parse_loop_line [of p line l "lines_toks (Suc line) ls"] by auto
  from Cons.IH [OF q(2) _ q(3)] Cons.prems(2) q(1,4,5) show ?case by auto
qed

lemma parse_program:
  assumes "list_all line_ok ls" "lines_stmts line ls \<noteq> []"
  shows "parse (lines_toks line ls) = Inr (Some (lines_stmts line ls), [])"
proof -
  let ?p = "\<lparr>p_toks = lines_toks line ls, p_i = 0, p_error = False, p_out = [], p_msgs = []\<rparr>"
  obtain q where "parse_loop ?p = Inr q" "\<not> p_error q" "p_msgs q = []" "p_out q = lines_stmts line ls"
    using parse_loop_lines [of ?p line ls] assms(1) by (auto simp: left_def)
  then show ?thesis using assms(2) by (simp add: parse_def)
qed

subsection \<open>Where the lines are\<close>

text \<open>A line takes one word, except labels and the comment.\<close>

fun wordy :: "aline \<Rightarrow> bool" where
  "wordy (AMark n) = False"
| "wordy AComment = False"
| "wordy _ = True"

definition words_in :: "aline list \<Rightarrow> nat" where
  "words_in ls = length (filter wordy ls)"

definition address :: "aline list \<Rightarrow> nat \<Rightarrow> nat" where
  "address ls i = 4 * words_in (take i ls)"

lemma words_in_simps [simp]: "words_in [] = 0" "words_in (l # ls) = (if wordy l then Suc (words_in ls) else words_in ls)"
  "words_in (xs @ ys) = words_in xs + words_in ys"
  by (simp_all add: words_in_def)

lemma emits_line [simp]:
  "emits (word_stmt line w)" "emits ((stmt_of ST_INSTR line)\<lparr>st_op := op, st_imm_label := n\<rparr>)"
  "emits ((stmt_of ST_INSTR line)\<lparr>st_op := op, st_rdest := r, st_imm_label := n\<rparr>)"
  "\<not> emits ((stmt_of ST_LABEL line)\<lparr>st_name := n\<rparr>)" "emits ((stmt_of ST_WORD line)\<lparr>st_value := v\<rparr>)"
  by (simp_all add: emits_def stmt_of_def)

lemma stmt_of_type [simp]: "st_type (stmt_of ty line) = ty"
  by (simp add: stmt_of_def)

definition plain_stmts :: "stmt list \<Rightarrow> bool" where
  "plain_stmts ss = (\<forall>s \<in> set ss. st_type s \<noteq> ST_ORG)"

lemma plain_lines: "plain_stmts (lines_stmts line ls)"
proof (induction ls arbitrary: line)
  case (Cons l ls)
  then show ?case by (cases l) (simp_all add: plain_stmts_def)
qed (simp add: plain_stmts_def)

lemma count_lines: "length (filter emits (lines_stmts line ls)) = words_in ls"
proof (induction ls arbitrary: line)
  case (Cons l ls)
  then show ?case by (cases l) simp_all
qed simp

lemma stmts_ok_lines: "list_all line_ok ls \<Longrightarrow> \<forall>s \<in> set (lines_stmts line ls). stmt_ok s"
proof (induction ls arbitrary: line)
  case (Cons l ls)
  then have IH: "\<forall>s \<in> set (lines_stmts (Suc line) ls). stmt_ok s" by simp
  have "\<forall>s \<in> set (line_stmts line l). stmt_ok s"
  proof (cases l)
    case (AIns op a b im)
    then have "op_known (DECODE_OPCODE (ENCODE_INSTR op a b im))"
      using Cons.prems by (simp add: line_ok.simps(1) decode_opcode_encode)
    then show ?thesis by (simp add: AIns word_stmt_ok)
  qed (use Cons.prems in \<open>simp_all add: stmt_ok_def stmt_of_def label_ok_def TEXT_SIZE_def\<close>)
  with IH show ?case by auto
qed simp

text \<open>Without \<open>.org\<close> the statements are placed one after the other.\<close>

lemma word_of_placed [simp]: "word_of_stmt ss (s\<lparr>st_address := a\<rparr>) = word_of_stmt ss s"
  by (simp add: word_of_stmt_def split: stmttype.split)

lemma emits_placed [simp]: "emits (s\<lparr>st_address := a\<rparr>) = emits s"
  by (simp add: emits_def)

lemma placed_writes:
  "plain_stmts ss \<Longrightarrow> map (\<lambda>s. (st_address s, word_of_stmt us s)) (filter emits (placed ss a)) =
    writes a (map (word_of_stmt us) (filter emits ss))"
  by (induction ss arbitrary: a) (auto simp: plain_stmts_def)

lemma placed_room:
  "plain_stmts ss \<Longrightarrow> (\<And>s. s \<in> set (placed ss a) \<Longrightarrow> emits s \<Longrightarrow> unat (st_address s) + 4 < 4294967296) \<Longrightarrow>
   unat a + 4 * length (filter emits ss) < 4294967296"
proof (induction ss arbitrary: a)
  case Nil
  then show ?case using unat_u32_less [of a] by simp
next
  case (Cons s ss)
  show ?case
  proof (cases "emits s")
    case True
    then have "unat a + 4 < 4294967296" using Cons.prems(2) [of "s\<lparr>st_address := a\<rparr>"] by simp
    then have a4: "unat (a + 4) = unat a + 4" by (simp add: unat_word_ariths)
    have "unat (a + 4) + 4 * length (filter emits ss) < 4294967296"
      by (rule Cons.IH) (use Cons.prems True in \<open>auto simp: plain_stmts_def\<close>)
    then show ?thesis using True a4 by simp
  next
    case False
    have "unat a + 4 * length (filter emits ss) < 4294967296"
      by (rule Cons.IH) (use Cons.prems False in \<open>auto simp: plain_stmts_def\<close>)
    then show ?thesis using False by simp
  qed
qed

lemma placed_top:
  "plain_stmts ss \<Longrightarrow> p1_addr p = a \<Longrightarrow> p1_max p = a \<Longrightarrow> unat a + 4 * length (filter emits ss) < 4294967296 \<Longrightarrow>
   unat (p1_max (snd (pass1_run ss p))) = unat a + 4 * length (filter emits ss)"
proof (induction ss arbitrary: a p)
  case (Cons s ss)
  show ?case
  proof (cases "emits s")
    case True
    with Cons.prems(4) have a4: "unat (a + 4) = unat a + 4" by (simp add: unat_word_ariths)
    let ?p = "p\<lparr>p1_addr := a + 4, p1_max := a + 4\<rparr>"
    have "pass1_step s p = (s\<lparr>st_address := a\<rparr>, ?p)"
      using Cons.prems(2,3) a4 True by (auto simp: pass1_step_def emits_def Let_def word_less_nat_alt)
    moreover have "unat (p1_max (snd (pass1_run ss ?p))) = unat (a + 4) + 4 * length (filter emits ss)"
      by (rule Cons.IH) (use Cons.prems True a4 in \<open>auto simp: plain_stmts_def\<close>)
    ultimately show ?thesis using True a4 by (simp add: case_prod_beta Let_def)
  next
    case False
    then obtain q where q: "pass1_step s p = (s, q)" "p1_addr q = a" "p1_max q = a"
      using Cons.prems(1-3) by (cases "st_type s") (auto simp: pass1_step_def emits_def plain_stmts_def)
    have "unat (p1_max (snd (pass1_run ss q))) = unat a + 4 * length (filter emits ss)"
      by (rule Cons.IH) (use Cons.prems False q in \<open>auto simp: plain_stmts_def\<close>)
    then show ?thesis using False q(1) by (simp add: case_prod_beta Let_def)
  qed
qed simp

text \<open>The binary is the words in order.\<close>

lemma assembled_bytes:
  assumes ok: "\<forall>s \<in> set ss. stmt_ok s" and p: "plain_stmts ss" and asm: "assemble_stmts ss = Inr (Inr bs)"
  shows "bs = concat (map word_bytes (map (word_of_stmt ss) (filter emits ss)))"
    "4 * length (filter emits ss) < 4294967296" "\<forall>s \<in> set ss. stmt_fits ss s"
proof -
  let ?ws = "map (word_of_stmt ss) (filter emits ss)"
  from asm assemble_stmts_Inr_iff [OF ok] obtain n where n: "no_wrap ss"
    "n = unat (p1_max (snd (pass1_run ss \<lparr>p1_syms = [], p1_addr = 0, p1_max = 0\<rparr>)))"
    and bs: "bs = put_all (map (\<lambda>s. (st_address s, word_of_stmt ss s)) (filter emits (placed ss 0))) (replicate n 0)"
    and fits: "\<forall>s \<in> set ss. stmt_fits ss s" by auto
  show room: "4 * length (filter emits ss) < 4294967296"
    using placed_room [OF p, of 0] n(1) by (simp add: no_wrap_def)
  have "n = 4 * length (filter emits ss)"
    using placed_top [OF p, of "\<lparr>p1_syms = [], p1_addr = 0, p1_max = 0\<rparr>" 0] room n(2) by simp
  then show "bs = concat (map word_bytes ?ws)"
    using put_all_writes [of 0 "[]" ?ws] room by (simp add: bs placed_writes [OF p])
  show "\<forall>s \<in> set ss. stmt_fits ss s" by (rule fits)
qed

text \<open>Without \<open>.org\<close> the last address bounds all.\<close>

lemma placed_no_wrap:
  "plain_stmts ss \<Longrightarrow> unat a + 4 * length (filter emits ss) < 4294967296 \<Longrightarrow> s \<in> set (placed ss a) \<Longrightarrow> emits s \<Longrightarrow>
   unat (st_address s) + 4 \<le> unat a + 4 * length (filter emits ss)"
proof (induction ss arbitrary: a)
  case (Cons t ss)
  show ?case
  proof (cases "emits t")
    case True
    with Cons.prems(2) have a4: "unat (a + 4) = unat a + 4" by (simp add: unat_word_ariths)
    show ?thesis
    proof (cases "s = t\<lparr>st_address := a\<rparr>")
      case False
      have "unat (st_address s) + 4 \<le> unat (a + 4) + 4 * length (filter emits ss)"
        by (rule Cons.IH) (use Cons.prems True False a4 in \<open>auto simp: plain_stmts_def\<close>)
      then show ?thesis using True a4 by simp
    qed (use True in simp)
  next
    case False
    have "unat (st_address s) + 4 \<le> unat a + 4 * length (filter emits ss)"
      by (rule Cons.IH) (use Cons.prems False in \<open>auto simp: plain_stmts_def\<close>)
    then show ?thesis using False by simp
  qed
qed simp

lemma assemble_plain:
  assumes ok: "\<forall>s \<in> set ss. stmt_ok s" and p: "plain_stmts ss" and fits: "\<forall>s \<in> set ss. stmt_fits ss s"
    and room: "4 * length (filter emits ss) < 4294967296"
  shows "\<exists>bs. assemble_stmts ss = Inr (Inr bs)"
proof -
  let ?n = "unat (p1_max (snd (pass1_run ss \<lparr>p1_syms = [], p1_addr = 0, p1_max = 0\<rparr>)))"
  have n: "?n = 4 * length (filter emits ss)"
    using placed_top [OF p, of "\<lparr>p1_syms = [], p1_addr = 0, p1_max = 0\<rparr>" 0] room by simp
  have le: "unat (st_address s) + 4 \<le> ?n" if "s \<in> set (placed ss 0)" "emits s" for s
    using placed_no_wrap [OF p _ that] room n by simp
  moreover have "no_wrap ss" using le room n by (force simp: no_wrap_def)
  ultimately show ?thesis
    unfolding assemble_stmts_Inr_iff [OF ok] using fits room n by (intro exI conjI; (assumption | rule refl)?) auto
qed

subsection \<open>Labels and words\<close>

lemma address_simps [simp]:
  "address ls 0 = 0" "address (l # ls) (Suc i) = (if wordy l then 4 + address ls i else address ls i)"
  by (simp_all add: address_def)

lemma label_addresses:
  "map_of (label_defs (lines_stmts line ls) a) n = map_option (\<lambda>i. a + of_nat (address ls i)) (place n ls)"
proof (induction ls arbitrary: line a)
  case (Cons l ls)
  have s: "map_option (\<lambda>i. a + of_nat (address (l # ls) i)) (map_option Suc r) =
      map_option (\<lambda>i. (if wordy l then a + 4 else a) + of_nat (address ls i)) r" for r
    by (cases r) (simp_all add: add.assoc)
  show ?case
  proof (cases "l = AMark n")
    case True
    then show ?thesis by (simp add: emits_def)
  next
    case False
    with Cons.IH s show ?thesis by (cases l) (simp_all del: address_simps(2))
  qed
qed simp

text \<open>The immediate of a line that names a label, and the word of a line.\<close>

definition label_value :: "aline list \<Rightarrow> string \<Rightarrow> u32" where
  "label_value prog n = (case place n prog of Some i \<Rightarrow> of_nat (address prog i) | None \<Rightarrow> 0)"

fun line_word :: "aline list \<Rightarrow> aline \<Rightarrow> u32" where
  "line_word prog (AIns op rd rs im) = ENCODE_INSTR op rd rs im"
| "line_word prog (AJump op n) = ENCODE_INSTR op 0 0 (label_value prog n)"
| "line_word prog (AAddr r n) = ENCODE_INSTR OP_LOADI r 0 (label_value prog n)"
| "line_word prog (AData v) = word_of_int v"
| "line_word prog _ = 0"

text \<open>What the line needs of the program for the assembler to take it.\<close>

fun line_resolves :: "aline list \<Rightarrow> aline \<Rightarrow> bool" where
  "line_resolves prog (AJump op n) = (place n prog \<noteq> None \<and> imm_fits (label_value prog n))"
| "line_resolves prog (AAddr r n) = (place n prog \<noteq> None \<and> imm_fits (label_value prog n))"
| "line_resolves prog _ = True"

lemma resolved_label:
  assumes "n \<noteq> []" shows "resolved (lines_stmts k prog) n v = map_option (\<lambda>i. of_nat (address prog i)) (place n prog)"
  using assms by (simp add: resolved_def label_addresses)

lemma line_fits:
  assumes "line_ok l" "\<forall>s \<in> set (line_stmts line l). stmt_fits (lines_stmts k prog) s"
  shows "line_resolves prog l"
  using assms
  by (cases l) (auto simp: stmt_fits_def resolved_label label_ok_def label_value_def split: option.splits)

lemma line_words:
  assumes "list_all line_ok ls" "list_all (line_resolves prog) ls"
  shows "map (word_of_stmt (lines_stmts k prog)) (filter emits (lines_stmts line ls)) = map (line_word prog) (filter wordy ls)"
  using assms
proof (induction ls arbitrary: line)
  case (Cons l ls)
  have "map (word_of_stmt (lines_stmts k prog)) (filter emits (line_stmts line l)) = (if wordy l then [line_word prog l] else [])"
  proof (cases l)
    case (AIns op a b im)
    then show ?thesis by (simp add: word_of_stmt_def resolved_def encode_decode)
  next
    case (AJump op n)
    then show ?thesis
      using Cons.prems by (auto simp: word_of_stmt_def resolved_label label_ok_def label_value_def stmt_of_def emits_def split: option.splits)
  next
    case (AAddr r n)
    then show ?thesis
      using Cons.prems by (auto simp: word_of_stmt_def resolved_label label_ok_def label_value_def stmt_of_def emits_def split: option.splits)
  qed (simp_all add: word_of_stmt_def resolved_def stmt_of_def emits_def)
  with Cons show ?case by simp
qed simp

lemma fits_resolves:
  "\<forall>s \<in> set (lines_stmts line ls). stmt_fits (lines_stmts k prog) s \<Longrightarrow> list_all line_ok ls \<Longrightarrow>
   list_all (line_resolves prog) ls"
proof (induction ls arbitrary: line)
  case (Cons l ls)
  then show ?case using line_fits [of l line k prog] by auto
qed simp

lemma resolves_fits:
  assumes "line_ok l" "line_resolves prog l"
  shows "\<forall>s \<in> set (line_stmts line l). stmt_fits (lines_stmts k prog) s"
proof (cases l)
  case (AIns op a b im)
  then show ?thesis using assms(1) by (simp add: stmt_fits_def resolved_def encode_decode line_ok.simps(1) decode_imm_encode)
next
  case (AJump op n)
  then show ?thesis
    using assms by (auto simp: stmt_fits_def resolved_label label_ok_def label_value_def stmt_of_def split: option.splits)
next
  case (AAddr r n)
  then show ?thesis
    using assms by (auto simp: stmt_fits_def resolved_label label_ok_def label_value_def stmt_of_def split: option.splits)
qed (simp_all add: stmt_fits_def stmt_of_def resolved_def)

lemma all_resolve_fits:
  "list_all line_ok ls \<Longrightarrow> list_all (line_resolves prog) ls \<Longrightarrow>
   \<forall>s \<in> set (lines_stmts line ls). stmt_fits (lines_stmts k prog) s"
proof (induction ls arbitrary: line)
  case (Cons l ls)
  then show ?case using resolves_fits [of l prog line k] by auto
qed simp

definition program_words :: "aline list \<Rightarrow> u32 list" where
  "program_words prog = map (line_word prog) (filter wordy prog)"

text \<open>From text to bytes.\<close>

lemma assembled_program:
  assumes ok: "list_all line_ok prog" and asm: "assemble_text (lines_text prog) = Inr (Some bs, msgs)"
  shows "bs = concat (map word_bytes (program_words prog))" "4 * words_in prog < 4294967296"
    "list_all (line_resolves prog) prog" "msgs = []"
    "lex (lines_text prog) = Inr (lines_toks 1 prog)" "parse (lines_toks 1 prog) = Inr (Some (lines_stmts 1 prog), [])"
proof -
  let ?ss = "lines_stmts 1 prog"
  show l: "lex (lines_text prog) = Inr (lines_toks 1 prog)" by (rule lex_program [OF ok])
  have ne: "?ss \<noteq> []"
  proof
    assume e: "?ss = []"
    let ?p = "\<lparr>p_toks = lines_toks 1 prog, p_i = 0, p_error = False, p_out = [], p_msgs = []\<rparr>"
    obtain q where "parse_loop ?p = Inr q" "\<not> p_error q" "p_msgs q = []" "p_out q = []"
      using parse_loop_lines [of ?p 1 prog] ok e by (auto simp: left_def)
    then have "parse (lines_toks 1 prog) = Inr (None, [])" by (simp add: parse_def)
    with asm l show False by (simp add: assemble_text_def)
  qed
  show p: "parse (lines_toks 1 prog) = Inr (Some ?ss, [])" by (rule parse_program [OF ok ne])
  have a: "assemble_stmts ?ss = Inr (Inr bs)" and "msgs = []"
  proof -
    obtain r where r: "assemble_stmts ?ss = Inr r" "(case r of Inl e \<Rightarrow> (None, [] @ e) | Inr out \<Rightarrow> (Some out, [])) = (Some bs, msgs)"
      using asm by (auto simp: assemble_text_def l p [simplified] res_bind_Inr_iff)
    then show "assemble_stmts ?ss = Inr (Inr bs)" "msgs = []" by (cases r; simp)+
  qed
  then show "msgs = []" by simp
  note b = assembled_bytes [OF stmts_ok_lines [OF ok] plain_lines a]
  show r: "list_all (line_resolves prog) prog" by (rule fits_resolves [OF b(3) ok])
  show "bs = concat (map word_bytes (program_words prog))"
    using b(1) unfolding program_words_def line_words [OF ok r, of 1 1] .
  show "4 * words_in prog < 4294967296" using b(2) count_lines [of 1 prog] by simp
qed

text \<open>Lines whose labels resolve are assembled.\<close>

lemma lines_assemble:
  assumes ok: "list_all line_ok prog" and r: "list_all (line_resolves prog) prog"
    and w: "words_in prog \<noteq> 0" "4 * words_in prog < 4294967296"
  shows "\<exists>bs. assemble_text (lines_text prog) = Inr (Some bs, [])"
proof -
  let ?ss = "lines_stmts 1 prog"
  have "?ss \<noteq> []" using w(1) count_lines [of 1 prog] by auto
  note p = parse_program [OF ok this]
  from assemble_plain [OF stmts_ok_lines [OF ok] plain_lines all_resolve_fits [OF ok r, of 1 1]] w(2) count_lines [of 1 prog]
  obtain bs where "assemble_stmts ?ss = Inr (Inr bs)" by auto
  then show ?thesis using p by (simp add: assemble_text_def lex_program [OF ok] res_bind_def)
qed

text \<open>The word of a line in the binary.\<close>

lemma le_word_concat: "j < length ws \<Longrightarrow> le_word (concat (map word_bytes ws)) (4 * j) = ws ! j"
proof (induction ws arbitrary: j)
  case (Cons w ws)
  show ?case
  proof (cases j)
    case 0
    then show ?thesis using bytes_of_word [of w] by (simp add: le_word_def word_bytes_def eval_nat_numeral)
  next
    case (Suc k)
    have "le_word (word_bytes w @ bs) (4 + i) = le_word bs i" for bs i
      by (simp add: le_word_def word_bytes_def eval_nat_numeral)
    with Cons Suc show ?thesis by simp
  qed
qed simp

lemma nth_wordy: "i < length prog \<Longrightarrow> wordy (prog ! i) \<Longrightarrow>
    words_in (take i prog) < words_in prog \<and> filter wordy prog ! words_in (take i prog) = prog ! i"
proof (induction prog arbitrary: i)
  case (Cons l ls)
  then show ?case by (cases i) auto
qed simp

lemma length_program_words [simp]: "length (program_words prog) = words_in prog"
  by (simp add: program_words_def words_in_def)

lemma line_in_binary:
  assumes "i < length prog" "wordy (prog ! i)"
  shows "address prog i + 4 \<le> 4 * words_in prog"
    "le_word (concat (map word_bytes (program_words prog))) (address prog i) = line_word prog (prog ! i)"
proof -
  note w = nth_wordy [OF assms]
  show "address prog i + 4 \<le> 4 * words_in prog" using w by (simp add: address_def)
  show "le_word (concat (map word_bytes (program_words prog))) (address prog i) = line_word prog (prog ! i)"
    using w le_word_concat [of "words_in (take i prog)" "program_words prog"]
    by (simp add: address_def) (simp add: program_words_def words_in_def)
qed

end
