(* ===== verification/PeepSim.thy ===== *)
theory PeepSim
  imports AsmLines
begin

text \<open>
  Dropping the load that follows a store of R0 to the same place does not change what a program of
  lines computes: the two programs run in step, except that the longer one takes one more step at
  the dropped line.
\<close>

subsection \<open>Positions\<close>

text \<open>The store is at \<open>q\<close>, the dropped load was at \<open>q + 1\<close>.\<close>

definition shift :: "nat \<Rightarrow> nat \<Rightarrow> nat" where
  "shift q i = (if i \<le> q then i else i - 1)"

definition shift_val :: "nat \<Rightarrow> sval \<Rightarrow> sval" where
  "shift_val q v = (case v of Val x \<Rightarrow> Val x | Ret k \<Rightarrow> Ret (shift q k))"

definition shifted :: "nat \<Rightarrow> lstate \<Rightarrow> lstate" where
  "shifted q st = st\<lparr>l_at := shift q (l_at st), l_stk := map (shift_val q) (l_stk st)\<rparr>"

definition clear_of :: "nat \<Rightarrow> lstate \<Rightarrow> bool" where
  "clear_of q st = (l_at st \<noteq> Suc q \<and> Ret (Suc q) \<notin> set (l_stk st))"

lemma shift_val_simps [simp]: "shift_val q (Val x) = Val x" "shift_val q (Ret k) = Ret (shift q k)"
  by (simp_all add: shift_val_def)

lemma shift_Suc: "i \<noteq> q \<Longrightarrow> i \<noteq> Suc q \<Longrightarrow> Suc (shift q i) = shift q (Suc i)"
  by (auto simp: shift_def)

lemma shifted_simps [simp]:
  "l_cpu (shifted q st) = l_cpu st" "l_con (shifted q st) = l_con st" "l_at (shifted q st) = shift q (l_at st)"
  "l_stk (shifted q st) = map (shift_val q) (l_stk st)"
  by (simp_all add: shifted_def)

lemma place_append:
  "place n (xs @ ys) = (case place n xs of Some i \<Rightarrow> Some i | None \<Rightarrow> map_option (\<lambda>i. length xs + i) (place n ys))"
proof (induction xs)
  case Nil
  show ?case by (cases "place n ys") simp_all
next
  case (Cons x xs)
  then show ?case by (cases "place n xs"; cases "place n ys") auto
qed

lemma place_less: "place n ls = Some i \<Longrightarrow> i < length ls"
  by (induction ls arbitrary: i) (auto split: if_splits)

lemma place_nth: "place n ls = Some i \<Longrightarrow> ls ! i = AMark n"
  by (induction ls arbitrary: i) (auto split: if_splits)

lemma place_drop:
  assumes "\<not> (\<exists>m. x = AMark m)" "\<not> (\<exists>m. y = AMark m)"
  shows "place n (xs @ x # ys) = map_option (shift (length xs)) (place n (xs @ x # y # ys))"
proof -
  have "x \<noteq> AMark n" "y \<noteq> AMark n" using assms by blast+
  then show ?thesis
    by (cases "place n xs"; cases "place n ys") (auto simp: place_append shift_def dest: place_less)
qed

subsection \<open>One dropped load\<close>

text \<open>The store and the load it makes useless.\<close>

definition useless :: "aline \<Rightarrow> aline \<Rightarrow> bool" where
  "useless x y = (\<exists>b im. x = AIns OP_STORE b 0 im \<and> y = AIns OP_LOAD 0 b im)"

lemma nth_drop:
  assumes "i \<noteq> Suc (length xs)" "i < length (xs @ x # y # ys)"
  shows "(xs @ x # ys) ! shift (length xs) i = (xs @ x # y # ys) ! i" "shift (length xs) i < length (xs @ x # ys)"
proof -
  obtain k where "i \<le> length xs \<or> i = length xs + 2 + k"
    using assms(1) by (metis Suc_eq_plus1 add_2_eq_Suc' le_SucE less_eqE linorder_le_less_linear not_less_eq_eq)
  then show "(xs @ x # ys) ! shift (length xs) i = (xs @ x # y # ys) ! i" "shift (length xs) i < length (xs @ x # ys)"
    using assms(2) by (auto simp: shift_def nth_append)
qed

text \<open>A step of straight code does not depend on the line numbers.\<close>

lemma plain_step_shift:
  assumes p: "plain_step E l st = Some st1" and i: "l_at st \<noteq> q" "l_at st \<noteq> Suc q" and c: "clear_of q st"
  shows "plain_step E l (shifted q st) = Some (shifted q st1) \<and> clear_of q st1"
proof -
  have sh: "Suc (shift q (l_at st)) = shift q (Suc (l_at st))" using shift_Suc i by blast
  have c': "Ret (Suc q) \<notin> set (l_stk st)" using c by (simp add: clear_of_def)
  have n: "Suc (l_at st) \<noteq> Suc q" using i by simp
  show ?thesis
  proof (cases l)
    case (AIns op a b im)
    consider (stack) "op = OP_PUSH \<or> op = OP_POP \<or> op = OP_RET" | (other) "op \<noteq> OP_PUSH" "op \<noteq> OP_POP" "op \<noteq> OP_RET" by blast
    then show ?thesis
    proof cases
      case stack
      then show ?thesis
        using p c' sh n
        by (auto simp: AIns plain_step_def step_ins_def Let_def next_line_def shifted_def clear_of_def shift_val_def
            split: list.splits sval.splits)
    next
      case other
      have e: "step_ins E (ins_of op a b im) st' = (if data_ok (user E) (ins_of op a b im) (l_cpu st') then
               (case exec_instr (ins_of op a b im) (l_cpu st') (l_con st') of
                  Inl _ \<Rightarrow> None
                | Inr (s, con) \<Rightarrow> Some (next_line (st'\<lparr>l_cpu := s, l_con := con\<rparr>)))
             else None)" for st'
        using other by (cases op) (simp_all add: step_ins_def Let_def)
      show ?thesis
        using p c' sh n
        by (auto simp: AIns plain_step_def e next_line_def shifted_def clear_of_def split: if_splits sum.splits prod.splits)
    qed
  qed (use p c' sh n in \<open>auto simp: plain_step_def next_line_def shifted_def clear_of_def\<close>)
qed

lemma lstep_shift:
  fixes xs ys :: "aline list"
  defines "q \<equiv> length xs"
  assumes u: "useless x y" and c: "clear_of q st" and i: "l_at st \<noteq> q"
    and s: "lstep E (xs @ x # y # ys) st = Some st1"
  shows "lstep E (xs @ x # ys) (shifted q st) = Some (shifted q st1) \<and> clear_of q st1"
proof -
  let ?P = "xs @ x # y # ys" and ?P' = "xs @ x # ys"
  have i2: "l_at st \<noteq> Suc q" using c by (simp add: clear_of_def)
  have len: "l_at st < length ?P" using s by (auto simp: lstep_def split: if_splits)
  have nth: "?P' ! shift q (l_at st) = ?P ! l_at st" "shift q (l_at st) < length ?P'"
    using nth_drop [of "l_at st" xs x y ys] i2 len by (simp_all add: q_def)
  have nm: "\<not> (\<exists>m. x = AMark m)" "\<not> (\<exists>m. y = AMark m)" using u by (auto simp: useless_def)
  show ?thesis
  proof (cases "\<exists>op n. ?P ! l_at st = AJump op n")
    case True
    then obtain op n where j: "?P ! l_at st = AJump op n" by blast
    have step: "step_jump ?P op n st = Some st1" using s len j by (simp add: lstep_def)
    have sh: "Suc (shift q (l_at st)) = shift q (Suc (l_at st))" using shift_Suc i i2 by blast
    have goal: "step_jump ?P' op n (shifted q st) = Some (shifted q st1) \<and> clear_of q st1"
    proof (cases "jump_taken op (flags (l_cpu st))")
      case False
      with step have "st1 = next_line st" by (simp add: step_jump_def)
      then show ?thesis using False c i sh by (auto simp: step_jump_def next_line_def shifted_def clear_of_def)
    next
      case True
      with step obtain k where k: "place n ?P = Some k" by (auto simp: step_jump_def split: option.splits)
      have "place n ?P' = Some (shift q k)" using place_drop [OF nm, of n xs ys] k by (simp add: q_def)
      moreover have "k \<noteq> Suc q" using place_nth [OF k] nm(2) by (auto simp: q_def nth_append)
      ultimately show ?thesis
        using True k step c i sh by (auto simp: step_jump_def shifted_def clear_of_def split: if_splits)
    qed
    then show ?thesis using nth j by (simp add: lstep_def)
  next
    case False
    then have p: "plain_step E (?P ! l_at st) st = Some st1"
      using s len by (auto simp: lstep_def split: aline.splits)
    have "plain_step E (?P ! l_at st) (shifted q st) = Some (shifted q st1) \<and> clear_of q st1"
      by (rule plain_step_shift [OF p i i2 c])
    then show ?thesis using nth False by (auto simp: lstep_def split: aline.splits)
  qed
qed

text \<open>The load after the store puts back into R0 what is there.\<close>

lemma store_load:
  assumes u: "useless x y" and l: "l_at st = length xs"
    and 1: "lstep E (xs @ x # y # ys) st = Some st1" and 2: "lstep E (xs @ x # y # ys) st1 = Some st2"
  shows "l_at st1 = Suc (length xs)" "st2 = st1\<lparr>l_at := length xs + 2\<rparr>"
    "plain_step E x st = Some st1" "l_stk st1 = l_stk st"
proof -
  obtain b im where u': "x = AIns OP_STORE b 0 im" "y = AIns OP_LOAD 0 b im" using u by (auto simp: useless_def)
  have p1: "plain_step E x st = Some st1" using 1 l u'(1) by (simp add: lstep_def nth_append)
  let ?a = "reg (l_cpu st) b + im"
  have acc: "accessible (user E) ?a"
    using p1 by (auto simp: u'(1) plain_step_def step_ins_def Let_def data_ok_def split: if_splits)
  have st1: "st1 = next_line (st\<lparr>l_cpu := (l_cpu st)\<lparr>mem := put_word (mem (l_cpu st)) ?a (reg (l_cpu st) 0)\<rparr>\<rparr>)"
    using p1 acc by (simp add: u'(1) plain_memory)
  then show l1: "l_at st1 = Suc (length xs)" "l_stk st1 = l_stk st" by (simp_all add: l)
  show "plain_step E x st = Some st1" by (rule p1)
  have "plain_step E y st1 = Some st2" using 2 l1 u'(2) by (simp add: lstep_def nth_append)
  moreover have "reg (l_cpu st1) b = reg (l_cpu st) b" by (simp add: st1)
  ultimately have "st2 = next_line (st1\<lparr>l_cpu := set_reg (l_cpu st1) 0 (word_at (mem (l_cpu st1)) ?a)\<rparr>)"
    using acc by (simp add: u'(2) plain_memory)
  moreover have "word_at (mem (l_cpu st1)) ?a = reg (l_cpu st1) 0"
    using word_at_put_same [OF accessible_range(1) [OF acc]] by (simp add: st1)
  moreover have "set_reg (l_cpu st1) 0 (reg (l_cpu st1) 0) = l_cpu st1"
    by (simp add: set_reg_def reg_def)
  ultimately show "st2 = st1\<lparr>l_at := length xs + 2\<rparr>" by (simp add: next_line_def l1)
qed

subsection \<open>Whole runs\<close>

fun lsteps :: "lenv \<Rightarrow> aline list \<Rightarrow> nat \<Rightarrow> lstate \<Rightarrow> lstate option" where
  "lsteps E prog 0 st = Some st"
| "lsteps E prog (Suc n) st = Option.bind (lstep E prog st) (lsteps E prog n)"

lemma lruns_lsteps: "lruns E prog st st' \<longleftrightarrow> (\<exists>n. lsteps E prog n st = Some st')"
proof
  show "lruns E prog st st' \<Longrightarrow> \<exists>n. lsteps E prog n st = Some st'"
  proof (induction rule: lruns.induct)
    case (here st)
    have "lsteps E prog 0 st = Some st" by simp
    then show ?case by blast
  next
    case (there st st1 st2)
    then obtain n where "lsteps E prog n st1 = Some st2" by blast
    with there(1) have "lsteps E prog (Suc n) st = Some st2" by simp
    then show ?case by blast
  qed
  have "lsteps E prog n st = Some st' \<Longrightarrow> lruns E prog st st'" for n
    by (induction n arbitrary: st) (auto simp: Option.bind_eq_Some_conv intro: lruns.intros)
  then show "\<exists>n. lsteps E prog n st = Some st' \<Longrightarrow> lruns E prog st st'" by blast
qed

lemma lsteps_drop:
  assumes u: "useless x y"
  shows "lsteps E (xs @ x # y # ys) n st = Some st' \<Longrightarrow> clear_of (length xs) st \<Longrightarrow> l_at st' \<noteq> Suc (length xs) \<Longrightarrow>
    lruns E (xs @ x # ys) (shifted (length xs) st) (shifted (length xs) st')"
proof (induction n arbitrary: st rule: less_induct)
  case (less n)
  let ?P = "xs @ x # y # ys" and ?P' = "xs @ x # ys" and ?q = "length xs"
  show ?case
  proof (cases n)
    case 0
    then show ?thesis using less.prems(1) by (auto intro: lruns.intros)
  next
    case (Suc m)
    with less.prems(1) obtain st1 where 1: "lstep E ?P st = Some st1" "lsteps E ?P m st1 = Some st'"
      by (auto simp: Option.bind_eq_Some_conv)
    show ?thesis
    proof (cases "l_at st = ?q")
      case False
      from lstep_shift [OF u less.prems(2) False 1(1)] have s: "lstep E ?P' (shifted ?q st) = Some (shifted ?q st1)"
        "clear_of ?q st1" by simp_all
      from less.IH [OF _ 1(2) s(2) less.prems(3)] Suc s(1) show ?thesis by (auto intro: lruns.intros)
    next
      case True
      obtain b im where x: "x = AIns OP_STORE b 0 im" using u by (auto simp: useless_def)
      have p: "plain_step E x st = Some st1" using 1(1) True x by (simp add: lstep_def nth_append)
      then have "l_at st1 = Suc ?q" using True
        by (auto simp: x plain_step_def step_ins_def Let_def split: if_splits sum.splits prod.splits)
      with less.prems(3) 1(2) have "m \<noteq> 0" by (cases m) auto
      then obtain k st2 where 2: "m = Suc k" "lstep E ?P st1 = Some st2" "lsteps E ?P k st2 = Some st'"
        using 1(2) by (cases m) (auto simp: Option.bind_eq_Some_conv)
      note sl = store_load [OF u True 1(1) 2(2)]
      have c2: "clear_of ?q st2" using less.prems(2) sl by (simp add: clear_of_def)
      have "lstep E ?P' (shifted ?q st) = plain_step E x (shifted ?q st)"
        by (simp add: lstep_def nth_append x True shift_def)
      also have "\<dots> = Some (shifted ?q st2)"
      proof -
        have "plain_step E x (shifted ?q st) = map_option (\<lambda>t. t\<lparr>l_stk := map (shift_val ?q) (l_stk st)\<rparr>) (plain_step E x st)"
          using True by (auto simp: x plain_step_def step_ins_def Let_def shifted_def shift_def next_line_def
              split: sum.splits prod.splits)
        then show ?thesis using sl(1,2,4) p by (simp add: shifted_def shift_def)
      qed
      finally show ?thesis
        using less.IH [OF _ 2(3) c2 less.prems(3)] Suc 2(1) by (auto intro: lruns.intros)
    qed
  qed
qed

text \<open>Programs with some such loads dropped, all after line \<open>b\<close>.\<close>

inductive drops :: "nat \<Rightarrow> aline list \<Rightarrow> aline list \<Rightarrow> bool" for b where
  same: "drops b prog prog"
| drop: "drops b prog (xs @ x # y # ys) \<Longrightarrow> useless x y \<Longrightarrow> b \<le> length xs \<Longrightarrow> drops b prog (xs @ x # ys)"

lemma drops_run:
  assumes "drops b prog prog'"
  shows "lruns E prog st st' \<Longrightarrow> l_at st \<le> b \<Longrightarrow> l_stk st = [] \<Longrightarrow> l_at st' \<le> b \<Longrightarrow> l_stk st' = [] \<Longrightarrow> lruns E prog' st st'"
  using assms
proof (induction rule: drops.induct)
  case (drop prog xs x y ys)
  then have "lruns E (xs @ x # y # ys) st st'" by blast
  then obtain n where n: "lsteps E (xs @ x # y # ys) n st = Some st'" using lruns_lsteps by blast
  have "shifted (length xs) st = st" "shifted (length xs) st' = st'"
    using drop.prems drop.hyps by (simp_all add: shifted_def shift_def)
  moreover have "clear_of (length xs) st" using drop.prems drop.hyps by (simp add: clear_of_def)
  ultimately show ?case using lsteps_drop [OF drop.hyps(2) n] drop.prems drop.hyps by simp
qed

end
