(* ===== verification/AsmSim.thy ===== *)
theory AsmSim
  imports AsmText PeepSim Emulator
begin

text \<open>
  The emulator executes an assembled list of lines as the machine of lines does: a line that takes a word
  is one step of the processor. The hardware stack is at the end of memory and may hold a fixed number
  of words; a run that needs more leaves the simulation with the stack pointer below that limit.
\<close>

subsection \<open>Data instructions\<close>

text \<open>Two processors agree when they have the same registers and flags and the same bytes in variables.\<close>

definition agree :: "(u32 \<Rightarrow> bool) \<Rightarrow> cpu \<Rightarrow> cpu \<Rightarrow> bool" where
  "agree U s c = (regs s = regs c \<and> flags s = flags c \<and> cpu_ok s \<and> (\<forall>a. U a \<longrightarrow> bytes (mem s) a = bytes (mem c) a))"

lemma agree_reg: "agree U s c \<Longrightarrow> reg s r = reg c r"
  by (simp add: agree_def reg_def)

lemma agree_set_reg: "agree U s c \<Longrightarrow> agree U (set_reg s r v) (set_reg c r v)"
  by (auto simp: agree_def set_reg_def cpu_ok_def)

lemma agree_set_result: "agree U s c \<Longrightarrow> agree U (set_result s r v) (set_result c r v)"
  by (auto simp: agree_def set_result_def set_reg_def set_zn_def cpu_ok_def)

lemma agree_arith:
  "agree U s c \<Longrightarrow> agree U (exec_add s ins) (exec_add c ins)"
  "agree U s c \<Longrightarrow> agree U (exec_sub s ins) (exec_sub c ins)"
  by (auto simp: agree_def exec_add_def exec_sub_def set_reg_def set_zn_def cpu_ok_def reg_def Let_def)

lemma agree_word:
  assumes "agree U s c" "accessible U a" shows "word_at (mem s) a = word_at (mem c) a"
  using assms by (simp add: agree_def accessible_def cell_def word_at_def)

lemma agree_put_word:
  assumes "agree U s c" shows "agree U (s\<lparr>mem := put_word (mem s) a v\<rparr>) (c\<lparr>mem := put_word (mem c) a v\<rparr>)"
  using assms by (auto simp: agree_def put_word_def cpu_ok_def)

text \<open>What a step may not change besides registers, flags and variables.\<close>

definition same_rest :: "(u32 \<Rightarrow> bool) \<Rightarrow> cpu \<Rightarrow> cpu \<Rightarrow> bool" where
  "same_rest U s s' = (pc s' = pc s \<and> sp s' = sp s \<and> halted s' = halted s \<and>
     (\<forall>a. \<not> U a \<longrightarrow> bytes (mem s') a = bytes (mem s) a))"

lemma same_rest_simps [simp]:
  "same_rest U s (set_reg s r v)" "same_rest U s (set_result s r v)" "same_rest U s (exec_add s ins)"
  "same_rest U s (exec_sub s ins)" "same_rest U s s"
  by (simp_all add: same_rest_def)

lemma same_rest_put: "accessible U a \<Longrightarrow> same_rest U s (s\<lparr>mem := put_word (mem s) a v\<rparr>)"
  by (auto simp: same_rest_def put_word_def accessible_def cell_def)

lemma exec_agree:
  assumes a: "agree U s c" and d: "data_ok U ins c" and e: "exec_instr ins c con = Inr (c1, con1)"
  shows "\<exists>s1. exec_instr ins s con = Inr (s1, con1) \<and> agree U s1 c1 \<and> same_rest U s s1"
proof -
  note r = agree_reg [OF a]
  consider (load) "opcode ins = OP_LOAD" | (store) "opcode ins = OP_STORE" | (in_) "opcode ins = OP_IN"
    | (other) "opcode ins \<notin> {OP_LOAD, OP_STORE, OP_IN}" by blast
  then show ?thesis
  proof cases
    case load
    let ?a = "reg c (rsrc ins) + imm ins"
    from d load have acc: "accessible U ?a" by (simp add: data_ok_def)
    then have "c1 = set_reg c (rdest ins) (word_at (mem c) ?a)" "con1 = con"
      using e load by (auto simp: exec_instr_def accessible_range mem_read32_in_range Let_def)
    then show ?thesis
      using load acc agree_word [OF a acc] agree_set_reg [OF a]
      by (simp add: exec_instr_def accessible_range mem_read32_in_range Let_def r)
  next
    case store
    let ?a = "reg c (rdest ins) + imm ins"
    from d store have acc: "accessible U ?a" by (simp add: data_ok_def)
    then have "c1 = c\<lparr>mem := put_word (mem c) ?a (reg c (rsrc ins))\<rparr>" "con1 = con"
      using e store by (auto simp: exec_instr_def accessible_range mem_write32_in_range Let_def)
    then show ?thesis
      using store acc agree_put_word [OF a] same_rest_put [OF acc]
      by (simp add: exec_instr_def accessible_range mem_write32_in_range Let_def r)
  next
    case in_
    then show ?thesis
      using e agree_set_reg [OF a] by (auto simp: exec_instr_def Let_def split: prod.splits if_splits)
  next
    case other
    note sr = agree_set_reg [OF a] and sres = agree_set_result [OF a] and ar = agree_arith [OF a]
    have nz: "opcode ins = OP_DIV \<Longrightarrow> reg c (rsrc ins) \<noteq> 0" using d by (simp add: data_ok_def)
    have "is_data_op (opcode ins)" using d by (simp add: data_ok_def)
    with other show ?thesis
      using e nz a
      by (cases "opcode ins")
        (simp_all add: is_data_op_def exec_instr_def Let_def r shl32_def shr32_def sr sres ar split: if_splits;
          elim conjE; hypsubst; simp add: sr sres ar)+
  qed
qed

subsection \<open>The stack\<close>

definition stack_word :: "aline list \<Rightarrow> sval \<Rightarrow> u32" where
  "stack_word prog v = (case v of Val x \<Rightarrow> x | Ret i \<Rightarrow> of_nat (address prog i))"

fun stack_at :: "aline list \<Rightarrow> memory \<Rightarrow> u32 \<Rightarrow> sval list \<Rightarrow> bool" where
  "stack_at prog m a [] = (a = 65536)"
| "stack_at prog m a (v # vs) = (unat a + 4 \<le> 65536 \<and> word_at m a = stack_word prog v \<and> stack_at prog m (a + 4) vs)"

lemma stack_size: "stack_at prog m a vs \<Longrightarrow> unat a + 4 * length vs = 65536"
proof (induction vs arbitrary: a)
  case (Cons v vs)
  then have "unat (a + 4) = unat a + 4" by (simp add: unat_word_ariths)
  with Cons.IH [of "a + 4"] Cons.prems show ?case by simp
qed simp

lemma stack_cong:
  "stack_at prog m a vs \<Longrightarrow> (\<And>b. unat a \<le> unat b \<Longrightarrow> unat b < 65536 \<Longrightarrow> bytes m' b = bytes m b) \<Longrightarrow> stack_at prog m' a vs"
proof (induction vs arbitrary: a)
  case (Cons v vs)
  then have r: "unat a + 4 \<le> 65536" by simp
  note p = plus_small [OF r]
  have "word_at m' a = word_at m a"
    using Cons.prems(2) [of a] Cons.prems(2) [of "a + 1"] Cons.prems(2) [of "a + 2"] Cons.prems(2) [of "a + 3"] r p
    by (simp add: word_at_def)
  moreover have "stack_at prog m' (a + 4) vs"
    by (rule Cons.IH) (use Cons.prems p(4) in auto)
  ultimately show ?case using Cons.prems(1) by simp
qed simp

subsection \<open>The loaded program\<close>

text \<open>
  The bytes of the instructions; the variables are elsewhere, below the hardware stack of \<open>D\<close> words at
  the end of memory. The labels have the assembler's addresses.
\<close>

fun is_code :: "aline \<Rightarrow> bool" where
  "is_code (AData v) = False"
| "is_code l = wordy l"

definition code_byte :: "aline list \<Rightarrow> u32 \<Rightarrow> bool" where
  "code_byte prog a = (\<exists>i < length prog. is_code (prog ! i) \<and> address prog i \<le> unat a \<and> unat a < address prog i + 4)"

definition loaded :: "lenv \<Rightarrow> aline list \<Rightarrow> nat \<Rightarrow> bool" where
  "loaded E prog D = (list_all line_ok prog \<and> list_all (line_resolves prog) prog \<and>
     4 * words_in prog + 4 * D < 65536 \<and>
     (\<forall>a. user E a \<longrightarrow> \<not> code_byte prog a \<and> unat a + 4 * D < 65536) \<and>
     (\<forall>n. addr_of E n = map_option (\<lambda>i. of_nat (address prog i)) (place n prog)))"

definition code_in :: "aline list \<Rightarrow> memory \<Rightarrow> bool" where
  "code_in prog m = (\<forall>a. code_byte prog a \<longrightarrow>
     bytes m a = concat (map word_bytes (program_words prog)) ! unat a)"

lemma is_code_wordy: "is_code l \<Longrightarrow> wordy l"
  by (cases l) auto

lemma code_byte_low: "code_byte prog a \<Longrightarrow> unat a < 4 * words_in prog"
  using line_in_binary(1) is_code_wordy by (fastforce simp: code_byte_def)

text \<open>The processor \<open>s\<close> is at the line of \<open>st\<close>.\<close>

definition stands :: "lenv \<Rightarrow> aline list \<Rightarrow> nat \<Rightarrow> lstate \<Rightarrow> cpu \<Rightarrow> bool" where
  "stands E prog D st s = (agree (user E) s (l_cpu st) \<and> \<not> halted s \<and>
     pc s = of_nat (address prog (l_at st)) \<and> code_in prog (mem s) \<and>
     stack_at prog (mem s) (sp s) (l_stk st) \<and> length (l_stk st) \<le> D)"

lemma length_word_bytes [simp]: "length (concat (map word_bytes ws)) = 4 * length ws"
  by (induction ws) (simp_all add: word_bytes_def)

lemma fetch_line:
  assumes L: "loaded E prog D" and c: "code_in prog (mem s)" and i: "i < length prog" "is_code (prog ! i)"
    and pc: "pc s = of_nat (address prog i)"
  shows "fetched s (decode (line_word prog (prog ! i)))" "unat (pc s) = address prog i" "4 \<le> 4 * words_in prog"
proof -
  have w: "wordy (prog ! i)" using i(2) by (rule is_code_wordy)
  have C: "address prog i + 4 \<le> 4 * words_in prog" "4 * words_in prog < 65536"
    using L line_in_binary(1) [OF i(1) w] by (auto simp: loaded_def)
  then show "4 \<le> 4 * words_in prog" by simp
  show u: "unat (pc s) = address prog i" using C by (simp add: pc unat_of_nat)
  note ps = plus_small [of "pc s"]
  have r: "unat (pc s) + 4 \<le> 65536" using u C by simp
  have cb: "code_byte prog (pc s)" "code_byte prog (pc s + 1)" "code_byte prog (pc s + 2)" "code_byte prog (pc s + 3)"
    unfolding code_byte_def using i ps [OF r] u by (auto intro!: exI [of _ i])
  have "word_at (mem s) (pc s) = le_word (concat (map word_bytes (program_words prog))) (address prog i)"
    using c ps [OF r] u cb by (simp add: word_at_def le_word_def code_in_def)
  then have "word_at (mem s) (pc s) = line_word prog (prog ! i)" using line_in_binary(2) [OF i(1) w] by simp
  then show "fetched s (decode (line_word prog (prog ! i)))" using r by (simp add: fetched_def mem_read32_in_range)
qed

lemma decode_line:
  "line_ok (AIns op a b im) \<Longrightarrow> decode (line_word prog (AIns op a b im)) = ins_of op a b im"
  "line_ok (AJump op n) \<Longrightarrow> line_resolves prog (AJump op n) \<Longrightarrow>
    decode (line_word prog (AJump op n)) = ins_of op 0 0 (label_value prog n)"
  "line_ok (AAddr r n) \<Longrightarrow> line_resolves prog (AAddr r n) \<Longrightarrow>
    decode (line_word prog (AAddr r n)) = ins_of OP_LOADI r 0 (label_value prog n)"
  by (simp_all add: decode_def line_ok.simps(1) decode_opcode_encode decode_regs_encode decode_imm_encode)

lemma address_Suc:
  "i < length prog \<Longrightarrow> address prog (Suc i) = address prog i + (if wordy (prog ! i) then 4 else 0)"
  by (simp add: address_def take_Suc_conv_app_nth)

text \<open>Stores in variables and on the stack leave the code alone.\<close>

lemma code_cong: "code_in prog m \<Longrightarrow> (\<And>a. code_byte prog a \<Longrightarrow> bytes m' a = bytes m a) \<Longrightarrow> code_in prog m'"
  by (simp add: code_in_def)

lemma stands_code:
  assumes L: "loaded E prog D" and s: "stands E prog D st s" and r: "same_rest (user E) s s'"
  shows "code_in prog (mem s')" "stack_at prog (mem s') (sp s) (l_stk st)"
proof -
  have u: "user E a \<Longrightarrow> \<not> code_byte prog a \<and> unat a + 4 * D < 65536" for a using L by (simp add: loaded_def)
  have b: "\<not> user E a \<Longrightarrow> bytes (mem s') a = bytes (mem s) a" for a using r by (simp add: same_rest_def)
  show "code_in prog (mem s')"
  proof (rule code_cong [of _ "mem s"])
    show "code_in prog (mem s)" using s by (simp add: stands_def)
    fix a :: u32
    assume "code_byte prog a"
    then show "bytes (mem s') a = bytes (mem s) a" using u [of a] by (intro b) auto
  qed
  have st: "stack_at prog (mem s) (sp s) (l_stk st)" "length (l_stk st) \<le> D" using s by (simp_all add: stands_def)
  have "65536 \<le> unat (sp s) + 4 * D" using stack_size [OF st(1)] st(2) by simp
  then show "stack_at prog (mem s') (sp s) (l_stk st)"
    by (intro stack_cong [OF st(1)] b) (use u in \<open>fastforce\<close>)
qed

text \<open>A step that leaves stack and code alone and goes on to the next line.\<close>

lemma stands_next:
  assumes L: "loaded E prog D" and s: "stands E prog D st s" and i: "l_at st < length prog" "wordy (prog ! l_at st)"
    and r: "same_rest (user E) (next_state s) s'" and a: "agree (user E) s' c"
  shows "stands E prog D (next_line (st\<lparr>l_cpu := c, l_con := con\<rparr>)) s'"
proof -
  have "same_rest (user E) s (s'\<lparr>pc := pc s\<rparr>)" using r by (simp add: same_rest_def)
  from stands_code [OF L s this] have "code_in prog (mem s')" "stack_at prog (mem s') (sp s) (l_stk st)" by simp_all
  moreover have "pc s' = of_nat (address prog (Suc (l_at st)))"
    using s r address_Suc [OF i(1)] i(2) by (simp add: same_rest_def stands_def add.commute)
  ultimately show ?thesis using s r a by (simp add: stands_def same_rest_def)
qed

lemma agree_next: "agree U s c \<Longrightarrow> agree U (next_state s) c"
  by (simp add: agree_def)

subsection \<open>Pushing\<close>

lemma put_word_byte: "b \<notin> set (cell a) \<Longrightarrow> bytes (put_word m a v) b = bytes m b"
  by (simp add: put_word_def cell_def)

lemma cell_range: "unat a + 4 \<le> 65536 \<Longrightarrow> b \<in> set (cell a) \<Longrightarrow> unat a \<le> unat b \<and> unat b < unat a + 4"
  using plus_small [of a] by (auto simp: cell_def)

lemma sp_below:
  assumes L: "loaded E prog D" and s: "stands E prog D st s" and C: "4 \<le> 4 * words_in prog"
  shows "unat (sp s - 4) + 4 = unat (sp s)" "unat (sp s - 4) + 4 \<le> 65536" "length (l_stk st) < D \<Longrightarrow> 4 * words_in prog \<le> unat (sp s - 4)"
    "unat (sp s) + 4 * length (l_stk st) = 65536"
    "\<And>a. user E a \<Longrightarrow> length (l_stk st) < D \<Longrightarrow> unat a < unat (sp s - 4)"
proof -
  have st: "stack_at prog (mem s) (sp s) (l_stk st)" "length (l_stk st) \<le> D" using s by (simp_all add: stands_def)
  show z: "unat (sp s) + 4 * length (l_stk st) = 65536" by (rule stack_size [OF st(1)])
  have C': "4 * words_in prog + 4 * D < 65536" using L by (simp add: loaded_def)
  then have "4 * words_in prog < unat (sp s)" using z st(2) by simp
  then have "4 \<le> unat (sp s)" using C by simp
  then have "(4 :: u32) \<le> sp s" by (simp add: word_le_nat_alt)
  then have e: "unat (sp s - 4) = unat (sp s) - 4" by (simp add: unat_sub)
  with \<open>4 \<le> unat (sp s)\<close> show "unat (sp s - 4) + 4 = unat (sp s)" by simp
  with z show "unat (sp s - 4) + 4 \<le> 65536" by simp
  show "length (l_stk st) < D \<Longrightarrow> 4 * words_in prog \<le> unat (sp s - 4)" using e z C' by simp
  fix a
  assume "user E a" "length (l_stk st) < D"
  then have "unat a + 4 * D < 65536" using L by (simp add: loaded_def)
  then show "unat a < unat (sp s - 4)" using e z \<open>length (l_stk st) < D\<close> by simp
qed

text \<open>One more word on the stack, and the program counter elsewhere.\<close>

lemma stands_push:
  assumes L: "loaded E prog D" and s: "stands E prog D st s" and C: "4 \<le> 4 * words_in prog" and r: "length (l_stk st) < D"
    and w: "w = stack_word prog v" and p: "p = of_nat (address prog j)"
  shows "stands E prog D (st\<lparr>l_at := j, l_stk := v # l_stk st\<rparr>)
    (s\<lparr>sp := sp s - 4, mem := put_word (mem s) (sp s - 4) w, pc := p, icount := n\<rparr>)"
proof -
  note b = sp_below [OF L s C]
  have out: "bytes (put_word (mem s) (sp s - 4) w) a = bytes (mem s) a"
    if "unat a < unat (sp s - 4) \<or> unat (sp s) \<le> unat a" for a
    using cell_range [OF b(2), of a] b(1) that by (intro put_word_byte) auto
  have "code_in prog (put_word (mem s) (sp s - 4) w)"
  proof (rule code_cong [of _ "mem s"])
    show "code_in prog (mem s)" using s by (simp add: stands_def)
    fix a :: u32
    assume "code_byte prog a"
    then show "bytes (put_word (mem s) (sp s - 4) w) a = bytes (mem s) a"
      using b(3) [OF r] code_byte_low [of prog a] by (intro out) simp
  qed
  moreover have "stack_at prog (put_word (mem s) (sp s - 4) w) (sp s) (l_stk st)"
    by (rule stack_cong [of _ "mem s"]) (use s out in \<open>auto simp: stands_def\<close>)
  moreover have "user E a \<Longrightarrow> bytes (put_word (mem s) (sp s - 4) w) a = bytes (mem s) a" for a
    using b(5) [OF _ r] by (intro out) simp
  ultimately show ?thesis
    using s r b(2) by (auto simp: stands_def agree_def w p word_at_put_same)
qed

text \<open>Taking a word off.\<close>

lemma stands_top:
  assumes s: "stands E prog D st s" and t: "l_stk st = v # t"
  shows "mem_read32 (mem s) (sp s) = Inr (stack_word prog v)" "stack_at prog (mem s) (sp s + 4) t" "length t < D"
  using s by (auto simp: stands_def t mem_read32_in_range)

subsection \<open>One line\<close>

definition overflow :: "nat \<Rightarrow> cpu \<Rightarrow> bool" where
  "overflow D s = (unat (sp s) + 4 * D < 65536)"

text \<open>Within \<open>k\<close> steps the processor stands at \<open>st1\<close>, or has used more stack than there is.\<close>

definition follows :: "lenv \<Rightarrow> aline list \<Rightarrow> nat \<Rightarrow> nat \<Rightarrow> lstate \<Rightarrow> cpu \<Rightarrow> console \<Rightarrow> bool" where
  "follows E prog D k st1 s con = (\<exists>n s' c. n \<le> k \<and> cpu_steps n s con = Inr (s', c) \<and>
     (overflow D s' \<or> (c = l_con st1 \<and> stands E prog D st1 s')))"

lemma follows_step:
  assumes "\<not> halted s" "fetched s ins" "exec_instr ins (next_state s) con = Inr (s', c)"
    and "overflow D s' \<or> (c = l_con st1 \<and> stands E prog D st1 s')"
  shows "follows E prog D 1 st1 s con"
  unfolding follows_def
  by (intro exI [of _ 1] exI [of _ s'] exI [of _ c]) (use assms in \<open>simp add: step_fetched\<close>)

lemma follows_plain:
  assumes L: "loaded E prog D" and s: "stands E prog D st s" and i: "l_at st < length prog" "is_code (prog ! l_at st)"
    and ins: "decode (line_word prog (prog ! l_at st)) = ins" and d: "data_ok (user E) ins (l_cpu st)"
    and e: "exec_instr ins (l_cpu st) (l_con st) = Inr (c, con)"
  shows "follows E prog D 1 (next_line (st\<lparr>l_cpu := c, l_con := con\<rparr>)) s (l_con st)"
proof -
  have s': "\<not> halted s" "code_in prog (mem s)" "pc s = of_nat (address prog (l_at st))" "agree (user E) s (l_cpu st)"
    using s by (simp_all add: stands_def)
  have f: "fetched s ins" using fetch_line(1) [OF L s'(2) i s'(3)] ins by simp
  have w: "wordy (prog ! l_at st)" using i(2) by (cases "prog ! l_at st") auto
  from exec_agree [OF agree_next [OF s'(4)] d e] obtain s1 where
    s1: "exec_instr ins (next_state s) (l_con st) = Inr (s1, con)" "agree (user E) s1 c" "same_rest (user E) (next_state s) s1"
    by blast
  from stands_next [OF L s i(1) w s1(3,2)] show ?thesis by (intro follows_step [OF s'(1) f s1(1)]) simp
qed

lemma step_ins_data:
  "op \<noteq> OP_PUSH \<Longrightarrow> op \<noteq> OP_POP \<Longrightarrow> op \<noteq> OP_RET \<Longrightarrow> step_ins E (ins_of op a b im) st =
    (if data_ok (user E) (ins_of op a b im) (l_cpu st) then
       (case exec_instr (ins_of op a b im) (l_cpu st) (l_con st) of
          Inl _ \<Rightarrow> None | Inr (s, con) \<Rightarrow> Some (next_line (st\<lparr>l_cpu := s, l_con := con\<rparr>)))
     else None)"
  by (cases op) (simp_all add: step_ins_def Let_def)

lemma follows_ins:
  assumes L: "loaded E prog D" and s: "stands E prog D st s" and i: "l_at st < length prog"
    and l: "prog ! l_at st = AIns op a b im" and st1: "step_ins E (ins_of op a b im) st = Some st1"
  shows "follows E prog D 1 st1 s (l_con st)"
proof -
  have ok: "line_ok (AIns op a b im)" using L i l nth_mem [OF i] by (force simp: loaded_def list_all_iff)
  have c: "is_code (prog ! l_at st)" by (simp add: l)
  have ins: "decode (line_word prog (prog ! l_at st)) = ins_of op a b im" using decode_line(1) [OF ok] l by simp
  have s': "\<not> halted s" "code_in prog (mem s)" "pc s = of_nat (address prog (l_at st))" "agree (user E) s (l_cpu st)"
    using s by (simp_all add: stands_def)
  note f = fetch_line [OF L s'(2) i c s'(3)]
  note C = f(3)
  have next_pc: "pc s + 4 = of_nat (address prog (Suc (l_at st)))"
    using address_Suc [OF i] s'(3) l by (simp add: add.commute)
  have a8: "a < 8" using ok by (simp add: line_ok.simps(1))
  consider (push) "op = OP_PUSH" | (pop) "op = OP_POP" | (ret) "op = OP_RET"
    | (other) "op \<noteq> OP_PUSH" "op \<noteq> OP_POP" "op \<noteq> OP_RET" by blast
  then show ?thesis
  proof cases
    case push
    let ?w = "reg (l_cpu st) a"
    let ?s = "s\<lparr>sp := sp s - 4, mem := put_word (mem s) (sp s - 4) ?w, pc := pc s + 4, icount := icount s + 1\<rparr>"
    have st1': "st1 = st\<lparr>l_at := Suc (l_at st), l_stk := Val ?w # l_stk st\<rparr>"
      using st1 push by (cases st) (auto simp: step_ins_def Let_def next_line_def)
    note b = sp_below [OF L s C]
    have x: "exec_instr (ins_of op a b im) (next_state s) (l_con st) = Inr (?s, l_con st)"
      using push b(2) agree_reg [OF s'(4)] by (simp add: exec_instr_def Let_def mem_write32_in_range next_state_def)
    show ?thesis
    proof (cases "length (l_stk st) < D")
      case True
      have "stands E prog D st1 ?s"
        unfolding st1' by (rule stands_push [OF L s C True]) (simp_all add: stack_word_def next_pc)
      then show ?thesis using st1' by (intro follows_step [OF s'(1) f(1) [unfolded ins] x]) simp
    next
      case False
      then have "overflow D ?s" using b(1,4) by (simp add: overflow_def)
      then show ?thesis by (intro follows_step [OF s'(1) f(1) [unfolded ins] x]) simp
    qed
  next
    case pop
    then obtain v t where t: "l_stk st = Val v # t" and st1': "st1 = next_line (st\<lparr>l_cpu := set_reg (l_cpu st) a v, l_stk := t\<rparr>)"
      using st1 by (auto simp: step_ins_def Let_def split: list.splits sval.splits)
    note top = stands_top [OF s t]
    let ?s = "set_reg (next_state s) a v\<lparr>sp := sp s + 4\<rparr>"
    have x: "exec_instr (ins_of op a b im) (next_state s) (l_con st) = Inr (?s, l_con st)"
      using pop top(1) by (simp add: exec_instr_def Let_def stack_word_def)
    have "stands E prog D st1 ?s"
      using s top(2,3) next_pc agree_set_reg [OF agree_next [OF s'(4)], of a v] by (simp add: stands_def st1' agree_def)
    then show ?thesis using st1' by (intro follows_step [OF s'(1) f(1) [unfolded ins] x]) simp
  next
    case ret
    then obtain k t where t: "l_stk st = Ret k # t" and st1': "st1 = st\<lparr>l_at := k, l_stk := t\<rparr>"
      using st1 by (auto simp: step_ins_def Let_def split: list.splits sval.splits)
    note top = stands_top [OF s t]
    let ?s = "(next_state s)\<lparr>pc := of_nat (address prog k), sp := sp s + 4\<rparr>"
    have x: "exec_instr (ins_of op a b im) (next_state s) (l_con st) = Inr (?s, l_con st)"
      using ret top(1) by (simp add: exec_instr_def Let_def stack_word_def)
    have "stands E prog D st1 ?s"
      using s top(2,3) agree_next [OF s'(4)] by (simp add: stands_def st1' agree_def)
    then show ?thesis using st1' by (intro follows_step [OF s'(1) f(1) [unfolded ins] x]) simp
  next
    case other
    from st1 obtain c1 con1 where d: "data_ok (user E) (ins_of op a b im) (l_cpu st)"
      and e: "exec_instr (ins_of op a b im) (l_cpu st) (l_con st) = Inr (c1, con1)"
      and st1': "st1 = next_line (st\<lparr>l_cpu := c1, l_con := con1\<rparr>)"
      unfolding step_ins_data [OF other] by (auto split: if_splits sum.splits)
    from follows_plain [OF L s i c ins d e] show ?thesis unfolding st1' .
  qed
qed

lemma label_place:
  assumes "line_resolves prog (AJump op n)"
  obtains k where "place n prog = Some k" "label_value prog n = of_nat (address prog k)"
  using assms by (auto simp: label_value_def split: option.splits)

lemma stands_line: "stands E prog D st s \<Longrightarrow> pc s' = of_nat (address prog k) \<Longrightarrow> agree (user E) s' (l_cpu st) \<Longrightarrow>
    halted s' = halted s \<Longrightarrow> mem s' = mem s \<Longrightarrow> sp s' = sp s \<Longrightarrow> stands E prog D (st\<lparr>l_at := k\<rparr>) s'"
  by (simp add: stands_def)

lemma follows_jump:
  assumes L: "loaded E prog D" and s: "stands E prog D st s" and i: "l_at st < length prog"
    and l: "prog ! l_at st = AJump op n" and st1: "step_jump prog op n st = Some st1"
  shows "follows E prog D 1 st1 s (l_con st)"
proof -
  have ok: "line_ok (AJump op n)" "line_resolves prog (AJump op n)"
    using L i l nth_mem [OF i] by (force simp: loaded_def list_all_iff)+
  have c: "is_code (prog ! l_at st)" by (simp add: l)
  have ins: "decode (line_word prog (prog ! l_at st)) = ins_of op 0 0 (label_value prog n)"
    using decode_line(2) [OF ok] l by simp
  have s': "\<not> halted s" "code_in prog (mem s)" "pc s = of_nat (address prog (l_at st))" "agree (user E) s (l_cpu st)"
    using s by (simp_all add: stands_def)
  note f = fetch_line [OF L s'(2) i c s'(3)]
  note C = f(3)
  have next_pc: "pc s + 4 = of_nat (address prog (Suc (l_at st)))"
    using address_Suc [OF i] s'(3) l by (simp add: add.commute)
  have fl: "flags s = flags (l_cpu st)" using s'(4) by (simp add: agree_def)
  obtain k where k: "place n prog = Some k" "label_value prog n = of_nat (address prog k)" by (rule label_place [OF ok(2)])
  let ?i = "ins_of op 0 0 (label_value prog n)"
  have ops: "op \<in> {OP_JMP, OP_JZ, OP_JNZ, OP_JG, OP_JL, OP_CALL}" using ok(1) by (cases op) simp_all
  show ?thesis
  proof (cases "op = OP_CALL")
    case True
    let ?w = "pc s + 4"
    let ?s = "s\<lparr>sp := sp s - 4, mem := put_word (mem s) (sp s - 4) ?w, pc := label_value prog n, icount := icount s + 1\<rparr>"
    have st1': "st1 = st\<lparr>l_at := k, l_stk := Ret (Suc (l_at st)) # l_stk st\<rparr>"
      using st1 True k(1) by (simp add: step_jump_def jump_taken_def)
    note b = sp_below [OF L s C]
    have x: "exec_instr ?i (next_state s) (l_con st) = Inr (?s, l_con st)"
      using True b(2) by (simp add: exec_instr_def Let_def mem_write32_in_range next_state_def)
    show ?thesis
    proof (cases "length (l_stk st) < D")
      case True
      have "stands E prog D st1 ?s"
        unfolding st1' by (rule stands_push [OF L s C True]) (simp_all add: stack_word_def next_pc k(2))
      then show ?thesis using st1' by (intro follows_step [OF s'(1) f(1) [unfolded ins] x]) simp
    next
      case False
      then have "overflow D ?s" using b(1,4) by (simp add: overflow_def)
      then show ?thesis by (intro follows_step [OF s'(1) f(1) [unfolded ins] x]) simp
    qed
  next
    case False
    let ?s = "if jump_taken op (flags (l_cpu st)) then (next_state s)\<lparr>pc := label_value prog n\<rparr> else next_state s"
    have x: "exec_instr ?i (next_state s) (l_con st) = Inr (?s, l_con st)"
      using ops False by (cases op) (simp_all add: exec_instr_def Let_def jump_taken_def fl)
    have st1': "st1 = st\<lparr>l_at := if jump_taken op (flags (l_cpu st)) then k else Suc (l_at st)\<rparr>"
      using st1 False k(1) by (auto simp: step_jump_def next_line_def split: if_splits)
    have "stands E prog D st1 ?s"
    proof (cases "jump_taken op (flags (l_cpu st))")
      case True
      have "stands E prog D (st\<lparr>l_at := k\<rparr>) ((next_state s)\<lparr>pc := label_value prog n\<rparr>)"
        by (rule stands_line [OF s]) (use agree_next [OF s'(4)] k(2) in \<open>simp_all add: agree_def\<close>)
      then show ?thesis by (simp add: st1' True)
    next
      case False
      have "stands E prog D (st\<lparr>l_at := Suc (l_at st)\<rparr>) (next_state s)"
        by (rule stands_line [OF s]) (use agree_next [OF s'(4)] next_pc in \<open>simp_all\<close>)
      then show ?thesis by (simp add: st1' False)
    qed
    then show ?thesis using st1' by (intro follows_step [OF s'(1) f(1) [unfolded ins] x]) simp
  qed
qed

lemma follows_addr:
  assumes L: "loaded E prog D" and s: "stands E prog D st s" and i: "l_at st < length prog"
    and l: "prog ! l_at st = AAddr r n" and a: "addr_of E n = Some v"
  shows "follows E prog D 1 (next_line (st\<lparr>l_cpu := set_reg (l_cpu st) r v\<rparr>)) s (l_con st)"
proof -
  have ok: "line_ok (AAddr r n)" "line_resolves prog (AAddr r n)"
    using L i l nth_mem [OF i] by (force simp: loaded_def list_all_iff)+
  have ins: "decode (line_word prog (prog ! l_at st)) = ins_of OP_LOADI r 0 (label_value prog n)"
    using decode_line(3) [OF ok] l by simp
  have "label_value prog n = v" using L a by (auto simp: loaded_def label_value_def)
  with follows_plain [OF L s i _ ins, of "set_reg (l_cpu st) r v" "l_con st"] l
  have "follows E prog D 1 (next_line (st\<lparr>l_cpu := set_reg (l_cpu st) r v, l_con := l_con st\<rparr>)) s (l_con st)"
    by (simp add: data_ok_def is_data_op_def exec_instr_def)
  moreover have "st\<lparr>l_cpu := set_reg (l_cpu st) r v, l_con := l_con st\<rparr> = st\<lparr>l_cpu := set_reg (l_cpu st) r v\<rparr>"
    by (cases st) simp
  ultimately show ?thesis by simp
qed

lemma follows_pass:
  assumes s: "stands E prog D st s" and i: "l_at st < length prog" "\<not> wordy (prog ! l_at st)"
  shows "follows E prog D 1 (next_line st) s (l_con st)"
  unfolding follows_def
  by (intro exI [of _ 0] exI [of _ s] exI [of _ "l_con st"]) (use s i address_Suc [OF i(1)] in \<open>simp add: stands_def\<close>)

theorem line_simulated:
  assumes L: "loaded E prog D" and s: "stands E prog D st s" and st1: "lstep E prog st = Some st1"
  shows "follows E prog D 1 st1 s (l_con st)"
proof -
  have i: "l_at st < length prog" using st1 by (simp add: lstep_def split: if_splits)
  show ?thesis
  proof (cases "prog ! l_at st")
    case (AIns op a b im)
    with st1 i show ?thesis by (intro follows_ins [OF L s i AIns]) (simp add: lstep_def plain_step_def)
  next
    case (AJump op n)
    with st1 i show ?thesis by (intro follows_jump [OF L s i AJump]) (simp add: lstep_def)
  next
    case (AAddr r n)
    with st1 i obtain v where "addr_of E n = Some v" "st1 = next_line (st\<lparr>l_cpu := set_reg (l_cpu st) r v\<rparr>)"
      by (auto simp: lstep_def plain_step_def)
    with follows_addr [OF L s i AAddr] show ?thesis by simp
  qed (use st1 i follows_pass [OF s i] in \<open>simp_all add: lstep_def plain_step_def\<close>)
qed

subsection \<open>Runs\<close>

lemma follows_trans:
  assumes "follows E prog D j st1 s con"
    and "\<And>s'. stands E prog D st1 s' \<Longrightarrow> follows E prog D k st2 s' (l_con st1)"
  shows "follows E prog D (j + k) st2 s con"
proof -
  from assms(1) obtain n s' c where n: "n \<le> j" "cpu_steps n s con = Inr (s', c)"
    "overflow D s' \<or> (c = l_con st1 \<and> stands E prog D st1 s')"
    unfolding follows_def by blast
  show ?thesis
  proof (cases "overflow D s'")
    case True
    show ?thesis unfolding follows_def
      by (intro exI [of _ n] exI [of _ s'] exI [of _ c]) (use n True in simp)
  next
    case False
    with n(3) have c: "c = l_con st1" "stands E prog D st1 s'" by blast+
    from assms(2) [OF c(2)] obtain m s2 c2 where m: "m \<le> k" "cpu_steps m s' (l_con st1) = Inr (s2, c2)"
      "overflow D s2 \<or> (c2 = l_con st2 \<and> stands E prog D st2 s2)" unfolding follows_def by blast
    have "cpu_steps (n + m) s con = Inr (s2, c2)" using n(2) m(2) c(1) by (simp add: cpu_steps_add)
    with m n(1) show ?thesis unfolding follows_def
      by (intro exI [of _ "n + m"] exI [of _ s2] exI [of _ c2]) simp
  qed
qed

lemma run_simulated:
  "lsteps E prog n st = Some st' \<Longrightarrow> loaded E prog D \<Longrightarrow> stands E prog D st s \<Longrightarrow> follows E prog D n st' s (l_con st)"
proof (induction n arbitrary: st s)
  case 0
  then show ?case unfolding follows_def by auto
next
  case (Suc n)
  from Suc.prems(1) obtain st1 where st1: "lstep E prog st = Some st1" "lsteps E prog n st1 = Some st'"
    by (auto simp: Option.bind_eq_Some_conv)
  have "follows E prog D (1 + n) st' s (l_con st)"
    by (rule follows_trans [OF line_simulated [OF Suc.prems(2,3) st1(1)]]) (rule Suc.IH [OF st1(2) Suc.prems(2)])
  then show ?case by simp
qed

text \<open>At a \<open>HALT\<close> the processor stops.\<close>

lemma halt_simulated:
  assumes L: "loaded E prog D" and s: "stands E prog D st s" and i: "l_at st < length prog"
    and l: "prog ! l_at st = AIns OP_HALT 0 0 0"
  shows "\<exists>s'. cpu_steps 1 s con = Inr (s', con) \<and> halted s' \<and> agree (user E) s' (l_cpu st)"
proof -
  have ok: "line_ok (AIns OP_HALT 0 0 0)" using L i l nth_mem [OF i] by (force simp: loaded_def list_all_iff)
  have s': "\<not> halted s" "code_in prog (mem s)" "pc s = of_nat (address prog (l_at st))" "agree (user E) s (l_cpu st)"
    using s by (simp_all add: stands_def)
  have f: "fetched s (ins_of OP_HALT 0 0 0)"
    using fetch_line(1) [OF L s'(2) i _ s'(3)] l decode_line(1) [OF ok, of prog] by simp
  then have "cpu_step s con = Inr ((next_state s)\<lparr>halted := True\<rparr>, con)"
    by (simp add: step_fetched exec_instr_def)
  then show ?thesis using s'(1) agree_next [OF s'(4)]
    by (intro exI [of _ "(next_state s)\<lparr>halted := True\<rparr>"]) (simp add: agree_def)
qed

subsection \<open>Start\<close>

lemma start_stands:
  assumes L: "loaded E prog D" and bs: "bs = concat (map word_bytes (program_words prog))"
  shows "stands E prog D \<lparr>l_at = 0, l_cpu = cpu_init (load_bytes mem_init (byte_chars bs)), l_stk = [], l_con = con\<rparr>
    (cpu_init (load_bytes mem_init (byte_chars bs)))"
proof -
  have len: "length bs = 4 * words_in prog" "length bs < 65536" using L by (simp_all add: bs loaded_def)
  have "code_in prog (load_bytes mem_init (byte_chars bs))"
    using code_byte_low len by (auto simp: code_in_def load_bytes_def MEM_SIZE_def bs [symmetric])
  moreover have "cpu_ok (cpu_init (load_bytes mem_init (byte_chars bs)))" by simp
  ultimately show ?thesis by (simp add: stands_def agree_def cpu_init_def MEM_SIZE_def)
qed

end
