(* ===== verification/CGen.thy ===== *)
theory CGen
  imports CParser
begin

text \<open>
  The code generator of the compiler (\<open>src/cgen.c\<close> up to \<open>gen_function\<close>): symbol tables, the
  frame layout, one function per syntactic form, emitting assembly text line by line. The
  static variables are a record that is passed along; \<open>fail\<close> is an error value with the
  message, and writing past a table or computing an \<open>int\<close> out of range is a fault. The emitted
  lines are shorter than their buffers (names have at most 63 characters), so \<open>snprintf\<close> never
  cuts them.
\<close>

subsection \<open>State\<close>

definition STACK_BASE :: int where "STACK_BASE = 0x8000"
definition CG_IMM_MIN :: int where "CG_IMM_MIN = - (2 ^ 19)"
definition CG_IMM_MAX :: int where "CG_IMM_MAX = 2 ^ 19 - 1"

record csym =
  sy_name :: string
  sy_off :: int
  sy_array :: bool

record cfunc =
  fn_name :: string
  fn_nparams :: nat

record cglob =
  gl_name :: string
  gl_array :: bool

definition SYM_CAP :: nat where "SYM_CAP = 256"
definition FUNC_CAP :: nat where "FUNC_CAP = 128"
definition GLOB_CAP :: nat where "GLOB_CAP = 128"

record cgstate =
  cg_label :: nat
  cg_epi :: string
  cg_lines :: "string list"
  cg_sym :: "csym list"
  cg_funcs :: "cfunc list"
  cg_globs :: "cglob list"

text \<open>How generation stops: with the message in \<open>err\<close>, or with undefined behaviour.\<close>

datatype cgfail = CGError string | CGFault fault

type_synonym cgen = "cgstate \<Rightarrow> cgfail + cgstate"

definition fail :: "nat \<Rightarrow> string \<Rightarrow> cgfail + 'a" where
  "fail line msg = Inl (CGError (''line '' @ fmt_base 10 line @ '': '' @ msg))"

subsection \<open>Emission\<close>

definition add_line :: "string \<Rightarrow> cgstate \<Rightarrow> cgstate" where
  "add_line l s = s\<lparr>cg_lines := cg_lines s @ [l]\<rparr>"

definition emit :: "string \<Rightarrow> cgstate \<Rightarrow> cgstate" where
  "emit b s = add_line (replicate 8 (CHR '' '') @ b) s"

fun emits_all :: "string list \<Rightarrow> cgstate \<Rightarrow> cgstate" where
  "emits_all [] s = s"
| "emits_all (b # bs) s = emits_all bs (emit b s)"

definition newlabel :: "cgstate \<Rightarrow> nat \<times> cgstate" where
  "newlabel s = (cg_label s, s\<lparr>cg_label := cg_label s + 1\<rparr>)"

definition label_name :: "nat \<Rightarrow> string" where
  "label_name i = ''_L'' @ fmt_base 10 i"

definition emit_label :: "nat \<Rightarrow> cgstate \<Rightarrow> cgstate" where
  "emit_label i s = add_line (label_name i @ '':'') s"

definition emitj :: "string \<Rightarrow> nat \<Rightarrow> cgstate \<Rightarrow> cgstate" where
  "emitj mn i s = emit (mn @ '' '' @ label_name i) s"

text \<open>\<open>%+d\<close>.\<close>

definition fmt_plus :: "int \<Rightarrow> string" where
  "fmt_plus i = (if i < 0 then [] else ''+'') @ fmt_int i"

subsection \<open>Symbol tables\<close>

definition sym_find :: "string \<Rightarrow> cgstate \<Rightarrow> csym option" where
  "sym_find name s = find (\<lambda>y. sy_name y = name) (cg_sym s)"

definition csym_add :: "string \<Rightarrow> int \<Rightarrow> bool \<Rightarrow> cgen" where
  "csym_add name off arr s =
     (if length (cg_sym s) < SYM_CAP
      then Inr (s\<lparr>cg_sym := cg_sym s @ [\<lparr>sy_name = name, sy_off = off, sy_array = arr\<rparr>]\<rparr>)
      else Inl (CGFault (BadIndex (of_nat SYM_CAP))))"

definition func_find :: "string \<Rightarrow> cgstate \<Rightarrow> nat option" where
  "func_find name s = map_option fn_nparams (find (\<lambda>f. fn_name f = name) (cg_funcs s))"

text \<open>\<open>resolve\<close>: 0, 1 with offset and array flag, or 2 with the array flag.\<close>

datatype cvar = Unknown | Local int bool | Global bool

definition cresolve :: "string \<Rightarrow> cgstate \<Rightarrow> cvar" where
  "cresolve name s = (case sym_find name s of
     Some y \<Rightarrow> Local (sy_off y) (sy_array y)
   | None \<Rightarrow> (case find (\<lambda>g. gl_name g = name) (cg_globs s) of
         Some g \<Rightarrow> Global (gl_array g)
       | None \<Rightarrow> Unknown))"

subsection \<open>The frame\<close>

text \<open>\<open>int\<close> arithmetic: a value outside the range is undefined.\<close>

definition c_int :: "int \<Rightarrow> cgfail + int" where
  "c_int v = (if - (2 ^ 31) \<le> v \<and> v < 2 ^ 31 then Inr v else Inl (CGFault BadInt))"

text \<open>\<open>n->is_array ? (int)n->arr_size * 4 : 4\<close>; the cast keeps the low 32 bits.\<close>

definition var_bytes :: "bool \<Rightarrow> int \<Rightarrow> cgfail + int" where
  "var_bytes arr sz = (if arr then c_int (sint (word_of_int sz :: i32) * 4) else Inr 4)"

fun collect :: "cnode \<Rightarrow> cgstate \<times> int \<Rightarrow> cgfail + cgstate \<times> int"
  and collect_opt :: "cnode option \<Rightarrow> cgstate \<times> int \<Rightarrow> cgfail + cgstate \<times> int"
  and collect_list :: "cnode list \<Rightarrow> cgstate \<times> int \<Rightarrow> cgfail + cgstate \<times> int" where
  "collect (N_BLOCK _ ks) sb = collect_list ks sb"
| "collect (N_VARDECL _ name _ arr sz _) (s, bytes) =
     (if sym_find name s = None then
        res_bind (var_bytes arr sz) (\<lambda>k.
        res_bind (c_int (bytes + k)) (\<lambda>bytes.
        res_bind (c_int (- bytes)) (\<lambda>off.
        res_bind (csym_add name off arr s) (\<lambda>s. Inr (s, bytes)))))
      else Inr (s, bytes))"
| "collect (N_IF _ _ b c) sb = res_bind (collect b sb) (\<lambda>sb. collect_opt c sb)"
| "collect (N_WHILE _ _ b) sb = collect b sb"
| "collect (N_FOR _ a _ _ d) sb = res_bind (collect_opt a sb) (\<lambda>sb. collect d sb)"
| "collect _ sb = Inr sb"
| "collect_opt None sb = Inr sb"
| "collect_opt (Some n) sb = collect n sb"
| "collect_list [] sb = Inr sb"
| "collect_list (k # ks) sb = res_bind (collect k sb) (\<lambda>sb. collect_list ks sb)"

subsection \<open>Expressions\<close>

text \<open>
  \<open>gen_cmp\<close>, \<open>gen_and\<close>, \<open>gen_or\<close>, \<open>gen_binary\<close> and \<open>gen_call\<close> take the line, the operator or name
  and the children of their node; \<open>gen_args\<close> is the loop of \<open>gen_call\<close>, which runs from the last
  argument to the first.
\<close>

definition is_cmp_op :: "ctoktype \<Rightarrow> bool" where
  "is_cmp_op ty = (ty \<in> {CT_EQ, CT_NE, CT_LT, CT_LE, CT_GT, CT_GE})"

text \<open>The conditional jumps of a comparison.\<close>

definition cmp_jumps :: "ctoktype \<Rightarrow> string list option" where
  "cmp_jumps ty = (case ty of
     CT_EQ \<Rightarrow> Some [''JZ''] | CT_NE \<Rightarrow> Some [''JNZ''] | CT_LT \<Rightarrow> Some [''JL''] | CT_GT \<Rightarrow> Some [''JG'']
   | CT_LE \<Rightarrow> Some [''JL'', ''JZ''] | CT_GE \<Rightarrow> Some [''JG'', ''JZ''] | _ \<Rightarrow> None)"

text \<open>The instructions that combine the left operand in R1 and the right one in R0.\<close>

definition binary_code :: "ctoktype \<Rightarrow> string list option" where
  "binary_code ty = (case ty of
     CT_PLUS \<Rightarrow> Some [''ADD R1, R0'', ''MOV R0, R1'']
   | CT_MINUS \<Rightarrow> Some [''SUB R1, R0'', ''MOV R0, R1'']
   | CT_STAR \<Rightarrow> Some [''MUL R1, R0'', ''MOV R0, R1'']
   | CT_SLASH \<Rightarrow> Some [''DIV R1, R0'', ''MOV R0, R1'']
   | CT_PERCENT \<Rightarrow> Some [''MOV R2, R1'', ''MOV R3, R0'', ''DIV R2, R3'', ''MUL R2, R3'',
                        ''SUB R1, R2'', ''MOV R0, R1'']
   | CT_AMP \<Rightarrow> Some [''AND R1, R0'', ''MOV R0, R1'']
   | CT_PIPE \<Rightarrow> Some [''OR R1, R0'', ''MOV R0, R1'']
   | CT_CARET \<Rightarrow> Some [''XOR R1, R0'', ''MOV R0, R1'']
   | CT_SHL \<Rightarrow> Some [''SHL R1, R0'', ''MOV R0, R1'']
   | CT_SHR \<Rightarrow> Some [''SHR R1, R0'', ''MOV R0, R1'']
   | _ \<Rightarrow> None)"

definition undefined_variable :: "string \<Rightarrow> string" where
  "undefined_variable name = ''undefined variable '' @ quoted name"

function gen_addr :: "cnode \<Rightarrow> cgen"
  and gen_expr :: "cnode \<Rightarrow> cgen"
  and gen_cmp :: "nat \<Rightarrow> ctoktype \<Rightarrow> cnode \<Rightarrow> cnode \<Rightarrow> cgen"
  and gen_and :: "cnode \<Rightarrow> cnode \<Rightarrow> cgen"
  and gen_or :: "cnode \<Rightarrow> cnode \<Rightarrow> cgen"
  and gen_binary :: "nat \<Rightarrow> ctoktype \<Rightarrow> cnode \<Rightarrow> cnode \<Rightarrow> cgen"
  and gen_call :: "nat \<Rightarrow> string \<Rightarrow> cnode list \<Rightarrow> cgen"
  and gen_args :: "cnode list \<Rightarrow> cgen" where
  "gen_addr n s = (case n of
     N_VAR line name \<Rightarrow>
       (case cresolve name s of
          Unknown \<Rightarrow> fail line (undefined_variable name)
        | Local off _ \<Rightarrow>
            Inr (let s = emit ''MOV R0, R6'' s in
                 if off \<noteq> 0 then emits_all [''LOADI R1, '' @ fmt_int off, ''ADD R0, R1''] s else s)
        | Global _ \<Rightarrow> Inr (emit (''LOADI R0, '' @ name) s))
   | N_INDEX line a b \<Rightarrow>
       res_bind (case a of
           N_VAR line name \<Rightarrow>
             (case cresolve name s of
                Unknown \<Rightarrow> fail line (undefined_variable name)
              | Local _ isa \<Rightarrow> if isa then gen_addr a s else gen_expr a s
              | Global isa \<Rightarrow> if isa then gen_addr a s else gen_expr a s)
         | _ \<Rightarrow> gen_expr a s) (\<lambda>s.
       res_bind (gen_expr b (emit ''PUSH R0'' s)) (\<lambda>s.
         Inr (emits_all [''LOADI R1, 2'', ''SHL R0, R1'', ''POP R1'', ''ADD R0, R1''] s)))
   | N_UNARY line oper a \<Rightarrow> if oper = CT_STAR then gen_expr a s else fail line ''not an lvalue''
   | _ \<Rightarrow> fail (node_line n) ''not an lvalue'')"
| "gen_expr n s = (case n of
     N_INT line v \<Rightarrow>
       if v < CG_IMM_MIN \<or> v > CG_IMM_MAX
       then fail line (''integer literal '' @ fmt_int v @ '' too large'')
       else Inr (emit (''LOADI R0, '' @ fmt_int v) s)
   | N_VAR line name \<Rightarrow>
       (case cresolve name s of
          Unknown \<Rightarrow> fail line (undefined_variable name)
        | Local off isa \<Rightarrow>
            if isa then gen_addr n s else Inr (emit (''LOAD R0, [R6'' @ fmt_plus off @ '']'') s)
        | Global isa \<Rightarrow>
            if isa then gen_addr n s else Inr (emits_all [''LOADI R0, '' @ name, ''LOAD R0, [R0+0]''] s))
   | N_INDEX _ _ _ \<Rightarrow> res_bind (gen_addr n s) (\<lambda>s. Inr (emit ''LOAD R0, [R0+0]'' s))
   | N_ASSIGN line lhs b \<Rightarrow>
       (case lhs of
          N_VAR vline name \<Rightarrow>
            (case cresolve name s of
               Unknown \<Rightarrow> fail vline (undefined_variable name)
             | Local off isa \<Rightarrow>
                 if isa then fail vline ''cannot assign to an array''
                 else res_bind (gen_expr b s) (\<lambda>s. Inr (emit (''STORE [R6'' @ fmt_plus off @ ''], R0'') s))
             | Global isa \<Rightarrow>
                 if isa then fail vline ''cannot assign to an array''
                 else res_bind (gen_expr b s) (\<lambda>s. Inr (emits_all [''LOADI R1, '' @ name, ''STORE [R1+0], R0''] s)))
        | _ \<Rightarrow>
            if (case lhs of N_INDEX _ _ _ \<Rightarrow> True | N_UNARY _ oper _ \<Rightarrow> oper = CT_STAR | _ \<Rightarrow> False) then
              res_bind (gen_addr lhs s) (\<lambda>s.
              res_bind (gen_expr b (emit ''PUSH R0'' s)) (\<lambda>s.
                Inr (emits_all [''POP R1'', ''STORE [R1+0], R0''] s)))
            else fail line ''invalid assignment target'')
   | N_UNARY line oper a \<Rightarrow>
       if oper = CT_AMP then gen_addr a s
       else if oper = CT_STAR then res_bind (gen_addr n s) (\<lambda>s. Inr (emit ''LOAD R0, [R0+0]'' s))
       else res_bind (gen_expr a s) (\<lambda>s.
         if oper = CT_MINUS then Inr (emits_all [''LOADI R1, 0'', ''SUB R1, R0'', ''MOV R0, R1''] s)
         else if oper = CT_TILDE then Inr (emit ''NOT R0'' s)
         else if oper = CT_BANG then
           Inr (let (le, s) = newlabel s in
                emit_label le (emit ''LOADI R0, 1'' (emitj ''JNZ'' le
                  (emits_all [''AND R0, R0'', ''LOADI R0, 0''] s))))
         else fail line ''unsupported unary operator'')
   | N_BINARY line oper a b \<Rightarrow> gen_binary line oper a b s
   | N_CALL line name as \<Rightarrow> gen_call line name as s
   | _ \<Rightarrow> fail (node_line n) ''unsupported expression'')"
| "gen_cmp line oper a b s =
     res_bind (gen_expr a s) (\<lambda>s.
     res_bind (gen_expr b (emit ''PUSH R0'' s)) (\<lambda>s.
       let s = emits_all [''POP R1'', ''SUB R1, R0'', ''LOADI R0, 0''] s;
           (lset, s) = newlabel s; (ldone, s) = newlabel s
       in case cmp_jumps oper of
            None \<Rightarrow> fail line ''bad comparison''
          | Some js \<Rightarrow>
              Inr (emit_label ldone (emit ''LOADI R0, 1'' (emit_label lset (emitj ''JMP'' ldone
                (fold (\<lambda>j. emitj j lset) js s)))))))"
| "gen_and a b s =
     (let (lf, s) = newlabel s; (le, s) = newlabel s in
      res_bind (gen_expr a s) (\<lambda>s.
      res_bind (gen_expr b (emitj ''JZ'' lf (emit ''AND R0, R0'' s))) (\<lambda>s.
        Inr (emit_label le (emit ''LOADI R0, 0'' (emit_label lf (emitj ''JMP'' le (emit ''LOADI R0, 1''
          (emitj ''JZ'' lf (emit ''AND R0, R0'' s)))))))))) "
| "gen_or a b s =
     (let (lt, s) = newlabel s; (le, s) = newlabel s in
      res_bind (gen_expr a s) (\<lambda>s.
      res_bind (gen_expr b (emitj ''JNZ'' lt (emit ''AND R0, R0'' s))) (\<lambda>s.
        Inr (emit_label le (emit ''LOADI R0, 1'' (emit_label lt (emitj ''JMP'' le (emit ''LOADI R0, 0''
          (emitj ''JNZ'' lt (emit ''AND R0, R0'' s)))))))))) "
| "gen_binary line oper a b s =
     (if oper = CT_ANDAND then gen_and a b s
      else if oper = CT_OROR then gen_or a b s
      else if is_cmp_op oper then gen_cmp line oper a b s
      else
        res_bind (gen_expr a s) (\<lambda>s.
        res_bind (gen_expr b (emit ''PUSH R0'' s)) (\<lambda>s.
          let s = emit ''POP R1'' s in
          case binary_code oper of
            None \<Rightarrow> fail line ''unsupported binary operator''
          | Some code \<Rightarrow> Inr (emits_all code s))))"
| "gen_call line name as s =
     (if name = ''out'' then
        (case as of
           [a] \<Rightarrow> res_bind (gen_expr a s) (\<lambda>s. Inr (emit ''OUT R0'' s))
         | _ \<Rightarrow> fail line ''out() takes 1 argument'')
      else if name = ''in'' then Inr (emit ''IN R0'' s)
      else (case func_find name s of
          None \<Rightarrow> fail line (''undefined function '' @ quoted name)
        | Some np \<Rightarrow>
            if length as \<noteq> np then
              fail line (quoted name @ '' expects '' @ fmt_base 10 np @ '' argument(s)'')
            else
              res_bind (gen_args as s) (\<lambda>s.
                let s = emit (''CALL '' @ name) s in
                Inr (if as \<noteq> []
                     then emits_all [''LOADI R1, '' @ fmt_base 10 (4 * length as), ''ADD R7, R1''] s
                     else s))))"
| "gen_args [] s = Inr s"
| "gen_args (a # as) s =
     res_bind (gen_args as s) (\<lambda>s.
     res_bind (gen_expr a s) (\<lambda>s.
       Inr (emits_all [''LOADI R1, 4'', ''SUB R7, R1'', ''STORE [R7+0], R0''] s)))"
  by pat_completeness auto

text \<open>Every call goes to a part of the node, or to another function on the same node.\<close>

termination
proof (relation "measures
   [case_sum (case_sum (case_sum (\<lambda>(n, s). size n) (\<lambda>(n, s). size n))
        (case_sum (\<lambda>(l, c, a, b, s). Suc (size a + size b)) (\<lambda>(a, b, s). Suc (size a + size b))))
      (case_sum (case_sum (\<lambda>(a, b, s). Suc (size a + size b)) (\<lambda>(l, c, a, b, s). Suc (size a + size b)))
        (case_sum (\<lambda>(l, f, as, s). Suc (size_list size as)) (\<lambda>(as, s). size_list size as))),
    case_sum (case_sum (case_sum (\<lambda>_. 0) (\<lambda>_. 3)) (case_sum (\<lambda>_. 1) (\<lambda>_. 1)))
      (case_sum (case_sum (\<lambda>_. 1) (\<lambda>_. 2)) (case_sum (\<lambda>_. 2) (\<lambda>_. 0)))]", goal_cases)
qed auto

declare gen_addr.simps [simp del] gen_expr.simps [simp del] gen_cmp.simps [simp del]
  gen_and.simps [simp del] gen_or.simps [simp del] gen_binary.simps [simp del]
  gen_call.simps [simp del] gen_args.simps [simp del]

subsection \<open>Statements\<close>

definition gen_cond_false :: "cnode \<Rightarrow> nat \<Rightarrow> cgen" where
  "gen_cond_false cond lbl s =
     res_bind (gen_expr cond s) (\<lambda>s. Inr (emitj ''JZ'' lbl (emit ''AND R0, R0'' s)))"

text \<open>An initializer is stored in the variable that \<open>sym_find\<close> gives; without one, the offset
  would be read uninitialised.\<close>

definition gen_decl_init :: "string \<Rightarrow> cnode option \<Rightarrow> cgen" where
  "gen_decl_init name a s = (case a of
     None \<Rightarrow> Inr s
   | Some e \<Rightarrow> res_bind (gen_expr e s) (\<lambda>s'.
       case sym_find name s of
         None \<Rightarrow> Inl (CGFault Uninit)
       | Some y \<Rightarrow> Inr (emit (''STORE [R6'' @ fmt_plus (sy_off y) @ ''], R0'') s')))"

definition gen_opt :: "cnode option \<Rightarrow> cgen" where
  "gen_opt a s = (case a of None \<Rightarrow> Inr s | Some e \<Rightarrow> gen_expr e s)"

fun gen_stmt :: "cnode \<Rightarrow> cgen"
  and gen_stmts :: "cnode list \<Rightarrow> cgen" where
  "gen_stmt (N_BLOCK _ ks) s = gen_stmts ks s"
| "gen_stmt (N_VARDECL _ name _ _ _ a) s = gen_decl_init name a s"
| "gen_stmt (N_EXPRSTMT _ a) s = gen_expr a s"
| "gen_stmt (N_RETURN _ a) s = res_bind (gen_opt a s) (\<lambda>s. Inr (emit (''JMP '' @ cg_epi s) s))"
| "gen_stmt (N_IF _ a b (Some c)) s =
     (let (lelse, s) = newlabel s; (lend, s) = newlabel s in
      res_bind (gen_cond_false a lelse s) (\<lambda>s.
      res_bind (gen_stmt b s) (\<lambda>s.
      res_bind (gen_stmt c (emit_label lelse (emitj ''JMP'' lend s))) (\<lambda>s.
        Inr (emit_label lend s)))))"
| "gen_stmt (N_IF _ a b None) s =
     (let (lend, s) = newlabel s in
      res_bind (gen_cond_false a lend s) (\<lambda>s.
      res_bind (gen_stmt b s) (\<lambda>s. Inr (emit_label lend s))))"
| "gen_stmt (N_WHILE _ a b) s =
     (let (ltop, s) = newlabel s; (lend, s) = newlabel s in
      res_bind (gen_cond_false a lend (emit_label ltop s)) (\<lambda>s.
      res_bind (gen_stmt b s) (\<lambda>s. Inr (emit_label lend (emitj ''JMP'' ltop s)))))"
| "gen_stmt (N_FOR _ a b c d) s =
     res_bind (case a of None \<Rightarrow> Inr s | Some i \<Rightarrow> gen_stmt i s) (\<lambda>s.
      let (ltop, s) = newlabel s; (lend, s) = newlabel s; s = emit_label ltop s in
      res_bind (case b of None \<Rightarrow> Inr s | Some e \<Rightarrow> gen_cond_false e lend s) (\<lambda>s.
      res_bind (gen_stmt d s) (\<lambda>s.
      res_bind (gen_opt c s) (\<lambda>s. Inr (emit_label lend (emitj ''JMP'' ltop s))))))"
| "gen_stmt n s = fail (node_line n) ''unsupported statement''"
| "gen_stmts [] s = Inr s"
| "gen_stmts (k # ks) s = res_bind (gen_stmt k s) (\<lambda>s. gen_stmts ks s)"

subsection \<open>Functions\<close>

definition is_param :: "cnode \<Rightarrow> bool" where
  "is_param n = (case n of N_PARAM _ _ _ \<Rightarrow> True | _ \<Rightarrow> False)"

text \<open>The parameters get the offsets 4, 8, ... above the saved frame pointer.\<close>

fun add_params :: "cnode list \<Rightarrow> nat \<Rightarrow> cgen" where
  "add_params [] np s = Inr s"
| "add_params (k # ks) np s = (case k of
     N_PARAM _ name _ \<Rightarrow> res_bind (csym_add name (4 + 4 * int np) False s) (\<lambda>s. add_params ks (np + 1) s)
   | _ \<Rightarrow> add_params ks np s)"

definition gen_function :: "string \<Rightarrow> cnode list \<Rightarrow> cnode \<Rightarrow> cgen" where
  "gen_function name params fbody s =
     res_bind (add_params params 0 (s\<lparr>cg_sym := []\<rparr>)) (\<lambda>s.
     res_bind (collect fbody (s, 0)) (\<lambda>(s, bytes).
       let s = emits_all [''LOADI R1, 4'', ''SUB R7, R1'', ''STORE [R7+0], R6'', ''MOV R6, R7'']
                 (add_line (name @ '':'') s);
           s = (if bytes \<noteq> 0 then emits_all [''LOADI R1, '' @ fmt_int bytes, ''SUB R7, R1''] s else s)
       in res_bind (gen_stmt fbody (s\<lparr>cg_epi := name @ ''_epi''\<rparr>)) (\<lambda>s.
         Inr (emits_all [''MOV R7, R6'', ''LOAD R6, [R7+0]'', ''LOADI R1, 4'', ''ADD R7, R1'', ''RET'']
               (add_line (cg_epi s @ '':'') s)))))"

end
