(* ===== verification/CSem.thy ===== *)
theory CSem
  imports CGen AsmLines "HOL-Library.Monad_Syntax"
begin

text \<open>
  A reference semantics of the compiler's language, independent of the generated code: the value of
  an expression over 32-bit words, with assignments, array indexing, pointers, short circuit,
  calls and the console functions \<open>in\<close> and \<open>out\<close>. Variables live at addresses, locals relative to
  the frame pointer and globals where the assembler puts them; memory outside the variables may
  not be touched. \<open>None\<close> is an undefined expression: an unknown name, an access outside the
  variables, a division by zero, a shift by 32 or more. Division, remainder and right shift are
  unsigned, comparison is signed, as the language of this compiler has them.
\<close>

subsection \<open>Environment\<close>

type_synonym cstate = "memory \<times> console"

text \<open>
  \<open>e_fn\<close> is the meaning of a call: from the name, the caller's frame pointer and the stack pointer
  below the arguments to the result, if the function returned one, and the state. \<open>e_fuel\<close> bounds
  the turns of a loop.
\<close>

record cenv =
  e_line :: lenv
  e_var :: "string \<Rightarrow> cvar"
  e_fn :: "string \<Rightarrow> u32 \<Rightarrow> u32 \<Rightarrow> cstate \<Rightarrow> (u32 option \<times> cstate) option"
  e_fuel :: nat

definition cload :: "cenv \<Rightarrow> u32 \<Rightarrow> cstate \<Rightarrow> u32 option" where
  "cload E a \<sigma> = (if accessible (user (e_line E)) a then Some (word_at (fst \<sigma>) a) else None)"

definition cstore :: "cenv \<Rightarrow> u32 \<Rightarrow> u32 \<Rightarrow> cstate \<Rightarrow> cstate option" where
  "cstore E a v \<sigma> =
     (if accessible (user (e_line E)) a then Some (put_word (fst \<sigma>) a v, snd \<sigma>) else None)"

definition cbinary :: "ctoktype \<Rightarrow> u32 \<Rightarrow> u32 \<Rightarrow> u32 option" where
  "cbinary ty a b = (case ty of
     CT_PLUS \<Rightarrow> Some (a + b) | CT_MINUS \<Rightarrow> Some (a - b) | CT_STAR \<Rightarrow> Some (a * b)
   | CT_SLASH \<Rightarrow> if b = 0 then None else Some (a div b)
   | CT_PERCENT \<Rightarrow> if b = 0 then None else Some (a mod b)
   | CT_AMP \<Rightarrow> Some (a AND b) | CT_PIPE \<Rightarrow> Some (a OR b) | CT_CARET \<Rightarrow> Some (a XOR b)
   | CT_SHL \<Rightarrow> if b < 32 then Some (push_bit (unat b) a) else None
   | CT_SHR \<Rightarrow> if b < 32 then Some (drop_bit (unat b) a) else None
   | CT_EQ \<Rightarrow> Some (of_bool (a = b)) | CT_NE \<Rightarrow> Some (of_bool (a \<noteq> b))
   | CT_LT \<Rightarrow> Some (of_bool (sint a < sint b)) | CT_LE \<Rightarrow> Some (of_bool (sint a \<le> sint b))
   | CT_GT \<Rightarrow> Some (of_bool (sint a > sint b)) | CT_GE \<Rightarrow> Some (of_bool (sint a \<ge> sint b))
   | _ \<Rightarrow> None)"

definition cunary :: "ctoktype \<Rightarrow> u32 \<Rightarrow> u32 option" where
  "cunary ty a = (case ty of
     CT_MINUS \<Rightarrow> Some (- a) | CT_TILDE \<Rightarrow> Some (NOT a) | CT_BANG \<Rightarrow> Some (of_bool (a = 0)) | _ \<Rightarrow> None)"

definition c_out :: "u32 \<Rightarrow> cstate \<Rightarrow> cstate" where
  "c_out v \<sigma> = (fst \<sigma>, if cpu_silent (snd \<sigma>) then snd \<sigma> else cpu_emit (fmt_u v @ ''\<newline>'') (snd \<sigma>))"

definition c_in :: "cstate \<Rightarrow> u32 \<times> cstate" where
  "c_in \<sigma> = (if cpu_silent (snd \<sigma>) then (0, \<sigma>)
     else (fst (read_number (snd \<sigma>)), fst \<sigma>, snd (read_number (snd \<sigma>))))"

subsection \<open>Expressions\<close>

definition is_array_var :: "cenv \<Rightarrow> cnode \<Rightarrow> bool" where
  "is_array_var E n = (case n of
     N_VAR _ name \<Rightarrow> (case e_var E name of Local _ isa \<Rightarrow> isa | Global isa \<Rightarrow> isa | Unknown \<Rightarrow> False)
   | _ \<Rightarrow> False)"

text \<open>
  \<open>caddr\<close> is the address of an lvalue, \<open>ceval\<close> the value of an expression, \<open>ccall\<close> the outcome of a
  call and \<open>cargs\<close> puts the arguments on the stack, last first. The stack pointer \<open>r7\<close> only
  matters to calls.
\<close>

function caddr :: "cenv \<Rightarrow> u32 \<Rightarrow> u32 \<Rightarrow> cnode \<Rightarrow> cstate \<Rightarrow> (u32 \<times> cstate) option"
  and ceval :: "cenv \<Rightarrow> u32 \<Rightarrow> u32 \<Rightarrow> cnode \<Rightarrow> cstate \<Rightarrow> (u32 \<times> cstate) option"
  and ccall :: "cenv \<Rightarrow> u32 \<Rightarrow> u32 \<Rightarrow> string \<Rightarrow> cnode list \<Rightarrow> cstate \<Rightarrow> (u32 option \<times> cstate) option"
  and cargs :: "cenv \<Rightarrow> u32 \<Rightarrow> u32 \<Rightarrow> cnode list \<Rightarrow> cstate \<Rightarrow> (u32 \<times> cstate) option" where
  "caddr E fp r7 n \<sigma> = (case n of
     N_VAR _ name \<Rightarrow> (case e_var E name of
         Unknown \<Rightarrow> None
       | Local off _ \<Rightarrow> Some (fp + word_of_int off, \<sigma>)
       | Global _ \<Rightarrow> map_option (\<lambda>a. (a, \<sigma>)) (addr_of (e_line E) name))
   | N_INDEX _ a b \<Rightarrow> do {
       (p, \<sigma>) \<leftarrow> (if is_array_var E a then caddr E fp r7 a \<sigma> else ceval E fp r7 a \<sigma>);
       (k, \<sigma>) \<leftarrow> ceval E fp r7 b \<sigma>;
       Some (p + push_bit 2 k, \<sigma>) }
   | N_UNARY _ oper a \<Rightarrow> if oper = CT_STAR then ceval E fp r7 a \<sigma> else None
   | _ \<Rightarrow> None)"
| "ceval E fp r7 n \<sigma> = (case n of
     N_INT _ v \<Rightarrow> Some (word_of_int v, \<sigma>)
   | N_VAR _ name \<Rightarrow> do {
       (a, \<sigma>) \<leftarrow> caddr E fp r7 n \<sigma>;
       if is_array_var E n then Some (a, \<sigma>) else map_option (\<lambda>v. (v, \<sigma>)) (cload E a \<sigma>) }
   | N_INDEX _ _ _ \<Rightarrow> do {
       (a, \<sigma>) \<leftarrow> caddr E fp r7 n \<sigma>;
       v \<leftarrow> cload E a \<sigma>;
       Some (v, \<sigma>) }
   | N_ASSIGN _ lhs b \<Rightarrow>
       if is_array_var E lhs then None
       else if (case lhs of N_VAR _ _ \<Rightarrow> True | _ \<Rightarrow> False) then do {
         (v, \<sigma>) \<leftarrow> ceval E fp r7 b \<sigma>;
         (a, \<sigma>) \<leftarrow> caddr E fp r7 lhs \<sigma>;
         \<sigma> \<leftarrow> cstore E a v \<sigma>;
         Some (v, \<sigma>) }
       else do {
         (a, \<sigma>) \<leftarrow> caddr E fp r7 lhs \<sigma>;
         (v, \<sigma>) \<leftarrow> ceval E fp r7 b \<sigma>;
         \<sigma> \<leftarrow> cstore E a v \<sigma>;
         Some (v, \<sigma>) }
   | N_UNARY _ oper a \<Rightarrow>
       if oper = CT_AMP then caddr E fp r7 a \<sigma>
       else if oper = CT_STAR then do {
         (p, \<sigma>) \<leftarrow> ceval E fp r7 a \<sigma>;
         v \<leftarrow> cload E p \<sigma>;
         Some (v, \<sigma>) }
       else do {
         (v, \<sigma>) \<leftarrow> ceval E fp r7 a \<sigma>;
         w \<leftarrow> cunary oper v;
         Some (w, \<sigma>) }
   | N_BINARY _ oper a b \<Rightarrow> do {
       (u, \<sigma>) \<leftarrow> ceval E fp r7 a \<sigma>;
       if oper = CT_ANDAND \<and> u = 0 then Some (0, \<sigma>)
       else if oper = CT_OROR \<and> u \<noteq> 0 then Some (1, \<sigma>)
       else do {
         (v, \<sigma>) \<leftarrow> ceval E fp r7 b \<sigma>;
         w \<leftarrow> (if oper = CT_ANDAND \<or> oper = CT_OROR then Some (of_bool (v \<noteq> 0)) else cbinary oper u v);
         Some (w, \<sigma>) } }
   | N_CALL _ name as \<Rightarrow> do {
       (r, \<sigma>) \<leftarrow> ccall E fp r7 name as \<sigma>;
       v \<leftarrow> r;
       Some (v, \<sigma>) }
   | _ \<Rightarrow> None)"
| "ccall E fp r7 name as \<sigma> =
     (if name = ''out'' then
        (case as of [a] \<Rightarrow> do { (v, \<sigma>) \<leftarrow> ceval E fp r7 a \<sigma>; Some (Some v, c_out v \<sigma>) } | _ \<Rightarrow> None)
      else if name = ''in'' then Some (Some (fst (c_in \<sigma>)), snd (c_in \<sigma>))
      else do { (s7, \<sigma>) \<leftarrow> cargs E fp r7 as \<sigma>; e_fn E name fp s7 \<sigma> })"
| "cargs E fp r7 [] \<sigma> = Some (r7, \<sigma>)"
| "cargs E fp r7 (a # as) \<sigma> = do {
     (s7, \<sigma>) \<leftarrow> cargs E fp r7 as \<sigma>;
     (v, \<sigma>) \<leftarrow> ceval E fp s7 a \<sigma>;
     \<sigma> \<leftarrow> cstore E (s7 - 4) v \<sigma>;
     Some (s7 - 4, \<sigma>) }"
  by pat_completeness auto

termination
proof (relation "measures
   [case_sum (case_sum (\<lambda>(E, f, r, n, s). size n) (\<lambda>(E, f, r, n, s). size n))
      (case_sum (\<lambda>(E, f, r, m, as, s). Suc (size_list size as)) (\<lambda>(E, f, r, as, s). size_list size as)),
    case_sum (case_sum (\<lambda>_. 0) (\<lambda>_. 3)) (case_sum (\<lambda>_. 2) (\<lambda>_. 0))]", goal_cases)
qed auto

declare caddr.simps [simp del] ceval.simps [simp del] ccall.simps [simp del] cargs.simps [simp del]

end
