(* ===== verification/CStmt.thy ===== *)
theory CStmt
  imports CSem
begin

text \<open>
  The reference semantics of statements, functions and programs. A statement continues or returns;
  loops run on fuel, and so does the nesting of calls, so that \<open>None\<close> also stands for a program
  that does not end within the fuel.
\<close>

subsection \<open>Statements\<close>

datatype creturn = Continue | Return "u32 option"

text \<open>The value of an expression statement is dropped, so it may be a call that returns nothing.\<close>

definition cdrop :: "cenv \<Rightarrow> u32 \<Rightarrow> u32 \<Rightarrow> cnode \<Rightarrow> cstate \<Rightarrow> cstate option" where
  "cdrop E fp r7 n \<sigma> = (case n of
     N_CALL _ name as \<Rightarrow> map_option snd (ccall E fp r7 name as \<sigma>)
   | _ \<Rightarrow> map_option snd (ceval E fp r7 n \<sigma>))"

text \<open>A missing condition is true.\<close>

definition ccond :: "cenv \<Rightarrow> u32 \<Rightarrow> u32 \<Rightarrow> cnode option \<Rightarrow> cstate \<Rightarrow> (bool \<times> cstate) option" where
  "ccond E fp r7 c \<sigma> = (case c of
     None \<Rightarrow> Some (True, \<sigma>) | Some e \<Rightarrow> map_option (\<lambda>(v, \<sigma>). (v \<noteq> 0, \<sigma>)) (ceval E fp r7 e \<sigma>))"

fun cloop :: "nat \<Rightarrow> (cstate \<Rightarrow> (bool \<times> cstate) option) \<Rightarrow> (cstate \<Rightarrow> (creturn \<times> cstate) option) \<Rightarrow>
    (cstate \<Rightarrow> cstate option) \<Rightarrow> cstate \<Rightarrow> (creturn \<times> cstate) option" where
  "cloop 0 c b u \<sigma> = None"
| "cloop (Suc k) c b u \<sigma> = do {
     (t, \<sigma>) \<leftarrow> c \<sigma>;
     if \<not> t then Some (Continue, \<sigma>)
     else do {
       (r, \<sigma>) \<leftarrow> b \<sigma>;
       case r of
         Return v \<Rightarrow> Some (Return v, \<sigma>)
       | Continue \<Rightarrow> do { \<sigma> \<leftarrow> u \<sigma>; cloop k c b u \<sigma> } } }"

fun cexec :: "cenv \<Rightarrow> u32 \<Rightarrow> u32 \<Rightarrow> cnode \<Rightarrow> cstate \<Rightarrow> (creturn \<times> cstate) option"
  and cexecs :: "cenv \<Rightarrow> u32 \<Rightarrow> u32 \<Rightarrow> cnode list \<Rightarrow> cstate \<Rightarrow> (creturn \<times> cstate) option" where
  "cexec E fp r7 (N_BLOCK _ ks) \<sigma> = cexecs E fp r7 ks \<sigma>"
| "cexec E fp r7 (N_VARDECL _ name _ _ _ a) \<sigma> = (case a of
     None \<Rightarrow> Some (Continue, \<sigma>)
   | Some e \<Rightarrow> do {
       (v, \<sigma>) \<leftarrow> ceval E fp r7 e \<sigma>;
       case e_var E name of
         Local off _ \<Rightarrow> map_option (Pair Continue) (cstore E (fp + word_of_int off) v \<sigma>)
       | _ \<Rightarrow> None })"
| "cexec E fp r7 (N_EXPRSTMT _ a) \<sigma> = map_option (Pair Continue) (cdrop E fp r7 a \<sigma>)"
| "cexec E fp r7 (N_RETURN _ a) \<sigma> = (case a of
     None \<Rightarrow> Some (Return None, \<sigma>)
   | Some e \<Rightarrow> do { (v, \<sigma>) \<leftarrow> ceval E fp r7 e \<sigma>; Some (Return (Some v), \<sigma>) })"
| "cexec E fp r7 (N_IF _ a b c) \<sigma> = do {
     (t, \<sigma>) \<leftarrow> ccond E fp r7 (Some a) \<sigma>;
     if t then cexec E fp r7 b \<sigma>
     else (case c of None \<Rightarrow> Some (Continue, \<sigma>) | Some c \<Rightarrow> cexec E fp r7 c \<sigma>) }"
| "cexec E fp r7 (N_WHILE _ a b) \<sigma> = cloop (e_fuel E) (ccond E fp r7 (Some a)) (cexec E fp r7 b) Some \<sigma>"
| "cexec E fp r7 (N_FOR _ a b c d) \<sigma> = do {
     (r, \<sigma>) \<leftarrow> (case a of None \<Rightarrow> Some (Continue, \<sigma>) | Some i \<Rightarrow> cexec E fp r7 i \<sigma>);
     case r of
       Return v \<Rightarrow> Some (Return v, \<sigma>)
     | Continue \<Rightarrow> cloop (e_fuel E) (ccond E fp r7 b) (cexec E fp r7 d)
         (\<lambda>\<sigma>. case c of None \<Rightarrow> Some \<sigma> | Some e \<Rightarrow> cdrop E fp r7 e \<sigma>) \<sigma> }"
| "cexec E fp r7 n \<sigma> = None"
| "cexecs E fp r7 [] \<sigma> = Some (Continue, \<sigma>)"
| "cexecs E fp r7 (n # ns) \<sigma> = do {
     (r, \<sigma>) \<leftarrow> cexec E fp r7 n \<sigma>;
     case r of Return v \<Rightarrow> Some (Return v, \<sigma>) | Continue \<Rightarrow> cexecs E fp r7 ns \<sigma> }"

subsection \<open>Functions and programs\<close>

fun find_fn :: "string \<Rightarrow> cnode list \<Rightarrow> (cnode list \<times> cnode) option" where
  "find_fn name [] = None"
| "find_fn name (d # ds) = (case d of
     N_FUNC _ f _ params fbody \<Rightarrow> if f = name then Some (params, fbody) else find_fn name ds
   | _ \<Rightarrow> find_fn name ds)"

text \<open>The frame of a function: the compiler's symbol table, and the bytes of the locals.\<close>

definition frame_layout :: "cgstate \<Rightarrow> cnode list \<Rightarrow> cnode \<Rightarrow> cgfail + cgstate \<times> int" where
  "frame_layout s params fbody =
     res_bind (add_params params 0 (s\<lparr>cg_sym := []\<rparr>)) (\<lambda>s. collect fbody (s, 0))"

definition fn_env :: "lenv \<Rightarrow> cgstate \<Rightarrow> nat \<Rightarrow> (string \<Rightarrow> u32 \<Rightarrow> u32 \<Rightarrow> cstate \<Rightarrow> (u32 option \<times> cstate) option) \<Rightarrow> cenv" where
  "fn_env L s k c = \<lparr>e_line = L, e_var = (\<lambda>name. cresolve name s), e_fn = c, e_fuel = k\<rparr>"

text \<open>
  A call with fuel \<open>k\<close>, from the caller's frame pointer and the stack pointer below the arguments:
  the old frame pointer is saved below the arguments, the body runs in the new frame, and the saved
  word must be intact at the end. \<open>s\<close> holds the tables of globals and functions.
\<close>

fun cfn :: "lenv \<Rightarrow> cgstate \<Rightarrow> cnode list \<Rightarrow> nat \<Rightarrow> string \<Rightarrow> u32 \<Rightarrow> u32 \<Rightarrow> cstate \<Rightarrow> (u32 option \<times> cstate) option" where
  "cfn L s ds 0 name fp s7 \<sigma> = None"
| "cfn L s ds (Suc k) name fp s7 \<sigma> = (case find_fn name ds of
     None \<Rightarrow> None
   | Some (params, fbody) \<Rightarrow> (case frame_layout s params fbody of
       Inl _ \<Rightarrow> None
     | Inr (t, n) \<Rightarrow>
        (let E = fn_env L t k (cfn L s ds k) in do {
           \<sigma> \<leftarrow> cstore E (s7 - 4) fp \<sigma>;
           (r, \<sigma>) \<leftarrow> cexec E (s7 - 4) (s7 - 4 - word_of_int n) fbody \<sigma>;
           old \<leftarrow> cload E (s7 - 4) \<sigma>;
           if old = fp then Some (case r of Continue \<Rightarrow> None | Return v \<Rightarrow> v, \<sigma>) else None })))"

declare cfn.simps [simp del]

end
