(* ===== verification/CGenLines.thy ===== *)
theory CGenLines
  imports CGen AsmLines
begin

text \<open>
  The strings that the code generator emits, as lines: which instruction each of them is the text
  of, and what it means that a part of the generator has emitted a list of lines. The labels of
  the generator are numbered, so they are short enough for the assembler up to a bound that no
  program reaches.
\<close>

subsection \<open>Texts of instructions\<close>

definition fits20 :: "int \<Rightarrow> bool" where
  "fits20 v = (- 524288 \<le> v \<and> v < 524288)"

lemma sint_fits20: "fits20 v \<Longrightarrow> sint (word_of_int v :: i32) = v"
  by (simp add: fits20_def sint_sbintrunc' signed_take_bit_int_eq_self_iff)

lemma imm_fits_fits20: "fits20 v \<Longrightarrow> imm_fits (word_of_int v)"
  by (simp add: imm_fits_def sint_fits20) (simp add: fits20_def)

lemma imm_fits_0 [simp]: "imm_fits 0"
  by (simp add: imm_fits_def)

lemma decode_encode:
  assumes "op_known op" "a < 8" "b < 8"
  shows "DECODE_OPCODE (ENCODE_INSTR op a b im) = op" "DECODE_RDEST (ENCODE_INSTR op a b im) = a"
    "DECODE_RSRC (ENCODE_INSTR op a b im) = b"
    "imm_fits im \<Longrightarrow> DECODE_IMM (ENCODE_INSTR op a b im) = im"
  using assms by (simp_all add: decode_opcode_encode decode_regs_encode decode_imm_encode)

lemma fmt_mem_plus:
  assumes "fits20 v" shows "fmt_mem r (word_of_int v) = ''['' @ fmt_reg r @ fmt_plus v @ '']''"
proof -
  have "sint (- word_of_int v :: i32) = - v"
    using sint_minus_imm [OF imm_fits_fits20 [OF assms]] sint_fits20 [OF assms] by simp
  then show ?thesis
    using assms by (simp add: fmt_mem_def sint_fits20 fmt_d_def fmt_plus_def fmt_int_def)
qed

lemma text_ins:
  assumes "op_known op" "a < 8" "b < 8"
  shows "opcode_format op = OPF_NONE \<Longrightarrow> line_text (AIns op a b 0) = indented (opcode_name op)"
    "opcode_format op = OPF_RD_RS \<Longrightarrow>
      line_text (AIns op a b 0) = indented (opcode_name op @ '' '' @ fmt_reg a @ '', '' @ fmt_reg b)"
    "opcode_format op = OPF_RD \<Longrightarrow> line_text (AIns op a b 0) = indented (opcode_name op @ '' '' @ fmt_reg a)"
    "opcode_format op = OPF_RD_IMM \<Longrightarrow> fits20 v \<Longrightarrow> line_text (AIns op a b (word_of_int v)) =
      indented (opcode_name op @ '' '' @ fmt_reg a @ '', '' @ fmt_int v)"
    "opcode_format op = OPF_RD_MEM \<Longrightarrow> fits20 v \<Longrightarrow> line_text (AIns op a b (word_of_int v)) =
      indented (opcode_name op @ '' '' @ fmt_reg a @ '', ['' @ fmt_reg b @ fmt_plus v @ '']'')"
    "opcode_format op = OPF_MEM_RS \<Longrightarrow> fits20 v \<Longrightarrow> line_text (AIns op a b (word_of_int v)) =
      indented (opcode_name op @ '' ['' @ fmt_reg a @ fmt_plus v @ ''], '' @ fmt_reg b)"
  using assms
  by (simp_all add: disasm_text_def decode_encode imm_fits_fits20 fmt_mem_plus fmt_d_def sint_fits20)

lemma fmt_reg_eval:
  "fmt_reg 0 = ''R0''" "fmt_reg 1 = ''R1''" "fmt_reg 2 = ''R2''" "fmt_reg 3 = ''R3''"
  "fmt_reg 6 = ''R6''" "fmt_reg 7 = ''R7''"
  by (simp_all add: fmt_reg_def fmt_u_def fmt_base_less)

lemma fmt_plus_0: "fmt_plus 0 = ''+0''"
  by (simp add: fmt_plus_def fmt_int_def fmt_base_less)

subsection \<open>Lines put by the generator\<close>

definition put :: "aline \<Rightarrow> cgstate \<Rightarrow> cgstate" where
  "put l s = add_line (line_text l) s"

lemma emit_indented: "emit b s = add_line (indented b) s"
  by (simp add: emit_def indented_def)

named_theorems puts \<open>emitted strings as lines\<close>

lemma put_two_registers [puts]:
  "emit ''ADD R0, R1'' s = put (AIns OP_ADD 0 1 0) s" "emit ''ADD R1, R0'' s = put (AIns OP_ADD 1 0 0) s"
  "emit ''ADD R7, R1'' s = put (AIns OP_ADD 7 1 0) s" "emit ''SUB R1, R0'' s = put (AIns OP_SUB 1 0 0) s"
  "emit ''SUB R1, R2'' s = put (AIns OP_SUB 1 2 0) s" "emit ''SUB R7, R1'' s = put (AIns OP_SUB 7 1 0) s"
  "emit ''MUL R1, R0'' s = put (AIns OP_MUL 1 0 0) s" "emit ''MUL R2, R3'' s = put (AIns OP_MUL 2 3 0) s"
  "emit ''DIV R1, R0'' s = put (AIns OP_DIV 1 0 0) s" "emit ''DIV R2, R3'' s = put (AIns OP_DIV 2 3 0) s"
  "emit ''AND R1, R0'' s = put (AIns OP_AND 1 0 0) s" "emit ''AND R0, R0'' s = put (AIns OP_AND 0 0 0) s"
  "emit ''OR R1, R0'' s = put (AIns OP_OR 1 0 0) s" "emit ''XOR R1, R0'' s = put (AIns OP_XOR 1 0 0) s"
  "emit ''SHL R1, R0'' s = put (AIns OP_SHL 1 0 0) s" "emit ''SHL R0, R1'' s = put (AIns OP_SHL 0 1 0) s"
  "emit ''SHR R1, R0'' s = put (AIns OP_SHR 1 0 0) s"
  "emit ''MOV R0, R1'' s = put (AIns OP_MOV 0 1 0) s" "emit ''MOV R0, R6'' s = put (AIns OP_MOV 0 6 0) s"
  "emit ''MOV R2, R1'' s = put (AIns OP_MOV 2 1 0) s" "emit ''MOV R3, R0'' s = put (AIns OP_MOV 3 0 0) s"
  "emit ''MOV R6, R7'' s = put (AIns OP_MOV 6 7 0) s" "emit ''MOV R7, R6'' s = put (AIns OP_MOV 7 6 0) s"
  by (simp_all add: put_def emit_indented text_ins fmt_reg_eval del: line_text.simps)

lemma put_one_register [puts]:
  "emit ''NOT R0'' s = put (AIns OP_NOT 0 0 0) s" "emit ''PUSH R0'' s = put (AIns OP_PUSH 0 0 0) s"
  "emit ''POP R1'' s = put (AIns OP_POP 1 0 0) s" "emit ''OUT R0'' s = put (AIns OP_OUT 0 0 0) s"
  "emit ''IN R0'' s = put (AIns OP_IN 0 0 0) s" "emit ''RET'' s = put (AIns OP_RET 0 0 0) s"
  "emit ''HALT'' s = put (AIns OP_HALT 0 0 0) s"
  by (simp_all add: put_def emit_indented text_ins fmt_reg_eval del: line_text.simps)

lemma put_immediate:
  assumes "fits20 v"
  shows "emit (''LOADI R0, '' @ fmt_int v) s = put (AIns OP_LOADI 0 0 (word_of_int v)) s"
    "emit (''LOADI R1, '' @ fmt_int v) s = put (AIns OP_LOADI 1 0 (word_of_int v)) s"
    "emit (''LOADI R7, '' @ fmt_int v) s = put (AIns OP_LOADI 7 0 (word_of_int v)) s"
    "emit (''LOAD R0, [R6'' @ fmt_plus v @ '']'') s = put (AIns OP_LOAD 0 6 (word_of_int v)) s"
    "emit (''STORE [R6'' @ fmt_plus v @ ''], R0'') s = put (AIns OP_STORE 6 0 (word_of_int v)) s"
  using assms by (simp_all add: put_def emit_indented text_ins fmt_reg_eval del: line_text.simps)

lemma fits20_small [simp]: "fits20 0" "fits20 1" "fits20 2" "fits20 4"
  by (simp_all add: fits20_def)

lemma put_constant [puts]:
  "emit ''LOADI R0, 0'' s = put (AIns OP_LOADI 0 0 0) s" "emit ''LOADI R0, 1'' s = put (AIns OP_LOADI 0 0 1) s"
  "emit ''LOADI R1, 0'' s = put (AIns OP_LOADI 1 0 0) s" "emit ''LOADI R1, 2'' s = put (AIns OP_LOADI 1 0 2) s"
  "emit ''LOADI R1, 4'' s = put (AIns OP_LOADI 1 0 4) s"
  using put_immediate [of 0 s] put_immediate [of 1 s] put_immediate [of 2 s] put_immediate [of 4 s]
  by (simp_all add: fmt_int_def fmt_base_less)

lemma put_memory [puts]:
  "emit ''LOAD R0, [R0+0]'' s = put (AIns OP_LOAD 0 0 0) s"
  "emit ''LOAD R6, [R7+0]'' s = put (AIns OP_LOAD 6 7 0) s"
  "emit ''STORE [R1+0], R0'' s = put (AIns OP_STORE 1 0 0) s"
  "emit ''STORE [R7+0], R0'' s = put (AIns OP_STORE 7 0 0) s"
  "emit ''STORE [R7+0], R6'' s = put (AIns OP_STORE 7 6 0) s"
proof -
  have l: "line_text (AIns OP_LOAD a b 0) = indented (''LOAD '' @ fmt_reg a @ '', ['' @ fmt_reg b @ ''+0]'')"
    and st: "line_text (AIns OP_STORE a b 0) = indented (''STORE ['' @ fmt_reg a @ ''+0], '' @ fmt_reg b)"
    if "a < 8" "b < 8" for a b
    using text_ins(5) [of OP_LOAD a b 0] text_ins(6) [of OP_STORE a b 0] that
    by (simp_all add: fmt_plus_0 del: line_text.simps)
  show "emit ''LOAD R0, [R0+0]'' s = put (AIns OP_LOAD 0 0 0) s"
    "emit ''LOAD R6, [R7+0]'' s = put (AIns OP_LOAD 6 7 0) s"
    "emit ''STORE [R1+0], R0'' s = put (AIns OP_STORE 1 0 0) s"
    "emit ''STORE [R7+0], R0'' s = put (AIns OP_STORE 7 0 0) s"
    "emit ''STORE [R7+0], R6'' s = put (AIns OP_STORE 7 6 0) s"
    by (simp_all add: put_def emit_indented l st fmt_reg_eval del: line_text.simps)
qed

lemma put_label [puts]: "emit_label i s = put (AMark (label_name i)) s"
  by (simp add: emit_label_def put_def)

lemma put_jump [puts]:
  "emitj ''JMP'' i s = put (AJump OP_JMP (label_name i)) s" "emitj ''JZ'' i s = put (AJump OP_JZ (label_name i)) s"
  "emitj ''JNZ'' i s = put (AJump OP_JNZ (label_name i)) s" "emitj ''JL'' i s = put (AJump OP_JL (label_name i)) s"
  "emitj ''JG'' i s = put (AJump OP_JG (label_name i)) s"
  by (simp_all add: emitj_def put_def emit_indented)

lemma put_addr:
  "emit (''LOADI R0, '' @ n) s = put (AAddr 0 n) s" "emit (''LOADI R1, '' @ n) s = put (AAddr 1 n) s"
  by (simp_all add: put_def emit_indented fmt_reg_eval)

lemma put_name [puts]:
  "emit (''CALL '' @ n) s = put (AJump OP_CALL n) s" "emit (''JMP '' @ n) s = put (AJump OP_JMP n) s"
  "add_line (n @ '':'') s = put (AMark n) s"
  by (simp_all add: put_def emit_indented fmt_reg_eval)

subsection \<open>What has been emitted\<close>

definition LABEL_MAX :: nat where "LABEL_MAX = 10 ^ 50"

text \<open>What the generator emits for the body of a function: there the peephole pass can only drop a
  load after the store of R0 to the same place.\<close>

fun body_line :: "aline \<Rightarrow> bool" where
  "body_line (AIns op a b im) = ((op = OP_STORE \<longrightarrow> b = 0) \<and> (op = OP_MOV \<longrightarrow> a \<noteq> b))"
| "body_line (AMark n) = (hd n = CHR ''_'')"
| "body_line (AData v) = False"
| "body_line AComment = False"
| "body_line _ = True"

definition body_ok :: "aline \<Rightarrow> bool" where
  "body_ok l = (line_ok l \<and> body_line l)"

declare body_ok_def [simp]

lemma hd_label_name [simp]: "hd (label_name i) = CHR ''_''"
  by (simp add: label_name_def)

definition wrote :: "cgstate \<Rightarrow> cgstate \<Rightarrow> aline list \<Rightarrow> bool" where
  "wrote s s' als = (cg_label s \<le> cg_label s' \<and>
     cg_lines s' = cg_lines s @ map line_text als \<and> cg_sym s' = cg_sym s \<and>
     cg_funcs s' = cg_funcs s \<and> cg_globs s' = cg_globs s \<and> cg_epi s' = cg_epi s \<and>
     (cg_label s' \<le> LABEL_MAX \<longrightarrow> list_all body_ok als))"

lemma put_simps [simp]:
  "cg_label (put l s) = cg_label s" "cg_lines (put l s) = cg_lines s @ [line_text l]"
  "cg_sym (put l s) = cg_sym s" "cg_funcs (put l s) = cg_funcs s" "cg_globs (put l s) = cg_globs s"
  "cg_epi (put l s) = cg_epi s"
  by (simp_all add: put_def add_line_def)

lemma wrote_refl [simp]: "wrote s s []"
  by (simp add: wrote_def)

lemma wrote_put:
  "wrote s s' als \<Longrightarrow> (cg_label s' \<le> LABEL_MAX \<Longrightarrow> body_ok l) \<Longrightarrow> wrote s (put l s') (als @ [l])"
  unfolding wrote_def by auto

lemma wrote_label: "wrote s s' als \<Longrightarrow> wrote s (snd (newlabel s')) als"
  unfolding wrote_def newlabel_def by auto

lemma wrote_trans: "wrote s s1 als \<Longrightarrow> wrote s1 s2 bls \<Longrightarrow> wrote s s2 (als @ bls)"
  unfolding wrote_def by auto

lemma wrote_fields:
  assumes "wrote s s' als"
  shows "cg_sym s' = cg_sym s" "cg_funcs s' = cg_funcs s" "cg_globs s' = cg_globs s" "cg_epi s' = cg_epi s"
    "cg_label s \<le> cg_label s'" "cg_lines s' = cg_lines s @ map line_text als"
  using assms by (simp_all add: wrote_def)

lemma length_label_name: "i < LABEL_MAX \<Longrightarrow> length (label_name i) < TEXT_SIZE"
  using length_fmt_base [of i 50] by (simp add: label_name_def TEXT_SIZE_def LABEL_MAX_def)

lemma label_name_ok: "i < LABEL_MAX \<Longrightarrow> label_ok (label_name i)"
proof -
  assume "i < LABEL_MAX"
  then have "length (label_name i) < TEXT_SIZE" by (rule length_label_name)
  moreover have "list_all ident_char (label_name i)"
    using isdigit_fmt_base [of _ i] isalnum_isdigit
    by (auto simp: label_name_def list_all_iff ident_char_def ctype_defs)
  ultimately show ?thesis
    by (simp add: label_ok_def label_name_def is_reg_def split: list.split)
qed

lemma line_ok_ins [simp]:
  assumes "op_known op" "a < 8" "b < 8" "imm_fits im"
  shows "line_ok (AIns op a b im) = (case opcode_format op of
     OPF_NONE \<Rightarrow> a = 0 \<and> b = 0 \<and> im = 0 | OPF_RD_RS \<Rightarrow> im = 0 | OPF_RD \<Rightarrow> b = 0 \<and> im = 0
   | OPF_RD_IMM \<Rightarrow> b = 0 | OPF_RD_MEM \<Rightarrow> True | OPF_MEM_RS \<Rightarrow> True | OPF_IMM \<Rightarrow> a = 0 \<and> b = 0)"
  using assms by (auto simp: line_ok.simps(1) canonical_def decode_encode split: opformat.split)

lemma imm_fits_small [simp]: "imm_fits 1" "imm_fits 2" "imm_fits 4"
  by (simp_all add: imm_fits_def)

lemma wrote_puts:
  "(cg_label s \<le> LABEL_MAX \<Longrightarrow> list_all body_ok ls) \<Longrightarrow> wrote s (fold put ls s) ls"
proof (induction ls arbitrary: s)
  case (Cons l ls)
  have "wrote s (put l s) [l]" using wrote_put [OF wrote_refl [of s], of l] Cons.prems by simp
  moreover have "wrote (put l s) (fold put ls (put l s)) ls"
    by (rule Cons.IH) (use Cons.prems in simp)
  ultimately show ?case using wrote_trans by fastforce
qed simp

lemma wrote_more:
  "wrote s s1 als \<Longrightarrow> (cg_label s1 \<le> LABEL_MAX \<Longrightarrow> list_all body_ok ls) \<Longrightarrow> wrote s (fold put ls s1) (als @ ls)"
  using wrote_trans wrote_puts by blast

text \<open>A fresh label.\<close>

lemma find_Some: "find P xs = Some x \<Longrightarrow> x \<in> set xs \<and> P x"
  by (induction xs) (auto split: if_splits)

abbreviation bump :: "cgstate \<Rightarrow> cgstate" where
  "bump s \<equiv> s\<lparr>cg_label := Suc (cg_label s)\<rparr>"

lemma newlabel_eq: "newlabel s = (cg_label s, bump s)"
  by (simp add: newlabel_def)

lemma wrote_bump: "wrote s s' als \<Longrightarrow> wrote s (bump s') als"
  using wrote_label [of s s' als] by (simp add: newlabel_def)

subsection \<open>Code that the peephole pass respects\<close>

text \<open>
  A store of another register than R0 must not stand before a load, and a label of a function or a
  variable must stand before a line that the pass does not touch: the pass compares neither the
  register of a store nor whether a line is an instruction.
\<close>

fun fragile :: "aline \<Rightarrow> bool" where
  "fragile (AIns op a b im) = (op = OP_STORE \<and> b \<noteq> 0)"
| "fragile (AMark n) = (hd n \<noteq> CHR ''_'')"
| "fragile _ = False"

fun solid :: "aline \<Rightarrow> bool" where
  "solid (AIns op a b im) = (op = OP_LOADI \<or> (op = OP_MOV \<and> a \<noteq> b))"
| "solid (AData v) = True"
| "solid _ = False"

fun self_mov :: "aline \<Rightarrow> bool" where
  "self_mov (AIns op a b im) = (op = OP_MOV \<and> a = b)"
| "self_mov _ = False"

fun guarded :: "aline list \<Rightarrow> bool" where
  "guarded [] = True"
| "guarded (x # ls) = (\<not> self_mov x \<and> (fragile x \<longrightarrow> (case ls of [] \<Rightarrow> False | y # _ \<Rightarrow> solid y)) \<and> guarded ls)"

lemma guarded_append: "guarded xs \<Longrightarrow> guarded ys \<Longrightarrow> guarded (xs @ ys)"
  by (induction xs) (auto split: list.splits)

lemma body_line_kind: "body_line x \<Longrightarrow> \<not> fragile x \<and> \<not> self_mov x"
  by (cases x) auto

lemma guarded_body: "list_all body_ok ls \<Longrightarrow> guarded ls"
  by (induction ls) (auto dest: body_line_kind)

end
