(* ===== verification/CGenExpr.thy ===== *)
theory CGenExpr
  imports CSem CGenLines
begin

text \<open>
  The code generator is correct on expressions: the lines that \<open>gen_expr\<close> emits for an expression,
  wherever they stand in a program, compute the value that the reference semantics gives it, with
  the same memory and console, leave the stack as it was and keep the frame and stack registers.
\<close>

subsection \<open>What code does\<close>

text \<open>
  The state between two lines: R0 where it is known, the values pushed since the code began, the
  stack pointer in R7, and memory and console. Code runs below a stack \<open>K\<close> that it does not touch.
\<close>

type_synonym mid = "u32 option \<times> u32 list \<times> u32 \<times> cstate"

definition sees :: "nat \<Rightarrow> u32 \<Rightarrow> sval list \<Rightarrow> mid \<Rightarrow> lstate \<Rightarrow> bool" where
  "sees i fp K x st = (case x of (r, p, r7, \<sigma>) \<Rightarrow>
     cpu_ok (l_cpu st) \<and> l_at st = i \<and> (\<forall>v. r = Some v \<longrightarrow> reg (l_cpu st) 0 = v) \<and>
     reg (l_cpu st) 6 = fp \<and> reg (l_cpu st) 7 = r7 \<and>
     mem (l_cpu st) = fst \<sigma> \<and> l_con st = snd \<sigma> \<and> l_stk st = map Val p @ K)"

text \<open>From line \<open>i\<close> to line \<open>j\<close> the state changes as \<open>f\<close> says, where \<open>f\<close> says something.\<close>

definition does :: "cenv \<Rightarrow> aline list \<Rightarrow> nat \<Rightarrow> nat \<Rightarrow> u32 \<Rightarrow> (mid \<Rightarrow> mid option) \<Rightarrow> bool" where
  "does E prog i j fp f = (\<forall>st K x y. sees i fp K x st \<longrightarrow> f x = Some y \<longrightarrow>
     runs_to (e_line E) prog st (sees j fp K y))"

lemma does_run:
  "does E prog i j fp f \<Longrightarrow> sees i fp K x st \<Longrightarrow> f x = Some y \<Longrightarrow>
   (\<And>st'. sees j fp K y st' \<Longrightarrow> runs_to (e_line E) prog st' Q) \<Longrightarrow> runs_to (e_line E) prog st Q"
  unfolding does_def by (blast intro: runs_to_trans)

lemma does_last:
  "does E prog i j fp f \<Longrightarrow> sees i fp K x st \<Longrightarrow> f x = Some y \<Longrightarrow> runs_to (e_line E) prog st (sees j fp K y)"
  unfolding does_def by blast

lemma runs_to_end:
  "at prog (l_at st) ls \<Longrightarrow> brun E ls st = Some st1 \<Longrightarrow> Q st1 \<Longrightarrow> runs_to E prog st Q"
  by (blast intro: runs_to_block runs_to_here)

subsection \<open>Linking\<close>

text \<open>What the generator's tables promise about names, offsets and functions.\<close>

definition static_ok :: "cgstate \<Rightarrow> bool" where
  "static_ok s =
     ((\<forall>name off a. cresolve name s = Local off a \<longrightarrow> fits20 off) \<and>
      (\<forall>name a. cresolve name s = Global a \<longrightarrow> label_ok name) \<and>
      (\<forall>name np. func_find name s = Some np \<longrightarrow> label_ok name \<and> np < 100000))"

text \<open>A call of \<open>name\<close> at the place \<open>k\<close> has the effect that the environment gives it.\<close>

definition fn_does :: "cenv \<Rightarrow> aline list \<Rightarrow> string \<Rightarrow> nat \<Rightarrow> bool" where
  "fn_does E prog name k = (\<forall>st j fp s7 \<sigma> K r r' \<sigma>'. sees k fp (Ret j # K) (r, [], s7, \<sigma>) st \<longrightarrow>
     e_fn E name fp s7 \<sigma> = Some (r', \<sigma>') \<longrightarrow>
     runs_to (e_line E) prog st (sees j fp K (r', [], s7, \<sigma>')))"

definition linked :: "cenv \<Rightarrow> aline list \<Rightarrow> cgstate \<Rightarrow> bool" where
  "linked E prog s = (e_var E = (\<lambda>name. cresolve name s) \<and> distinct (marks prog) \<and>
     (\<forall>name np. func_find name s = Some np \<longrightarrow> (\<exists>k. place name prog = Some k \<and> fn_does E prog name k)))"

text \<open>Between two states of the generator, code for \<open>f\<close> was emitted.\<close>

definition compiles :: "cgstate \<Rightarrow> cgstate \<Rightarrow> (cenv \<Rightarrow> u32 \<Rightarrow> mid \<Rightarrow> mid option) \<Rightarrow> bool" where
  "compiles s s' f = (\<exists>als. wrote s s' als \<and>
     (\<forall>E prog i fp. linked E prog s \<longrightarrow> at prog i als \<longrightarrow> does E prog i (i + length als) fp (f E fp)))"

lemma same_tables:
  assumes "cg_sym s' = cg_sym s" "cg_funcs s' = cg_funcs s" "cg_globs s' = cg_globs s"
  shows "cresolve name s' = cresolve name s" "func_find name s' = func_find name s"
    "static_ok s' = static_ok s" "linked E prog s' = linked E prog s"
proof -
  show r: "cresolve name s' = cresolve name s" for name
    using assms by (simp add: cresolve_def sym_find_def cong: option.case_cong)
  show f: "func_find name s' = func_find name s" for name
    using assms by (simp add: func_find_def)
  show "static_ok s' = static_ok s" "linked E prog s' = linked E prog s"
    by (simp_all add: static_ok_def linked_def r f)
qed

lemma wrote_tables:
  assumes "wrote s s' als"
  shows "cresolve name s' = cresolve name s" "func_find name s' = func_find name s"
    "static_ok s' = static_ok s" "linked E prog s' = linked E prog s"
  by (rule same_tables; rule wrote_fields [OF assms])+

lemma put_tables [simp]:
  "cresolve name (put l s) = cresolve name s" "func_find name (put l s) = func_find name s"
  "static_ok (put l s) = static_ok s" "linked E prog (put l s) = linked E prog s"
  by (rule same_tables; simp)+

lemma compiles_tables: "compiles s s' f \<Longrightarrow> static_ok s' = static_ok s \<and> linked E prog s' = linked E prog s
    \<and> cresolve name s' = cresolve name s \<and> func_find name' s' = func_find name' s"
  unfolding compiles_def using wrote_tables by metis

text \<open>A block of straight lines.\<close>

lemma compiles_block:
  assumes "wrote s s' als"
    and "\<And>E fp st K x y. e_var E = (\<lambda>name. cresolve name s) \<Longrightarrow> sees (l_at st) fp K x st \<Longrightarrow> f E fp x = Some y \<Longrightarrow>
      \<exists>st'. brun (e_line E) als st = Some st' \<and> sees (l_at st + length als) fp K y st'"
  shows "compiles s s' f"
  unfolding compiles_def does_def
proof (intro exI conjI allI impI)
  fix E prog i fp st K x y
  assume l: "linked E prog s" "at prog i als" "sees i fp K x st" "f E fp x = Some y"
  then have i: "l_at st = i" by (simp add: sees_def case_prod_beta)
  moreover have "e_var E = (\<lambda>name. cresolve name s)" using l(1) by (simp add: linked_def)
  ultimately obtain st' where
    "brun (e_line E) als st = Some st'" "sees (i + length als) fp K y st'"
    using l assms(2) [of E st fp K x y] by auto
  then show "runs_to (e_line E) prog st (sees (i + length als) fp K y)"
    using l(2) i by (blast intro: runs_to_end)
qed (fact assms(1))

text \<open>One piece after the other, and a piece that does less.\<close>

definition andthen :: "('e \<Rightarrow> 'f \<Rightarrow> 'a \<Rightarrow> 'a option) \<Rightarrow> ('e \<Rightarrow> 'f \<Rightarrow> 'a \<Rightarrow> 'a option) \<Rightarrow> 'e \<Rightarrow> 'f \<Rightarrow> 'a \<Rightarrow> 'a option" where
  "andthen f g E fp x = Option.bind (f E fp x) (g E fp)"

lemma compiles_seq:
  assumes "compiles s s1 f" "compiles s1 s2 g"
  shows "compiles s s2 (andthen f g)"
proof -
  obtain als bls where e: "wrote s s1 als" "wrote s1 s2 bls"
    and f: "\<And>E prog i fp. linked E prog s \<Longrightarrow> at prog i als \<Longrightarrow> does E prog i (i + length als) fp (f E fp)"
    and g: "\<And>E prog i fp. linked E prog s1 \<Longrightarrow> at prog i bls \<Longrightarrow> does E prog i (i + length bls) fp (g E fp)"
    using assms unfolding compiles_def by blast
  have "does E prog i (i + length (als @ bls)) fp (andthen f g E fp)"
    if "linked E prog s" "at prog i (als @ bls)" for E prog i fp
    unfolding does_def
  proof (intro allI impI)
    fix st K x y
    assume st: "sees i fp K x st" "andthen f g E fp x = Some y"
    then obtain z where z: "f E fp x = Some z" "g E fp z = Some y"
      by (auto simp: andthen_def Option.bind_eq_Some_conv)
    have l1: "linked E prog s1" using that(1) by (simp add: wrote_tables(4) [OF e(1)])
    from that(2) have a: "at prog i als" "at prog (i + length als) bls" by (simp_all add: at_append)
    show "runs_to (e_line E) prog st (sees (i + length (als @ bls)) fp K y)"
    proof (rule does_run [OF f [OF that(1) a(1)] st(1) z(1)])
      fix st' assume "sees (i + length als) fp K z st'"
      from does_last [OF g [OF l1 a(2)] this z(2)]
      show "runs_to (e_line E) prog st' (sees (i + length (als @ bls)) fp K y)"
        by (simp add: add.assoc)
    qed
  qed
  then show ?thesis unfolding compiles_def using wrote_trans [OF e] by blast
qed

lemma compiles_less:
  assumes "compiles s s' f"
    and "\<And>E fp x y. e_var E = (\<lambda>name. cresolve name s) \<Longrightarrow> g E fp x = Some y \<Longrightarrow> f E fp x = Some y"
  shows "compiles s s' g"
  using assms unfolding compiles_def does_def linked_def by meson

lemma compiles_puts:
  assumes "list_all body_ok ls"
    and "\<And>E fp st K x y. e_var E = (\<lambda>name. cresolve name s) \<Longrightarrow> sees (l_at st) fp K x st \<Longrightarrow> f E fp x = Some y \<Longrightarrow>
      \<exists>st'. brun (e_line E) ls st = Some st' \<and> sees (l_at st + length ls) fp K y st'"
  shows "compiles s (fold put ls s) f"
  using compiles_block [OF wrote_puts] assms by blast

subsection \<open>Pieces\<close>

definition m_expr :: "cnode \<Rightarrow> cenv \<Rightarrow> u32 \<Rightarrow> mid \<Rightarrow> mid option" where
  "m_expr n E fp x = (case x of (r, p, r7, \<sigma>) \<Rightarrow> map_option (\<lambda>(v, \<sigma>). (Some v, p, r7, \<sigma>)) (ceval E fp r7 n \<sigma>))"

definition m_addr :: "cnode \<Rightarrow> cenv \<Rightarrow> u32 \<Rightarrow> mid \<Rightarrow> mid option" where
  "m_addr n E fp x = (case x of (r, p, r7, \<sigma>) \<Rightarrow> map_option (\<lambda>(v, \<sigma>). (Some v, p, r7, \<sigma>)) (caddr E fp r7 n \<sigma>))"

definition m_call :: "string \<Rightarrow> cnode list \<Rightarrow> cenv \<Rightarrow> u32 \<Rightarrow> mid \<Rightarrow> mid option" where
  "m_call name as E fp x = (case x of (r, p, r7, \<sigma>) \<Rightarrow>
     map_option (\<lambda>(v, \<sigma>). (v, p, r7, \<sigma>)) (ccall E fp r7 name as \<sigma>))"

definition m_args :: "cnode list \<Rightarrow> cenv \<Rightarrow> u32 \<Rightarrow> mid \<Rightarrow> mid option" where
  "m_args as E fp x = (case x of (r, p, r7, \<sigma>) \<Rightarrow>
     map_option (\<lambda>(s7, \<sigma>). (None, p, s7, \<sigma>)) (cargs E fp r7 as \<sigma>))"

definition m_push :: "cenv \<Rightarrow> u32 \<Rightarrow> mid \<Rightarrow> mid option" where
  "m_push E fp x = (case x of (Some v, p, r7, \<sigma>) \<Rightarrow> Some (Some v, v # p, r7, \<sigma>) | _ \<Rightarrow> None)"

definition m_load :: "cenv \<Rightarrow> u32 \<Rightarrow> mid \<Rightarrow> mid option" where
  "m_load E fp x = (case x of
     (Some a, p, r7, \<sigma>) \<Rightarrow> map_option (\<lambda>v. (Some v, p, r7, \<sigma>)) (cload E a \<sigma>) | _ \<Rightarrow> None)"

text \<open>The left operand was pushed, the right one is in R0.\<close>

definition m_two :: "(cenv \<Rightarrow> u32 \<Rightarrow> u32 \<Rightarrow> cstate \<Rightarrow> (u32 \<times> cstate) option) \<Rightarrow> cenv \<Rightarrow> u32 \<Rightarrow> mid \<Rightarrow> mid option" where
  "m_two h E fp x = (case x of
     (Some v, u # p, r7, \<sigma>) \<Rightarrow> map_option (\<lambda>(w, \<sigma>). (Some w, p, r7, \<sigma>)) (h E u v \<sigma>) | _ \<Rightarrow> None)"

lemma piece_push: "compiles s (put (AIns OP_PUSH 0 0 0) s) m_push"
proof -
  have "compiles s (fold put [AIns OP_PUSH 0 0 0] s) m_push"
  proof (rule compiles_puts)
    fix E fp st K x y
    assume "sees (l_at st) fp K x st" "m_push E fp x = Some y"
    then show "\<exists>st'. brun (e_line E) [AIns OP_PUSH 0 0 0] st = Some st' \<and>
       sees (l_at st + length [AIns OP_PUSH 0 0 0]) fp K y st'"
      by (auto simp: m_push_def sees_def line_step split: option.splits)
  qed simp
  then show ?thesis by simp
qed

lemma piece_load: "compiles s (put (AIns OP_LOAD 0 0 0) s) m_load"
proof -
  have "compiles s (fold put [AIns OP_LOAD 0 0 0] s) m_load"
    by (rule compiles_puts)
      (auto simp: m_load_def sees_def line_step cload_def split: option.splits if_splits)
  then show ?thesis by simp
qed

lemma piece_index:
  "compiles s (fold put [AIns OP_LOADI 1 0 2, AIns OP_SHL 0 1 0, AIns OP_POP 1 0 0, AIns OP_ADD 0 1 0] s)
     (m_two (\<lambda>E u v \<sigma>. Some (u + push_bit 2 v, \<sigma>)))"
    by (rule compiles_puts)
      (auto simp: m_two_def sees_def line_step split: option.splits list.splits)

text \<open>The instructions of a binary operator.\<close>

definition m_binary :: "ctoktype \<Rightarrow> cenv \<Rightarrow> u32 \<Rightarrow> mid \<Rightarrow> mid option" where
  "m_binary oper = m_two (\<lambda>E u v \<sigma>. map_option (\<lambda>w. (w, \<sigma>)) (cbinary oper u v))"

definition arith_op :: "ctoktype \<Rightarrow> opcode option" where
  "arith_op oper = (case oper of CT_PLUS \<Rightarrow> Some OP_ADD | CT_MINUS \<Rightarrow> Some OP_SUB | CT_STAR \<Rightarrow> Some OP_MUL
   | CT_SLASH \<Rightarrow> Some OP_DIV | CT_AMP \<Rightarrow> Some OP_AND | CT_PIPE \<Rightarrow> Some OP_OR | CT_CARET \<Rightarrow> Some OP_XOR
   | CT_SHL \<Rightarrow> Some OP_SHL | CT_SHR \<Rightarrow> Some OP_SHR | _ \<Rightarrow> None)"

definition binary_lines :: "ctoktype \<Rightarrow> aline list" where
  "binary_lines oper = (case arith_op oper of
     Some op \<Rightarrow> [AIns op 1 0 0, AIns OP_MOV 0 1 0]
   | None \<Rightarrow> [AIns OP_MOV 2 1 0, AIns OP_MOV 3 0 0, AIns OP_DIV 2 3 0, AIns OP_MUL 2 3 0,
       AIns OP_SUB 1 2 0, AIns OP_MOV 0 1 0])"

lemma binary_code_lines:
  assumes "binary_code oper = Some code"
  shows "emits_all code s = fold put (binary_lines oper) s"
proof -
  have "emits_all [''ADD R1, R0'', ''MOV R0, R1''] s = fold put (binary_lines CT_PLUS) s"
    "emits_all [''SUB R1, R0'', ''MOV R0, R1''] s = fold put (binary_lines CT_MINUS) s"
    "emits_all [''MUL R1, R0'', ''MOV R0, R1''] s = fold put (binary_lines CT_STAR) s"
    "emits_all [''DIV R1, R0'', ''MOV R0, R1''] s = fold put (binary_lines CT_SLASH) s"
    "emits_all [''AND R1, R0'', ''MOV R0, R1''] s = fold put (binary_lines CT_AMP) s"
    "emits_all [''OR R1, R0'', ''MOV R0, R1''] s = fold put (binary_lines CT_PIPE) s"
    "emits_all [''XOR R1, R0'', ''MOV R0, R1''] s = fold put (binary_lines CT_CARET) s"
    "emits_all [''SHL R1, R0'', ''MOV R0, R1''] s = fold put (binary_lines CT_SHL) s"
    "emits_all [''SHR R1, R0'', ''MOV R0, R1''] s = fold put (binary_lines CT_SHR) s"
    "emits_all [''MOV R2, R1'', ''MOV R3, R0'', ''DIV R2, R3'', ''MUL R2, R3'', ''SUB R1, R2'',
      ''MOV R0, R1''] s = fold put (binary_lines CT_PERCENT) s"
    by (simp_all only: emits_all.simps puts fold_simps binary_lines_def arith_op_def
        ctoktype.case option.case)
  with assms show ?thesis by (cases oper) (auto simp only: binary_code_def ctoktype.case option.simps)
qed

lemma arith_op_range:
  "arith_op oper = Some op \<Longrightarrow> op \<in> {OP_ADD, OP_SUB, OP_MUL, OP_DIV, OP_AND, OP_OR, OP_XOR, OP_SHL, OP_SHR}"
  by (cases oper) (auto simp: arith_op_def)

lemma piece_arith:
  assumes "arith_op oper = Some op"
  shows "compiles s (fold put [AIns OP_POP 1 0 0, AIns op 1 0 0, AIns OP_MOV 0 1 0] s) (m_binary oper)"
proof (rule compiles_puts)
  show "list_all body_ok [AIns OP_POP 1 0 0, AIns op 1 0 0, AIns OP_MOV 0 1 0]"
    using arith_op_range [OF assms] by auto
  fix E fp st K x y
  assume s: "sees (l_at st) fp K x st" and y: "m_binary oper E fp x = Some y"
  from y obtain u v p r7 \<sigma> w where x: "x = (Some v, u # p, r7, \<sigma>)" "cbinary oper u v = Some w"
    "y = (Some w, p, r7, \<sigma>)"
    by (auto simp: m_binary_def m_two_def split: prod.splits option.splits list.splits)
  show "\<exists>st'. brun (e_line E) [AIns OP_POP 1 0 0, AIns op 1 0 0, AIns OP_MOV 0 1 0] st = Some st' \<and>
      sees (l_at st + length [AIns OP_POP 1 0 0, AIns op 1 0 0, AIns OP_MOV 0 1 0]) fp K y st'"
    using assms s x by (cases oper) (auto simp: arith_op_def sees_def line_step cbinary_def split: if_splits)
qed

lemma piece_percent:
  "compiles s (fold put [AIns OP_POP 1 0 0, AIns OP_MOV 2 1 0, AIns OP_MOV 3 0 0, AIns OP_DIV 2 3 0,
     AIns OP_MUL 2 3 0, AIns OP_SUB 1 2 0, AIns OP_MOV 0 1 0] s) (m_binary CT_PERCENT)"
  by (rule compiles_puts)
    (auto simp: m_binary_def m_two_def sees_def line_step cbinary_def minus_div_mult_eq_mod
      split: option.splits list.splits if_splits)

lemma piece_binary:
  assumes "binary_code oper = Some code"
  shows "compiles s (emits_all code (emit ''POP R1'' s)) (m_binary oper)"
proof (cases "arith_op oper")
  case None
  with assms have "oper = CT_PERCENT" by (cases oper) (simp_all add: arith_op_def binary_code_def)
  then show ?thesis
    using piece_percent [of s] None
    by (simp only: binary_code_lines [OF assms] binary_lines_def puts fold_simps option.case)
next
  case (Some op)
  then show ?thesis
    using piece_arith [OF Some, of s]
    by (simp only: binary_code_lines [OF assms] binary_lines_def puts fold_simps option.case)
qed

end
