(* ===== verification/CGenBranch.thy ===== *)
theory CGenBranch
  imports CGenExpr
begin

text \<open>
  The conditional pieces of the generated code: comparisons, negation, and the tests that short
  circuit, \<open>if\<close> and the loops begin with.
\<close>

subsection \<open>Jumps\<close>

lemma place_mark:
  "distinct (marks prog) \<Longrightarrow> at prog i (xs @ AMark n # ys) \<Longrightarrow> place n prog = Some (i + length xs)"
  by (auto simp: at_append at_Cons intro: place_at)

lemma jumps_run:
  assumes "place n prog = Some k" and "OP_CALL \<notin> set js"
  shows "at prog (l_at st) (map (\<lambda>j. AJump j n) js) \<Longrightarrow>
    runs_to E prog (st\<lparr>l_at := if \<exists>j \<in> set js. jump_taken j (flags (l_cpu st)) then k
      else l_at st + length js\<rparr>) Q \<Longrightarrow> runs_to E prog st Q"
  using assms(2)
proof (induction js arbitrary: st)
  case (Cons j js)
  have a: "at prog (l_at st) [AJump j n]" "at prog (Suc (l_at st)) (map (\<lambda>j. AJump j n) js)"
    using Cons.prems(1) by (simp_all add: at_Cons)
  show ?case
  proof (cases "jump_taken j (flags (l_cpu st))")
    case True
    then show ?thesis using Cons.prems runs_to_jump [OF a(1) True _ assms(1)] by auto
  next
    case False
    have e: "(next_line st)\<lparr>l_at := if \<exists>j \<in> set js. jump_taken j (flags (l_cpu (next_line st))) then k
        else l_at (next_line st) + length js\<rparr> = st\<lparr>l_at := if \<exists>j \<in> set (j # js). jump_taken j (flags (l_cpu st))
        then k else l_at st + length (j # js)\<rparr>"
      using False by (simp add: next_line_def)
    have "runs_to E prog (next_line st) Q"
      by (rule Cons.IH [OF _ Cons.prems(2) [folded e]]) (use a(2) Cons.prems(3) in simp_all)
    then show ?thesis using runs_to_pass [OF a(1) False] by blast
  qed
qed simp

lemma sub_jumps:
  assumes "cpu_ok s" "a < 8"
  shows "jump_taken OP_JL (flags (exec_sub s (ins_of OP_SUB a b im))) = (sint (reg s a) < sint (reg s b))"
    "jump_taken OP_JZ (flags (exec_sub s (ins_of OP_SUB a b im))) = (reg s a = reg s b)"
    "jump_taken OP_JNZ (flags (exec_sub s (ins_of OP_SUB a b im))) = (reg s a \<noteq> reg s b)"
    "jump_taken OP_JG (flags (exec_sub s (ins_of OP_SUB a b im))) = (sint (reg s a) > sint (reg s b))"
proof -
  have l: "flag_n (flags (exec_sub s (ins_of OP_SUB a b im))) \<noteq> flag_o (flags (exec_sub s (ins_of OP_SUB a b im)))
      \<longleftrightarrow> sint (reg s a) < sint (reg s b)"
    and z: "flag_z (flags (exec_sub s (ins_of OP_SUB a b im))) \<longleftrightarrow> sint (reg s a) = sint (reg s b)"
    using sub_jl_condition [of s "ins_of OP_SUB a b im"] sub_z_condition [of s "ins_of OP_SUB a b im"] assms
    by simp_all
  have e: "sint (reg s a) = sint (reg s b) \<longleftrightarrow> reg s a = reg s b" by (auto intro: signed_word_eqI)
  show "jump_taken OP_JL (flags (exec_sub s (ins_of OP_SUB a b im))) = (sint (reg s a) < sint (reg s b))"
    "jump_taken OP_JZ (flags (exec_sub s (ins_of OP_SUB a b im))) = (reg s a = reg s b)"
    "jump_taken OP_JNZ (flags (exec_sub s (ins_of OP_SUB a b im))) = (reg s a \<noteq> reg s b)"
    "jump_taken OP_JG (flags (exec_sub s (ins_of OP_SUB a b im))) = (sint (reg s a) > sint (reg s b))"
    using l z e by (auto simp: jump_taken_def)
qed

text \<open>An unconditional jump, and a block, in terms of the abstract state.\<close>

lemma sees_at: "sees i fp K x st \<Longrightarrow> l_at st = i"
  by (simp add: sees_def case_prod_beta)

lemma sees_move: "sees i fp K x st \<Longrightarrow> sees k fp K x (st\<lparr>l_at := k\<rparr>)"
  by (simp add: sees_def case_prod_beta)

lemma sees_next: "sees i fp K x st \<Longrightarrow> sees (Suc i) fp K x (next_line st)"
  by (simp add: sees_def case_prod_beta)

lemma goto_run:
  assumes "at prog i [AJump OP_JMP n]" "place n prog = Some k" "sees i fp K x st"
    and "\<And>st'. sees k fp K x st' \<Longrightarrow> runs_to E prog st' Q"
  shows "runs_to E prog st Q"
  using assms runs_to_jump [of prog st OP_JMP n k E Q] sees_move [OF assms(3), of k]
  by (simp add: sees_at [OF assms(3)] jump_taken_def)

text \<open>\<open>AND R0, R0\<close> and a jump on zero or on nonzero.\<close>

lemma test_run:
  assumes a: "at prog i [AIns OP_AND 0 0 0, AJump op n]" and op: "op = OP_JZ \<or> op = OP_JNZ"
    and k: "place n prog = Some k" and s: "sees i fp K (Some v, p, r7, \<sigma>) st"
    and Q: "\<And>st'. sees (if (v = 0) = (op = OP_JZ) then k else i + 2) fp K (Some v, p, r7, \<sigma>) st' \<Longrightarrow>
      runs_to E prog st' Q"
  shows "runs_to E prog st Q"
proof -
  let ?c = "set_result (l_cpu st) 0 v"
  let ?st = "st\<lparr>l_at := Suc i, l_cpu := ?c\<rparr>"
  have i: "l_at st = i" using s by (rule sees_at)
  have v: "reg (l_cpu st) 0 = v" and ok: "cpu_ok (l_cpu st)" using s by (simp_all add: sees_def)
  have b: "brun E [AIns OP_AND 0 0 0] st = Some ?st"
    using v i by (simp add: line_step next_line_def)
  have s1: "sees (Suc i) fp K (Some v, p, r7, \<sigma>) ?st"
    using s ok by (simp add: sees_def)
  have t: "jump_taken op (flags (l_cpu ?st)) \<longleftrightarrow> (v = 0) = (op = OP_JZ)"
    using op by (auto simp: jump_taken_def)
  have at: "at prog (l_at st) [AIns OP_AND 0 0 0]" "at prog (l_at ?st) [AJump op n]"
    using a i by (simp_all add: at_Cons)
  have "runs_to E prog ?st Q"
  proof (cases "(v = 0) = (op = OP_JZ)")
    case True
    show ?thesis
      by (rule runs_to_jump [OF at(2) _ _ k]) (use True t op Q sees_move [OF s1, of k] in auto)
  next
    case False
    have "runs_to E prog (next_line ?st) Q"
      by (rule Q) (use False sees_next [OF s1] in simp)
    then show ?thesis using runs_to_pass [OF at(2)] False t by blast
  qed
  then show ?thesis by (rule runs_to_block [OF at(1) b])
qed

text \<open>A constant in R0.\<close>

lemma const_run:
  assumes "at prog i [AIns OP_LOADI 0 0 c]" "sees i fp K (r, p, r7, \<sigma>) st"
    and "\<And>st'. sees (Suc i) fp K (Some c, p, r7, \<sigma>) st' \<Longrightarrow> runs_to E prog st' Q"
  shows "runs_to E prog st Q"
proof (rule runs_to_block)
  show "at prog (l_at st) [AIns OP_LOADI 0 0 c]" using assms by (simp add: sees_at)
  show "brun E [AIns OP_LOADI 0 0 c] st = Some (next_line (st\<lparr>l_cpu := set_reg (l_cpu st) 0 c\<rparr>))"
    by (simp add: line_step)
  show "runs_to E prog (next_line (st\<lparr>l_cpu := set_reg (l_cpu st) 0 c\<rparr>)) Q"
    by (rule assms(3)) (use assms(2) in \<open>simp add: sees_def\<close>)
qed

lemma mark_run:
  assumes "at prog i [AMark n]" "sees i fp K x st"
    and "\<And>st'. sees (Suc i) fp K x st' \<Longrightarrow> runs_to E prog st' Q"
  shows "runs_to E prog st Q"
proof (rule runs_to_block)
  show "at prog (l_at st) [AMark n]" using assms by (simp add: sees_at)
  show "brun E [AMark n] st = Some (next_line st)"
    by (simp add: line_step)
  show "runs_to E prog (next_line st) Q"
    by (rule assms(3)) (use assms(2) in \<open>simp add: sees_def case_prod_beta\<close>)
qed

subsection \<open>Comparisons and negation\<close>

definition cmp_ops :: "ctoktype \<Rightarrow> opcode list" where
  "cmp_ops oper = (case oper of CT_EQ \<Rightarrow> [OP_JZ] | CT_NE \<Rightarrow> [OP_JNZ] | CT_LT \<Rightarrow> [OP_JL] | CT_GT \<Rightarrow> [OP_JG]
   | CT_LE \<Rightarrow> [OP_JL, OP_JZ] | CT_GE \<Rightarrow> [OP_JG, OP_JZ] | _ \<Rightarrow> [])"

definition cmp_lines :: "ctoktype \<Rightarrow> string \<Rightarrow> string \<Rightarrow> aline list" where
  "cmp_lines oper l l' = [AIns OP_POP 1 0 0, AIns OP_SUB 1 0 0, AIns OP_LOADI 0 0 0] @
     map (\<lambda>op. AJump op l) (cmp_ops oper) @ [AJump OP_JMP l', AMark l, AIns OP_LOADI 0 0 1, AMark l']"

lemma cmp_binary:
  assumes "is_cmp_op oper" "cpu_ok s"
  shows "cbinary oper (reg s 1) (reg s 0) =
    Some (of_bool (\<exists>op \<in> set (cmp_ops oper). jump_taken op (flags (exec_sub s (ins_of OP_SUB 1 0 0)))))"
  using assms sub_jumps [of s 1 0 0]
  by (cases oper) (auto simp: is_cmp_op_def cmp_ops_def cbinary_def intro: signed_word_eqI)

lemma compiles_cmp:
  assumes w: "wrote s s' (cmp_lines oper l l')" and o: "is_cmp_op oper"
  shows "compiles s s' (m_binary oper)"
  unfolding compiles_def does_def
proof (intro exI conjI allI impI)
  fix E prog i fp st K x y
  let ?als = "cmp_lines oper l l'" and ?js = "cmp_ops oper"
  let ?j = "i + 3 + length ?js"
  let ?Q = "sees (i + length ?als) fp K y"
  assume k: "linked E prog s" and a: "at prog i ?als" and st: "sees i fp K x st"
    and y: "m_binary oper E fp x = Some y"
  then obtain u v p r7 \<sigma> w where x: "x = (Some v, u # p, r7, \<sigma>)" "cbinary oper u v = Some w"
    "y = (Some w, p, r7, \<sigma>)"
    by (auto simp: m_binary_def m_two_def split: prod.splits option.splits list.splits)
  have i: "l_at st = i" using st by (rule sees_at)
  have d: "distinct (marks prog)" using k by (simp add: linked_def)
  have at: "at prog i [AIns OP_POP 1 0 0, AIns OP_SUB 1 0 0, AIns OP_LOADI 0 0 0]"
    "at prog (i + 3) (map (\<lambda>op. AJump op l) ?js)" "at prog ?j [AJump OP_JMP l']"
    "at prog (?j + 1) [AMark l]" "at prog (?j + 2) [AIns OP_LOADI 0 0 1]" "at prog (?j + 3) [AMark l']"
    using a by (auto simp: cmp_lines_def at_append at_Cons eval_nat_numeral)
  have pl: "place l prog = Some (?j + 1)" "place l' prog = Some (?j + 3)"
    using d at(4,6) by (auto intro: place_at simp: at_Cons)
  let ?s1 = "set_reg (l_cpu st) 1 u"
  let ?s2 = "exec_sub ?s1 (ins_of OP_SUB 1 0 0)"
  let ?st = "st\<lparr>l_at := i + 3, l_cpu := set_reg ?s2 0 0, l_stk := map Val p @ K\<rparr>"
  have b: "brun (e_line E) [AIns OP_POP 1 0 0, AIns OP_SUB 1 0 0, AIns OP_LOADI 0 0 0] st = Some ?st"
    using st x(1) i by (simp add: line_step sees_def next_line_def eval_nat_numeral)
  have ok: "cpu_ok (l_cpu st)" "reg (l_cpu st) 0 = v" using st x(1) by (simp_all add: sees_def)
  have s: "sees (i + 3) fp K (Some 0, p, r7, \<sigma>) ?st"
    using st x(1) ok by (simp add: sees_def)
  have w: "w = of_bool (\<exists>op \<in> set ?js. jump_taken op (flags ?s2))"
    using cmp_binary [OF o, of ?s1] ok x(2) by simp
  have nc: "OP_CALL \<notin> set ?js" by (cases oper) (simp_all add: cmp_ops_def)
  have fin: "runs_to (e_line E) prog t ?Q" if "sees (?j + 3) fp K y t" for t
    by (rule mark_run [OF at(6) that], rule runs_to_here)
      (simp add: cmp_lines_def eval_nat_numeral)
  have "runs_to (e_line E) prog ?st ?Q"
  proof (rule jumps_run [OF pl(1) nc])
    show "at prog (l_at ?st) (map (\<lambda>j. AJump j l) ?js)" using at(2) by simp
    show "runs_to (e_line E) prog (?st\<lparr>l_at := if \<exists>j \<in> set ?js. jump_taken j (flags (l_cpu ?st)) then ?j + 1
        else l_at ?st + length ?js\<rparr>) ?Q"
    proof (cases "\<exists>j \<in> set ?js. jump_taken j (flags ?s2)")
      case True
      have "runs_to (e_line E) prog (?st\<lparr>l_at := ?j + 1\<rparr>) ?Q"
      proof (rule mark_run [OF at(4) sees_move [OF s]])
        fix t assume "sees (Suc (?j + 1)) fp K (Some 0, p, r7, \<sigma>) t"
        then have t: "sees (?j + 2) fp K (Some 0, p, r7, \<sigma>) t" by simp
        show "runs_to (e_line E) prog t ?Q"
          by (rule const_run [OF at(5) t], rule fin) (use True w x(3) in \<open>simp add: eval_nat_numeral\<close>)
      qed
      with True show ?thesis by simp
    next
      case False
      have "runs_to (e_line E) prog (?st\<lparr>l_at := ?j\<rparr>) ?Q"
        by (rule goto_run [OF at(3) pl(2) sees_move [OF s]])
          (use False w x(3) fin in simp)
      with False show ?thesis by simp
    qed
  qed
  then show "runs_to (e_line E) prog st ?Q"
    by (rule runs_to_block [OF at(1) [folded i] b])
qed (fact w)

lemma compiles_not:
  assumes w: "wrote s s' [AIns OP_AND 0 0 0, AIns OP_LOADI 0 0 0, AJump OP_JNZ l, AIns OP_LOADI 0 0 1, AMark l]"
  shows "compiles s s' (\<lambda>E fp x. case x of
    (Some v, p, r7, \<sigma>) \<Rightarrow> Some (Some (of_bool (v = 0)), p, r7, \<sigma>) | _ \<Rightarrow> None)" (is "compiles _ _ ?f")
  unfolding compiles_def does_def
proof (intro exI conjI allI impI)
  fix E prog i fp st K x y
  let ?als = "[AIns OP_AND 0 0 0, AIns OP_LOADI 0 0 0, AJump OP_JNZ l, AIns OP_LOADI 0 0 1, AMark l]"
  let ?Q = "sees (i + length ?als) fp K y"
  assume k: "linked E prog s" and a: "at prog i ?als" and st: "sees i fp K x st" and y: "?f E fp x = Some y"
  then obtain v p r7 \<sigma> where x: "x = (Some v, p, r7, \<sigma>)" "y = (Some (of_bool (v = 0)), p, r7, \<sigma>)"
    by (auto split: prod.splits option.splits)
  have i: "l_at st = i" using st by (rule sees_at)
  have at: "at prog i [AIns OP_AND 0 0 0, AIns OP_LOADI 0 0 0]" "at prog (i + 2) [AJump OP_JNZ l]"
    "at prog (i + 3) [AIns OP_LOADI 0 0 1]" "at prog (i + 4) [AMark l]"
    using a by (auto simp: at_Cons eval_nat_numeral)
  have pl: "place l prog = Some (i + 4)"
    using k at(4) by (auto simp: linked_def at_Cons intro: place_at)
  let ?c = "set_reg (set_result (l_cpu st) 0 v) 0 0"
  let ?st = "st\<lparr>l_at := i + 2, l_cpu := ?c\<rparr>"
  have v: "reg (l_cpu st) 0 = v" "cpu_ok (l_cpu st)" using st x(1) by (simp_all add: sees_def)
  then have b: "brun (e_line E) [AIns OP_AND 0 0 0, AIns OP_LOADI 0 0 0] st = Some ?st"
    using i by (simp add: line_step next_line_def eval_nat_numeral)
  have s: "sees (i + 2) fp K (Some 0, p, r7, \<sigma>) ?st" using st x(1) v by (simp add: sees_def)
  have fin: "runs_to (e_line E) prog t ?Q" if "sees (i + 4) fp K y t" for t
    by (rule mark_run [OF at(4) that], rule runs_to_here) (simp add: eval_nat_numeral)
  have t: "jump_taken OP_JNZ (flags (l_cpu ?st)) = (v \<noteq> 0)" by (simp add: jump_taken_def)
  have "runs_to (e_line E) prog ?st ?Q"
  proof (cases "v = 0")
    case True
    have s1: "sees (i + 3) fp K (Some 0, p, r7, \<sigma>) (next_line ?st)"
      using sees_next [OF s] by (simp add: eval_nat_numeral)
    have "runs_to (e_line E) prog (next_line ?st) ?Q"
      by (rule const_run [OF at(3) s1], rule fin) (use True x(2) in \<open>simp add: eval_nat_numeral\<close>)
    then show ?thesis using runs_to_pass [of prog ?st OP_JNZ l] at(2) t True by simp
  next
    case False
    then have "runs_to (e_line E) prog (?st\<lparr>l_at := i + 4\<rparr>) ?Q"
      using sees_move [OF s, of "i + 4"] x(2) fin by simp
    then show ?thesis using runs_to_jump [OF _ _ _ pl, of ?st OP_JNZ] at(2) t False by simp
  qed
  then show "runs_to (e_line E) prog st ?Q"
    by (rule runs_to_block [OF at(1) [folded i] b])
qed (fact w)

subsection \<open>Short circuit\<close>

text \<open>\<open>&&\<close> is \<open>m_short True 1\<close>, \<open>||\<close> is \<open>m_short False 0\<close>: the value when both tests fall through.\<close>

definition m_short :: "bool \<Rightarrow> u32 \<Rightarrow> (cenv \<Rightarrow> u32 \<Rightarrow> mid \<Rightarrow> mid option) \<Rightarrow> (cenv \<Rightarrow> u32 \<Rightarrow> mid \<Rightarrow> mid option) \<Rightarrow>
    cenv \<Rightarrow> u32 \<Rightarrow> mid \<Rightarrow> mid option" where
  "m_short z c f g E fp x = (case f E fp x of
     Some (Some u, p, r7, \<sigma>) \<Rightarrow>
       if (u = 0) = z then Some (Some (1 - c), p, r7, \<sigma>)
       else (case g E fp (Some u, p, r7, \<sigma>) of
           Some (Some v, p, r7, \<sigma>) \<Rightarrow> Some (Some (if (v = 0) = z then 1 - c else c), p, r7, \<sigma>)
         | _ \<Rightarrow> None)
   | _ \<Rightarrow> None)"

definition short_end :: "opcode \<Rightarrow> u32 \<Rightarrow> string \<Rightarrow> string \<Rightarrow> aline list" where
  "short_end op c l l' = [AIns OP_AND 0 0 0, AJump op l, AIns OP_LOADI 0 0 c, AJump OP_JMP l', AMark l,
     AIns OP_LOADI 0 0 (1 - c), AMark l']"

lemma short_end_at:
  assumes "at prog j (short_end op c l l')" "distinct (marks prog)"
  shows "at prog j [AIns OP_AND 0 0 0, AJump op l]" "at prog (j + 2) [AIns OP_LOADI 0 0 c]"
    "at prog (j + 3) [AJump OP_JMP l']" "at prog (j + 4) [AMark l]"
    "at prog (j + 5) [AIns OP_LOADI 0 0 (1 - c)]" "at prog (j + 6) [AMark l']"
    "place l prog = Some (j + 4)" "place l' prog = Some (j + 6)"
proof -
  show at: "at prog j [AIns OP_AND 0 0 0, AJump op l]" "at prog (j + 2) [AIns OP_LOADI 0 0 c]"
    "at prog (j + 3) [AJump OP_JMP l']" "at prog (j + 4) [AMark l]"
    "at prog (j + 5) [AIns OP_LOADI 0 0 (1 - c)]" "at prog (j + 6) [AMark l']"
    using assms(1) by (auto simp: short_end_def at_Cons eval_nat_numeral)
  show "place l prog = Some (j + 4)" "place l' prog = Some (j + 6)"
    using assms(2) at(4,6) by (auto simp: at_Cons intro: place_at)
qed

lemma short_out_run:
  assumes a: "at prog j (short_end op c l l')" "distinct (marks prog)"
    and st: "sees (j + 4) fp K (r, p, r7, \<sigma>) st"
  shows "runs_to E prog st (sees (j + 7) fp K (Some (1 - c), p, r7, \<sigma>))"
proof (rule mark_run [OF short_end_at(4) [OF a] st])
  fix t assume "sees (Suc (j + 4)) fp K (r, p, r7, \<sigma>) t"
  then have t: "sees (j + 5) fp K (r, p, r7, \<sigma>) t" by (simp add: eval_nat_numeral)
  show "runs_to E prog t (sees (j + 7) fp K (Some (1 - c), p, r7, \<sigma>))"
  proof (rule const_run [OF short_end_at(5) [OF a] t])
    fix q assume "sees (Suc (j + 5)) fp K (Some (1 - c), p, r7, \<sigma>) q"
    then have q: "sees (j + 6) fp K (Some (1 - c), p, r7, \<sigma>) q" by (simp add: eval_nat_numeral)
    show "runs_to E prog q (sees (j + 7) fp K (Some (1 - c), p, r7, \<sigma>))"
      by (rule mark_run [OF short_end_at(6) [OF a] q], rule runs_to_here) (simp add: eval_nat_numeral)
  qed
qed

lemma short_end_run:
  assumes a: "at prog j (short_end op c l l')" "distinct (marks prog)" and op: "op = (if z then OP_JZ else OP_JNZ)"
    and st: "sees j fp K (Some v, p, r7, \<sigma>) st"
  shows "runs_to E prog st (sees (j + 7) fp K (Some (if (v = 0) = z then 1 - c else c), p, r7, \<sigma>))"
    (is "runs_to E prog st ?Q")
proof (rule test_run [OF short_end_at(1) [OF a] _ short_end_at(7) [OF a] st])
  show "op = OP_JZ \<or> op = OP_JNZ" using op by simp
  fix t assume t: "sees (if (v = 0) = (op = OP_JZ) then j + 4 else j + 2) fp K (Some v, p, r7, \<sigma>) t"
  show "runs_to E prog t ?Q"
  proof (cases "(v = 0) = z")
    case True
    then show ?thesis using short_out_run [OF a, of fp K "Some v" p r7 \<sigma> t] t op by auto
  next
    case False
    then have t: "sees (j + 2) fp K (Some v, p, r7, \<sigma>) t" using t op by (auto split: if_splits)
    show ?thesis
    proof (rule const_run [OF short_end_at(2) [OF a] t])
      fix q assume "sees (Suc (j + 2)) fp K (Some c, p, r7, \<sigma>) q"
      then have q: "sees (j + 3) fp K (Some c, p, r7, \<sigma>) q" by (simp add: eval_nat_numeral)
      show "runs_to E prog q ?Q"
        by (rule goto_run [OF short_end_at(3,8) [OF a] q], erule mark_run [OF short_end_at(6) [OF a]],
            rule runs_to_here) (use False in \<open>simp add: eval_nat_numeral\<close>)
    qed
  qed
qed

lemma compiles_short:
  assumes f: "compiles s s1 f" and w1: "wrote s1 t1 [AIns OP_AND 0 0 0, AJump op l]"
    and g: "compiles t1 s2 g" and w2: "wrote s2 s' (short_end op c l l')"
    and op: "op = (if z then OP_JZ else OP_JNZ)"
  shows "compiles s s' (m_short z c f g)"
proof -
  obtain als bls where e: "wrote s s1 als" "wrote t1 s2 bls"
    and F: "\<And>E prog i fp. linked E prog s \<Longrightarrow> at prog i als \<Longrightarrow> does E prog i (i + length als) fp (f E fp)"
    and G: "\<And>E prog i fp. linked E prog t1 \<Longrightarrow> at prog i bls \<Longrightarrow> does E prog i (i + length bls) fp (g E fp)"
    using f g unfolding compiles_def by blast
  let ?als = "als @ [AIns OP_AND 0 0 0, AJump op l] @ bls @ short_end op c l l'"
  have "wrote s s' ?als" using wrote_trans [OF e(1) wrote_trans [OF w1 wrote_trans [OF e(2) w2]]] .
  moreover have "does E prog i (i + length ?als) fp (m_short z c f g E fp)"
    if k: "linked E prog s" and a: "at prog i ?als" for E prog i fp
    unfolding does_def
  proof (intro allI impI)
    fix st K x y
    let ?i = "i + length als" let ?j = "?i + 2 + length bls"
    assume st: "sees i fp K x st" and y: "m_short z c f g E fp x = Some y"
    have at: "at prog i als" "at prog ?i [AIns OP_AND 0 0 0, AJump op l]" "at prog (?i + 2) bls"
      "at prog ?j (short_end op c l l')"
      using a by (auto simp: at_append at_Cons eval_nat_numeral add.assoc)
    have len: "i + length ?als = ?j + 7" by (simp add: short_end_def)
    have d: "distinct (marks prog)" using k by (simp add: linked_def)
    have opz: "op = OP_JZ \<or> op = OP_JNZ" "(op = OP_JZ) = z" using op by simp_all
    from y obtain u p r7 \<sigma> where u: "f E fp x = Some (Some u, p, r7, \<sigma>)"
      by (auto simp: m_short_def split: option.splits prod.splits)
    show "runs_to (e_line E) prog st (sees (i + length ?als) fp K y)"
      unfolding len
    proof (rule does_run [OF F [OF k at(1)] st u],
        rule test_run [OF at(2) opz(1) short_end_at(7) [OF at(4) d]], assumption)
      fix t assume t: "sees (if (u = 0) = (op = OP_JZ) then ?j + 4 else ?i + 2) fp K (Some u, p, r7, \<sigma>) t"
      show "runs_to (e_line E) prog t (sees (?j + 7) fp K y)"
      proof (cases "(u = 0) = z")
        case True
        with y u have "y = (Some (1 - c), p, r7, \<sigma>)" by (simp add: m_short_def)
        with short_out_run [OF at(4) d, of fp K "Some u" p r7 \<sigma> t] t True opz(2) show ?thesis by simp
      next
        case False
        with y u obtain v p' r7' \<sigma>' where v: "g E fp (Some u, p, r7, \<sigma>) = Some (Some v, p', r7', \<sigma>')"
          and y': "y = (Some (if (v = 0) = z then 1 - c else c), p', r7', \<sigma>')"
          by (auto simp: m_short_def split: option.splits prod.splits)
        have k1: "linked E prog t1"
          using k by (simp add: wrote_tables(4) [OF w1] wrote_tables(4) [OF e(1)])
        have t': "sees (?i + 2) fp K (Some u, p, r7, \<sigma>) t" using t False opz(2) by simp
        show ?thesis
          unfolding y'
          by (rule does_run [OF G [OF k1 at(3)] t' v]) (rule short_end_run [OF at(4) d op])
      qed
    qed
  qed
  ultimately show ?thesis unfolding compiles_def by blast
qed

end
