(* ===== verification/CGenCorrect.thy ===== *)
theory CGenCorrect
  imports CGenBranch
begin

text \<open>
  The induction over expressions: the lines that \<open>gen_addr\<close> and \<open>gen_expr\<close> emit compute the address
  and the value that the reference semantics gives, on every form of expression that it defines.
\<close>

subsection \<open>Variables and constants\<close>

lemma compiles_const: "fits20 v \<Longrightarrow> compiles s (put (AIns OP_LOADI 0 0 (word_of_int v)) s) (m_expr (N_INT l v))"
  using compiles_puts [of "[AIns OP_LOADI 0 0 (word_of_int v)]" s "m_expr (N_INT l v)"]
  by (fastforce simp: imm_fits_fits20 m_expr_def ceval.simps sees_def line_step)

lemma compiles_local_addr:
  assumes "cresolve name s = Local off a" "fits20 off"
  shows "compiles s (let s = emit ''MOV R0, R6'' s in
      if off \<noteq> 0 then emits_all [''LOADI R1, '' @ fmt_int off, ''ADD R0, R1''] s else s) (m_addr (N_VAR l name))"
proof (cases "off = 0")
  case True
  have "compiles s (fold put [AIns OP_MOV 0 6 0] s) (m_addr (N_VAR l name))"
    by (rule compiles_puts) (use assms(1) True in \<open>auto simp: m_addr_def caddr.simps sees_def line_step\<close>)
  moreover have "emit ''MOV R0, R6'' s = fold put [AIns OP_MOV 0 6 0] s"
    by (simp only: puts fold_simps)
  ultimately show ?thesis using True by simp
next
  case False
  have "compiles s (fold put [AIns OP_MOV 0 6 0, AIns OP_LOADI 1 0 (word_of_int off), AIns OP_ADD 0 1 0] s)
      (m_addr (N_VAR l name))"
    by (rule compiles_puts)
      (use assms in \<open>auto simp: m_addr_def caddr.simps sees_def line_step imm_fits_fits20\<close>)
  moreover have "emits_all [''LOADI R1, '' @ fmt_int off, ''ADD R0, R1''] (emit ''MOV R0, R6'' s) =
      fold put [AIns OP_MOV 0 6 0, AIns OP_LOADI 1 0 (word_of_int off), AIns OP_ADD 0 1 0] s"
    by (simp only: emits_all.simps put_immediate [OF assms(2)] puts fold_simps)
  ultimately show ?thesis using False by (simp only: Let_def if_True not_False_eq_True)
qed

lemma compiles_global_addr:
  assumes "cresolve name s = Global a" "label_ok name"
  shows "compiles s (emit (''LOADI R0, '' @ name) s) (m_addr (N_VAR l name))"
proof -
  have "compiles s (fold put [AAddr 0 name] s) (m_addr (N_VAR l name))"
    by (rule compiles_puts) (use assms in \<open>auto simp: m_addr_def caddr.simps sees_def line_step\<close>)
  then show ?thesis by (simp only: put_addr fold_simps)
qed

lemma compiles_local_load:
  assumes "cresolve name s = Local off False" "fits20 off"
  shows "compiles s (emit (''LOAD R0, [R6'' @ fmt_plus off @ '']'') s) (m_expr (N_VAR l name))"
proof -
  have "compiles s (fold put [AIns OP_LOAD 0 6 (word_of_int off)] s) (m_expr (N_VAR l name))"
    by (rule compiles_puts)
      (use assms in \<open>auto simp: m_expr_def ceval.simps caddr.simps is_array_var_def cload_def sees_def line_step
        imm_fits_fits20 split: if_splits\<close>)
  then show ?thesis by (simp only: put_immediate [OF assms(2)] fold_simps)
qed

text \<open>The value in R0 is stored in a variable.\<close>

definition m_store_var :: "string \<Rightarrow> cenv \<Rightarrow> u32 \<Rightarrow> mid \<Rightarrow> mid option" where
  "m_store_var name E fp x = (case x of
     (Some v, p, r7, \<sigma>) \<Rightarrow> Option.bind (caddr E fp r7 (N_VAR 0 name) \<sigma>) (\<lambda>(a, \<sigma>).
       map_option (\<lambda>\<sigma>. (Some v, p, r7, \<sigma>)) (cstore E a v \<sigma>))
   | _ \<Rightarrow> None)"

lemma compiles_local_store:
  assumes "cresolve name s = Local off a" "fits20 off"
  shows "compiles s (emit (''STORE [R6'' @ fmt_plus off @ ''], R0'') s) (m_store_var name)"
proof -
  have "compiles s (fold put [AIns OP_STORE 6 0 (word_of_int off)] s) (m_store_var name)"
    by (rule compiles_puts)
      (use assms in \<open>auto simp: m_store_var_def caddr.simps cstore_def sees_def line_step
        imm_fits_fits20 split: if_splits option.splits\<close>)
  then show ?thesis by (simp only: put_immediate [OF assms(2)] fold_simps)
qed

lemma compiles_global_store:
  assumes "cresolve name s = Global a" "label_ok name"
  shows "compiles s (emits_all [''LOADI R1, '' @ name, ''STORE [R1+0], R0''] s) (m_store_var name)"
proof -
  have "compiles s (fold put [AAddr 1 name, AIns OP_STORE 1 0 0] s) (m_store_var name)"
    by (rule compiles_puts)
      (use assms in \<open>auto simp: m_store_var_def caddr.simps cstore_def sees_def line_step
        Option.bind_eq_Some_conv split: if_splits option.splits\<close>)
  then show ?thesis by (simp only: emits_all.simps put_addr puts fold_simps)
qed

text \<open>A value is stored through the address that was pushed.\<close>

definition m_store :: "cenv \<Rightarrow> u32 \<Rightarrow> mid \<Rightarrow> mid option" where
  "m_store = m_two (\<lambda>E a v \<sigma>. map_option (\<lambda>\<sigma>. (v, \<sigma>)) (cstore E a v \<sigma>))"

lemma piece_store: "compiles s (emits_all [''POP R1'', ''STORE [R1+0], R0''] s) m_store"
proof -
  have "compiles s (fold put [AIns OP_POP 1 0 0, AIns OP_STORE 1 0 0] s) m_store"
    by (rule compiles_puts)
      (auto simp: m_store_def m_two_def cstore_def sees_def line_step split: if_splits option.splits list.splits)
  then show ?thesis by (simp only: emits_all.simps puts fold_simps)
qed

definition m_unary :: "ctoktype \<Rightarrow> cenv \<Rightarrow> u32 \<Rightarrow> mid \<Rightarrow> mid option" where
  "m_unary oper E fp x = (case x of
     (Some v, p, r7, \<sigma>) \<Rightarrow> map_option (\<lambda>w. (Some w, p, r7, \<sigma>)) (cunary oper v) | _ \<Rightarrow> None)"

lemma piece_minus: "compiles s (emits_all [''LOADI R1, 0'', ''SUB R1, R0'', ''MOV R0, R1''] s) (m_unary CT_MINUS)"
proof -
  have "compiles s (fold put [AIns OP_LOADI 1 0 0, AIns OP_SUB 1 0 0, AIns OP_MOV 0 1 0] s) (m_unary CT_MINUS)"
    by (rule compiles_puts) (auto simp: m_unary_def cunary_def sees_def line_step split: option.splits)
  then show ?thesis by (simp only: emits_all.simps puts fold_simps)
qed

lemma piece_tilde: "compiles s (emit ''NOT R0'' s) (m_unary CT_TILDE)"
proof -
  have "compiles s (fold put [AIns OP_NOT 0 0 0] s) (m_unary CT_TILDE)"
    by (rule compiles_puts) (auto simp: m_unary_def cunary_def sees_def line_step split: option.splits)
  then show ?thesis by (simp only: puts fold_simps)
qed

subsection \<open>Operators\<close>

lemma bump_tables [simp]:
  "cresolve name (s\<lparr>cg_label := l\<rparr>) = cresolve name s" "func_find name (s\<lparr>cg_label := l\<rparr>) = func_find name s"
  "static_ok (s\<lparr>cg_label := l\<rparr>) = static_ok s" "linked E prog (s\<lparr>cg_label := l\<rparr>) = linked E prog s"
  by (rule same_tables; simp)+

lemma jumps_put:
  assumes "cmp_jumps oper = Some js"
  shows "fold (\<lambda>j. emitj j l) js s = fold put (map (\<lambda>op. AJump op (label_name l)) (cmp_ops oper)) s"
proof -
  have "fold (\<lambda>j. emitj j l) [''JZ''] s = fold put (map (\<lambda>op. AJump op (label_name l)) (cmp_ops CT_EQ)) s"
    "fold (\<lambda>j. emitj j l) [''JNZ''] s = fold put (map (\<lambda>op. AJump op (label_name l)) (cmp_ops CT_NE)) s"
    "fold (\<lambda>j. emitj j l) [''JL''] s = fold put (map (\<lambda>op. AJump op (label_name l)) (cmp_ops CT_LT)) s"
    "fold (\<lambda>j. emitj j l) [''JG''] s = fold put (map (\<lambda>op. AJump op (label_name l)) (cmp_ops CT_GT)) s"
    "fold (\<lambda>j. emitj j l) [''JL'', ''JZ''] s = fold put (map (\<lambda>op. AJump op (label_name l)) (cmp_ops CT_LE)) s"
    "fold (\<lambda>j. emitj j l) [''JG'', ''JZ''] s = fold put (map (\<lambda>op. AJump op (label_name l)) (cmp_ops CT_GE)) s"
    by (simp_all only: fold_simps list.map puts cmp_ops_def ctoktype.case)
  with assms show ?thesis by (cases oper) (auto simp only: cmp_jumps_def ctoktype.case option.simps)
qed

lemma cmp_ops_ok: "list_all body_ok (map (\<lambda>op. AJump op l) (cmp_ops oper)) \<longleftrightarrow> cmp_ops oper = [] \<or> label_ok l"
  by (cases oper) (simp_all add: cmp_ops_def)

text \<open>The tail of \<open>gen_cmp\<close>, after both operands.\<close>

lemma compiles_cmp_tail:
  assumes o: "is_cmp_op oper" and j: "cmp_jumps oper = Some js"
    and s': "s' = (let s = emits_all [''POP R1'', ''SUB R1, R0'', ''LOADI R0, 0''] s;
       (lset, s) = newlabel s; (ldone, s) = newlabel s
      in emit_label ldone (emit ''LOADI R0, 1'' (emit_label lset (emitj ''JMP'' ldone
           (fold (\<lambda>j. emitj j lset) js s)))))"
  shows "compiles s s' (m_binary oper)"
proof -
  let ?pre = "[AIns OP_POP 1 0 0, AIns OP_SUB 1 0 0, AIns OP_LOADI 0 0 0]"
  let ?t = "bump (bump (fold put ?pre s))"
  let ?l = "label_name (cg_label s)" and ?l' = "label_name (Suc (cg_label s))"
  let ?post = "map (\<lambda>op. AJump op ?l) (cmp_ops oper) @ [AJump OP_JMP ?l', AMark ?l, AIns OP_LOADI 0 0 1, AMark ?l']"
  have e: "emits_all [''POP R1'', ''SUB R1, R0'', ''LOADI R0, 0''] s = fold put ?pre s"
    by (simp only: emits_all.simps puts fold_simps)
  have lab: "cg_label (fold put ?pre s) = cg_label s" by simp
  have s'': "s' = fold put ?post ?t"
    unfolding s' e newlabel_eq Let_def prod.case lab jumps_put [OF j] fold_append comp_def puts fold_simps
    by simp
  have "wrote s ?t ?pre" by (intro wrote_bump wrote_puts) simp
  then have "wrote s (fold put ?post ?t) (?pre @ ?post)"
    by (rule wrote_more) (auto simp: cmp_ops_ok label_name_ok)
  then show ?thesis
    unfolding s'' [symmetric] using compiles_cmp [OF _ o, of s s' ?l ?l'] by (simp add: cmp_lines_def)
qed

lemma compiles_bang:
  assumes "s' = (let (le, s) = newlabel s in
    emit_label le (emit ''LOADI R0, 1'' (emitj ''JNZ'' le (emits_all [''AND R0, R0'', ''LOADI R0, 0''] s))))"
  shows "compiles s s' (m_unary CT_BANG)"
proof -
  let ?l = "label_name (cg_label s)"
  let ?ls = "[AIns OP_AND 0 0 0, AIns OP_LOADI 0 0 0, AJump OP_JNZ ?l, AIns OP_LOADI 0 0 1, AMark ?l]"
  have s': "s' = fold put ?ls (bump s)"
    unfolding assms newlabel_eq Let_def prod.case emits_all.simps puts fold_simps by simp
  have "wrote s (bump s) []" by (intro wrote_bump wrote_refl)
  then have "wrote s s' ([] @ ?ls)"
    unfolding s' by (rule wrote_more) (auto simp: label_name_ok)
  then have "wrote s s' ?ls" by simp
  from compiles_not [OF this] show ?thesis
    by (rule compiles_less) (auto simp: m_unary_def cunary_def split: option.splits prod.splits)
qed

text \<open>The two operands of \<open>gen_and\<close> and \<open>gen_or\<close>.\<close>

lemma short_wrote:
  assumes "wrote s0 s1 als" "i < cg_label s0" "op = OP_JZ \<or> op = OP_JNZ"
  shows "wrote s1 (put (AJump op (label_name i)) (put (AIns OP_AND 0 0 0) s1))
    [AIns OP_AND 0 0 0, AJump op (label_name i)]"
proof -
  have "wrote s1 (fold put [AIns OP_AND 0 0 0, AJump op (label_name i)] s1) [AIns OP_AND 0 0 0, AJump op (label_name i)]"
    using assms by (intro wrote_puts) (auto simp: wrote_def intro: label_name_ok)
  then show ?thesis by simp
qed

lemma compiles_bump: "compiles (bump s) s' f \<Longrightarrow> compiles s s' f"
  unfolding compiles_def by (auto simp: wrote_def)

lemma compiles_label: "compiles s s' f \<Longrightarrow> cg_label s \<le> cg_label s'"
  by (auto simp: compiles_def wrote_def)

lemma compiles_and_or:
  assumes a: "compiles (bump (bump s)) s1 f"
    and b: "compiles (put (AJump op (label_name (cg_label s))) (put (AIns OP_AND 0 0 0) s1)) s2 g"
    and op: "op = (if z then OP_JZ else OP_JNZ)" and c: "c = 0 \<or> c = 1"
  shows "compiles s (fold put (short_end op c (label_name (cg_label s)) (label_name (Suc (cg_label s)))) s2)
    (m_short z c f g)"
proof -
  let ?l = "label_name (cg_label s)" and ?l' = "label_name (Suc (cg_label s))"
  have l: "Suc (Suc (cg_label s)) \<le> cg_label s1" "cg_label s1 \<le> cg_label s2"
    using compiles_label [OF a] compiles_label [OF b] by simp_all
  have w1: "wrote s1 (put (AJump op ?l) (put (AIns OP_AND 0 0 0) s1)) [AIns OP_AND 0 0 0, AJump op ?l]"
    using l op short_wrote [of s1 s1 "[]" "cg_label s" op] by simp
  have "wrote s2 (fold put (short_end op c ?l ?l') s2) (short_end op c ?l ?l')"
    by (rule wrote_puts) (use l op c in \<open>auto simp: short_end_def label_name_ok\<close>)
  from compiles_short [OF a w1 b this op] show ?thesis
    using compiles_bump by blast
qed

text \<open>What the induction shows of an expression.\<close>

definition good :: "cnode \<Rightarrow> bool" where
  "good n = (\<forall>s s'. static_ok s \<longrightarrow>
     (gen_addr n s = Inr s' \<longrightarrow> compiles s s' (m_addr n)) \<and> (gen_expr n s = Inr s' \<longrightarrow> compiles s s' (m_expr n)))"

lemma goodD:
  "good n \<Longrightarrow> static_ok s \<Longrightarrow> gen_addr n s = Inr s' \<Longrightarrow> compiles s s' (m_addr n)"
  "good n \<Longrightarrow> static_ok s \<Longrightarrow> gen_expr n s = Inr s' \<Longrightarrow> compiles s s' (m_expr n)"
  by (simp_all add: good_def)

lemma good_and:
  assumes "good a" "good b" "static_ok s" "gen_and a b s = Inr s'"
  shows "compiles s s' (m_short True 1 (m_expr a) (m_expr b))"
proof -
  let ?l = "cg_label s" and ?l' = "Suc (cg_label s)"
  from assms(4) obtain s1 s2 where 1: "gen_expr a (bump (bump s)) = Inr s1"
    and 2: "gen_expr b (emitj ''JZ'' ?l (emit ''AND R0, R0'' s1)) = Inr s2"
    and s': "s' = emit_label ?l' (emit ''LOADI R0, 0'' (emit_label ?l (emitj ''JMP'' ?l' (emit ''LOADI R0, 1''
          (emitj ''JZ'' ?l (emit ''AND R0, R0'' s2))))))"
    unfolding gen_and.simps newlabel_eq Let_def prod.case res_bind_Inr_iff by auto
  have a: "compiles (bump (bump s)) s1 (m_expr a)" using goodD(2) [OF assms(1) _ 1] assms(3) by simp
  have t: "emitj ''JZ'' ?l (emit ''AND R0, R0'' s1) = put (AJump OP_JZ (label_name ?l)) (put (AIns OP_AND 0 0 0) s1)"
    by (simp only: puts)
  have "static_ok (emitj ''JZ'' ?l (emit ''AND R0, R0'' s1))"
    using assms(3) compiles_tables [OF a] by (simp only: t put_tables bump_tables)
  from goodD(2) [OF assms(2) this 2]
  have b: "compiles (put (AJump OP_JZ (label_name ?l)) (put (AIns OP_AND 0 0 0) s1)) s2 (m_expr b)"
    by (simp only: t)
  have "s' = fold put (short_end OP_JZ 1 (label_name ?l) (label_name ?l')) s2"
    unfolding s' short_end_def puts fold_simps by simp
  then show ?thesis using compiles_and_or [OF a b] by simp
qed

lemma good_or:
  assumes "good a" "good b" "static_ok s" "gen_or a b s = Inr s'"
  shows "compiles s s' (m_short False 0 (m_expr a) (m_expr b))"
proof -
  let ?l = "cg_label s" and ?l' = "Suc (cg_label s)"
  from assms(4) obtain s1 s2 where 1: "gen_expr a (bump (bump s)) = Inr s1"
    and 2: "gen_expr b (emitj ''JNZ'' ?l (emit ''AND R0, R0'' s1)) = Inr s2"
    and s': "s' = emit_label ?l' (emit ''LOADI R0, 1'' (emit_label ?l (emitj ''JMP'' ?l' (emit ''LOADI R0, 0''
          (emitj ''JNZ'' ?l (emit ''AND R0, R0'' s2))))))"
    unfolding gen_or.simps newlabel_eq Let_def prod.case res_bind_Inr_iff by auto
  have a: "compiles (bump (bump s)) s1 (m_expr a)" using goodD(2) [OF assms(1) _ 1] assms(3) by simp
  have t: "emitj ''JNZ'' ?l (emit ''AND R0, R0'' s1) = put (AJump OP_JNZ (label_name ?l)) (put (AIns OP_AND 0 0 0) s1)"
    by (simp only: puts)
  have "static_ok (emitj ''JNZ'' ?l (emit ''AND R0, R0'' s1))"
    using assms(3) compiles_tables [OF a] by (simp only: t put_tables bump_tables)
  from goodD(2) [OF assms(2) this 2]
  have b: "compiles (put (AJump OP_JNZ (label_name ?l)) (put (AIns OP_AND 0 0 0) s1)) s2 (m_expr b)"
    by (simp only: t)
  have "s' = fold put (short_end OP_JNZ 0 (label_name ?l) (label_name ?l')) s2"
    unfolding s' short_end_def puts fold_simps by simp
  then show ?thesis using compiles_and_or [OF a b] by simp
qed

text \<open>Both operands, the first one pushed.\<close>

lemma good_operands:
  assumes f: "compiles s s1 f" and b: "good b" "gen_expr b (emit ''PUSH R0'' s1) = Inr s2"
    and t: "compiles s2 s3 g" and st: "static_ok s"
  shows "compiles s s3 (andthen (andthen (andthen f m_push) (m_expr b)) g)"
proof -
  have p: "emit ''PUSH R0'' s1 = put (AIns OP_PUSH 0 0 0) s1" by (simp only: puts)
  have "static_ok (put (AIns OP_PUSH 0 0 0) s1)" using st compiles_tables [OF f] by simp
  with b have "compiles (put (AIns OP_PUSH 0 0 0) s1) s2 (m_expr b)"
    using goodD(2) [OF b(1)] by (simp only: p)
  then show ?thesis using compiles_seq [OF compiles_seq [OF compiles_seq [OF f piece_push]] t] by blast
qed

lemma m_two_operands:
  assumes "Option.bind (m E fp r7 \<sigma>) (\<lambda>(u, \<sigma>). Option.bind (ceval E fp r7 b \<sigma>) (\<lambda>(v, \<sigma>). h E u v \<sigma>)) = Some (w, \<sigma>')"
    and "\<And>r p r7 \<sigma>. f E fp (r, p, r7, \<sigma>) = map_option (\<lambda>(v, \<sigma>). (Some v, p, r7, \<sigma>)) (m E fp r7 \<sigma>)"
  shows "andthen (andthen (andthen f m_push) (m_expr b)) (m_two h) E fp (r, p, r7, \<sigma>) = Some (Some w, p, r7, \<sigma>')"
  using assms by (auto simp: andthen_def m_push_def m_expr_def m_two_def Option.bind_eq_Some_conv)

subsection \<open>The forms of expressions\<close>

lemmas gen_addr_forms =
  gen_addr.simps [of "N_VAR l name" for l name, unfolded cnode.case]
  gen_addr.simps [of "N_INDEX l a b" for l a b, unfolded cnode.case]
  gen_addr.simps [of "N_UNARY l oper a" for l oper a, unfolded cnode.case]

lemmas gen_expr_forms =
  gen_expr.simps [of "N_INT l v" for l v, unfolded cnode.case]
  gen_expr.simps [of "N_VAR l name" for l name, unfolded cnode.case]
  gen_expr.simps [of "N_INDEX l a b" for l a b, unfolded cnode.case]
  gen_expr.simps [of "N_UNARY l oper a" for l oper a, unfolded cnode.case]
  gen_expr.simps [of "N_BINARY l oper a b" for l oper a b, unfolded cnode.case]
  gen_expr.simps [of "N_ASSIGN l a b" for l a b, unfolded cnode.case]
  gen_expr.simps [of "N_CALL l name as" for l name as, unfolded cnode.case]

lemma good_int: "good (N_INT l v)"
  unfolding good_def
  using compiles_const [of v] put_immediate(1) [of v]
  by (auto simp: gen_addr.simps gen_expr.simps fail_def fits20_def CG_IMM_MIN_def CG_IMM_MAX_def split: if_splits)

lemma good_var: "good (N_VAR l name)"
  unfolding good_def
proof (intro allI impI conjI)
  fix s s' assume ok: "static_ok s"
  have addr: "compiles s s' (m_addr (N_VAR l name))" if g: "gen_addr (N_VAR l name) s = Inr s'" for s'
  proof (cases "cresolve name s")
    case (Local off a)
    with ok have "fits20 off" by (auto simp: static_ok_def)
    from compiles_local_addr [OF Local this] g Local show ?thesis
      by (simp only: gen_addr_forms cvar.case sum.inject)
  next
    case (Global a)
    with ok have "label_ok name" by (auto simp: static_ok_def)
    from compiles_global_addr [OF Global this] g Global show ?thesis
      by (simp only: gen_addr_forms cvar.case sum.inject)
  qed (use g in \<open>simp add: gen_addr.simps fail_def\<close>)
  show "gen_addr (N_VAR l name) s = Inr s' \<Longrightarrow> compiles s s' (m_addr (N_VAR l name))" by (rule addr)
  have arr: "compiles s s' (m_expr (N_VAR l name))"
    if "gen_addr (N_VAR l name) s = Inr s'" "\<And>E. e_var E = (\<lambda>n. cresolve n s) \<Longrightarrow> is_array_var E (N_VAR l name)" for s'
    by (rule compiles_less [OF addr [OF that(1)]])
      (auto simp: m_expr_def m_addr_def ceval.simps that(2) Option.bind_eq_Some_conv split: prod.splits)
  assume g: "gen_expr (N_VAR l name) s = Inr s'"
  show "compiles s s' (m_expr (N_VAR l name))"
  proof (cases "cresolve name s")
    case (Local off a)
    with ok have f: "fits20 off" by (auto simp: static_ok_def)
    show ?thesis
    proof (cases a)
      case True
      then show ?thesis using g Local by (intro arr) (simp_all add: gen_expr.simps is_array_var_def)
    next
      case False
      with compiles_local_load [of name s off, OF _ f] g Local show ?thesis
        by (simp only: gen_expr_forms cvar.case sum.inject if_False)
    qed
  next
    case (Global a)
    with ok have n: "label_ok name" by (auto simp: static_ok_def)
    show ?thesis
    proof (cases a)
      case True
      then show ?thesis using g Global by (intro arr) (simp_all add: gen_expr.simps is_array_var_def)
    next
      case False
      have "emit ''LOAD R0, [R0+0]'' (emit (''LOADI R0, '' @ name) s) = s'"
        using g Global False by (simp only: gen_expr_forms cvar.case sum.inject if_False emits_all.simps)
      then have "compiles s s' (andthen (m_addr (N_VAR l name)) m_load)"
        using compiles_seq [OF compiles_global_addr [OF Global n] piece_load] by (simp only: puts)
      then show ?thesis
        by (rule compiles_less) (auto simp: m_expr_def m_addr_def m_load_def andthen_def ceval.simps
            is_array_var_def Global False Option.bind_eq_Some_conv split: prod.splits)
    qed
  qed (use g in \<open>simp add: gen_expr.simps fail_def\<close>)
qed

text \<open>What stands before the brackets: the address of an array or the value of a pointer.\<close>

definition m_base :: "cnode \<Rightarrow> cenv \<Rightarrow> u32 \<Rightarrow> mid \<Rightarrow> mid option" where
  "m_base a E fp x = (if is_array_var E a then m_addr a E fp x else m_expr a E fp x)"

lemma good_base:
  assumes g: "good a" and ok: "static_ok s"
    and s': "(case a of N_VAR line name \<Rightarrow> (case cresolve name s of
         Unknown \<Rightarrow> fail line (undefined_variable name)
       | Local _ isa \<Rightarrow> if isa then gen_addr a s else gen_expr a s
       | Global isa \<Rightarrow> if isa then gen_addr a s else gen_expr a s)
     | _ \<Rightarrow> gen_expr a s) = Inr s'"
  shows "compiles s s' (m_base a)"
proof (cases "\<exists>l name. a = N_VAR l name \<and> (\<exists>off. cresolve name s = Local off True \<or> cresolve name s = Global True)")
  case True
  then have "gen_addr a s = Inr s'" using s' by auto
  from goodD(1) [OF g ok this] show ?thesis
    by (rule compiles_less) (use True in \<open>auto simp: m_base_def is_array_var_def\<close>)
next
  case False
  then have "gen_expr a s = Inr s'"
    using s' by (cases a) (auto simp: fail_def split: cvar.splits if_splits)
  from goodD(2) [OF g ok this] show ?thesis
    by (rule compiles_less) (use False in \<open>auto simp: m_base_def is_array_var_def split: cnode.splits cvar.splits if_splits\<close>)
qed

lemma good_index:
  assumes a: "good a" and b: "good b"
  shows "good (N_INDEX l a b)"
proof -
  have addr: "compiles s s' (m_addr (N_INDEX l a b))" if ok: "static_ok s" and g: "gen_addr (N_INDEX l a b) s = Inr s'" for s s'
  proof -
    from g obtain s1 s2 where 1: "(case a of N_VAR line name \<Rightarrow> (case cresolve name s of
         Unknown \<Rightarrow> fail line (undefined_variable name)
       | Local _ isa \<Rightarrow> if isa then gen_addr a s else gen_expr a s
       | Global isa \<Rightarrow> if isa then gen_addr a s else gen_expr a s)
     | _ \<Rightarrow> gen_expr a s) = Inr s1" and 2: "gen_expr b (emit ''PUSH R0'' s1) = Inr s2"
      and s': "s' = emits_all [''LOADI R1, 2'', ''SHL R0, R1'', ''POP R1'', ''ADD R0, R1''] s2"
      by (simp only: gen_addr_forms res_bind_Inr_iff sum.inject) blast
    have t: "compiles s2 s' (m_two (\<lambda>E u v \<sigma>. Some (u + push_bit 2 v, \<sigma>)))"
      using piece_index [of s2] by (simp only: s' emits_all.simps puts fold_simps)
    show ?thesis
      by (rule compiles_less [OF good_operands [OF good_base [OF a ok 1] b 2 t ok]])
        (auto simp: m_addr_def caddr.simps intro!: m_two_operands [where m = "\<lambda>E fp r7 \<sigma>.
            if is_array_var E a then caddr E fp r7 a \<sigma> else ceval E fp r7 a \<sigma>"]
          simp: m_base_def m_expr_def split: prod.splits)
  qed
  have "compiles s s' (m_expr (N_INDEX l a b))" if ok: "static_ok s" and g: "gen_expr (N_INDEX l a b) s = Inr s'" for s s'
  proof -
    from g obtain s1 where 1: "gen_addr (N_INDEX l a b) s = Inr s1" and s': "s' = emit ''LOAD R0, [R0+0]'' s1"
      by (auto simp only: gen_expr_forms res_bind_Inr_iff sum.inject)
    have "compiles s s' (andthen (m_addr (N_INDEX l a b)) m_load)"
      using compiles_seq [OF addr [OF ok 1] piece_load] by (simp only: s' puts)
    then show ?thesis
      by (rule compiles_less) (auto simp: m_expr_def m_addr_def m_load_def andthen_def ceval.simps
          Option.bind_eq_Some_conv split: prod.splits)
  qed
  with addr show ?thesis by (simp add: good_def)
qed

lemma good_unary:
  assumes a: "good a"
  shows "good (N_UNARY l oper a)"
proof -
  have addr: "compiles s s' (m_addr (N_UNARY l oper a))"
    if ok: "static_ok s" and g: "gen_addr (N_UNARY l oper a) s = Inr s'" for s s'
  proof -
    have "oper = CT_STAR" "gen_expr a s = Inr s'" using g by (auto simp: gen_addr_forms fail_def split: if_splits)
    with goodD(2) [OF a ok this(2)] show ?thesis
      by (auto simp: m_addr_def m_expr_def caddr.simps fun_eq_iff elim!: compiles_less)
  qed
  have "compiles s s' (m_expr (N_UNARY l oper a))"
    if ok: "static_ok s" and g: "gen_expr (N_UNARY l oper a) s = Inr s'" for s s'
  proof -
    consider (amp) "oper = CT_AMP" | (star) "oper = CT_STAR" | (other) "oper \<noteq> CT_AMP" "oper \<noteq> CT_STAR" by blast
    then show ?thesis
    proof cases
      case amp
      with g have "gen_addr a s = Inr s'" by (simp add: gen_expr_forms)
      from goodD(1) [OF a ok this] show ?thesis
        by (rule compiles_less) (simp add: m_expr_def m_addr_def ceval.simps amp)
    next
      case star
      with g obtain s1 where 1: "gen_addr (N_UNARY l oper a) s = Inr s1" and s': "s' = emit ''LOAD R0, [R0+0]'' s1"
        by (auto simp only: gen_expr_forms res_bind_Inr_iff sum.inject if_True if_False ctoktype.distinct simp_thms)
      have "compiles s s' (andthen (m_addr (N_UNARY l oper a)) m_load)"
        using compiles_seq [OF addr [OF ok 1] piece_load] by (simp only: s' puts)
      then show ?thesis
        by (rule compiles_less) (auto simp: m_expr_def m_addr_def m_load_def andthen_def ceval.simps caddr.simps star
            Option.bind_eq_Some_conv split: prod.splits)
    next
      case other
      with g obtain s1 where 1: "gen_expr a s = Inr s1"
        and s': "(if oper = CT_MINUS then Inr (emits_all [''LOADI R1, 0'', ''SUB R1, R0'', ''MOV R0, R1''] s1)
         else if oper = CT_TILDE then Inr (emit ''NOT R0'' s1)
         else if oper = CT_BANG then
           Inr (let (le, s) = newlabel s1 in
                emit_label le (emit ''LOADI R0, 1'' (emitj ''JNZ'' le
                  (emits_all [''AND R0, R0'', ''LOADI R0, 0''] s))))
         else fail l ''unsupported unary operator'') = Inr s'"
        by (simp only: gen_expr_forms res_bind_Inr_iff if_False) blast
      have "compiles s1 s' (m_unary oper)"
        using s' piece_minus [of s1] piece_tilde [of s1] compiles_bang [of s' s1]
        by (auto simp only: fail_def sum.inject sum.distinct split: if_splits)
      from compiles_seq [OF goodD(2) [OF a ok 1] this] show ?thesis
        by (rule compiles_less) (use other in \<open>auto simp: m_expr_def m_unary_def andthen_def ceval.simps
            Option.bind_eq_Some_conv split: prod.splits\<close>)
    qed
  qed
  with addr show ?thesis by (simp add: good_def)
qed

lemma good_binary:
  assumes a: "good a" and b: "good b"
  shows "good (N_BINARY l oper a b)"
proof -
  have "compiles s s' (m_expr (N_BINARY l oper a b))"
    if ok: "static_ok s" and g: "gen_binary l oper a b s = Inr s'" for s s'
  proof -
    consider (andand) "oper = CT_ANDAND" | (oror) "oper = CT_OROR"
      | (cmp) "is_cmp_op oper" "oper \<noteq> CT_ANDAND" "oper \<noteq> CT_OROR"
      | (other) "\<not> is_cmp_op oper" "oper \<noteq> CT_ANDAND" "oper \<noteq> CT_OROR" by blast
    then show ?thesis
    proof cases
      case andand
      then have "gen_and a b s = Inr s'" using g by (simp add: gen_binary.simps)
      from good_and [OF a b ok this] show ?thesis
        by (rule compiles_less)
          (auto simp: m_expr_def m_short_def ceval.simps andand Option.bind_eq_Some_conv split: prod.splits if_splits)
    next
      case oror
      then have "gen_or a b s = Inr s'" using g by (simp add: gen_binary.simps)
      from good_or [OF a b ok this] show ?thesis
        by (rule compiles_less)
          (auto simp: m_expr_def m_short_def ceval.simps oror Option.bind_eq_Some_conv split: prod.splits if_splits)
    next
      case cmp
      with g obtain s1 s2 where 1: "gen_expr a s = Inr s1" and 2: "gen_expr b (emit ''PUSH R0'' s1) = Inr s2"
        and s': "(let s = emits_all [''POP R1'', ''SUB R1, R0'', ''LOADI R0, 0''] s2;
           (lset, s) = newlabel s; (ldone, s) = newlabel s
          in case cmp_jumps oper of
            None \<Rightarrow> fail l ''bad comparison''
          | Some js \<Rightarrow>
              Inr (emit_label ldone (emit ''LOADI R0, 1'' (emit_label lset (emitj ''JMP'' ldone
                (fold (\<lambda>j. emitj j lset) js s)))))) = Inr s'"
        by (simp only: gen_binary.simps gen_cmp.simps res_bind_Inr_iff if_False if_True) blast
      from cmp(1) obtain js where js: "cmp_jumps oper = Some js"
        by (cases oper) (simp_all add: cmp_jumps_def is_cmp_op_def)
      have t: "compiles s2 s' (m_binary oper)"
        by (rule compiles_cmp_tail [OF cmp(1) js])
          (use s' in \<open>simp only: js option.case Let_def newlabel_eq prod.case sum.inject\<close>)
      show ?thesis
        by (rule compiles_less [OF good_operands [OF goodD(2) [OF a ok 1] b 2 t ok]], unfold m_binary_def)
          (use cmp in \<open>auto simp: m_expr_def ceval.simps Option.bind_eq_Some_conv intro!: m_two_operands [where
            m = "\<lambda>E fp r7 \<sigma>. ceval E fp r7 a \<sigma>"] split: prod.splits\<close>)
    next
      case other
      with g obtain s1 s2 where 1: "gen_expr a s = Inr s1" and 2: "gen_expr b (emit ''PUSH R0'' s1) = Inr s2"
        and s': "(let s = emit ''POP R1'' s2 in
          case binary_code oper of
            None \<Rightarrow> fail l ''unsupported binary operator''
          | Some code \<Rightarrow> Inr (emits_all code s)) = Inr s'"
        by (simp only: gen_binary.simps res_bind_Inr_iff if_False) blast
      from s' obtain code where code: "binary_code oper = Some code" "s' = emits_all code (emit ''POP R1'' s2)"
        by (cases "binary_code oper") (simp_all add: fail_def)
      have t: "compiles s2 s' (m_binary oper)" unfolding code(2) by (rule piece_binary [OF code(1)])
      show ?thesis
        by (rule compiles_less [OF good_operands [OF goodD(2) [OF a ok 1] b 2 t ok]], unfold m_binary_def)
          (use other in \<open>auto simp: m_expr_def ceval.simps Option.bind_eq_Some_conv intro!: m_two_operands [where
            m = "\<lambda>E fp r7 \<sigma>. ceval E fp r7 a \<sigma>"] split: prod.splits\<close>)
    qed
  qed
  then show ?thesis by (auto simp: good_def gen_expr_forms gen_addr.simps [of "N_BINARY l oper a b"] fail_def)
qed

lemma good_assign:
  assumes a: "good lhs" and b: "good b"
  shows "good (N_ASSIGN l lhs b)"
proof -
  have var: "compiles s s' (m_expr (N_ASSIGN l lhs b))"
    if ok: "static_ok s" and g: "gen_expr (N_ASSIGN l lhs b) s = Inr s'" and lhs: "lhs = N_VAR vl name" for s s' vl name
  proof -
    have c: "compiles s s' (m_expr (N_ASSIGN l lhs b))"
      if t: "compiles s1 s' (m_store_var name)" and 1: "gen_expr b s = Inr s1"
        and na: "\<And>E. e_var E = (\<lambda>n. cresolve n s) \<Longrightarrow> \<not> is_array_var E lhs" for s1
      by (rule compiles_less [OF compiles_seq [OF goodD(2) [OF b ok 1] t]])
        (auto simp: m_expr_def m_store_var_def andthen_def ceval.simps caddr.simps na [simplified lhs] lhs
          Option.bind_eq_Some_conv split: prod.splits)
    show ?thesis
    proof (cases "cresolve name s")
      case (Local off isa)
      then have "fits20 off" using ok by (auto simp: static_ok_def)
      from g Local obtain s1 where 1: "gen_expr b s = Inr s1" "\<not> isa"
        and s': "s' = emit (''STORE [R6'' @ fmt_plus off @ ''], R0'') s1"
        by (auto simp: gen_expr_forms res_bind_Inr_iff lhs fail_def split: if_splits)
      have "cresolve name s1 = Local off isa" using Local compiles_tables [OF goodD(2) [OF b ok 1(1)]] by simp
      then show ?thesis unfolding s'
        by (intro c [OF _ 1(1), unfolded s'] compiles_local_store) (use \<open>fits20 off\<close> 1(2) Local in \<open>auto simp: is_array_var_def lhs\<close>)
    next
      case (Global isa)
      then have "label_ok name" using ok by (auto simp: static_ok_def)
      from g Global obtain s1 where 1: "gen_expr b s = Inr s1" "\<not> isa"
        and s': "s' = emits_all [''LOADI R1, '' @ name, ''STORE [R1+0], R0''] s1"
        by (auto simp only: gen_expr_forms res_bind_Inr_iff lhs fail_def cnode.case cvar.case sum.inject sum.distinct
            split: if_splits)
      have "cresolve name s1 = Global isa" using Global compiles_tables [OF goodD(2) [OF b ok 1(1)]] by simp
      then show ?thesis unfolding s'
        by (intro c [OF _ 1(1), unfolded s'] compiles_global_store) (use \<open>label_ok name\<close> 1(2) Global in \<open>auto simp: is_array_var_def lhs\<close>)
    qed (use g in \<open>simp add: gen_expr_forms lhs fail_def\<close>)
  qed
  have other: "compiles s s' (m_expr (N_ASSIGN l lhs b))"
    if ok: "static_ok s" and g: "gen_expr (N_ASSIGN l lhs b) s = Inr s'" and lhs: "\<And>vl name. lhs \<noteq> N_VAR vl name" for s s'
  proof -
    obtain s1 s2 where 1: "gen_addr lhs s = Inr s1" and 2: "gen_expr b (emit ''PUSH R0'' s1) = Inr s2"
      and s': "s' = emits_all [''POP R1'', ''STORE [R1+0], R0''] s2"
      using g lhs by (cases lhs) (auto simp only: gen_expr_forms res_bind_Inr_iff fail_def cnode.case sum.inject
          sum.distinct split: if_splits)
    have na: "\<not> is_array_var E lhs" for E using lhs by (auto simp: is_array_var_def split: cnode.splits)
    have nv: "(case lhs of N_VAR _ _ \<Rightarrow> True | _ \<Rightarrow> False) = False" using lhs by (auto split: cnode.split)
    have ev: "ceval E fp r7 (N_ASSIGN l lhs b) \<sigma> = Option.bind (caddr E fp r7 lhs \<sigma>) (\<lambda>(a, \<sigma>).
        Option.bind (ceval E fp r7 b \<sigma>) (\<lambda>(v, \<sigma>). map_option (\<lambda>\<sigma>. (v, \<sigma>)) (cstore E a v \<sigma>)))" for E fp r7 \<sigma>
      by (subst ceval.simps) (simp add: na nv map_conv_bind_option comp_def)
    show ?thesis unfolding s'
    proof (rule compiles_less [OF good_operands [OF goodD(1) [OF a ok 1] b 2 piece_store ok]], unfold m_store_def)
      fix E fp x y
      assume "m_expr (N_ASSIGN l lhs b) E fp x = Some y"
      then show "andthen (andthen (andthen (m_addr lhs) m_push) (m_expr b))
          (m_two (\<lambda>E a v \<sigma>. map_option (\<lambda>\<sigma>. (v, \<sigma>)) (cstore E a v \<sigma>))) E fp x = Some y"
        unfolding m_expr_def [of "N_ASSIGN l lhs b"] ev
        by (auto intro!: m_two_operands [where m = "\<lambda>E fp r7 \<sigma>. caddr E fp r7 lhs \<sigma>"] simp: m_addr_def split: prod.splits)
    qed
  qed
  have "compiles s s' (m_expr (N_ASSIGN l lhs b))"
    if "static_ok s" "gen_expr (N_ASSIGN l lhs b) s = Inr s'" for s s'
    using that var other by (cases "\<exists>vl name. lhs = N_VAR vl name") blast+
  then show ?thesis by (simp add: good_def gen_addr.simps [of "N_ASSIGN l lhs b"] fail_def)
qed

subsection \<open>Calls\<close>

definition m_arg :: "cenv \<Rightarrow> u32 \<Rightarrow> mid \<Rightarrow> mid option" where
  "m_arg E fp x = (case x of
     (Some v, p, r7, \<sigma>) \<Rightarrow> map_option (\<lambda>\<sigma>. (None, p, r7 - 4, \<sigma>)) (cstore E (r7 - 4) v \<sigma>) | _ \<Rightarrow> None)"

lemma piece_arg: "compiles s (emits_all [''LOADI R1, 4'', ''SUB R7, R1'', ''STORE [R7+0], R0''] s) m_arg"
proof -
  have "compiles s (fold put [AIns OP_LOADI 1 0 4, AIns OP_SUB 7 1 0, AIns OP_STORE 7 0 0] s) m_arg"
    by (rule compiles_puts)
      (auto simp: m_arg_def cstore_def sees_def line_step split: if_splits option.splits)
  then show ?thesis by (simp only: emits_all.simps puts fold_simps)
qed

lemma compiles_args:
  assumes "\<forall>a \<in> set as. good a" "static_ok s" "gen_args as s = Inr s'"
  shows "compiles s s' (m_args as)"
  using assms
proof (induction as arbitrary: s s')
  case Nil
  have "compiles s (fold put [] s) (m_args [])"
    by (rule compiles_puts) (auto simp: m_args_def cargs.simps sees_def)
  with Nil.prems(3) show ?case by (simp add: gen_args.simps)
next
  case (Cons a as)
  from Cons.prems(3) obtain s1 s2 where 1: "gen_args as s = Inr s1" and 2: "gen_expr a s1 = Inr s2"
    and s': "s' = emits_all [''LOADI R1, 4'', ''SUB R7, R1'', ''STORE [R7+0], R0''] s2"
    by (auto simp only: gen_args.simps res_bind_Inr_iff sum.inject)
  have as: "compiles s s1 (m_args as)" using Cons.IH [OF _ Cons.prems(2) 1] Cons.prems(1) by simp
  have ok1: "static_ok s1" using compiles_tables [OF as] Cons.prems(2) by simp
  have "compiles s1 s2 (m_expr a)" using goodD(2) [OF _ ok1 2] Cons.prems(1) by simp
  from compiles_seq [OF as compiles_seq [OF this piece_arg]] show ?case
    unfolding s'
    by (rule compiles_less) (auto simp: m_args_def m_expr_def m_arg_def andthen_def cargs.simps(2)
        Option.bind_eq_Some_conv split: prod.splits)
qed

lemma cargs_r7: "cargs E fp r7 as \<sigma> = Some (s7, \<sigma>') \<Longrightarrow> s7 = r7 - 4 * of_nat (length as)"
proof (induction as arbitrary: s7 \<sigma>')
  case (Cons a as)
  then show ?case by (auto simp: cargs.simps(2) Option.bind_eq_Some_conv algebra_simps)
qed (simp add: cargs.simps)

text \<open>A call of a function, with the arguments on the stack.\<close>

definition m_fn :: "string \<Rightarrow> cenv \<Rightarrow> u32 \<Rightarrow> mid \<Rightarrow> mid option" where
  "m_fn name E fp x = (case x of (r, p, s7, \<sigma>) \<Rightarrow>
     map_option (\<lambda>(r, \<sigma>). (r, p, s7, \<sigma>)) (e_fn E name fp s7 \<sigma>))"

lemma compiles_call:
  assumes "func_find name s = Some np" "static_ok s"
  shows "compiles s (emit (''CALL '' @ name) s) (m_fn name)"
  unfolding compiles_def does_def
proof (intro exI conjI allI impI)
  have "label_ok name" using assms by (auto simp: static_ok_def)
  then have "wrote s (fold put [AJump OP_CALL name] s) [AJump OP_CALL name]"
    by (intro wrote_puts) simp
  then show "wrote s (emit (''CALL '' @ name) s) [AJump OP_CALL name]" by (simp only: puts fold_simps)
  fix E prog i fp st K x y
  assume l: "linked E prog s" and a: "at prog i [AJump OP_CALL name]" and st: "sees i fp K x st"
    and y: "m_fn name E fp x = Some y"
  obtain r p s7 \<sigma> where x: "x = (r, p, s7, \<sigma>)" by (cases x)
  with y obtain r' \<sigma>' where r': "e_fn E name fp s7 \<sigma> = Some (r', \<sigma>')" "y = (r', p, s7, \<sigma>')"
    by (auto simp: m_fn_def)
  from l assms(1) obtain k where k: "place name prog = Some k" "fn_does E prog name k"
    unfolding linked_def by blast
  have i: "l_at st = i" using st by (rule sees_at)
  let ?st = "st\<lparr>l_at := k, l_stk := Ret (Suc (l_at st)) # l_stk st\<rparr>"
  have "sees k fp (Ret (Suc i) # map Val p @ K) (r, [], s7, \<sigma>) ?st" using st i by (simp add: sees_def x)
  with k(2) r'(1) have "runs_to (e_line E) prog ?st (sees (Suc i) fp (map Val p @ K) (r', [], s7, \<sigma>'))"
    unfolding fn_does_def by blast
  moreover have "sees (Suc i) fp (map Val p @ K) (r', [], s7, \<sigma>') = sees (Suc i) fp K y"
    by (simp add: sees_def fun_eq_iff r')
  ultimately have "runs_to (e_line E) prog ?st (sees (i + length [AJump OP_CALL name]) fp K y)" by simp
  then show "runs_to (e_line E) prog st (sees (i + length [AJump OP_CALL name]) fp K y)"
    by (rule runs_to_call [OF a [folded i] k(1)])
qed

lemma compiles_pop_args:
  assumes "n < 100000"
  shows "compiles s (emits_all [''LOADI R1, '' @ fmt_base 10 (4 * n), ''ADD R7, R1''] s)
    (\<lambda>E fp x. case x of (r, p, s7, \<sigma>) \<Rightarrow> Some (r, p, s7 + 4 * of_nat n, \<sigma>))" (is "compiles _ _ ?f")
proof -
  have f: "fits20 (int (4 * n))" using assms by (simp add: fits20_def)
  have t: "fmt_base 10 (4 * n) = fmt_int (int (4 * n))" by (simp add: fmt_int_def nat_mult_distrib)
  have "compiles s (fold put [AIns OP_LOADI 1 0 (word_of_int (int (4 * n))), AIns OP_ADD 7 1 0] s) ?f"
    by (rule compiles_puts)
      (use imm_fits_fits20 [OF f] in \<open>auto simp: sees_def line_step\<close>)
  then show ?thesis by (simp only: t emits_all.simps put_immediate [OF f] puts fold_simps)
qed

lemma good_call_code:
  assumes as: "\<forall>a \<in> set as. good a" and ok: "static_ok s" and g: "gen_call l name as s = Inr s'"
  shows "compiles s s' (m_call name as)"
proof -
  consider (outp) "name = ''out''" | (inp) "name = ''in''" | (fn) "name \<noteq> ''out''" "name \<noteq> ''in''" by blast
  then show ?thesis
  proof cases
    case outp
    then obtain a s1 where a: "as = [a]" "gen_expr a s = Inr s1" and s': "s' = emit ''OUT R0'' s1"
      using g by (auto simp: gen_call.simps res_bind_Inr_iff fail_def split: list.splits)
    have "compiles s1 (fold put [AIns OP_OUT 0 0 0] s1)
        (\<lambda>E fp x. case x of (Some v, p, r7, \<sigma>) \<Rightarrow> Some (Some v, p, r7, c_out v \<sigma>) | _ \<Rightarrow> None)" (is "compiles _ _ ?f")
      by (rule compiles_puts) (auto simp: sees_def line_step c_out_def split: option.splits)
    then have "compiles s s' (andthen (m_expr a) ?f)"
      using compiles_seq [OF goodD(2) [OF _ ok a(2)]] as a(1) by (simp only: s' puts fold_simps) simp
    then show ?thesis
      by (rule compiles_less) (auto simp: m_call_def m_expr_def andthen_def ccall.simps outp a(1)
          Option.bind_eq_Some_conv split: prod.splits)
  next
    case inp
    have "compiles s (fold put [AIns OP_IN 0 0 0] s) (m_call name as)"
      by (rule compiles_puts) (auto simp: m_call_def sees_def line_step ccall.simps inp c_in_def Let_def)
    then show ?thesis using g by (simp add: gen_call.simps inp puts)
  next
    case fn
    then obtain np where np: "func_find name s = Some np" "length as = np"
      using g by (auto simp: gen_call.simps fail_def split: option.splits if_splits)
    then obtain s1 where 1: "gen_args as s = Inr s1"
      and s': "s' = (if as \<noteq> [] then emits_all [''LOADI R1, '' @ fmt_base 10 (4 * length as), ''ADD R7, R1'']
          (emit (''CALL '' @ name) s1) else emit (''CALL '' @ name) s1)"
      using g fn by (auto simp only: gen_call.simps res_bind_Inr_iff option.case if_False Let_def sum.inject simp_thms)
    have args: "compiles s s1 (m_args as)" by (rule compiles_args [OF as ok 1])
    have "static_ok s1" "func_find name s1 = Some np" using compiles_tables [OF args] ok np(1) by simp_all
    then have call: "compiles s1 (emit (''CALL '' @ name) s1) (m_fn name)" by (intro compiles_call)
    have small: "length as < 100000" using ok np by (auto simp: static_ok_def)
    let ?pop = "\<lambda>(E :: cenv) (fp :: u32) x. case x of (r, p, s7, \<sigma>) \<Rightarrow> Some (r, p, s7 + 4 * of_nat (length as), \<sigma>)"
    have pop: "compiles (emit (''CALL '' @ name) s1) s' ?pop"
    proof (cases "as = []")
      case True
      have "compiles (emit (''CALL '' @ name) s1) (fold put [] (emit (''CALL '' @ name) s1)) ?pop"
        by (rule compiles_puts) (auto simp: True)
      then show ?thesis using True s' by simp
    next
      case False
      then show ?thesis using s' compiles_pop_args [OF small] by simp
    qed
    from compiles_seq [OF compiles_seq [OF args call] pop] show ?thesis
      by (rule compiles_less) (auto simp: m_call_def m_args_def m_fn_def andthen_def ccall.simps fn
          Option.bind_eq_Some_conv split: prod.splits, drule cargs_r7, simp)
  qed
qed

lemma good_call: "\<forall>a \<in> set as. good a \<Longrightarrow> good (N_CALL l name as)"
proof -
  assume as: "\<forall>a \<in> set as. good a"
  have "compiles s s' (m_expr (N_CALL l name as))"
    if "static_ok s" "gen_call l name as s = Inr s'" for s s'
    by (rule compiles_less [OF good_call_code [OF as that]])
      (auto simp: m_expr_def m_call_def ceval.simps Option.bind_eq_Some_conv split: prod.splits)
  then show ?thesis by (simp add: good_def gen_expr_forms gen_addr.simps [of "N_CALL l name as"] fail_def)
qed

lemma good_not_expr:
  assumes "gen_addr n = (\<lambda>s. fail (node_line n) ''not an lvalue'')" "gen_expr n = (\<lambda>s. fail (node_line n) ''unsupported expression'')"
  shows "good n"
  by (simp add: good_def assms fail_def)

lemma good_others:
  "good (N_PROGRAM l ds)" "good (N_FUNC l name v ps bd)" "good (N_PARAM l name ptr)"
  "good (N_VARDECL l name ptr arr sz a)" "good (N_BLOCK l ks)" "good (N_IF l x y z)" "good (N_WHILE l x y)"
  "good (N_FOR l w e y' x)" "good (N_RETURN l e)" "good (N_EXPRSTMT l x)"
  by (rule good_not_expr; simp add: fun_eq_iff gen_addr.simps gen_expr.simps)+

lemma good_all: "good n"
  by (induction n)
    (simp_all add: good_int good_var good_index good_unary good_binary good_assign good_call good_others)

lemma gen_expr_correct: "static_ok s \<Longrightarrow> gen_expr n s = Inr s' \<Longrightarrow> compiles s s' (m_expr n)"
  using goodD(2) good_all by blast

lemma gen_call_correct: "static_ok s \<Longrightarrow> gen_call l name as s = Inr s' \<Longrightarrow> compiles s s' (m_call name as)"
  using good_call_code good_all by blast

end
