(* ===== verification/CGenStmt.thy ===== *)
theory CGenStmt
  imports CStmt CGenCorrect
begin

text \<open>
  The code generator is correct on statements: from the first line of a statement's code the machine
  reaches the line after it, or the function's epilogue with the returned value in R0, with the
  memory and console of the reference semantics. Loops are by induction on their fuel.
\<close>

subsection \<open>Code with two exits\<close>

text \<open>Where a statement's code goes: on, or to the epilogue at \<open>ke\<close>.\<close>

definition ends :: "nat \<Rightarrow> nat \<Rightarrow> u32 \<Rightarrow> sval list \<Rightarrow> u32 list \<Rightarrow> u32 \<Rightarrow> creturn \<times> cstate \<Rightarrow> lstate \<Rightarrow> bool" where
  "ends j ke fp K p r7 out = (case out of
     (Continue, \<sigma>) \<Rightarrow> sees j fp K (None, p, r7, \<sigma>) | (Return r, \<sigma>) \<Rightarrow> sees ke fp K (r, p, r7, \<sigma>))"

lemma ends_simps [simp]:
  "ends j ke fp K p r7 (Continue, \<sigma>) = sees j fp K (None, p, r7, \<sigma>)"
  "ends j ke fp K p r7 (Return r, \<sigma>) = sees ke fp K (r, p, r7, \<sigma>)"
  by (simp_all add: ends_def)

definition executes ::
  "cenv \<Rightarrow> aline list \<Rightarrow> nat \<Rightarrow> nat \<Rightarrow> nat \<Rightarrow> u32 \<Rightarrow> u32 \<Rightarrow> (cstate \<Rightarrow> (creturn \<times> cstate) option) \<Rightarrow> bool" where
  "executes E prog i j ke fp r7 f = (\<forall>st K p \<sigma> out. sees i fp K (None, p, r7, \<sigma>) st \<longrightarrow> f \<sigma> = Some out \<longrightarrow>
     runs_to (e_line E) prog st (ends j ke fp K p r7 out))"

definition performs ::
  "cgstate \<Rightarrow> cgstate \<Rightarrow> (cenv \<Rightarrow> u32 \<Rightarrow> u32 \<Rightarrow> cstate \<Rightarrow> (creturn \<times> cstate) option) \<Rightarrow> bool" where
  "performs s s' f = (\<exists>als. wrote s s' als \<and>
     (\<forall>E prog i ke fp r7. linked E prog s \<longrightarrow> at prog i als \<longrightarrow> place (cg_epi s) prog = Some ke \<longrightarrow>
        executes E prog i (i + length als) ke fp r7 (f E fp r7)))"

lemma sees_forget: "sees i fp K (r, p, r7, \<sigma>) st \<Longrightarrow> sees i fp K (None, p, r7, \<sigma>) st"
  by (simp add: sees_def)

lemma performs_tables:
  "performs s s' f \<Longrightarrow> static_ok s' = static_ok s \<and> linked E prog s' = linked E prog s \<and> cg_epi s' = cg_epi s
    \<and> cresolve name s' = cresolve name s \<and> sym_find name s' = sym_find name s \<and> cg_label s \<le> cg_label s'"
  unfolding performs_def
proof (elim exE conjE)
  fix als assume w: "wrote s s' als"
  show "static_ok s' = static_ok s \<and> linked E prog s' = linked E prog s \<and> cg_epi s' = cg_epi s
    \<and> cresolve name s' = cresolve name s \<and> sym_find name s' = sym_find name s \<and> cg_label s \<le> cg_label s'"
    using wrote_tables [OF w] wrote_fields [OF w] by (simp add: sym_find_def)
qed

lemma performs_facts:
  assumes "performs s s' f"
  shows "static_ok s' = static_ok s" "cg_epi s' = cg_epi s" "cg_label s \<le> cg_label s'"
  using performs_tables [OF assms] by simp_all

lemma performs_less:
  assumes "performs s s' f"
    and "\<And>E fp r7 \<sigma> y. e_var E = (\<lambda>name. cresolve name s) \<Longrightarrow> g E fp r7 \<sigma> = Some y \<Longrightarrow> f E fp r7 \<sigma> = Some y"
  shows "performs s s' g"
  using assms unfolding performs_def executes_def linked_def by meson

lemma performs_bump: "performs (bump s) s' f \<Longrightarrow> performs s s' f"
  unfolding performs_def by (auto simp: wrote_def)

lemma performs_skip: "performs s s (\<lambda>E fp r7 \<sigma>. Some (Continue, \<sigma>))"
  unfolding performs_def executes_def by (auto intro!: exI [of _ "[]"] runs_to_here)

lemma performs_piece:
  assumes "compiles s s' m"
  shows "performs s s' (\<lambda>E fp r7 \<sigma>. case m E fp (None, [], r7, \<sigma>) of
    Some (r, [], q7, \<sigma>) \<Rightarrow> if q7 = r7 then Some (Continue, \<sigma>) else None | _ \<Rightarrow> None)"
  unfolding performs_def executes_def
proof -
  obtain als where w: "wrote s s' als"
    and d: "\<And>E prog i fp. linked E prog s \<Longrightarrow> at prog i als \<Longrightarrow> does E prog i (i + length als) fp (m E fp)"
    using assms unfolding compiles_def by blast
  have "runs_to (e_line E) prog st (ends (i + length als) ke fp K p r7 out)"
    if l: "linked E prog s" "at prog i als" and st: "sees i fp K (None, p, r7, \<sigma>) st"
      and f: "(case m E fp (None, [], r7, \<sigma>) of
        Some (r, [], q7, \<sigma>) \<Rightarrow> if q7 = r7 then Some (Continue, \<sigma>) else None | _ \<Rightarrow> None) = Some out"
    for E prog i ke fp r7 st K p \<sigma> out
  proof -
    obtain r \<sigma>' where m: "m E fp (None, [], r7, \<sigma>) = Some (r, [], r7, \<sigma>')" "out = (Continue, \<sigma>')"
      using f by (auto split: option.splits prod.splits list.splits if_splits)
    have "sees i fp (map Val p @ K) (None, [], r7, \<sigma>) st" using st by (simp add: sees_def)
    then show ?thesis
      by (rule does_run [OF d [OF l] _ m(1)], intro runs_to_here) (simp add: m(2) sees_def)
  qed
  with w show "\<exists>als. wrote s s' als \<and> (\<forall>E prog i ke fp r7. linked E prog s \<longrightarrow> at prog i als \<longrightarrow>
      place (cg_epi s) prog = Some ke \<longrightarrow> (\<forall>st K p \<sigma> out. sees i fp K (None, p, r7, \<sigma>) st \<longrightarrow>
        (case m E fp (None, [], r7, \<sigma>) of
          Some (r, [], q7, \<sigma>) \<Rightarrow> if q7 = r7 then Some (Continue, \<sigma>) else None | _ \<Rightarrow> None) = Some out \<longrightarrow>
        runs_to (e_line E) prog st (ends (i + length als) ke fp K p r7 out)))"
    by blast
qed

lemma executes_run:
  "executes E prog i j ke fp r7 f \<Longrightarrow> sees i fp K (None, p, r7, \<sigma>) st \<Longrightarrow> f \<sigma> = Some out \<Longrightarrow>
   (\<And>st'. ends j ke fp K p r7 out st' \<Longrightarrow> runs_to (e_line E) prog st' Q) \<Longrightarrow> runs_to (e_line E) prog st Q"
  unfolding executes_def by (blast intro: runs_to_trans)

lemma executes_last:
  "executes E prog i j ke fp r7 f \<Longrightarrow> sees i fp K (None, p, r7, \<sigma>) st \<Longrightarrow> f \<sigma> = Some out \<Longrightarrow>
   runs_to (e_line E) prog st (ends j ke fp K p r7 out)"
  unfolding executes_def by blast

text \<open>One statement after the other.\<close>

lemma performs_seq:
  assumes f: "performs s s1 f" and g: "performs s1 s2 g"
  shows "performs s s2 (\<lambda>E fp r7 \<sigma>. Option.bind (f E fp r7 \<sigma>) (\<lambda>(r, \<sigma>).
    case r of Return v \<Rightarrow> Some (Return v, \<sigma>) | Continue \<Rightarrow> g E fp r7 \<sigma>))" (is "performs _ _ ?h")
proof -
  obtain als bls where w: "wrote s s1 als" "wrote s1 s2 bls"
    and F: "\<And>E prog i ke fp r7. linked E prog s \<Longrightarrow> at prog i als \<Longrightarrow> place (cg_epi s) prog = Some ke \<Longrightarrow>
        executes E prog i (i + length als) ke fp r7 (f E fp r7)"
    and G: "\<And>E prog i ke fp r7. linked E prog s1 \<Longrightarrow> at prog i bls \<Longrightarrow> place (cg_epi s1) prog = Some ke \<Longrightarrow>
        executes E prog i (i + length bls) ke fp r7 (g E fp r7)"
    using f g unfolding performs_def by blast
  have "executes E prog i (i + length (als @ bls)) ke fp r7 (?h E fp r7)"
    if l: "linked E prog s" and a: "at prog i (als @ bls)" and e: "place (cg_epi s) prog = Some ke"
    for E prog i ke fp r7
    unfolding executes_def
  proof (intro allI impI)
    fix st K p \<sigma> out assume st: "sees i fp K (None, p, r7, \<sigma>) st" and h: "?h E fp r7 \<sigma> = Some out"
    from h obtain r \<sigma>1 where f1: "f E fp r7 \<sigma> = Some (r, \<sigma>1)" by (auto simp: Option.bind_eq_Some_conv)
    have a2: "at prog i als" "at prog (i + length als) bls" using a by (simp_all add: at_append)
    have l1: "linked E prog s1" "place (cg_epi s1) prog = Some ke"
      using l e performs_tables [OF f] by simp_all
    show "runs_to (e_line E) prog st (ends (i + length (als @ bls)) ke fp K p r7 out)"
    proof (rule executes_run [OF F [OF l a2(1) e] st f1])
      fix t assume t: "ends (i + length als) ke fp K p r7 (r, \<sigma>1) t"
      show "runs_to (e_line E) prog t (ends (i + length (als @ bls)) ke fp K p r7 out)"
      proof (cases r)
        case Continue
        then have "g E fp r7 \<sigma>1 = Some out" "sees (i + length als) fp K (None, p, r7, \<sigma>1) t"
          using t h f1 by simp_all
        from executes_last [OF G [OF l1(1) a2(2) l1(2)] this(2,1)] show ?thesis by (simp add: add.assoc)
      next
        case (Return v)
        then show ?thesis using t h f1 by (auto intro: runs_to_here)
      qed
    qed
  qed
  then show ?thesis unfolding performs_def using wrote_trans [OF w] by blast
qed

subsection \<open>Conditions\<close>

text \<open>Code for a condition: on where it holds, to the label \<open>l\<close> where it does not.\<close>

definition branches ::
  "cgstate \<Rightarrow> cgstate \<Rightarrow> string \<Rightarrow> (cenv \<Rightarrow> u32 \<Rightarrow> u32 \<Rightarrow> cstate \<Rightarrow> (bool \<times> cstate) option) \<Rightarrow> bool" where
  "branches s s' l f = (\<exists>als. wrote s s' als \<and>
     (\<forall>E prog i kl fp r7 st K p \<sigma> t \<sigma>'. linked E prog s \<longrightarrow> at prog i als \<longrightarrow> place l prog = Some kl \<longrightarrow>
        sees i fp K (None, p, r7, \<sigma>) st \<longrightarrow> f E fp r7 \<sigma> = Some (t, \<sigma>') \<longrightarrow>
        runs_to (e_line E) prog st (sees (if t then i + length als else kl) fp K (None, p, r7, \<sigma>'))))"

lemma branches_tables:
  "branches s s' l f \<Longrightarrow> static_ok s' = static_ok s \<and> linked E prog s' = linked E prog s \<and> cg_epi s' = cg_epi s
    \<and> cg_label s \<le> cg_label s'"
  unfolding branches_def
proof (elim exE conjE)
  fix als assume w: "wrote s s' als"
  show "static_ok s' = static_ok s \<and> linked E prog s' = linked E prog s \<and> cg_epi s' = cg_epi s \<and> cg_label s \<le> cg_label s'"
    using wrote_tables [OF w] wrote_fields [OF w] by simp
qed

lemma branches_facts:
  assumes "branches s s' l f"
  shows "static_ok s' = static_ok s" "cg_epi s' = cg_epi s" "cg_label s \<le> cg_label s'"
  using branches_tables [OF assms] by simp_all

lemma branches_true: "branches s s l (\<lambda>E fp r7. ccond E fp r7 None)"
  unfolding branches_def ccond_def by (auto intro!: exI [of _ "[]"] runs_to_here)

lemma branches_expr:
  assumes "static_ok s" "gen_cond_false e l s = Inr s'" "l < cg_label s"
  shows "branches s s' (label_name l) (\<lambda>E fp r7. ccond E fp r7 (Some e))"
proof -
  let ?test = "[AIns OP_AND 0 0 0, AJump OP_JZ (label_name l)]"
  from assms(2) obtain s1 where 1: "gen_expr e s = Inr s1" and s': "s' = emitj ''JZ'' l (emit ''AND R0, R0'' s1)"
    by (auto simp only: gen_cond_false_def res_bind_Inr_iff sum.inject)
  from gen_expr_correct [OF assms(1) 1] obtain als where w: "wrote s s1 als"
    and d: "\<And>E prog i fp. linked E prog s \<Longrightarrow> at prog i als \<Longrightarrow> does E prog i (i + length als) fp (m_expr e E fp)"
    unfolding compiles_def by blast
  have "wrote s1 (put (AJump OP_JZ (label_name l)) (put (AIns OP_AND 0 0 0) s1)) ?test"
    using short_wrote [OF w assms(3)] by simp
  then have w2: "wrote s s' (als @ ?test)" unfolding s' puts using wrote_trans [OF w] by blast
  have "runs_to (e_line E) prog st (sees (if t then i + length (als @ ?test) else kl) fp K (None, p, r7, \<sigma>'))"
    if l: "linked E prog s" and a: "at prog i (als @ ?test)" and k: "place (label_name l) prog = Some kl"
      and st: "sees i fp K (None, p, r7, \<sigma>) st" and f: "ccond E fp r7 (Some e) \<sigma> = Some (t, \<sigma>')"
    for E prog i kl fp r7 st K p \<sigma> t \<sigma>'
  proof -
    from f obtain v where v: "m_expr e E fp (None, p, r7, \<sigma>) = Some (Some v, p, r7, \<sigma>')" "t = (v \<noteq> 0)"
      by (auto simp: ccond_def m_expr_def)
    have at: "at prog i als" "at prog (i + length als) ?test" using a by (simp_all add: at_append)
    show ?thesis
    proof (rule does_run [OF d [OF l at(1)] st v(1)], rule test_run [OF at(2) _ k], simp, assumption)
      fix st' assume "sees (if (v = 0) = (OP_JZ = OP_JZ) then kl else i + length als + 2) fp K (Some v, p, r7, \<sigma>') st'"
      then have "sees (if t then i + length (als @ ?test) else kl) fp K (Some v, p, r7, \<sigma>') st'"
        using v(2) by (auto simp: add.assoc split: if_splits)
      then show "runs_to (e_line E) prog st' (sees (if t then i + length (als @ ?test) else kl) fp K (None, p, r7, \<sigma>'))"
        by (intro runs_to_here) (rule sees_forget)
    qed
  qed
  with w2 show ?thesis unfolding branches_def by blast
qed

lemma branches_run:
  assumes "runs_to E prog st (sees j fp K x)"
    and "\<And>st'. sees j fp K x st' \<Longrightarrow> runs_to E prog st' Q"
  shows "runs_to E prog st Q"
  using assms by (rule runs_to_trans)

text \<open>The parts of an emitted piece, and what they promise at a place in a program.\<close>

lemma performsE:
  assumes "performs s s' f"
  obtains als where "wrote s s' als"
    and "\<And>E prog i ke fp r7. linked E prog s \<Longrightarrow> at prog i als \<Longrightarrow> place (cg_epi s) prog = Some ke \<Longrightarrow>
      executes E prog i (i + length als) ke fp r7 (f E fp r7)"
  using assms unfolding performs_def by blast

lemma branchesE:
  assumes "branches s s' l f"
  obtains als where "wrote s s' als"
    and "\<And>E prog i kl fp r7 st K p \<sigma> t \<sigma>'. linked E prog s \<Longrightarrow> at prog i als \<Longrightarrow> place l prog = Some kl \<Longrightarrow>
        sees i fp K (None, p, r7, \<sigma>) st \<Longrightarrow> f E fp r7 \<sigma> = Some (t, \<sigma>') \<Longrightarrow>
        runs_to (e_line E) prog st (sees (if t then i + length als else kl) fp K (None, p, r7, \<sigma>'))"
  using assms unfolding branches_def by blast

lemma performsI:
  assumes "wrote s s' als"
    and "\<And>E prog i ke fp r7 st K p \<sigma> r \<sigma>'. linked E prog s \<Longrightarrow> at prog i als \<Longrightarrow> place (cg_epi s) prog = Some ke \<Longrightarrow>
      distinct (marks prog) \<Longrightarrow> sees i fp K (None, p, r7, \<sigma>) st \<Longrightarrow> f E fp r7 \<sigma> = Some (r, \<sigma>') \<Longrightarrow>
      runs_to (e_line E) prog st (ends (i + length als) ke fp K p r7 (r, \<sigma>'))"
  shows "performs s s' f"
  using assms unfolding performs_def executes_def linked_def by force

lemma performs_if:
  assumes f: "branches s s1 l f" and g: "performs s1 s2 g" and w: "wrote s2 s3 [AJump OP_JMP l', AMark l]"
    and h: "performs s3 s4 h" and w': "wrote s4 s' [AMark l']"
  shows "performs s s' (\<lambda>E fp r7 \<sigma>. Option.bind (f E fp r7 \<sigma>) (\<lambda>(t, \<sigma>). if t then g E fp r7 \<sigma> else h E fp r7 \<sigma>))"
proof -
  obtain als where wf: "wrote s s1 als"
    and F: "\<And>E prog i kl fp r7 st K p \<sigma> t \<sigma>'. linked E prog s \<Longrightarrow> at prog i als \<Longrightarrow> place l prog = Some kl \<Longrightarrow>
        sees i fp K (None, p, r7, \<sigma>) st \<Longrightarrow> f E fp r7 \<sigma> = Some (t, \<sigma>') \<Longrightarrow>
        runs_to (e_line E) prog st (sees (if t then i + length als else kl) fp K (None, p, r7, \<sigma>'))"
    using branchesE [OF f] by blast
  obtain bls where wg: "wrote s1 s2 bls"
    and G: "\<And>E prog i ke fp r7. linked E prog s1 \<Longrightarrow> at prog i bls \<Longrightarrow> place (cg_epi s1) prog = Some ke \<Longrightarrow>
      executes E prog i (i + length bls) ke fp r7 (g E fp r7)"
    using performsE [OF g] by blast
  obtain cls where wh: "wrote s3 s4 cls"
    and H: "\<And>E prog i ke fp r7. linked E prog s3 \<Longrightarrow> at prog i cls \<Longrightarrow> place (cg_epi s3) prog = Some ke \<Longrightarrow>
      executes E prog i (i + length cls) ke fp r7 (h E fp r7)"
    using performsE [OF h] by blast
  let ?als = "als @ bls @ [AJump OP_JMP l', AMark l] @ cls @ [AMark l']"
  have "wrote s s' ?als"
    using wrote_trans [OF wf wrote_trans [OF wg wrote_trans [OF w wrote_trans [OF wh w']]]] .
  then show ?thesis
  proof (rule performsI)
    fix E prog i ke fp r7 st K p \<sigma> r \<sigma>'
    assume l: "linked E prog s" and a: "at prog i ?als" and e: "place (cg_epi s) prog = Some ke"
      and d: "distinct (marks prog)" and st: "sees i fp K (None, p, r7, \<sigma>) st"
      and v: "Option.bind (f E fp r7 \<sigma>) (\<lambda>(t, \<sigma>). if t then g E fp r7 \<sigma> else h E fp r7 \<sigma>) = Some (r, \<sigma>')"
    let ?i = "i + length als" let ?j = "?i + length bls" let ?k = "?j + 2 + length cls"
    let ?Q = "ends (i + length ?als) ke fp K p r7 (r, \<sigma>')"
    have at: "at prog i als" "at prog ?i bls" "at prog ?j [AJump OP_JMP l']" "at prog (?j + 1) [AMark l]"
      "at prog (?j + 2) cls" "at prog ?k [AMark l']"
      using a by (auto simp: at_append at_Cons eval_nat_numeral add.assoc)
    have pl: "place l prog = Some (?j + 1)" "place l' prog = Some ?k"
      using d at(4,6) by (auto simp: at_Cons intro: place_at)
    have l1: "linked E prog s1" "place (cg_epi s1) prog = Some ke" using l e branches_tables [OF f] by simp_all
    have l3: "linked E prog s3" "place (cg_epi s3) prog = Some ke"
      using l1 performs_tables [OF g] wrote_tables(4) [OF w] wrote_fields(4) [OF w] by simp_all
    have fin: "runs_to (e_line E) prog t ?Q" if t: "ends ?k ke fp K p r7 (r, \<sigma>') t" for t
    proof (cases r)
      case Continue
      with t have "sees ?k fp K (None, p, r7, \<sigma>') t" by simp
      then show ?thesis
        by (rule mark_run [OF at(6)], intro runs_to_here) (simp add: Continue add.assoc)
    qed (use t in \<open>simp add: runs_to_here\<close>)
    from v obtain t \<sigma>1 where t: "f E fp r7 \<sigma> = Some (t, \<sigma>1)"
      and v1: "(if t then g E fp r7 \<sigma>1 else h E fp r7 \<sigma>1) = Some (r, \<sigma>')"
      by (auto simp: Option.bind_eq_Some_conv)
    show "runs_to (e_line E) prog st ?Q"
    proof (rule branches_run [OF F [OF l at(1) pl(1) st t]])
      fix q assume q: "sees (if t then ?i else ?j + 1) fp K (None, p, r7, \<sigma>1) q"
      show "runs_to (e_line E) prog q ?Q"
      proof (cases t)
        case True
        with q v1 have q': "sees ?i fp K (None, p, r7, \<sigma>1) q" "g E fp r7 \<sigma>1 = Some (r, \<sigma>')" by simp_all
        show ?thesis
        proof (rule executes_run [OF G [OF l1(1) at(2) l1(2)] q'])
          fix q2 assume q2: "ends ?j ke fp K p r7 (r, \<sigma>') q2"
          show "runs_to (e_line E) prog q2 ?Q"
          proof (cases r)
            case Continue
            with q2 have "sees ?j fp K (None, p, r7, \<sigma>') q2" by simp
            then show ?thesis by (rule goto_run [OF at(3) pl(2)], intro fin) (simp add: Continue)
          qed (use q2 in \<open>simp add: runs_to_here\<close>)
        qed
      next
        case False
        with q v1 have q': "sees (?j + 1) fp K (None, p, r7, \<sigma>1) q" and h': "h E fp r7 \<sigma>1 = Some (r, \<sigma>')" by simp_all
        show ?thesis
        proof (rule mark_run [OF at(4) q'])
          fix q2 assume "sees (Suc (?j + 1)) fp K (None, p, r7, \<sigma>1) q2"
          then have q2: "sees (?j + 2) fp K (None, p, r7, \<sigma>1) q2" by simp
          show "runs_to (e_line E) prog q2 ?Q"
            by (rule executes_run [OF H [OF l3(1) at(5) l3(2)] q2 h']) (rule fin)
        qed
      qed
    qed
  qed
qed

lemma performs_if1:
  assumes f: "branches s s1 l f" and g: "performs s1 s2 g" and w: "wrote s2 s' [AMark l]"
  shows "performs s s' (\<lambda>E fp r7 \<sigma>. Option.bind (f E fp r7 \<sigma>)
    (\<lambda>(t, \<sigma>). if t then g E fp r7 \<sigma> else Some (Continue, \<sigma>)))"
proof -
  obtain als where wf: "wrote s s1 als"
    and F: "\<And>E prog i kl fp r7 st K p \<sigma> t \<sigma>'. linked E prog s \<Longrightarrow> at prog i als \<Longrightarrow> place l prog = Some kl \<Longrightarrow>
        sees i fp K (None, p, r7, \<sigma>) st \<Longrightarrow> f E fp r7 \<sigma> = Some (t, \<sigma>') \<Longrightarrow>
        runs_to (e_line E) prog st (sees (if t then i + length als else kl) fp K (None, p, r7, \<sigma>'))"
    using branchesE [OF f] by blast
  obtain bls where wg: "wrote s1 s2 bls"
    and G: "\<And>E prog i ke fp r7. linked E prog s1 \<Longrightarrow> at prog i bls \<Longrightarrow> place (cg_epi s1) prog = Some ke \<Longrightarrow>
      executes E prog i (i + length bls) ke fp r7 (g E fp r7)"
    using performsE [OF g] by blast
  let ?als = "als @ bls @ [AMark l]"
  have "wrote s s' ?als" using wrote_trans [OF wf wrote_trans [OF wg w]] .
  then show ?thesis
  proof (rule performsI)
    fix E prog i ke fp r7 st K p \<sigma> r \<sigma>'
    assume l: "linked E prog s" and a: "at prog i ?als" and e: "place (cg_epi s) prog = Some ke"
      and d: "distinct (marks prog)" and st: "sees i fp K (None, p, r7, \<sigma>) st"
      and v: "Option.bind (f E fp r7 \<sigma>) (\<lambda>(t, \<sigma>). if t then g E fp r7 \<sigma> else Some (Continue, \<sigma>)) = Some (r, \<sigma>')"
    let ?i = "i + length als" let ?j = "?i + length bls"
    let ?Q = "ends (i + length ?als) ke fp K p r7 (r, \<sigma>')"
    have at: "at prog i als" "at prog ?i bls" "at prog ?j [AMark l]"
      using a by (auto simp: at_append at_Cons add.assoc)
    have pl: "place l prog = Some ?j" using d at(3) by (auto simp: at_Cons intro: place_at)
    have l1: "linked E prog s1" "place (cg_epi s1) prog = Some ke" using l e branches_tables [OF f] by simp_all
    have fin: "runs_to (e_line E) prog t ?Q" if t: "ends ?j ke fp K p r7 (r, \<sigma>') t" for t
    proof (cases r)
      case Continue
      with t have "sees ?j fp K (None, p, r7, \<sigma>') t" by simp
      then show ?thesis
        by (rule mark_run [OF at(3)], intro runs_to_here) (simp add: Continue add.assoc)
    qed (use t in \<open>simp add: runs_to_here\<close>)
    from v obtain t \<sigma>1 where t: "f E fp r7 \<sigma> = Some (t, \<sigma>1)"
      and v1: "(if t then g E fp r7 \<sigma>1 else Some (Continue, \<sigma>1)) = Some (r, \<sigma>')"
      by (auto simp: Option.bind_eq_Some_conv)
    show "runs_to (e_line E) prog st ?Q"
    proof (rule branches_run [OF F [OF l at(1) pl st t]])
      fix q assume q: "sees (if t then ?i else ?j) fp K (None, p, r7, \<sigma>1) q"
      show "runs_to (e_line E) prog q ?Q"
      proof (cases t)
        case True
        with q v1 have q': "sees ?i fp K (None, p, r7, \<sigma>1) q" "g E fp r7 \<sigma>1 = Some (r, \<sigma>')" by simp_all
        show ?thesis by (rule executes_run [OF G [OF l1(1) at(2) l1(2)] q']) (rule fin)
      next
        case False
        with q v1 show ?thesis by (intro fin) auto
      qed
    qed
  qed
qed

text \<open>A loop, from what its parts do.\<close>

lemma loop_run:
  assumes C: "\<And>st \<sigma> t \<sigma>1. sees i fp K (None, p, r7, \<sigma>) st \<Longrightarrow> f \<sigma> = Some (t, \<sigma>1) \<Longrightarrow>
      runs_to E prog st (sees (if t then a else b) fp K (None, p, r7, \<sigma>1))"
    and B: "\<And>st \<sigma> out. sees a fp K (None, p, r7, \<sigma>) st \<Longrightarrow> g \<sigma> = Some out \<Longrightarrow>
      runs_to E prog st (ends c ke fp K p r7 out)"
    and U: "\<And>st \<sigma> \<sigma>1. sees c fp K (None, p, r7, \<sigma>) st \<Longrightarrow> u \<sigma> = Some \<sigma>1 \<Longrightarrow>
      runs_to E prog st (sees i fp K (None, p, r7, \<sigma>1))"
  shows "sees i fp K (None, p, r7, \<sigma>) st \<Longrightarrow> cloop k f g u \<sigma> = Some out \<Longrightarrow>
    runs_to E prog st (ends b ke fp K p r7 out)"
proof (induction k arbitrary: st \<sigma>)
  case (Suc k)
  from Suc.prems(2) obtain t \<sigma>1 where t: "f \<sigma> = Some (t, \<sigma>1)"
    and v: "(if \<not> t then Some (Continue, \<sigma>1) else Option.bind (g \<sigma>1) (\<lambda>(r, \<sigma>). case r of
       Return v \<Rightarrow> Some (Return v, \<sigma>) | Continue \<Rightarrow> Option.bind (u \<sigma>) (cloop k f g u))) = Some out"
    by (auto simp: Option.bind_eq_Some_conv)
  show ?case
  proof (rule runs_to_trans [OF C [OF Suc.prems(1) t]])
    fix q assume q: "sees (if t then a else b) fp K (None, p, r7, \<sigma>1) q"
    show "runs_to E prog q (ends b ke fp K p r7 out)"
    proof (cases t)
      case False
      with q v show ?thesis by (auto intro: runs_to_here)
    next
      case True
      with v obtain r \<sigma>2 where g1: "g \<sigma>1 = Some (r, \<sigma>2)" by (auto simp: Option.bind_eq_Some_conv)
      have q: "sees a fp K (None, p, r7, \<sigma>1) q" using q True by simp
      show ?thesis
      proof (rule runs_to_trans [OF B [OF q g1]])
        fix q assume q: "ends c ke fp K p r7 (r, \<sigma>2) q"
        show "runs_to E prog q (ends b ke fp K p r7 out)"
        proof (cases r)
          case (Return v)
          with q v True g1 show ?thesis by (auto intro: runs_to_here)
        next
          case Continue
          with v True g1 obtain \<sigma>3 where u1: "u \<sigma>2 = Some \<sigma>3" and k: "cloop k f g u \<sigma>3 = Some out"
            by (auto simp: Option.bind_eq_Some_conv)
          from q Continue have q: "sees c fp K (None, p, r7, \<sigma>2) q" by simp
          show ?thesis by (rule runs_to_trans [OF U [OF q u1]]) (rule Suc.IH [OF _ k])
        qed
      qed
    qed
  qed
qed simp

lemma performs_loop:
  assumes w0: "wrote s s1 [AMark l0]" and f: "branches s1 s2 l f" and g: "performs s2 s3 g"
    and u: "performs s3 s4 (\<lambda>E fp r7 \<sigma>. map_option (Pair Continue) (u E fp r7 \<sigma>))"
    and w: "wrote s4 s' [AJump OP_JMP l0, AMark l]"
  shows "performs s s' (\<lambda>E fp r7. cloop (e_fuel E) (f E fp r7) (g E fp r7) (u E fp r7))"
proof -
  obtain als where wf: "wrote s1 s2 als"
    and F: "\<And>E prog i kl fp r7 st K p \<sigma> t \<sigma>'. linked E prog s1 \<Longrightarrow> at prog i als \<Longrightarrow> place l prog = Some kl \<Longrightarrow>
        sees i fp K (None, p, r7, \<sigma>) st \<Longrightarrow> f E fp r7 \<sigma> = Some (t, \<sigma>') \<Longrightarrow>
        runs_to (e_line E) prog st (sees (if t then i + length als else kl) fp K (None, p, r7, \<sigma>'))"
    using branchesE [OF f] by blast
  obtain bls where wg: "wrote s2 s3 bls"
    and G: "\<And>E prog i ke fp r7. linked E prog s2 \<Longrightarrow> at prog i bls \<Longrightarrow> place (cg_epi s2) prog = Some ke \<Longrightarrow>
      executes E prog i (i + length bls) ke fp r7 (g E fp r7)"
    using performsE [OF g] by blast
  obtain cls where wu: "wrote s3 s4 cls"
    and U: "\<And>E prog i ke fp r7. linked E prog s3 \<Longrightarrow> at prog i cls \<Longrightarrow> place (cg_epi s3) prog = Some ke \<Longrightarrow>
      executes E prog i (i + length cls) ke fp r7 (\<lambda>\<sigma>. map_option (Pair Continue) (u E fp r7 \<sigma>))"
    using performsE [OF u] by blast
  let ?als = "[AMark l0] @ als @ bls @ cls @ [AJump OP_JMP l0, AMark l]"
  have "wrote s s' ?als"
    using wrote_trans [OF w0 wrote_trans [OF wf wrote_trans [OF wg wrote_trans [OF wu w]]]] .
  then show ?thesis
  proof (rule performsI)
    fix E prog i ke fp r7 st K p \<sigma> r \<sigma>'
    assume l: "linked E prog s" and a: "at prog i ?als" and e: "place (cg_epi s) prog = Some ke"
      and d: "distinct (marks prog)" and st: "sees i fp K (None, p, r7, \<sigma>) st"
      and v: "cloop (e_fuel E) (f E fp r7) (g E fp r7) (u E fp r7) \<sigma> = Some (r, \<sigma>')"
    let ?i = "i + 1 + length als" let ?j = "?i + length bls" let ?k = "?j + length cls"
    have at: "at prog i [AMark l0]" "at prog (i + 1) als" "at prog ?i bls" "at prog ?j cls"
      "at prog ?k [AJump OP_JMP l0]" "at prog (?k + 1) [AMark l]"
      using a by (auto simp: at_append at_Cons add.assoc)
    have pl: "place l0 prog = Some i" "place l prog = Some (?k + 1)"
      using d at(1,6) by (auto simp: at_Cons intro: place_at)
    have l1: "linked E prog s1" "place (cg_epi s1) prog = Some ke"
      using l e wrote_tables(4) [OF w0] wrote_fields(4) [OF w0] by simp_all
    have l2: "linked E prog s2" "place (cg_epi s2) prog = Some ke" using l1 branches_tables [OF f] by simp_all
    have l3: "linked E prog s3" "place (cg_epi s3) prog = Some ke" using l2 performs_tables [OF g] by simp_all
    have "runs_to (e_line E) prog st (ends (?k + 1) ke fp K p r7 (r, \<sigma>'))"
    proof (rule loop_run [OF _ _ _ st v])
      fix q \<sigma> t \<sigma>1 assume q: "sees i fp K (None, p, r7, \<sigma>) q" and t: "f E fp r7 \<sigma> = Some (t, \<sigma>1)"
      show "runs_to (e_line E) prog q (sees (if t then ?i else ?k + 1) fp K (None, p, r7, \<sigma>1))"
        by (rule mark_run [OF at(1) q], rule F [OF l1(1) at(2) pl(2) _ t]) simp
    next
      fix q \<sigma> out assume "sees ?i fp K (None, p, r7, \<sigma>) q" "g E fp r7 \<sigma> = Some out"
      then show "runs_to (e_line E) prog q (ends ?j ke fp K p r7 out)"
        by (rule executes_last [OF G [OF l2(1) at(3) l2(2)]])
    next
      fix q \<sigma> \<sigma>1 assume q: "sees ?j fp K (None, p, r7, \<sigma>) q" and "u E fp r7 \<sigma> = Some \<sigma>1"
      then have u1: "map_option (Pair Continue) (u E fp r7 \<sigma>) = Some (Continue, \<sigma>1)" by simp
      show "runs_to (e_line E) prog q (sees i fp K (None, p, r7, \<sigma>1))"
        by (rule executes_run [OF U [OF l3(1) at(4) l3(2)] q u1], rule goto_run [OF at(5) pl(1)])
          (auto intro: runs_to_here)
    qed
    then show "runs_to (e_line E) prog st (ends (i + length ?als) ke fp K p r7 (r, \<sigma>'))"
    proof (rule runs_to_trans)
      fix q assume q: "ends (?k + 1) ke fp K p r7 (r, \<sigma>') q"
      show "runs_to (e_line E) prog q (ends (i + length ?als) ke fp K p r7 (r, \<sigma>'))"
      proof (cases r)
        case Continue
        with q have "sees (?k + 1) fp K (None, p, r7, \<sigma>') q" by simp
        then show ?thesis
          by (rule mark_run [OF at(6)], intro runs_to_here) (simp add: Continue add.assoc)
      qed (use q in \<open>simp add: runs_to_here\<close>)
    qed
  qed
qed

subsection \<open>The forms of statements\<close>

definition good_stmt :: "cnode \<Rightarrow> bool" where
  "good_stmt n = (\<forall>s s'. static_ok s \<longrightarrow> label_ok (cg_epi s) \<longrightarrow> gen_stmt n s = Inr s' \<longrightarrow>
     performs s s' (\<lambda>E fp r7. cexec E fp r7 n))"

lemma good_stmtD: "good_stmt n \<Longrightarrow> static_ok s \<Longrightarrow> label_ok (cg_epi s) \<Longrightarrow> gen_stmt n s = Inr s' \<Longrightarrow>
    performs s s' (\<lambda>E fp r7. cexec E fp r7 n)"
  by (simp add: good_stmt_def)

lemma good_stmtI: "(\<And>s s'. static_ok s \<Longrightarrow> label_ok (cg_epi s) \<Longrightarrow> gen_stmt n s = Inr s' \<Longrightarrow>
    performs s s' (\<lambda>E fp r7. cexec E fp r7 n)) \<Longrightarrow> good_stmt n"
  by (simp add: good_stmt_def)

lemma performs_block:
  assumes "\<forall>n \<in> set ns. good_stmt n"
  shows "static_ok s \<Longrightarrow> label_ok (cg_epi s) \<Longrightarrow> gen_stmts ns s = Inr s' \<Longrightarrow> performs s s' (\<lambda>E fp r7. cexecs E fp r7 ns)"
  using assms
proof (induction ns arbitrary: s)
  case Nil
  then show ?case using performs_skip by simp
next
  case (Cons n ns)
  from Cons.prems(3) obtain s1 where 1: "gen_stmt n s = Inr s1" "gen_stmts ns s1 = Inr s'"
    by (auto simp: res_bind_Inr_iff)
  have f: "performs s s1 (\<lambda>E fp r7. cexec E fp r7 n)" using good_stmtD [OF _ Cons.prems(1,2) 1(1)] Cons.prems(4) by simp
  have "static_ok s1" "label_ok (cg_epi s1)" using performs_tables [OF f] Cons.prems(1,2) by simp_all
  from performs_seq [OF f Cons.IH [OF this 1(2)]] show ?case using Cons.prems(4) by simp
qed

lemma performs_drop:
  assumes ok: "static_ok s" and g: "gen_expr n s = Inr s'"
  shows "performs s s' (\<lambda>E fp r7 \<sigma>. map_option (Pair Continue) (cdrop E fp r7 n \<sigma>))"
proof (cases "\<exists>l name as. n = N_CALL l name as")
  case True
  then obtain l name as where n: "n = N_CALL l name as" by blast
  then have "gen_call l name as s = Inr s'" using g by (simp add: gen_expr_forms)
  from performs_piece [OF gen_call_correct [OF ok this]] show ?thesis
    by (rule performs_less) (auto simp: cdrop_def n m_call_def)
next
  case False
  from performs_piece [OF gen_expr_correct [OF ok g]] show ?thesis
    by (rule performs_less) (use False in \<open>auto simp: cdrop_def m_expr_def split: cnode.splits\<close>)
qed

lemma performs_decl:
  assumes ok: "static_ok s" and g: "gen_decl_init name a s = Inr s'"
  shows "performs s s' (\<lambda>E fp r7. cexec E fp r7 (N_VARDECL l name ptr arr sz a))"
proof (cases a)
  case None
  then have "(\<lambda>E fp r7. cexec E fp r7 (N_VARDECL l name ptr arr sz a)) = (\<lambda>E fp r7 \<sigma>. Some (Continue, \<sigma>))"
    by (simp add: fun_eq_iff)
  then show ?thesis using g None performs_skip [of s] by (simp add: gen_decl_init_def)
next
  case (Some e)
  with g obtain s1 y where 1: "gen_expr e s = Inr s1" "sym_find name s = Some y"
    and s': "s' = emit (''STORE [R6'' @ fmt_plus (sy_off y) @ ''], R0'') s1"
    by (cases "sym_find name s") (auto simp only: gen_decl_init_def res_bind_Inr_iff option.case sum.inject sum.distinct)
  have e: "compiles s s1 (m_expr e)" by (rule gen_expr_correct [OF ok 1(1)])
  have v: "cresolve name s = Local (sy_off y) (sy_array y)" using 1(2) by (simp add: cresolve_def)
  then have "fits20 (sy_off y)" using ok by (auto simp: static_ok_def)
  then have "compiles s1 s' (m_store_var name)"
    unfolding s' using compiles_local_store v compiles_tables [OF e] by metis
  from performs_piece [OF compiles_seq [OF e this]] show ?thesis
    by (rule performs_less) (auto simp: Some m_expr_def m_store_var_def andthen_def caddr.simps v
        Option.bind_eq_Some_conv split: prod.splits)
qed

lemma performs_return:
  assumes ok: "static_ok s" and lab: "label_ok (cg_epi s)" and g: "gen_stmt (N_RETURN l a) s = Inr s'"
  shows "performs s s' (\<lambda>E fp r7. cexec E fp r7 (N_RETURN l a))"
proof -
  from g obtain s1 where 1: "gen_opt a s = Inr s1" and s': "s' = emit (''JMP '' @ cg_epi s1) s1"
    by (auto simp only: gen_stmt.simps res_bind_Inr_iff sum.inject)
  define m where "m = (\<lambda>E fp x. case a of None \<Rightarrow> Some x | Some e \<Rightarrow> m_expr e E fp x)"
  have "compiles s s1 m"
  proof (cases a)
    case None
    have "compiles s (fold put [] s) m" by (rule compiles_puts) (auto simp: m_def None)
    then show ?thesis using 1 by (simp add: gen_opt_def None)
  next
    case (Some e)
    then show ?thesis using gen_expr_correct [OF ok, of e s1] 1 by (simp add: gen_opt_def m_def)
  qed
  then obtain als where w: "wrote s s1 als"
    and D: "\<And>E prog i fp. linked E prog s \<Longrightarrow> at prog i als \<Longrightarrow> does E prog i (i + length als) fp (m E fp)"
    unfolding compiles_def by blast
  have epi: "cg_epi s1 = cg_epi s" using wrote_fields(4) [OF w] .
  have "wrote s (fold put [AJump OP_JMP (cg_epi s)] s1) (als @ [AJump OP_JMP (cg_epi s)])"
    by (rule wrote_more [OF w]) (use lab in simp)
  then have "wrote s s' (als @ [AJump OP_JMP (cg_epi s)])"
    by (simp only: s' puts fold_simps epi)
  then show ?thesis
  proof (rule performsI)
    fix E prog i ke fp r7 st K p \<sigma> r \<sigma>'
    assume lk: "linked E prog s" and a: "at prog i (als @ [AJump OP_JMP (cg_epi s)])"
      and e: "place (cg_epi s) prog = Some ke" and st: "sees i fp K (None, p, r7, \<sigma>) st"
      and v: "cexec E fp r7 (N_RETURN l a) \<sigma> = Some (r, \<sigma>')"
    have at: "at prog i als" "at prog (i + length als) [AJump OP_JMP (cg_epi s)]" using a by (simp_all add: at_append)
    from v obtain q where q: "m E fp (None, p, r7, \<sigma>) = Some (q, p, r7, \<sigma>')" "r = Return q"
      by (auto simp: m_def m_expr_def Option.bind_eq_Some_conv split: option.splits)
    show "runs_to (e_line E) prog st (ends (i + length (als @ [AJump OP_JMP (cg_epi s)])) ke fp K p r7 (r, \<sigma>'))"
      by (rule does_run [OF D [OF lk at(1)] st q(1)], rule goto_run [OF at(2) e], assumption)
        (simp add: q(2) runs_to_here)
  qed
qed

lemma wrote_lines:
  assumes "\<And>l. l \<in> set ls \<Longrightarrow> cg_label s \<le> LABEL_MAX \<Longrightarrow> body_ok l"
  shows "wrote s (fold put ls s) ls"
  using assms by (intro wrote_puts) (auto simp: list_all_iff)

lemma gen_if_else:
  assumes ok: "static_ok s" "label_ok (cg_epi s)" and b: "good_stmt b" and c: "good_stmt c"
    and g: "gen_stmt (N_IF l a b (Some c)) s = Inr s'"
  shows "performs s s' (\<lambda>E fp r7. cexec E fp r7 (N_IF l a b (Some c)))"
proof -
  let ?l = "cg_label s" and ?l' = "Suc (cg_label s)" and ?s0 = "bump (bump s)"
  from g obtain s1 s2 s4 where 1: "gen_cond_false a ?l ?s0 = Inr s1" and 2: "gen_stmt b s1 = Inr s2"
    and 3: "gen_stmt c (emit_label ?l (emitj ''JMP'' ?l' s2)) = Inr s4" and s': "s' = emit_label ?l' s4"
    by (auto simp: newlabel_eq Let_def res_bind_Inr_iff)
  have f: "branches ?s0 s1 (label_name ?l) (\<lambda>E fp r7. ccond E fp r7 (Some a))"
    by (rule branches_expr [OF _ 1]) (use ok in simp_all)
  have t1: "static_ok s1" "label_ok (cg_epi s1)" "Suc (Suc ?l) \<le> cg_label s1" using branches_facts [OF f] ok by simp_all
  have g': "performs s1 s2 (\<lambda>E fp r7. cexec E fp r7 b)" by (rule good_stmtD [OF b t1(1,2) 2])
  let ?ls = "[AJump OP_JMP (label_name ?l'), AMark (label_name ?l)]"
  have t2: "static_ok s2" "label_ok (cg_epi s2)" "Suc (Suc ?l) \<le> cg_label s2" using performs_facts [OF g'] t1 by simp_all
  have e3: "emit_label ?l (emitj ''JMP'' ?l' s2) = fold put ?ls s2" by (simp only: puts fold_simps)
  have w3: "wrote s2 (fold put ?ls s2) ?ls"
    by (rule wrote_lines) (use t2(3) in \<open>auto simp: label_name_ok\<close>)
  have t3: "static_ok (fold put ?ls s2)" "label_ok (cg_epi (fold put ?ls s2))" "Suc (Suc ?l) \<le> cg_label (fold put ?ls s2)"
    using t2 by simp_all
  have h: "performs (fold put ?ls s2) s4 (\<lambda>E fp r7. cexec E fp r7 c)"
    by (rule good_stmtD [OF c t3(1,2) 3 [unfolded e3]])
  have t4: "Suc (Suc ?l) \<le> cg_label s4" using performs_facts [OF h] t3(3) by simp
  have w4: "wrote s4 s' [AMark (label_name ?l')]"
    unfolding s' puts using wrote_lines [of "[AMark (label_name ?l')]" s4] t4 by (simp add: label_name_ok)
  from performs_if [OF f g' w3 h w4] have "performs ?s0 s' (\<lambda>E fp r7. cexec E fp r7 (N_IF l a b (Some c)))"
    by (rule performs_less) (simp only: cexec.simps option.case)
  then show ?thesis by (rule performs_bump [OF performs_bump])
qed

lemma gen_if:
  assumes ok: "static_ok s" "label_ok (cg_epi s)" and b: "good_stmt b"
    and g: "gen_stmt (N_IF l a b None) s = Inr s'"
  shows "performs s s' (\<lambda>E fp r7. cexec E fp r7 (N_IF l a b None))"
proof -
  let ?l = "cg_label s" and ?s0 = "bump s"
  from g obtain s1 s2 where 1: "gen_cond_false a ?l ?s0 = Inr s1" and 2: "gen_stmt b s1 = Inr s2"
    and s': "s' = emit_label ?l s2"
    by (auto simp: newlabel_eq Let_def res_bind_Inr_iff)
  have f: "branches ?s0 s1 (label_name ?l) (\<lambda>E fp r7. ccond E fp r7 (Some a))"
    by (rule branches_expr [OF _ 1]) (use ok in simp_all)
  have t1: "static_ok s1" "label_ok (cg_epi s1)" "Suc ?l \<le> cg_label s1" using branches_facts [OF f] ok by simp_all
  have g': "performs s1 s2 (\<lambda>E fp r7. cexec E fp r7 b)" by (rule good_stmtD [OF b t1(1,2) 2])
  have t2: "Suc ?l \<le> cg_label s2" using performs_facts [OF g'] t1 by simp
  have w: "wrote s2 s' [AMark (label_name ?l)]"
    unfolding s' puts using wrote_lines [of "[AMark (label_name ?l)]" s2] t2 by (simp add: label_name_ok)
  from performs_if1 [OF f g' w] have "performs ?s0 s' (\<lambda>E fp r7. cexec E fp r7 (N_IF l a b None))"
    by (rule performs_less) (simp only: cexec.simps option.case)
  then show ?thesis by (rule performs_bump)
qed

text \<open>The common part of \<open>while\<close> and \<open>for\<close>, after the initialisation.\<close>

lemma gen_loop:
  assumes ok: "static_ok s" "label_ok (cg_epi s)" and d: "good_stmt d"
    and 1: "(case b of None \<Rightarrow> Inr s0 | Some e \<Rightarrow> gen_cond_false e (Suc (cg_label s)) s0) = Inr s1"
    and s0: "s0 = emit_label (cg_label s) (bump (bump s))"
    and 2: "gen_stmt d s1 = Inr s2" and 3: "gen_opt c s2 = Inr s3"
    and s': "s' = emit_label (Suc (cg_label s)) (emitj ''JMP'' (cg_label s) s3)"
  shows "performs s s' (\<lambda>E fp r7. cloop (e_fuel E) (ccond E fp r7 b) (cexec E fp r7 d)
    (\<lambda>\<sigma>. case c of None \<Rightarrow> Some \<sigma> | Some e \<Rightarrow> cdrop E fp r7 e \<sigma>))"
proof -
  let ?l = "cg_label s" and ?l' = "Suc (cg_label s)"
  have s0': "s0 = put (AMark (label_name ?l)) (bump (bump s))" unfolding s0 puts ..
  have "wrote (bump (bump s)) (fold put [AMark (label_name ?l)] (bump (bump s))) [AMark (label_name ?l)]"
    by (rule wrote_lines) (auto simp: label_name_ok)
  then have w0: "wrote (bump (bump s)) s0 [AMark (label_name ?l)]" by (simp add: s0')
  have t0: "static_ok s0" "label_ok (cg_epi s0)" "cg_label s0 = Suc (Suc ?l)" using ok by (simp_all add: s0')
  have f: "branches s0 s1 (label_name ?l') (\<lambda>E fp r7. ccond E fp r7 b)"
  proof (cases b)
    case None
    then show ?thesis using 1 branches_true by simp
  next
    case (Some e)
    then show ?thesis using 1 branches_expr [of s0 e ?l' s1] t0 by simp
  qed
  have t1: "static_ok s1" "label_ok (cg_epi s1)" "Suc (Suc ?l) \<le> cg_label s1" using branches_facts [OF f] t0 by simp_all
  have g: "performs s1 s2 (\<lambda>E fp r7. cexec E fp r7 d)" by (rule good_stmtD [OF d t1(1,2) 2])
  have t2: "static_ok s2" "Suc (Suc ?l) \<le> cg_label s2" using performs_facts [OF g] t1 by simp_all
  have u: "performs s2 s3 (\<lambda>E fp r7 \<sigma>. map_option (Pair Continue)
      (case c of None \<Rightarrow> Some \<sigma> | Some e \<Rightarrow> cdrop E fp r7 e \<sigma>))"
  proof (cases c)
    case None
    then show ?thesis using 3 performs_skip [of s2] by (simp add: gen_opt_def)
  next
    case (Some e)
    then show ?thesis using 3 performs_drop [OF t2(1), of e s3] by (simp add: gen_opt_def)
  qed
  have t3: "Suc (Suc ?l) \<le> cg_label s3" using performs_facts [OF u] t2 by simp
  let ?ls = "[AJump OP_JMP (label_name ?l), AMark (label_name ?l')]"
  have "wrote s3 (fold put ?ls s3) ?ls" by (rule wrote_lines) (use t3 in \<open>auto simp: label_name_ok\<close>)
  then have w: "wrote s3 s' ?ls" unfolding s' puts by simp
  from performs_loop [OF w0 f g u w] show ?thesis by (rule performs_bump [OF performs_bump])
qed

lemma gen_while:
  assumes ok: "static_ok s" "label_ok (cg_epi s)" and b: "good_stmt b"
    and g: "gen_stmt (N_WHILE l a b) s = Inr s'"
  shows "performs s s' (\<lambda>E fp r7. cexec E fp r7 (N_WHILE l a b))"
proof -
  from g obtain s1 s2 where 1: "gen_cond_false a (Suc (cg_label s)) (emit_label (cg_label s) (bump (bump s))) = Inr s1"
    and 2: "gen_stmt b s1 = Inr s2" and s': "s' = emit_label (Suc (cg_label s)) (emitj ''JMP'' (cg_label s) s2)"
    by (auto simp: newlabel_eq Let_def res_bind_Inr_iff)
  have "performs s s' (\<lambda>E fp r7. cloop (e_fuel E) (ccond E fp r7 (Some a)) (cexec E fp r7 b)
    (\<lambda>\<sigma>. case None of None \<Rightarrow> Some \<sigma> | Some e \<Rightarrow> cdrop E fp r7 e \<sigma>))"
    by (rule gen_loop [OF ok b _ refl 2 _ s']) (use 1 in \<open>simp_all add: gen_opt_def\<close>)
  then show ?thesis by (rule performs_less) simp
qed

lemma gen_for:
  assumes ok: "static_ok s" "label_ok (cg_epi s)" and a: "\<And>i. a = Some i \<Longrightarrow> good_stmt i" and d: "good_stmt d"
    and g: "gen_stmt (N_FOR l a b c d) s = Inr s'"
  shows "performs s s' (\<lambda>E fp r7. cexec E fp r7 (N_FOR l a b c d))"
proof -
  from g obtain s0 s1 s2 s3 where 0: "(case a of None \<Rightarrow> Inr s | Some i \<Rightarrow> gen_stmt i s) = Inr s0"
    and 1: "(case b of None \<Rightarrow> Inr (emit_label (cg_label s0) (bump (bump s0)))
      | Some e \<Rightarrow> gen_cond_false e (Suc (cg_label s0)) (emit_label (cg_label s0) (bump (bump s0)))) = Inr s1"
    and 2: "gen_stmt d s1 = Inr s2" and 3: "gen_opt c s2 = Inr s3"
    and s': "s' = emit_label (Suc (cg_label s0)) (emitj ''JMP'' (cg_label s0) s3)"
    by (auto simp: newlabel_eq Let_def res_bind_Inr_iff cong: option.case_cong)
  have i: "performs s s0 (\<lambda>E fp r7 \<sigma>. case a of None \<Rightarrow> Some (Continue, \<sigma>) | Some i \<Rightarrow> cexec E fp r7 i \<sigma>)"
  proof (cases a)
    case None
    then show ?thesis using 0 performs_skip [of s] by simp
  next
    case (Some i)
    then show ?thesis using 0 good_stmtD [OF a [OF Some] ok, of s0] by simp
  qed
  have t: "static_ok s0" "label_ok (cg_epi s0)" using performs_facts [OF i] ok by simp_all
  from performs_seq [OF i gen_loop [OF t d 1 refl 2 3 s']] show ?thesis by (rule performs_less) simp
qed

lemma good_stmt_all: "good_stmt n"
proof (induction n)
  case (N_BLOCK l ks)
  then have ks: "\<forall>n \<in> set ks. good_stmt n" by blast
  show ?case
  proof (rule good_stmtI)
    fix s s' assume "static_ok s" "label_ok (cg_epi s)" "gen_stmt (N_BLOCK l ks) s = Inr s'"
    then have "performs s s' (\<lambda>E fp r7. cexecs E fp r7 ks)" by (intro performs_block [OF ks]) simp_all
    then show "performs s s' (\<lambda>E fp r7. cexec E fp r7 (N_BLOCK l ks))" by (rule performs_less) simp
  qed
next
  case (N_VARDECL l name ptr arr sz a)
  show ?case by (rule good_stmtI) (auto intro: performs_decl)
next
  case (N_IF l a b c)
  show ?case
  proof (cases c)
    case None
    show ?thesis unfolding None by (rule good_stmtI) (rule gen_if [OF _ _ N_IF.IH(2)])
  next
    case (Some n)
    then have "good_stmt n" using N_IF.IH(3) by simp
    then show ?thesis unfolding Some by (intro good_stmtI) (rule gen_if_else [OF _ _ N_IF.IH(2)])
  qed
next
  case (N_WHILE l a b)
  show ?case by (rule good_stmtI) (rule gen_while [OF _ _ N_WHILE.IH(2)])
next
  case (N_FOR l a b c d)
  show ?case by (rule good_stmtI, rule gen_for [OF _ _ _ N_FOR.IH(4)]) (use N_FOR.IH(1) in simp_all)
next
  case (N_RETURN l a)
  show ?case by (rule good_stmtI) (rule performs_return)
next
  case (N_EXPRSTMT l a)
  show ?case by (rule good_stmtI, rule performs_less [OF performs_drop]) simp_all
qed (simp_all add: good_stmt_def fail_def)

lemma gen_stmt_correct:
  "static_ok s \<Longrightarrow> label_ok (cg_epi s) \<Longrightarrow> gen_stmt n s = Inr s' \<Longrightarrow> performs s s' (\<lambda>E fp r7. cexec E fp r7 n)"
  using good_stmtD good_stmt_all by blast

end
