(* ===== verification/CGenFn.thy ===== *)
theory CGenFn
  imports CGenStmt
begin

text \<open>
  The code generator is correct on functions: prologue, body and epilogue do what the reference
  semantics says of a call, with the frame pointer restored, when the functions it calls do. The
  links between functions are closed by induction on the fuel of calls.
\<close>

subsection \<open>Prologue and epilogue\<close>

definition epi_name :: "string \<Rightarrow> string" where
  "epi_name name = name @ ''_epi''"

definition fn_pre :: "string \<Rightarrow> int \<Rightarrow> aline list" where
  "fn_pre name n = [AMark name, AIns OP_LOADI 1 0 4, AIns OP_SUB 7 1 0, AIns OP_STORE 7 6 0, AIns OP_MOV 6 7 0] @
     (if n \<noteq> 0 then [AIns OP_LOADI 1 0 (word_of_int n), AIns OP_SUB 7 1 0] else [])"

definition fn_post :: "string \<Rightarrow> aline list" where
  "fn_post name = [AMark (epi_name name), AIns OP_MOV 7 6 0, AIns OP_LOAD 6 7 0, AIns OP_LOADI 1 0 4,
     AIns OP_ADD 7 1 0, AIns OP_RET 0 0 0]"

lemma prologue_run:
  assumes a: "at prog i (fn_pre name n)" and st: "sees i fp K (r, [], s7, \<sigma>) st"
    and c: "cstore E (s7 - 4) fp \<sigma> = Some \<sigma>1"
    and Q: "\<And>st'. sees (i + length (fn_pre name n)) (s7 - 4) K (None, [], s7 - 4 - word_of_int n, \<sigma>1) st' \<Longrightarrow>
      runs_to (e_line E) prog st' Q"
  shows "runs_to (e_line E) prog st Q"
proof -
  have i: "l_at st = i" using st by (rule sees_at)
  have "\<exists>st'. brun (e_line E) (fn_pre name n) st = Some st' \<and>
      sees (i + length (fn_pre name n)) (s7 - 4) K (None, [], s7 - 4 - word_of_int n, \<sigma>1) st'"
    using st c by (auto simp: fn_pre_def sees_def line_step cstore_def split: if_splits)
  then obtain st' where st': "brun (e_line E) (fn_pre name n) st = Some st'"
    "sees (i + length (fn_pre name n)) (s7 - 4) K (None, [], s7 - 4 - word_of_int n, \<sigma>1) st'" by blast
  show ?thesis by (rule runs_to_block [OF a [folded i] st'(1) Q [OF st'(2)]])
qed

lemma ret_run:
  assumes a: "at prog i [AIns OP_RET 0 0 0]" and st: "sees i fp (Ret j # K) (r, [], r7, \<sigma>) st"
  shows "runs_to E prog st (sees j fp K (r, [], r7, \<sigma>))"
proof (rule runs_to_step)
  have i: "l_at st = i" using st by (rule sees_at)
  show "lstep E prog st = Some (st\<lparr>l_at := j, l_stk := K\<rparr>)"
    using a st by (simp add: lstep_def i at_Cons plain_step_def step_ins_def sees_def Let_def)
  show "runs_to E prog (st\<lparr>l_at := j, l_stk := K\<rparr>) (sees j fp K (r, [], r7, \<sigma>))"
    by (rule runs_to_here) (use st in \<open>simp add: sees_def\<close>)
qed

lemma epilogue_run:
  assumes a: "at prog i (fn_post name)" and st: "sees i f' (Ret j # K) (r, [], r7, \<sigma>) st"
    and c: "cload E f' \<sigma> = Some fp"
  shows "runs_to (e_line E) prog st (sees j fp K (r, [], f' + 4, \<sigma>))"
proof -
  let ?ls = "[AMark (epi_name name), AIns OP_MOV 7 6 0, AIns OP_LOAD 6 7 0, AIns OP_LOADI 1 0 4, AIns OP_ADD 7 1 0]"
  have i: "l_at st = i" using st by (rule sees_at)
  have at: "at prog i ?ls" "at prog (i + 5) [AIns OP_RET 0 0 0]"
    using a by (auto simp: fn_post_def at_Cons eval_nat_numeral)
  have "\<exists>st'. brun (e_line E) ?ls st = Some st' \<and> sees (i + 5) fp (Ret j # K) (r, [], f' + 4, \<sigma>) st'"
    using st c by (auto simp: sees_def line_step cload_def split: if_splits)
  then obtain st' where st': "brun (e_line E) ?ls st = Some st'" "sees (i + 5) fp (Ret j # K) (r, [], f' + 4, \<sigma>) st'"
    by blast
  show ?thesis by (rule runs_to_block [OF at(1) [folded i] st'(1) ret_run [OF at(2) st'(2)]])
qed

subsection \<open>A function\<close>

text \<open>The call \<open>k\<close> levels above the fuel of its callees.\<close>

lemma fn_code:
  assumes a: "at prog i (fn_pre name n @ bls @ fn_post name)" and d: "distinct (marks prog)"
    and f: "find_fn name ds = Some (params, fbody)" "frame_layout s params fbody = Inr (t, n)"
    and l: "linked (fn_env L t k (cfn L s ds k)) prog t"
    and b: "\<And>E fp r7. linked E prog t \<Longrightarrow>
      executes E prog (i + length (fn_pre name n)) (i + length (fn_pre name n) + length bls)
        (i + length (fn_pre name n) + length bls) fp r7 (cexec E fp r7 fbody)"
  shows "fn_does (fn_env L t' k' (cfn L s ds (Suc k))) prog name i"
  unfolding fn_does_def
proof (intro allI impI)
  fix st j fp s7 \<sigma> K r r' \<sigma>'
  assume st: "sees i fp (Ret j # K) (r, [], s7, \<sigma>) st"
    and call: "e_fn (fn_env L t' k' (cfn L s ds (Suc k))) name fp s7 \<sigma> = Some (r', \<sigma>')"
  let ?E = "fn_env L t k (cfn L s ds k)" and ?i = "i + length (fn_pre name n)"
  let ?j = "?i + length bls"
  have eL: "e_line (fn_env L t'' k'' c) = L" for t'' k'' c by (simp add: fn_env_def)
  from call obtain \<sigma>1 q \<sigma>2 where s1: "cstore ?E (s7 - 4) fp \<sigma> = Some \<sigma>1"
    and ex: "cexec ?E (s7 - 4) (s7 - 4 - word_of_int n) fbody \<sigma>1 = Some (q, \<sigma>2)"
    and ld: "cload ?E (s7 - 4) \<sigma>2 = Some fp" and r': "r' = (case q of Continue \<Rightarrow> None | Return v \<Rightarrow> v)" "\<sigma>' = \<sigma>2"
    by (auto simp: fn_env_def cfn.simps f Let_def Option.bind_eq_Some_conv split: if_splits)
  have at: "at prog i (fn_pre name n)" "at prog ?j (fn_post name)"
    using a by (simp_all add: at_append add.assoc)
  have "runs_to (e_line ?E) prog st (sees j fp K (r', [], s7, \<sigma>'))"
  proof (rule prologue_run [OF at(1) st s1])
    fix st1 assume st1: "sees ?i (s7 - 4) (Ret j # K) (None, [], s7 - 4 - word_of_int n, \<sigma>1) st1"
    show "runs_to (e_line ?E) prog st1 (sees j fp K (r', [], s7, \<sigma>'))"
    proof (rule executes_run [OF b [OF l] st1 ex])
      fix st2 assume "ends ?j ?j (s7 - 4) (Ret j # K) [] (s7 - 4 - word_of_int n) (q, \<sigma>2) st2"
      then have "sees ?j (s7 - 4) (Ret j # K) (r', [], s7 - 4 - word_of_int n, \<sigma>2) st2"
        by (cases q) (simp_all add: r')
      from epilogue_run [OF at(2) this ld] show "runs_to (e_line ?E) prog st2 (sees j fp K (r', [], s7, \<sigma>'))"
        by (simp add: r')
    qed
  qed
  then show "runs_to (e_line (fn_env L t' k' (cfn L s ds (Suc k)))) prog st (sees j fp K (r', [], s7, \<sigma>'))"
    by (simp add: eL)
qed

end
