(* ===== verification/CGenTidy.thy ===== *)
theory CGenTidy
  imports CGenCorrect
begin

text \<open>
  Where the generator puts its stack instructions: the lines of an expression begin with a line that is no
  \<open>POP\<close> and no \<open>PUSH\<close> ends a piece of code or stands directly before a \<open>POP\<close>, so the peephole pass finds no
  pair to merge in the code of a program.
\<close>

subsection \<open>Lines that push and lines that pop\<close>

definition pushy :: "string \<Rightarrow> bool" where
  "pushy t = (take 12 t = indented ''PUSH'')"

definition popy :: "string \<Rightarrow> bool" where
  "popy t = (take 11 t = indented ''POP'')"

fun apart :: "string list \<Rightarrow> bool" where
  "apart [] = True"
| "apart (x # ls) = ((pushy x \<longrightarrow> (case ls of [] \<Rightarrow> False | y # _ \<Rightarrow> \<not> popy y)) \<and> apart ls)"

lemma apart_append: "apart xs \<Longrightarrow> apart ys \<Longrightarrow> apart (xs @ ys)"
  by (induction xs) (auto split: list.splits)

lemma apart_push: "apart xs \<Longrightarrow> apart ys \<Longrightarrow> ys \<noteq> [] \<Longrightarrow> \<not> popy (hd ys) \<Longrightarrow> apart (xs @ x # ys)"
  by (rule apart_append) (auto split: list.split)

lemma stack_text [simp]:
  "pushy (indented (c # t)) = (take 4 (c # t) = ''PUSH'')" "popy (indented (c # t)) = (take 3 (c # t) = ''POP'')"
  by (auto simp: pushy_def popy_def indented_def eval_nat_numeral)

lemma not_stack_jump [simp]: "\<not> pushy (indented (''CALL '' @ n))" "\<not> pushy (indented (''JMP '' @ n))"
  "\<not> popy (indented (''CALL '' @ n))"
  by simp_all

definition keeps :: "cgstate \<Rightarrow> cgstate \<Rightarrow> bool" where
  "keeps s s' = (\<exists>ts. cg_lines s' = cg_lines s @ ts \<and> apart ts)"

definition grows :: "cgstate \<Rightarrow> cgstate \<Rightarrow> bool" where
  "grows s s' = (\<exists>ts. cg_lines s' = cg_lines s @ ts \<and> apart ts \<and> ts \<noteq> [] \<and> \<not> popy (hd ts))"

lemma keeps_refl [simp]: "keeps s s"
  by (simp add: keeps_def)

lemma grows_keeps: "grows s s' \<Longrightarrow> keeps s s'"
  by (auto simp: grows_def keeps_def)

lemma keeps_trans: "keeps s s1 \<Longrightarrow> keeps s1 s2 \<Longrightarrow> keeps s s2"
  by (auto simp: keeps_def apart_append)

lemma grows_trans: "grows s s1 \<Longrightarrow> keeps s1 s2 \<Longrightarrow> grows s s2"
  unfolding grows_def keeps_def
proof (elim exE conjE)
  fix ts us
  assume "cg_lines s1 = cg_lines s @ ts" "apart ts" "ts \<noteq> []" "\<not> popy (hd ts)"
    "cg_lines s2 = cg_lines s1 @ us" "apart us"
  then show "\<exists>ts. cg_lines s2 = cg_lines s @ ts \<and> apart ts \<and> ts \<noteq> [] \<and> \<not> popy (hd ts)"
    by (intro exI [of _ "ts @ us"]) (simp add: apart_append)
qed

lemma keeps_grows: "keeps s s1 \<Longrightarrow> grows s1 s2 \<Longrightarrow> keeps s s2"
  using keeps_trans grows_keeps by blast

lemma same_lines:
  "cg_lines t = cg_lines s \<Longrightarrow> keeps t s' = keeps s s'" "cg_lines t = cg_lines s \<Longrightarrow> grows t s' = grows s s'"
  "cg_lines t = cg_lines s \<Longrightarrow> keeps s' t = keeps s' s" "cg_lines t = cg_lines s \<Longrightarrow> grows s' t = grows s' s"
  by (simp_all add: keeps_def grows_def)

lemma emit_lines [simp]:
  "cg_lines (emit b s) = cg_lines s @ [indented b]" "cg_lines (emit_label i s) = cg_lines s @ [label_name i @ '':'']"
  "cg_lines (emitj mn i s) = cg_lines s @ [indented (mn @ '' '' @ label_name i)]"
  by (simp_all add: emit_def emit_label_def emitj_def add_line_def indented_def)

lemma bump_keeps [simp]:
  "keeps (s\<lparr>cg_label := l\<rparr>) s' = keeps s s'" "grows (s\<lparr>cg_label := l\<rparr>) s' = grows s s'"
  "keeps s' (s\<lparr>cg_label := l\<rparr>) = keeps s' s" "grows s' (s\<lparr>cg_label := l\<rparr>) = grows s' s"
  by (rule same_lines; simp)+

lemma keeps_emit: "keeps s s1 \<Longrightarrow> \<not> pushy (indented b) \<Longrightarrow> keeps s (emit b s1)"
  unfolding keeps_def by (auto intro!: apart_append)

lemma grows_emit: "grows s s1 \<Longrightarrow> \<not> pushy (indented b) \<Longrightarrow> grows s (emit b s1)"
  using grows_trans [of s s1] keeps_emit [of s1 s1] by simp

lemma grows_first: "\<not> pushy (indented b) \<Longrightarrow> \<not> popy (indented b) \<Longrightarrow> grows s (emit b s)"
  by (simp add: grows_def)

lemma not_pushy_mark: "\<not> pushy (label_name i @ '':'')"
  by (simp add: label_name_def pushy_def indented_def eval_nat_numeral)

lemma keeps_mark: "keeps s s1 \<Longrightarrow> keeps s (emit_label i s1)"
  unfolding keeps_def by (auto intro!: apart_append simp: not_pushy_mark)

lemma grows_mark: "grows s s1 \<Longrightarrow> grows s (emit_label i s1)"
  using grows_trans [of s s1] keeps_mark [of s1 s1] by simp

lemma keeps_jump: "keeps s s1 \<Longrightarrow> mn \<noteq> [] \<Longrightarrow> hd mn = CHR ''J'' \<Longrightarrow> keeps s (emitj mn i s1)"
  unfolding emitj_def by (rule keeps_emit) (auto simp: neq_Nil_conv)

lemma grows_jump: "grows s s1 \<Longrightarrow> mn \<noteq> [] \<Longrightarrow> hd mn = CHR ''J'' \<Longrightarrow> grows s (emitj mn i s1)"
  using grows_trans [of s s1] keeps_jump [of s1 s1] by simp

lemma grows_push: "grows s s1 \<Longrightarrow> grows (emit ''PUSH R0'' s1) s2 \<Longrightarrow> grows s s2"
  unfolding grows_def
proof (elim exE conjE)
  fix ts us
  assume "cg_lines s1 = cg_lines s @ ts" "apart ts" "ts \<noteq> []" "\<not> popy (hd ts)"
    "cg_lines s2 = cg_lines (emit ''PUSH R0'' s1) @ us" "apart us" "us \<noteq> []" "\<not> popy (hd us)"
  then show "\<exists>ts. cg_lines s2 = cg_lines s @ ts \<and> apart ts \<and> ts \<noteq> [] \<and> \<not> popy (hd ts)"
    by (intro exI [of _ "ts @ indented ''PUSH R0'' # us"]) (simp add: apart_push)
qed

lemmas steps_on = grows_first grows_emit grows_mark grows_jump keeps_emit keeps_mark keeps_jump

subsection \<open>Expressions\<close>

definition neat :: "cnode \<Rightarrow> bool" where
  "neat n = (\<forall>s s'. (gen_addr n s = Inr s' \<longrightarrow> grows s s') \<and> (gen_expr n s = Inr s' \<longrightarrow> grows s s'))"

lemma neatD: "neat n \<Longrightarrow> gen_addr n s = Inr s' \<Longrightarrow> grows s s'" "neat n \<Longrightarrow> gen_expr n s = Inr s' \<Longrightarrow> grows s s'"
  by (simp_all add: neat_def)

lemma neat_operands: "grows s s1 \<Longrightarrow> neat b \<Longrightarrow> gen_expr b (emit ''PUSH R0'' s1) = Inr s2 \<Longrightarrow> grows s s2"
  using grows_push neatD(2) by blast

lemma neat_int: "neat (N_INT l v)"
  by (auto simp: neat_def gen_expr_forms gen_addr.simps [of "N_INT l v"] fail_def intro!: grows_first split: if_splits)

lemma neat_var: "neat (N_VAR l name)"
proof -
  have a: "grows s s'" if "gen_addr (N_VAR l name) s = Inr s'" for s s'
    using that by (auto simp: gen_addr_forms fail_def Let_def steps_on split: cvar.splits if_splits)
  have "grows s s'" if "gen_expr (N_VAR l name) s = Inr s'" for s s'
    using that a by (auto simp: gen_expr_forms fail_def steps_on split: cvar.splits if_splits)
  with a show ?thesis by (simp add: neat_def)
qed

lemma neat_index:
  assumes a: "neat a" and b: "neat b"
  shows "neat (N_INDEX l a b)"
proof -
  have 1: "grows s s'" if g: "gen_addr (N_INDEX l a b) s = Inr s'" for s s'
  proof -
    let ?base = "case a of
           N_VAR line name \<Rightarrow>
             (case cresolve name s of
                Unknown \<Rightarrow> fail line (undefined_variable name)
              | Local _ isa \<Rightarrow> if isa then gen_addr a s else gen_expr a s
              | Global isa \<Rightarrow> if isa then gen_addr a s else gen_expr a s)
         | _ \<Rightarrow> gen_expr a s"
    obtain s1 s2 where 1: "?base = Inr s1" and 2: "gen_expr b (emit ''PUSH R0'' s1) = Inr s2"
      and s': "s' = emits_all [''LOADI R1, 2'', ''SHL R0, R1'', ''POP R1'', ''ADD R0, R1''] s2"
      using g unfolding gen_addr_forms res_bind_Inr_iff sum.inject by (elim exE conjE) (rule that, assumption, assumption, erule sym)
    have "gen_addr a s = Inr s1 \<or> gen_expr a s = Inr s1"
      using 1 by (auto simp: fail_def split: cnode.splits cvar.splits if_splits)
    then have "grows s s2" using neat_operands [OF _ b 2] neatD [OF a] by blast
    then show ?thesis by (simp add: s' steps_on)
  qed
  have "grows s s'" if "gen_expr (N_INDEX l a b) s = Inr s'" for s s'
    using that 1 by (auto simp: gen_expr_forms res_bind_Inr_iff steps_on)
  with 1 show ?thesis by (simp add: neat_def)
qed

lemma neat_unary: "neat a \<Longrightarrow> neat (N_UNARY l oper a)"
proof -
  assume a: "neat a"
  have 1: "grows s s'" if "gen_addr (N_UNARY l oper a) s = Inr s'" for s s'
    using that neatD(2) [OF a] by (simp add: gen_addr_forms fail_def split: if_splits)
  have "grows s s'" if "gen_expr (N_UNARY l oper a) s = Inr s'" for s s'
    using that 1 neatD [OF a]
    by (auto simp: gen_expr_forms res_bind_Inr_iff fail_def Let_def newlabel_eq steps_on split: if_splits)
  with 1 show ?thesis by (simp add: neat_def)
qed

lemma jumps_grow:
  "cmp_jumps oper = Some js \<Longrightarrow> grows s s1 \<Longrightarrow> grows s (fold (\<lambda>j. emitj j l) js s1)"
  by (cases oper) (auto simp: cmp_jumps_def steps_on)

lemma binary_grow: "binary_code oper = Some code \<Longrightarrow> grows s s1 \<Longrightarrow> grows s (emits_all code s1)"
  by (cases oper) (auto simp: binary_code_def steps_on)

lemma neat_binary:
  assumes a: "neat a" and b: "neat b"
  shows "neat (N_BINARY l oper a b)"
proof -
  have two: "grows s s'" if "gen_expr a s = Inr s1" "gen_expr b (emit ''PUSH R0'' s1) = Inr s'" for s s1 s'
    using neat_operands [OF _ b that(2)] neatD(2) [OF a that(1)] .
  have short: "grows s s2"
    if "gen_expr a s = Inr s1" "gen_expr b (emitj mn i (emit ''AND R0, R0'' s1)) = Inr s2" "mn \<noteq> []" "hd mn = CHR ''J''"
    for s s1 s2 mn i
  proof -
    have "keeps s1 (emitj mn i (emit ''AND R0, R0'' s1))" using that(3,4) by (simp add: steps_on)
    then show ?thesis
      using grows_trans [OF neatD(2) [OF a that(1)]] keeps_trans grows_keeps [OF neatD(2) [OF b that(2)]] by blast
  qed
  have "grows s s'" if g: "gen_binary l oper a b s = Inr s'" for s s'
  proof -
    consider "oper = CT_ANDAND" | "oper = CT_OROR" | "oper \<noteq> CT_ANDAND" "oper \<noteq> CT_OROR" "is_cmp_op oper"
      | "oper \<noteq> CT_ANDAND" "oper \<noteq> CT_OROR" "\<not> is_cmp_op oper" by blast
    then show ?thesis
    proof cases
      case 1
      then show ?thesis
        using g short [where mn = "''JZ''"]
        by (fastforce simp: gen_binary.simps gen_and.simps newlabel_eq Let_def res_bind_Inr_iff steps_on)
    next
      case 2
      then show ?thesis
        using g short [where mn = "''JNZ''"]
        by (fastforce simp: gen_binary.simps gen_or.simps newlabel_eq Let_def res_bind_Inr_iff steps_on)
    next
      case 3
      then show ?thesis
        using g two
        by (fastforce simp: gen_binary.simps gen_cmp.simps newlabel_eq Let_def res_bind_Inr_iff fail_def steps_on jumps_grow
            split: option.splits)
    next
      case 4
      then show ?thesis
        using g two
        by (fastforce simp: gen_binary.simps Let_def res_bind_Inr_iff fail_def steps_on binary_grow split: option.splits)
    qed
  qed
  then show ?thesis by (simp add: neat_def gen_expr_forms gen_addr.simps [of "N_BINARY l oper a b"] fail_def)
qed

lemma neat_assign:
  assumes a: "neat lhs" and b: "neat b"
  shows "neat (N_ASSIGN l lhs b)"
proof -
  have "grows s s'" if g: "gen_expr (N_ASSIGN l lhs b) s = Inr s'" for s s'
  proof (cases "\<exists>vl name. lhs = N_VAR vl name")
    case True
    then show ?thesis
      using g neatD(2) [OF b]
      by (auto simp: gen_expr_forms res_bind_Inr_iff fail_def steps_on split: cvar.splits if_splits)
  next
    case False
    then obtain s1 s2 where 1: "gen_addr lhs s = Inr s1" and 2: "gen_expr b (emit ''PUSH R0'' s1) = Inr s2"
      and s': "s' = emits_all [''POP R1'', ''STORE [R1+0], R0''] s2"
      using g by (cases lhs) (auto simp only: gen_expr_forms res_bind_Inr_iff fail_def cnode.case sum.inject
          sum.distinct split: if_splits)
    from neat_operands [OF neatD(1) [OF a 1] b 2] show ?thesis by (simp add: s' steps_on)
  qed
  then show ?thesis by (simp add: neat_def gen_addr.simps [of "N_ASSIGN l lhs b"] fail_def)
qed

lemma neat_args: "\<forall>a \<in> set as. neat a \<Longrightarrow> gen_args as s = Inr s' \<Longrightarrow> (as = [] \<and> s' = s) \<or> grows s s'"
proof (induction as arbitrary: s')
  case (Cons a as)
  from Cons.prems(2) obtain s1 s2 where 1: "gen_args as s = Inr s1" and 2: "gen_expr a s1 = Inr s2"
    and s': "s' = emits_all [''LOADI R1, 4'', ''SUB R7, R1'', ''STORE [R7+0], R0''] s2"
    by (auto simp only: gen_args.simps res_bind_Inr_iff sum.inject)
  have "grows s1 s2" using neatD(2) [OF _ 2] Cons.prems(1) by simp
  then have "grows s s2" using Cons.IH [OF _ 1] Cons.prems(1) grows_trans grows_keeps by auto
  then show ?case by (simp add: s' steps_on)
qed (simp add: gen_args.simps)

lemma neat_call: "\<forall>a \<in> set as. neat a \<Longrightarrow> neat (N_CALL l name as)"
proof -
  assume as: "\<forall>a \<in> set as. neat a"
  have "grows s s'" if g: "gen_call l name as s = Inr s'" for s s'
  proof -
    consider (outp) "name = ''out''" | (inp) "name = ''in''" | (fn) "name \<noteq> ''out''" "name \<noteq> ''in''" by blast
    then show ?thesis
    proof cases
      case outp
      then obtain a s1 where "as = [a]" "gen_expr a s = Inr s1" "s' = emit ''OUT R0'' s1"
        using g by (auto simp: gen_call.simps res_bind_Inr_iff fail_def split: list.splits)
      with as neatD(2) show ?thesis by (simp add: steps_on)
    next
      case inp
      then show ?thesis using g by (auto simp: gen_call.simps steps_on)
    next
      case fn
      then obtain np where np: "func_find name s = Some np" "length as = np"
        using g by (auto simp: gen_call.simps fail_def split: option.splits if_splits)
      then obtain s1 where 1: "gen_args as s = Inr s1"
        and s': "s' = (if as \<noteq> [] then emits_all [''LOADI R1, '' @ fmt_base 10 (4 * length as), ''ADD R7, R1'']
            (emit (''CALL '' @ name) s1) else emit (''CALL '' @ name) s1)"
        using g fn by (auto simp only: gen_call.simps res_bind_Inr_iff option.case if_False Let_def sum.inject simp_thms)
      from neat_args [OF as 1] show ?thesis by (auto simp: s' steps_on)
    qed
  qed
  then show ?thesis by (simp add: neat_def gen_expr_forms gen_addr.simps [of "N_CALL l name as"] fail_def)
qed

lemma neat_others:
  "neat (N_PROGRAM l ds)" "neat (N_FUNC l name v ps bd)" "neat (N_PARAM l name ptr)"
  "neat (N_VARDECL l name ptr arr sz a)" "neat (N_BLOCK l ks)" "neat (N_IF l x y z)" "neat (N_WHILE l x y)"
  "neat (N_FOR l w e y' x)" "neat (N_RETURN l e)" "neat (N_EXPRSTMT l x)"
  by (simp_all add: neat_def gen_addr.simps gen_expr.simps fail_def)

lemma neat_all: "neat n"
  by (induction n)
    (simp_all add: neat_int neat_var neat_index neat_unary neat_binary neat_assign neat_call neat_others)

lemma gen_expr_grows: "gen_expr n s = Inr s' \<Longrightarrow> grows s s'"
  using neatD(2) neat_all by blast

subsection \<open>Statements\<close>

lemma gen_opt_keeps: "gen_opt a s = Inr s' \<Longrightarrow> keeps s s'"
  using gen_expr_grows grows_keeps by (auto simp: gen_opt_def split: option.splits)

lemma cond_keeps: "gen_cond_false e l s = Inr s' \<Longrightarrow> keeps s s'"
  using gen_expr_grows grows_keeps by (auto simp: gen_cond_false_def res_bind_Inr_iff steps_on)

lemma init_keeps: "gen_decl_init name a s = Inr s' \<Longrightarrow> keeps s s'"
  using gen_expr_grows grows_keeps
  by (auto simp: gen_decl_init_def res_bind_Inr_iff steps_on split: option.splits)

definition steady :: "cnode \<Rightarrow> bool" where
  "steady n = (\<forall>s s'. gen_stmt n s = Inr s' \<longrightarrow> keeps s s')"

lemma steadyD: "steady n \<Longrightarrow> gen_stmt n s = Inr s' \<Longrightarrow> keeps s s'"
  by (simp add: steady_def)

lemma steady_stmts: "\<forall>n \<in> set ks. steady n \<Longrightarrow> gen_stmts ks s = Inr s' \<Longrightarrow> keeps s s'"
  by (induction ks arbitrary: s) (auto simp: res_bind_Inr_iff steady_def intro: keeps_trans)

lemma steady_all: "steady n"
proof (induction n)
  case (N_BLOCK l ks)
  then show ?case using steady_stmts [of ks] by (simp add: steady_def [of "N_BLOCK l ks"])
next
  case (N_VARDECL l name ptr arr sz a)
  then show ?case using init_keeps by (simp add: steady_def)
next
  case (N_EXPRSTMT l a)
  then show ?case using gen_expr_grows grows_keeps by (simp add: steady_def)
next
  case (N_RETURN l a)
  then show ?case using gen_opt_keeps by (auto simp: steady_def res_bind_Inr_iff steps_on)
next
  case (N_IF l a b c)
  show ?case
    unfolding steady_def
  proof (intro allI impI)
    fix s s'
    assume g: "gen_stmt (N_IF l a b c) s = Inr s'"
    show "keeps s s'"
    proof (cases c)
      case None
      then obtain s1 s2 where 1: "gen_cond_false a (cg_label s) (bump s) = Inr s1" "gen_stmt b s1 = Inr s2" "s' = emit_label (cg_label s) s2"
        using g by (auto simp: newlabel_eq Let_def res_bind_Inr_iff)
      from keeps_trans [OF cond_keeps [OF 1(1)] steadyD [OF N_IF.IH(2) 1(2)]] show ?thesis by (simp add: 1(3) steps_on)
    next
      case (Some e)
      then obtain s1 s2 s3 i j where 1: "gen_cond_false a i (bump (bump s)) = Inr s1" "gen_stmt b s1 = Inr s2"
        "gen_stmt e (emit_label i (emitj ''JMP'' j s2)) = Inr s3" "s' = emit_label j s3"
        using g by (auto simp: newlabel_eq Let_def res_bind_Inr_iff)
      have "keeps s s2" using keeps_trans [OF cond_keeps [OF 1(1)] steadyD [OF N_IF.IH(2) 1(2)]] by simp
      then have "keeps s (emit_label i (emitj ''JMP'' j s2))" by (simp add: steps_on)
      from keeps_trans [OF this steadyD [OF _ 1(3)]] N_IF.IH(3) Some show ?thesis by (simp add: 1(4) steps_on)
    qed
  qed
next
  case (N_WHILE l a b)
  show ?case
    unfolding steady_def
  proof (intro allI impI)
    fix s s'
    assume "gen_stmt (N_WHILE l a b) s = Inr s'"
    then obtain s1 s2 i j where 1: "gen_cond_false a j (emit_label i (bump (bump s))) = Inr s1" "gen_stmt b s1 = Inr s2"
      "s' = emit_label j (emitj ''JMP'' i s2)"
      by (auto simp: newlabel_eq Let_def res_bind_Inr_iff)
    have "keeps s (emit_label i (bump (bump s)))" by (simp add: steps_on)
    from keeps_trans [OF this keeps_trans [OF cond_keeps [OF 1(1)] steadyD [OF N_WHILE.IH(2) 1(2)]]]
    show "keeps s s'" by (simp add: 1(3) steps_on)
  qed
next
  case (N_FOR l a b c d)
  show ?case
    unfolding steady_def
  proof (intro allI impI)
    fix s s'
    assume "gen_stmt (N_FOR l a b c d) s = Inr s'"
    then obtain s0 s1 s2 s3 i j where 0: "(case a of None \<Rightarrow> Inr s | Some i \<Rightarrow> gen_stmt i s) = Inr s0"
      and 1: "(case b of None \<Rightarrow> Inr (emit_label i (bump (bump s0))) | Some e \<Rightarrow> gen_cond_false e j (emit_label i (bump (bump s0)))) = Inr s1"
      and 2: "gen_stmt d s1 = Inr s2" "gen_opt c s2 = Inr s3" "s' = emit_label j (emitj ''JMP'' i s3)"
      by (auto simp: newlabel_eq Let_def res_bind_Inr_iff)
    have "keeps s s0" using 0 N_FOR.IH(1) steadyD by (cases a) auto
    then have "keeps s (emit_label i (bump (bump s0)))" by (simp add: steps_on)
    moreover have "keeps (emit_label i (bump (bump s0))) s1" using 1 cond_keeps by (cases b) auto
    ultimately have "keeps s s3"
      using steadyD [OF N_FOR.IH(4) 2(1)] gen_opt_keeps [OF 2(2)] keeps_trans by blast
    then show "keeps s s'" by (simp add: 2(3) steps_on)
  qed
qed (simp_all add: steady_def fail_def)

lemma gen_stmt_keeps: "gen_stmt n s = Inr s' \<Longrightarrow> keeps s s'"
  using steadyD steady_all by blast

subsection \<open>By lines\<close>

fun pushes :: "aline \<Rightarrow> bool" where
  "pushes (AIns op a b im) = (op = OP_PUSH)"
| "pushes _ = False"

text \<open>The labels of functions and variables are the user's names and can read like a \<open>POP\<close>.\<close>

fun pops :: "aline \<Rightarrow> bool" where
  "pops (AIns op a b im) = (op = OP_POP)"
| "pops (AMark n) = (hd n \<noteq> CHR ''_'')"
| "pops _ = False"

fun settled :: "aline list \<Rightarrow> bool" where
  "settled [] = True"
| "settled (x # ls) = ((pushes x \<longrightarrow> (case ls of [] \<Rightarrow> False | y # _ \<Rightarrow> \<not> pops y)) \<and> settled ls)"

lemma settled_append: "settled xs \<Longrightarrow> settled ys \<Longrightarrow> settled (xs @ ys)"
  by (induction xs) (auto split: list.splits)

lemma pushes_text:
  assumes "line_ok x" "pushes x" shows "pushy (line_text x)"
proof -
  obtain a b im where x: "x = AIns OP_PUSH a b im" using assms(2) by (cases x) auto
  with assms(1) have "a < 8" "b < 8" by (auto simp: line_ok.simps(1))
  then show ?thesis using x by (simp add: disasm_text_def decode_encode)
qed

lemma pops_text:
  assumes "body_ok y" "pops y" shows "popy (line_text y)"
proof -
  obtain a b im where y: "y = AIns OP_POP a b im" using assms by (cases y) auto
  with assms(1) have "a < 8" "b < 8" by (auto simp: line_ok.simps(1))
  then show ?thesis using y by (simp add: disasm_text_def decode_encode)
qed

lemma settled_body: "list_all body_ok ls \<Longrightarrow> apart (map line_text ls) \<Longrightarrow> settled ls"
proof (induction ls)
  case (Cons x ls)
  have bx: "body_ok x" and ls: "list_all body_ok ls" using Cons.prems(1) unfolding list.pred_inject by blast+
  have x: "line_ok x" using bx by simp
  from Cons.prems(2) have ap: "pushy (line_text x) \<Longrightarrow> case map line_text ls of [] \<Rightarrow> False | y # _ \<Rightarrow> \<not> popy y"
    and ap': "apart (map line_text ls)"
    by (simp_all only: list.map apart.simps)
  have "case ls of [] \<Rightarrow> False | y # _ \<Rightarrow> \<not> pops y" if p: "pushes x"
  proof -
    obtain y us where y: "ls = y # us" "\<not> popy (line_text y)"
      using ap [OF pushes_text [OF x p]] by (cases ls) (auto simp only: list.map list.case)
    then have "body_ok y" using ls unfolding y(1) list.pred_inject by blast
    then have "\<not> pops y" using pops_text [of y] y(2) by blast
    with y(1) show ?thesis by (simp only: list.case not_False_eq_True)
  qed
  with Cons.IH [OF ls ap'] show ?case by (simp only: settled.simps) blast
qed (simp only: settled.simps)

end
