(* ===== verification/Peephole.thy ===== *)
theory Peephole
  imports CGen Encoder Scan
begin

text \<open>
  The peephole pass over the emitted lines, the driver \<open>codegen\<close> (\<open>src/cgen.c\<close>) and the compiler's
  \<open>main\<close> (\<open>src/main_cc.c\<close>). The lines are matched with the formats that the code gives to
  \<open>sscanf\<close>, conversion by conversion. The pass is repeated while it changes something, and it
  ends because every change makes the buffer shorter.
\<close>

subsection \<open>The patterns\<close>

text \<open>\<open>body\<close> skips the indentation; \<open>is_target\<close> is a line that ends in a colon.\<close>

definition line_body :: "string \<Rightarrow> string" where
  "line_body s = dropWhile (\<lambda>c. c = CHR '' '') s"

definition is_target :: "string \<Rightarrow> bool" where
  "is_target s = (s \<noteq> [] \<and> last s = CHR '':'')"

text \<open>\<open>sscanf(body(s), "MOV %15[^,], %15s", a, b) == 2\<close>.\<close>

definition p_mov :: "string \<Rightarrow> (string \<times> string) option" where
  "p_mov s =
     Option.bind (sc_lit ''MOV'' (line_body s)) (\<lambda>r.
     Option.bind (sc_span 15 (\<lambda>c. c \<noteq> CHR '','') (sc_space r)) (\<lambda>(a, r).
     Option.bind (sc_lit '','' r) (\<lambda>r.
     Option.bind (sc_word 15 r) (\<lambda>(b, _). Some (a, b)))))"

text \<open>\<open>sscanf(body(s), "PUSH %15s", a) == 1\<close> and the same for \<open>POP\<close>.\<close>

definition p_op1 :: "string \<Rightarrow> string \<Rightarrow> string option" where
  "p_op1 oper s = Option.bind (sc_lit oper (line_body s)) (\<lambda>r. map_option fst (sc_word 15 r))"

text \<open>
  \<open>sscanf(body(s), "STORE [%63[^]]], R0", mem) == 1\<close>: the result counts conversions, so what
  follows the bracket is not compared. \<open>p_load0\<close> likewise.
\<close>

definition p_store :: "string \<Rightarrow> string option" where
  "p_store s =
     Option.bind (sc_lit ''STORE'' (line_body s)) (\<lambda>r.
     Option.bind (sc_lit ''['' (sc_space r)) (\<lambda>r.
       map_option fst (sc_span 63 (\<lambda>c. c \<noteq> CHR '']'') r)))"

definition p_load0 :: "string \<Rightarrow> string option" where
  "p_load0 s =
     Option.bind (sc_lit ''LOAD'' (line_body s)) (\<lambda>r.
     Option.bind (sc_lit ''R0,'' (sc_space r)) (\<lambda>r.
     Option.bind (sc_lit ''['' (sc_space r)) (\<lambda>r.
       map_option fst (sc_span 63 (\<lambda>c. c \<noteq> CHR '']'') r))))"

subsection \<open>The pass\<close>

definition self_move :: "string \<Rightarrow> bool" where
  "self_move cur = (case p_mov cur of Some (a, b) \<Rightarrow> a = b | None \<Rightarrow> False)"

definition stack_pair :: "string \<Rightarrow> string \<Rightarrow> (string \<times> string) option" where
  "stack_pair prev cur =
     Option.bind (p_op1 ''PUSH'' prev) (\<lambda>a. map_option (Pair a) (p_op1 ''POP'' cur))"

definition reload :: "string \<Rightarrow> string \<Rightarrow> bool" where
  "reload prev cur = (\<not> is_target prev \<and> \<not> is_target cur \<and>
     p_store prev \<noteq> None \<and> p_store prev = p_load0 cur)"

definition move_line :: "string \<Rightarrow> string \<Rightarrow> string" where
  "move_line a b = replicate 8 (CHR '' '') @ ''MOV '' @ b @ '', '' @ a"

text \<open>
  The body of the \<open>for\<close> loop on the line \<open>cur\<close>: the output so far, last line first, and whether
  something changed.
\<close>

definition peep_line :: "string \<Rightarrow> string list \<Rightarrow> string list \<times> bool" where
  "peep_line cur w =
     (if self_move cur then (w, True)
      else case w of
          [] \<Rightarrow> ([cur], False)
        | prev # w' \<Rightarrow>
            (case stack_pair prev cur of
               Some (a, b) \<Rightarrow> (if a \<noteq> b then move_line a b # w' else w', True)
             | None \<Rightarrow> if reload prev cur then (w, True) else (cur # w, False)))"

fun peep_pass :: "string list \<Rightarrow> string list \<Rightarrow> string list \<times> bool" where
  "peep_pass w [] = (rev w, False)"
| "peep_pass w (cur # rest) =
     (let (w', c) = peep_line cur w; (out, c') = peep_pass w' rest in (out, c \<or> c'))"

lemma peep_line_length: "peep_line cur w = (w', c) \<Longrightarrow> length w' + (if c then 1 else 0) \<le> Suc (length w)"
  by (auto simp: peep_line_def split: if_splits list.splits option.splits)

lemma peep_pass_length:
  "peep_pass w ls = (out, c) \<Longrightarrow> length out + (if c then 1 else 0) \<le> length w + length ls"
proof (induction w ls arbitrary: out c rule: peep_pass.induct)
  case (2 w cur rest)
  obtain w' c1 where 1: "peep_line cur w = (w', c1)" by fastforce
  obtain out' c2 where 2: "peep_pass w' rest = (out', c2)" by fastforce
  show ?case
    using "2.IH" [OF 1 [symmetric] refl 2] peep_line_length [OF 1] "2.prems" 1 2 by (auto split: if_splits)
qed simp

function peephole :: "string list \<Rightarrow> string list" where
  "peephole ls = (let (out, changed) = peep_pass [] ls in if changed then peephole out else out)"
  by pat_completeness auto

termination
proof (relation "measure length", goal_cases)
  case (2 ls r out changed)
  then have "peep_pass [] ls = (out, True)" by simp
  from peep_pass_length [OF this] show ?case by simp
qed simp

declare peephole.simps [simp del]

subsection \<open>\<open>codegen\<close>\<close>

definition cg_init :: cgstate where
  "cg_init = \<lparr>cg_label = 0, cg_epi = [], cg_lines = [], cg_sym = [], cg_funcs = [], cg_globs = []\<rparr>"

text \<open>The first loop: the tables of globals and functions, and whether there is a \<open>main\<close>.\<close>

definition declare_top :: "cnode \<Rightarrow> cgstate \<times> bool \<Rightarrow> cgfail + cgstate \<times> bool" where
  "declare_top d sm = (let (s, m) = sm in case d of
     N_VARDECL _ name _ arr _ _ \<Rightarrow>
       if length (cg_globs s) < GLOB_CAP
       then Inr (s\<lparr>cg_globs := cg_globs s @ [\<lparr>gl_name = name, gl_array = arr\<rparr>]\<rparr>, m)
       else Inl (CGFault (BadIndex (of_nat GLOB_CAP)))
   | N_FUNC _ name _ params _ \<Rightarrow>
       if length (cg_funcs s) < FUNC_CAP
       then Inr (s\<lparr>cg_funcs := cg_funcs s @ [\<lparr>fn_name = name, fn_nparams = length (filter is_param params)\<rparr>]\<rparr>,
                 m \<or> name = ''main'')
       else Inl (CGFault (BadIndex (of_nat FUNC_CAP)))
   | _ \<Rightarrow> Inr (s, m))"

definition gen_top :: "cnode \<Rightarrow> cgen" where
  "gen_top d s = (case d of
     N_FUNC _ name _ params fbody \<Rightarrow> gen_function name params fbody s
   | _ \<Rightarrow> Inr s)"

definition gen_global :: "cnode \<Rightarrow> cgen" where
  "gen_global d s = (case d of
     N_VARDECL line name _ arr sz a \<Rightarrow>
       (let s = add_line (name @ '':'') s in
        if arr then Inr (emits_all (replicate (nat sz) ''.word 0'') s)
        else (case a of
            None \<Rightarrow> Inr (emit (''.word '' @ fmt_int 0) s)
          | Some (N_INT _ v) \<Rightarrow> Inr (emit (''.word '' @ fmt_int v) s)
          | Some _ \<Rightarrow> fail line ''global initializer must be a constant''))
   | _ \<Rightarrow> Inr s)"

text \<open>The text written to \<open>out\<close> when the result is 0.\<close>

definition codegen_lines :: "cnode list \<Rightarrow> cgfail + string list" where
  "codegen_lines ds =
     res_bind (res_fold declare_top ds (cg_init, False)) (\<lambda>(s, has_main).
     if \<not> has_main then Inl (CGError ''no main() function'')
     else
       res_bind (res_fold gen_top ds
          (emits_all [''LOADI R7, '' @ fmt_int STACK_BASE, ''CALL main'', ''HALT'']
            (add_line ''; generated by mcc'' s))) (\<lambda>s.
       res_bind (res_fold gen_global ds s) (\<lambda>s. Inr (peephole (cg_lines s)))))"

definition codegen :: "cnode \<Rightarrow> cgfail + string" where
  "codegen root = res_bind (codegen_lines (case root of N_PROGRAM _ ds \<Rightarrow> ds | _ \<Rightarrow> []))
     (\<lambda>ls. Inr (concat (map (\<lambda>l. l @ ''\<newline>'') ls)))"

subsection \<open>\<open>main\<close>\<close>

text \<open>The argument loop: \<open>--ast\<close>, the input and the output path.\<close>

fun cc_args :: "string list \<Rightarrow> bool \<times> string option \<times> string option \<Rightarrow> bool \<times> string option \<times> string option" where
  "cc_args [] r = r"
| "cc_args (a # as) (ast, inp, outp) =
     (if a = ''--ast'' then cc_args as (True, inp, outp)
      else if a = ''-o'' \<and> as \<noteq> [] then cc_args (tl as) (ast, inp, Some (hd as))
      else cc_args as (ast, Some a, outp))"

text \<open>
  The return code, the files afterwards, and what is on \<open>stdout\<close> and \<open>stderr\<close>. The output file is
  opened, and so emptied, before code is generated.
\<close>

definition main_cc :: "string \<Rightarrow> string list \<Rightarrow> files \<Rightarrow> (nat \<times> files \<times> string \<times> string) res" where
  "main_cc argv0 args fs = (case cc_args args (False, None, None) of
     (_, None, _) \<Rightarrow> Inr (2, fs, [], ''usage: '' @ argv0 @ '' [--ast] [-o out.asm] file.c\<newline>'')
   | (ast, Some inp, outp) \<Rightarrow>
      (case read_file fs inp of
         Inl e \<Rightarrow> Inr (1, fs, [], e)
       | Inr src \<Rightarrow>
          (case parse_source src of
             Inl (CFault f) \<Rightarrow> Inl f
           | Inl (CSyntax msg) \<Rightarrow> Inr (1, fs, [], inp @ '': '' @ msg @ ''\<newline>'')
           | Inr root \<Rightarrow>
              if ast then Inr (0, fs, ast_print root, [])
              else
                (case outp of
                   Some path \<Rightarrow>
                     if \<not> writable fs path then Inr (1, fs, [], ''cannot write '' @ path @ ''\<newline>'')
                     else (case codegen root of
                         Inl (CGFault f) \<Rightarrow> Inl f
                       | Inl (CGError msg) \<Rightarrow>
                           Inr (1, fs\<lparr>contents := (contents fs)(path \<mapsto> [])\<rparr>, [], inp @ '': '' @ msg @ ''\<newline>'')
                       | Inr text \<Rightarrow> Inr (0, fs\<lparr>contents := (contents fs)(path \<mapsto> text)\<rparr>, [], []))
                 | None \<Rightarrow>
                     (case codegen root of
                         Inl (CGFault f) \<Rightarrow> Inl f
                       | Inl (CGError msg) \<Rightarrow> Inr (1, fs, [], inp @ '': '' @ msg @ ''\<newline>'')
                       | Inr text \<Rightarrow> Inr (0, fs, text, []))))))"

end
