(* ===== verification/CGenProg.thy ===== *)
theory CGenProg
  imports CGenFn CGenTidy Peephole
begin

text \<open>
  Whole programs, as \<open>codegen\<close> emits them before the peephole pass: the start code, the functions and
  the data. The code of \<open>main\<close> called from the start code does what the reference semantics of the
  program says, for every fuel.
\<close>

subsection \<open>Frame layout\<close>

text \<open>The layout changes the symbol table only, and does not look at what has been emitted.\<close>

definition moved_to :: "cgstate \<Rightarrow> cgstate \<Rightarrow> cgstate" where
  "moved_to T s = T\<lparr>cg_sym := cg_sym s\<rparr>"

lemma moved_simps [simp]:
  "cg_sym (moved_to T s) = cg_sym s" "cg_funcs (moved_to T s) = cg_funcs T" "cg_globs (moved_to T s) = cg_globs T"
  "cg_lines (moved_to T s) = cg_lines T" "cg_label (moved_to T s) = cg_label T" "cg_epi (moved_to T s) = cg_epi T"
  "sym_find name (moved_to T s) = sym_find name s"
  "(moved_to T s)\<lparr>cg_sym := y\<rparr> = moved_to T (s\<lparr>cg_sym := y\<rparr>)" "moved_to s s = s"
  by (simp_all add: moved_to_def sym_find_def)

definition res_map :: "('a \<Rightarrow> 'b) \<Rightarrow> 'e + 'a \<Rightarrow> 'e + 'b" where
  "res_map f r = (case r of Inl e \<Rightarrow> Inl e | Inr x \<Rightarrow> Inr (f x))"

lemma res_map_simps [simp]: "res_map f (Inl e) = Inl e" "res_map f (Inr x) = Inr (f x)"
  by (simp_all add: res_map_def)

lemma csym_add_moved: "csym_add name off a (moved_to T s) = res_map (moved_to T) (csym_add name off a s)"
  by (simp add: csym_add_def)

definition layout_moves :: "(cgstate \<times> int \<Rightarrow> cgfail + cgstate \<times> int) \<Rightarrow> bool" where
  "layout_moves f = (\<forall>T s b. f (moved_to T s, b) = res_map (\<lambda>(s, b). (moved_to T s, b)) (f (s, b)))"

lemma layout_moves_Inr: "layout_moves Inr"
  by (simp add: layout_moves_def)

lemma layout_moves_bind:
  assumes "layout_moves f" "layout_moves g"
  shows "layout_moves (\<lambda>sb. res_bind (f sb) (\<lambda>sb. g sb))"
  unfolding layout_moves_def
proof (intro allI)
  fix T s b
  show "res_bind (f (moved_to T s, b)) (\<lambda>sb. g sb) =
      res_map (\<lambda>(s, b). (moved_to T s, b)) (res_bind (f (s, b)) (\<lambda>sb. g sb))"
    using assms by (cases "f (s, b)") (auto simp: layout_moves_def)
qed

lemma layout_moves_list: "\<forall>n \<in> set ks. layout_moves (collect n) \<Longrightarrow> layout_moves (collect_list ks)"
proof (induction ks)
  case Nil
  have "collect_list [] = Inr" by (simp add: fun_eq_iff)
  then show ?case using layout_moves_Inr by simp
next
  case (Cons k ks)
  have "collect_list (k # ks) = (\<lambda>sb. res_bind (collect k sb) (\<lambda>sb. collect_list ks sb))" by (simp add: fun_eq_iff)
  then show ?case using Cons layout_moves_bind by simp
qed

lemma layout_moves_opt: "\<forall>n \<in> set_option c. layout_moves (collect n) \<Longrightarrow> layout_moves (collect_opt c)"
proof (cases c)
  case None
  have "collect_opt None = Inr" by (simp add: fun_eq_iff)
  then show ?thesis using None layout_moves_Inr by simp
next
  case (Some n)
  assume "\<forall>n \<in> set_option c. layout_moves (collect n)"
  moreover have "collect_opt (Some n) = collect n" by (simp add: fun_eq_iff)
  ultimately show ?thesis using Some by simp
qed

lemma collect_moved: "layout_moves (collect n)"
proof (induction n)
  case (N_BLOCK l ks)
  have "collect (N_BLOCK l ks) = collect_list ks" by (simp add: fun_eq_iff)
  with layout_moves_list N_BLOCK show ?case by simp
next
  case (N_VARDECL l name ptr arr sz a)
  show ?case
    by (auto simp: layout_moves_def res_map_def res_bind_def csym_add_moved csym_add_def split: sum.splits)
next
  case (N_IF l a b c)
  have "collect (N_IF l a b c) = (\<lambda>sb. res_bind (collect b sb) (\<lambda>sb. collect_opt c sb))" by (simp add: fun_eq_iff)
  with layout_moves_bind [OF N_IF.IH(2) layout_moves_opt] N_IF.IH(3) show ?case by simp
next
  case (N_WHILE l a b)
  have "collect (N_WHILE l a b) = collect b" by (simp add: fun_eq_iff)
  with N_WHILE show ?case by simp
next
  case (N_FOR l a b c d)
  have "collect (N_FOR l a b c d) = (\<lambda>sb. res_bind (collect_opt a sb) (\<lambda>sb. collect d sb))" by (simp add: fun_eq_iff)
  with layout_moves_bind [OF layout_moves_opt N_FOR.IH(4)] N_FOR.IH(1) show ?case by simp
qed (simp_all add: layout_moves_def)

lemma add_params_moved: "add_params ps k (moved_to T s) = res_map (moved_to T) (add_params ps k s)"
proof (induction ps arbitrary: k s)
  case (Cons p ps)
  then show ?case
    by (auto simp: csym_add_moved res_map_def res_bind_def csym_add_def split: cnode.splits sum.splits)
qed simp

lemma frame_layout_moved: "frame_layout T ps b = res_map (\<lambda>(t, n). (moved_to T t, n)) (frame_layout s ps b)"
proof -
  have t: "T\<lparr>cg_sym := []\<rparr> = moved_to T (s\<lparr>cg_sym := []\<rparr>)" by (simp add: moved_to_def)
  show ?thesis
    using collect_moved [of b] add_params_moved [of ps 0 T "s\<lparr>cg_sym := []\<rparr>"] unfolding frame_layout_def t
    by (cases "add_params ps 0 (s\<lparr>cg_sym := []\<rparr>)") (auto simp: layout_moves_def)
qed

text \<open>The other fields are those of the state before.\<close>

lemma frame_layout_fields:
  assumes "frame_layout s ps b = Inr (t, n)"
  shows "cg_funcs t = cg_funcs s" "cg_globs t = cg_globs s" "cg_lines t = cg_lines s" "cg_label t = cg_label s"
    "cg_epi t = cg_epi s"
proof -
  have "t = moved_to s t" using frame_layout_moved [of s ps b s] assms by simp
  then show "cg_funcs t = cg_funcs s" "cg_globs t = cg_globs s" "cg_lines t = cg_lines s" "cg_label t = cg_label s"
    "cg_epi t = cg_epi s"
    by (metis moved_simps(2), metis moved_simps(3), metis moved_simps(4), metis moved_simps(5), metis moved_simps(6))
qed

subsection \<open>The code of a function\<close>

text \<open>What the emission of a function or a variable leaves behind.\<close>

definition extends :: "cgstate \<Rightarrow> cgstate \<Rightarrow> aline list \<Rightarrow> bool" where
  "extends s s' als = (cg_lines s' = cg_lines s @ map line_text als \<and> cg_funcs s' = cg_funcs s \<and>
     cg_globs s' = cg_globs s \<and> cg_label s \<le> cg_label s' \<and>
     (cg_label s' \<le> LABEL_MAX \<longrightarrow> list_all line_ok als \<and> guarded als \<and> settled als))"

lemma extends_refl: "extends s s []"
  by (simp add: extends_def)

lemma extends_trans: "extends s s1 als \<Longrightarrow> extends s1 s2 bls \<Longrightarrow> extends s s2 (als @ bls)"
  by (auto simp: extends_def guarded_append settled_append)

lemma extends_puts: "list_all line_ok ls \<Longrightarrow> guarded ls \<Longrightarrow> settled ls \<Longrightarrow> extends s (fold put ls s) ls"
proof -
  have "cg_lines (fold put ls s) = cg_lines s @ map line_text ls \<and> cg_funcs (fold put ls s) = cg_funcs s
      \<and> cg_globs (fold put ls s) = cg_globs s \<and> cg_label (fold put ls s) = cg_label s"
    by (induction ls arbitrary: s) simp_all
  then show "list_all line_ok ls \<Longrightarrow> guarded ls \<Longrightarrow> settled ls \<Longrightarrow> ?thesis" by (simp add: extends_def)
qed

text \<open>What is asked of a function: names the assembler takes, and a frame within reach.\<close>

definition tables_ok :: "cgstate \<Rightarrow> bool" where
  "tables_ok s = (list_all (\<lambda>y. fits20 (sy_off y)) (cg_sym s) \<and> list_all (\<lambda>g. label_ok (gl_name g)) (cg_globs s) \<and>
     list_all (\<lambda>f. label_ok (fn_name f) \<and> fn_nparams f < 100000) (cg_funcs s))"

lemma tables_static: "tables_ok s \<Longrightarrow> static_ok s"
  unfolding static_ok_def tables_ok_def cresolve_def sym_find_def func_find_def list_all_iff
  by (auto split: option.splits dest!: find_Some)

definition frame_ok :: "cgstate \<Rightarrow> string \<Rightarrow> cnode list \<Rightarrow> cnode \<Rightarrow> bool" where
  "frame_ok s name ps b = (label_ok name \<and> label_ok (epi_name name) \<and>
     (case frame_layout s ps b of Inl _ \<Rightarrow> True | Inr (t, n) \<Rightarrow> tables_ok t \<and> fits20 n))"

text \<open>The lines of a function, and that they can be executed wherever they stand.\<close>

definition fn_lines :: "cgstate \<Rightarrow> string \<Rightarrow> cnode list \<Rightarrow> cnode \<Rightarrow> aline list \<Rightarrow> bool" where
  "fn_lines s name ps b ls = (\<exists>t n bls. frame_layout s ps b = Inr (t, n) \<and> ls = fn_pre name n @ bls @ fn_post name \<and>
     (\<forall>E prog i ke fp r7. linked E prog t \<longrightarrow> at prog i bls \<longrightarrow> place (epi_name name) prog = Some ke \<longrightarrow>
        executes E prog i (i + length bls) ke fp r7 (cexec E fp r7 b)))"

lemma fn_pre_put:
  assumes "fits20 n"
  shows "(let s = emits_all [''LOADI R1, 4'', ''SUB R7, R1'', ''STORE [R7+0], R6'', ''MOV R6, R7''] (add_line (name @ '':'') s)
    in if n \<noteq> 0 then emits_all [''LOADI R1, '' @ fmt_int n, ''SUB R7, R1''] s else s) = fold put (fn_pre name n) s"
  unfolding fn_pre_def Let_def emits_all.simps puts put_immediate [OF assms] by simp

lemma fn_post_put:
  "emits_all [''MOV R7, R6'', ''LOAD R6, [R7+0]'', ''LOADI R1, 4'', ''ADD R7, R1'', ''RET''] (add_line (epi_name name @ '':'') s)
   = fold put (fn_post name) s"
  unfolding fn_post_def emits_all.simps puts fold_simps ..

lemma fn_pre_ok:
  assumes "label_ok name" "fits20 n"
  shows "list_all line_ok (fn_pre name n)" "guarded (fn_pre name n)" "settled (fn_pre name n)"
  using assms imm_fits_fits20 [OF assms(2)] by (auto simp: fn_pre_def)

lemma fn_post_ok: "label_ok (epi_name name) \<Longrightarrow> list_all line_ok (fn_post name) \<and> guarded (fn_post name) \<and> settled (fn_post name)"
  by (auto simp: fn_post_def)

lemma gen_function_parts:
  assumes "gen_function name ps b s = Inr s'" "fits20 (snd (projr (frame_layout s ps b)))"
  obtains t n s2 where "frame_layout s ps b = Inr (t, n)"
    and "gen_stmt b ((fold put (fn_pre name n) t)\<lparr>cg_epi := epi_name name\<rparr>) = Inr s2"
    and "s' = emits_all [''MOV R7, R6'', ''LOAD R6, [R7+0]'', ''LOADI R1, 4'', ''ADD R7, R1'', ''RET'']
      (add_line (cg_epi s2 @ '':'') s2)"
proof -
  obtain t n where t: "frame_layout s ps b = Inr (t, n)"
    using assms(1) by (cases "frame_layout s ps b") (auto simp: gen_function_def frame_layout_def res_bind_def split: sum.splits)
  have "gen_function name ps b s = res_bind (frame_layout s ps b) (\<lambda>(s, bytes).
       let s = emits_all [''LOADI R1, 4'', ''SUB R7, R1'', ''STORE [R7+0], R6'', ''MOV R6, R7''] (add_line (name @ '':'') s);
           s = (if bytes \<noteq> 0 then emits_all [''LOADI R1, '' @ fmt_int bytes, ''SUB R7, R1''] s else s)
       in res_bind (gen_stmt b (s\<lparr>cg_epi := name @ ''_epi''\<rparr>)) (\<lambda>s.
         Inr (emits_all [''MOV R7, R6'', ''LOAD R6, [R7+0]'', ''LOADI R1, 4'', ''ADD R7, R1'', ''RET'']
               (add_line (cg_epi s @ '':'') s))))"
    by (simp add: gen_function_def frame_layout_def res_bind_def split: sum.split)
  then have "res_bind (gen_stmt b ((fold put (fn_pre name n) t)\<lparr>cg_epi := name @ ''_epi''\<rparr>)) (\<lambda>s.
         Inr (emits_all [''MOV R7, R6'', ''LOAD R6, [R7+0]'', ''LOADI R1, 4'', ''ADD R7, R1'', ''RET'']
               (add_line (cg_epi s @ '':'') s))) = Inr s'"
    using fn_pre_put [of n name t] assms t by (simp only: res_bind_simps prod.case Let_def sum.sel snd_conv)
  with that [OF t] show ?thesis by (auto simp only: res_bind_Inr_iff epi_name_def sum.inject)
qed

lemma fold_put_tables:
  "cg_sym (fold put ls s) = cg_sym s" "cg_funcs (fold put ls s) = cg_funcs s" "cg_globs (fold put ls s) = cg_globs s"
  "cg_label (fold put ls s) = cg_label s" "cg_lines (fold put ls s) = cg_lines s @ map line_text ls"
  by (induction ls arbitrary: s) simp_all

lemma gen_function_lines:
  assumes g: "gen_function name ps b s = Inr s'" and ok: "frame_ok s name ps b"
  shows "\<exists>ls. extends s s' ls \<and> fn_lines s name ps b ls"
proof -
  have f: "fits20 (snd (projr (frame_layout s ps b)))" if "frame_layout s ps b = Inr x" for x
    using ok that by (cases x) (simp add: frame_ok_def)
  have "\<exists>x. frame_layout s ps b = Inr x"
    using g by (cases "frame_layout s ps b") (auto simp: gen_function_def frame_layout_def res_bind_def split: sum.splits)
  with f have "fits20 (snd (projr (frame_layout s ps b)))" by blast
  from gen_function_parts [OF g this] obtain t n s2 where t: "frame_layout s ps b = Inr (t, n)"
    and 2: "gen_stmt b ((fold put (fn_pre name n) t)\<lparr>cg_epi := epi_name name\<rparr>) = Inr s2"
    and s': "s' = emits_all [''MOV R7, R6'', ''LOAD R6, [R7+0]'', ''LOADI R1, 4'', ''ADD R7, R1'', ''RET'']
      (add_line (cg_epi s2 @ '':'') s2)" .
  from ok t have tok: "tables_ok t" "fits20 n" "label_ok name" "label_ok (epi_name name)" by (simp_all add: frame_ok_def)
  let ?s1 = "(fold put (fn_pre name n) t)\<lparr>cg_epi := epi_name name\<rparr>"
  have tab: "cg_sym ?s1 = cg_sym t" "cg_funcs ?s1 = cg_funcs t" "cg_globs ?s1 = cg_globs t"
    by (simp_all add: fold_put_tables)
  have s1: "static_ok ?s1" "cg_epi ?s1 = epi_name name"
    using tables_static [OF tok(1)] same_tables(3) [OF tab] by simp_all
  have p: "performs ?s1 s2 (\<lambda>E fp r7. cexec E fp r7 b)"
    by (rule gen_stmt_correct [OF s1(1) _ 2]) (use tok s1 in simp)
  obtain bls where w: "wrote ?s1 s2 bls"
    and P: "\<And>E prog i ke fp r7. linked E prog ?s1 \<Longrightarrow> at prog i bls \<Longrightarrow> place (epi_name name) prog = Some ke \<Longrightarrow>
      executes E prog i (i + length bls) ke fp r7 (cexec E fp r7 b)"
    by (rule performsE [OF p, unfolded s1(2)]) blast
  have s'': "s' = fold put (fn_post name) s2"
    using fn_post_put [of name s2] s' wrote_fields(4) [OF w] by simp
  let ?ls = "fn_pre name n @ bls @ fn_post name"
  have "apart (map line_text bls)" using gen_stmt_keeps [OF 2] wrote_fields(6) [OF w] by (auto simp: keeps_def)
  then have "list_all line_ok bls \<and> guarded bls \<and> settled bls" if "cg_label s2 \<le> LABEL_MAX"
    using w that guarded_body [of bls] settled_body [of bls] by (auto simp: wrote_def list_all_iff)
  then have "extends s s' ?ls"
    using frame_layout_fields [OF t] w fn_pre_ok [OF tok(3,2)] fn_post_ok [OF tok(4)]
    by (simp add: extends_def s'' fold_put_tables wrote_def guarded_append settled_append)
  moreover have "fn_lines s name ps b ?ls"
    unfolding fn_lines_def
    by (intro exI [of _ t] exI [of _ n] exI [of _ bls] conjI t refl allI impI P)
      (simp_all only: same_tables(4) [OF tab])
  ultimately show ?thesis by blast
qed

subsection \<open>All functions and variables\<close>

fun fns :: "cnode list \<Rightarrow> (string \<times> cnode list \<times> cnode) list" where
  "fns [] = []"
| "fns (d # ds) = (case d of N_FUNC _ name _ ps b \<Rightarrow> (name, ps, b) # fns ds | _ \<Rightarrow> fns ds)"

lemma layout_same:
  assumes "cg_funcs s' = cg_funcs s" "cg_globs s' = cg_globs s"
  shows "frame_ok s' name ps b = frame_ok s name ps b" "fn_lines s' name ps b ls = fn_lines s name ps b ls"
proof -
  have fl: "frame_layout s' ps b = res_map (\<lambda>(t, n). (moved_to s' t, n)) (frame_layout s ps b)"
    by (rule frame_layout_moved)
  have tab: "tables_ok (moved_to s' t) = tables_ok t" "linked E prog (moved_to s' t) = linked E prog t"
    if "frame_layout s ps b = Inr (t, n)" for t n E prog
  proof -
    have e: "cg_sym (moved_to s' t) = cg_sym t" "cg_funcs (moved_to s' t) = cg_funcs t" "cg_globs (moved_to s' t) = cg_globs t"
      using frame_layout_fields [OF that] assms by simp_all
    show "tables_ok (moved_to s' t) = tables_ok t" unfolding tables_ok_def e ..
    show "linked E prog (moved_to s' t) = linked E prog t" by (rule same_tables(4) [OF e])
  qed
  show "frame_ok s' name ps b = frame_ok s name ps b"
    using tab by (cases "frame_layout s ps b") (auto simp: frame_ok_def fl)
  show "fn_lines s' name ps b ls = fn_lines s name ps b ls"
  proof (cases "frame_layout s ps b")
    case (Inr x)
    obtain t n where x: "x = (t, n)" by (cases x)
    show ?thesis unfolding fn_lines_def fl Inr x by (simp add: tab(2) [OF Inr [unfolded x]])
  qed (simp add: fn_lines_def fl)
qed

lemma gen_tops_lines:
  assumes "res_fold gen_top ds s = Inr s'" "\<forall>(name, ps, b) \<in> set (fns ds). frame_ok s name ps b"
  shows "\<exists>codes. extends s s' (concat codes) \<and> list_all2 (\<lambda>(name, ps, b) ls. fn_lines s name ps b ls) (fns ds) codes"
  using assms
proof (induction ds arbitrary: s)
  case Nil
  then show ?case using extends_refl by (intro exI [of _ "[]"]) simp
next
  case (Cons d ds)
  from Cons.prems(1) obtain s1 where 1: "gen_top d s = Inr s1" "res_fold gen_top ds s1 = Inr s'"
    by (auto simp: res_bind_Inr_iff)
  show ?case
  proof (cases "\<exists>l name v ps b. d = N_FUNC l name v ps b")
    case True
    then obtain l name v ps b where d: "d = N_FUNC l name v ps b" by blast
    with Cons.prems(2) 1(1) obtain ls where ls: "extends s s1 ls" "fn_lines s name ps b ls"
      using gen_function_lines [of name ps b s s1] by (auto simp: gen_top_def)
    have tab: "cg_funcs s1 = cg_funcs s" "cg_globs s1 = cg_globs s" using ls(1) by (simp_all add: extends_def)
    have "\<forall>(name, ps, b) \<in> set (fns ds). frame_ok s1 name ps b"
      using Cons.prems(2) by (auto simp: d layout_same(1) [OF tab])
    from Cons.IH [OF 1(2) this] obtain codes where c: "extends s1 s' (concat codes)"
      "list_all2 (\<lambda>(name, ps, b) ls. fn_lines s name ps b ls) (fns ds) codes"
      by (auto simp: layout_same(2) [OF tab])
    have "extends s s' (concat (ls # codes))" using extends_trans [OF ls(1) c(1)] by simp
    moreover have "list_all2 (\<lambda>(name, ps, b) ls. fn_lines s name ps b ls) (fns (d # ds)) (ls # codes)"
      using c(2) ls(2) by (simp add: d)
    ultimately show ?thesis by blast
  next
    case False
    then have "gen_top d s = Inr s" "fns (d # ds) = fns ds" by (auto simp: gen_top_def split: cnode.split)
    with Cons 1 show ?thesis by simp
  qed
qed

text \<open>Variables: a label and their words.\<close>

definition data_lines :: "cnode \<Rightarrow> aline list" where
  "data_lines d = (case d of
     N_VARDECL _ name _ arr sz a \<Rightarrow> AMark name #
       (if arr then replicate (nat sz) (AData 0)
        else [AData (case a of Some (N_INT _ v) \<Rightarrow> v | _ \<Rightarrow> 0)])
   | _ \<Rightarrow> [])"

definition global_ok :: "cnode \<Rightarrow> bool" where
  "global_ok d = (case d of
     N_VARDECL _ name _ arr sz a \<Rightarrow> label_ok name \<and> (arr \<longrightarrow> 0 < sz) \<and>
       (case a of Some (N_INT _ v) \<Rightarrow> - LONG_MAX \<le> v \<and> v \<le> LONG_MAX | _ \<Rightarrow> True)
   | _ \<Rightarrow> True)"

lemma put_data: "emit (''.word '' @ fmt_int v) s = put (AData v) s" "emit ''.word 0'' s = put (AData 0) s"
  by (simp_all add: put_def emit_indented fmt_int_def fmt_base_less)

lemma put_words: "emits_all (replicate k ''.word 0'') s = fold put (replicate k (AData 0)) s"
  by (induction k arbitrary: s) (simp_all only: replicate.simps emits_all.simps fold_simps put_data)

lemma LONG_MAX_pos: "- LONG_MAX \<le> 0" "0 \<le> LONG_MAX"
  by (simp_all add: LONG_MAX_def)

lemma guarded_words: "guarded (replicate k (AData v)) \<and> settled (replicate k (AData v))"
  by (induction k) simp_all

lemma gen_global_lines:
  assumes g: "gen_global d s = Inr s'" and ok: "global_ok d"
  shows "extends s s' (data_lines d)"
proof (cases "\<exists>l name ptr arr sz a. d = N_VARDECL l name ptr arr sz a")
  case True
  then obtain l name ptr arr sz a where d: "d = N_VARDECL l name ptr arr sz a" by blast
  have "s' = fold put (data_lines d) s"
  proof (cases arr)
    case True
    then show ?thesis using g by (simp add: d gen_global_def data_lines_def put_words puts)
  next
    case False
    then show ?thesis using g
      by (auto simp: d gen_global_def data_lines_def put_data [simplified] puts fail_def split: option.splits cnode.splits)
  qed
  moreover have "list_all line_ok (data_lines d)" "guarded (data_lines d)" "settled (data_lines d)"
    using ok guarded_words LONG_MAX_pos
    by (auto simp: d global_ok_def data_lines_def list_all_iff gr0_conv_Suc zero_less_nat_eq [symmetric]
        simp del: zero_less_nat_eq split: option.splits cnode.splits)
  ultimately show ?thesis using extends_puts by simp
next
  case False
  then have "gen_global d s = Inr s" "data_lines d = []" by (auto simp: gen_global_def data_lines_def split: cnode.split)
  then show ?thesis using g extends_refl by simp
qed

lemma gen_globals_lines:
  "res_fold gen_global ds s = Inr s' \<Longrightarrow> list_all global_ok ds \<Longrightarrow> extends s s' (concat (map data_lines ds))"
proof (induction ds arbitrary: s)
  case (Cons d ds)
  then obtain s1 where "gen_global d s = Inr s1" "res_fold gen_global ds s1 = Inr s'" by (auto simp: res_bind_Inr_iff)
  with Cons extends_trans [OF gen_global_lines] show ?case by simp
qed (simp add: extends_refl)

subsection \<open>The program\<close>

text \<open>\<open>codegen_lines\<close> up to the peephole pass.\<close>

definition gen_program :: "cnode list \<Rightarrow> cgfail + cgstate" where
  "gen_program ds =
     res_bind (res_fold declare_top ds (cg_init, False)) (\<lambda>(s, has_main).
     if \<not> has_main then Inl (CGError ''no main() function'')
     else
       res_bind (res_fold gen_top ds
          (emits_all [''LOADI R7, '' @ fmt_int STACK_BASE, ''CALL main'', ''HALT'']
            (add_line ''; generated by mcc'' s))) (\<lambda>s.
       res_fold gen_global ds s))"

lemma codegen_gen_program: "codegen_lines ds = res_bind (gen_program ds) (\<lambda>s. Inr (peephole (cg_lines s)))"
  by (simp add: codegen_lines_def gen_program_def res_bind_def split: sum.split)

text \<open>The tables of the first loop.\<close>

definition tables :: "cnode list \<Rightarrow> cgstate" where
  "tables ds = (case res_fold declare_top ds (cg_init, False) of Inr (s, _) \<Rightarrow> s | Inl _ \<Rightarrow> cg_init)"

definition program_ok :: "cnode list \<Rightarrow> bool" where
  "program_ok ds = ((\<forall>(name, ps, b) \<in> set (fns ds). frame_ok (tables ds) name ps b) \<and> list_all global_ok ds)"

lemma declare_fns:
  "res_fold declare_top ds (s, m) = Inr (s', m') \<Longrightarrow>
   cg_funcs s' = cg_funcs s @ map (\<lambda>(name, ps, b). \<lparr>fn_name = name, fn_nparams = length (filter is_param ps)\<rparr>) (fns ds) \<and>
   (m' \<longleftrightarrow> m \<or> (\<exists>ps b. (''main'', ps, b) \<in> set (fns ds))) \<and> cg_lines s' = cg_lines s \<and> cg_label s' = cg_label s"
proof (induction ds arbitrary: s m)
  case (Cons d ds)
  from Cons.prems obtain s1 m1 where 1: "declare_top d (s, m) = Inr (s1, m1)" "res_fold declare_top ds (s1, m1) = Inr (s', m')"
    by (auto simp: res_bind_Inr_iff)
  from Cons.IH [OF 1(2)] 1(1) show ?case
    by (auto simp: declare_top_def split: cnode.splits if_splits)
qed simp

lemma find_fn_fns: "find_fn name ds = Some (ps, b) \<Longrightarrow> (name, ps, b) \<in> set (fns ds)"
  by (induction ds) (auto split: cnode.splits if_splits)

lemma fns_find_fn: "(name, ps, b) \<in> set (fns ds) \<Longrightarrow> \<exists>ps b. find_fn name ds = Some (ps, b)"
  by (induction ds) (auto split: cnode.splits if_splits)

lemma at_whole: "at (xs @ ls @ ys) (length xs) ls"
  by (simp add: at_def)

text \<open>Every function of the program is where its label says, and does what the semantics says.\<close>

lemma fn_linked:
  assumes d: "distinct (marks prog)"
    and fs: "cg_funcs s = map (\<lambda>(name, ps, b). \<lparr>fn_name = name, fn_nparams = length (filter is_param ps)\<rparr>) (fns ds)"
    and code: "\<And>name ps b. (name, ps, b) \<in> set (fns ds) \<Longrightarrow>
      \<exists>xs ls ys. prog = xs @ ls @ ys \<and> fn_lines s name ps b ls"
    and n: "func_find name s = Some np"
  shows "\<exists>i. place name prog = Some i \<and> fn_does (fn_env L t' k' (cfn L s ds k)) prog name i"
  using n
proof (induction k arbitrary: name np t' k')
  have *: "\<exists>ps b xs ls ys. find_fn name ds = Some (ps, b) \<and> prog = xs @ ls @ ys \<and> fn_lines s name ps b ls"
    if "func_find name s = Some np" for name np
  proof -
    from that obtain f where "f \<in> set (cg_funcs s)" "fn_name f = name" by (auto simp: func_find_def dest!: find_Some)
    then obtain ps b where "(name, ps, b) \<in> set (fns ds)" by (auto simp: fs)
    then obtain ps b where f: "find_fn name ds = Some (ps, b)" using fns_find_fn by blast
    from code [OF find_fn_fns [OF this]] f show ?thesis by blast
  qed
  have pl: "place name prog = Some (length xs)" if "prog = xs @ ls @ ys" "fn_lines s name ps b ls" for name ps b xs ls ys
  proof -
    from that(2) obtain us where "ls = AMark name # us" by (auto simp: fn_lines_def fn_pre_def)
    then show ?thesis using that(1) by (intro place_at [OF d]) (simp_all add: nth_append)
  qed
  {
    case 0
    from * [OF 0] pl show ?case
      by (auto simp: fn_does_def fn_env_def cfn.simps)
  next
    case (Suc k)
    from * [OF Suc.prems] obtain ps b xs ls ys where f: "find_fn name ds = Some (ps, b)" and p: "prog = xs @ ls @ ys"
      and ls: "fn_lines s name ps b ls" by blast
    from ls obtain t n bls where t: "frame_layout s ps b = Inr (t, n)" and ls': "ls = fn_pre name n @ bls @ fn_post name"
      and P: "\<And>E prog i ke fp r7. linked E prog t \<Longrightarrow> at prog i bls \<Longrightarrow> place (epi_name name) prog = Some ke \<Longrightarrow>
        executes E prog i (i + length bls) ke fp r7 (cexec E fp r7 b)"
      unfolding fn_lines_def by blast
    let ?i = "length xs + length (fn_pre name n)"
    have a: "at prog (length xs) (fn_pre name n @ bls @ fn_post name)" using at_whole [of xs ls ys] by (simp add: p ls')
    then have ab: "at prog ?i bls" "at prog (?i + length bls) (fn_post name)" by (simp_all add: at_append add.assoc)
    have ke: "place (epi_name name) prog = Some (?i + length bls)"
      using ab(2) by (auto simp: fn_post_def at_Cons intro: place_at [OF d])
    have lk: "linked (fn_env L t k (cfn L s ds k)) prog t"
      using d Suc.IH frame_layout_fields(1) [OF t] by (auto simp: linked_def fn_env_def func_find_def)
    have "fn_does (fn_env L t' k' (cfn L s ds (Suc k))) prog name (length xs)"
      by (rule fn_code [OF a d f t lk]) (rule P [OF _ ab(1) ke])
    with pl [OF p ls] show ?case by blast
  }
qed

definition start_lines :: "aline list" where
  "start_lines = [AComment, AIns OP_LOADI 7 0 0x8000, AJump OP_CALL ''main'', AIns OP_HALT 0 0 0]"

definition data_part :: "cnode list \<Rightarrow> aline list" where
  "data_part ds = concat (map data_lines ds)"

lemma put_start:
  "emits_all [''LOADI R7, '' @ fmt_int STACK_BASE, ''CALL main'', ''HALT''] (add_line ''; generated by mcc'' s)
   = fold put start_lines s"
proof -
  have f: "fits20 STACK_BASE" by (simp add: fits20_def STACK_BASE_def)
  have w: "word_of_int STACK_BASE = (0x8000 :: i32)" by (simp add: STACK_BASE_def)
  have c: "add_line ''; generated by mcc'' s = put AComment s" by (simp add: put_def)
  have m: "emit ''CALL main'' s = put (AJump OP_CALL ''main'') s" for s using put_name(1) [of "''main''" s] by simp
  show ?thesis
    unfolding c start_lines_def emits_all.simps put_immediate(3) [OF f] m puts fold_simps w ..
qed

lemma start_ok: "list_all line_ok start_lines \<and> guarded start_lines \<and> settled start_lines"
proof -
  have "imm_fits (0x8000 :: i32)" by (simp add: imm_fits_def)
  moreover have "label_ok ''main''" by (simp add: label_ok_def TEXT_SIZE_def ident_char_def ctype_defs is_reg_def)
  ultimately show ?thesis by (simp add: start_lines_def)
qed

text \<open>What the generator emits, by lines.\<close>

definition program_lines :: "cnode list \<Rightarrow> aline list \<Rightarrow> bool" where
  "program_lines ds prog = (\<exists>codes. prog = start_lines @ concat codes @ data_part ds \<and>
     list_all2 (\<lambda>(name, ps, b) ls. fn_lines (tables ds) name ps b ls) (fns ds) codes)"

lemma gen_program_lines:
  assumes g: "gen_program ds = Inr s'" and ok: "program_ok ds"
  shows "\<exists>prog. program_lines ds prog \<and> cg_lines s' = map line_text prog \<and>
    (cg_label s' \<le> LABEL_MAX \<longrightarrow> list_all line_ok prog \<and> guarded prog \<and> settled prog)"
proof -
  from g obtain s0 s2 where 0: "res_fold declare_top ds (cg_init, False) = Inr (s0, True)"
    and 1: "res_fold gen_top ds (fold put start_lines s0) = Inr s2" and 2: "res_fold gen_global ds s2 = Inr s'"
    unfolding gen_program_def put_start by (auto simp: res_bind_Inr_iff split: if_splits)
  have t: "tables ds = s0" by (simp add: tables_def 0)
  have s0: "cg_lines s0 = []" using declare_fns [OF 0] by (simp add: cg_init_def)
  let ?s1 = "fold put start_lines s0"
  have tab: "cg_funcs ?s1 = cg_funcs s0" "cg_globs ?s1 = cg_globs s0" by (simp_all add: fold_put_tables)
  have "\<forall>(name, ps, b) \<in> set (fns ds). frame_ok ?s1 name ps b"
    using ok by (auto simp: program_ok_def t layout_same(1) [OF tab])
  from gen_tops_lines [OF 1 this] obtain codes where c: "extends ?s1 s2 (concat codes)"
    "list_all2 (\<lambda>(name, ps, b) ls. fn_lines s0 name ps b ls) (fns ds) codes"
    by (auto simp: layout_same(2) [OF tab])
  have d: "extends s2 s' (data_part ds)" unfolding data_part_def
    by (rule gen_globals_lines [OF 2]) (use ok in \<open>simp add: program_ok_def\<close>)
  have e: "extends s0 s' (start_lines @ concat codes @ data_part ds)"
    by (intro extends_trans [OF extends_puts] extends_trans [OF c(1) d]) (simp_all add: start_ok)
  then show ?thesis
    by (intro exI [of _ "start_lines @ concat codes @ data_part ds"])
      (use c(2) in \<open>auto simp: program_lines_def t extends_def s0\<close>)
qed

lemma program_code:
  assumes p: "program_lines ds prog" and f: "(name, ps, b) \<in> set (fns ds)"
  shows "\<exists>xs ls ys. prog = xs @ ls @ ys \<and> fn_lines (tables ds) name ps b ls"
proof -
  from p obtain codes where c: "prog = start_lines @ concat codes @ data_part ds"
    "list_all2 (\<lambda>(name, ps, b) ls. fn_lines (tables ds) name ps b ls) (fns ds) codes"
    unfolding program_lines_def by blast
  from c(2) f obtain j where j: "j < length codes" "fn_lines (tables ds) name ps b (codes ! j)"
    by (auto simp: list_all2_conv_all_nth in_set_conv_nth)
  have "codes = take j codes @ codes ! j # drop (Suc j) codes" by (rule id_take_nth_drop [OF j(1)])
  then have "prog = (start_lines @ concat (take j codes)) @ codes ! j @ (concat (drop (Suc j) codes) @ data_part ds)"
    unfolding c(1) by (metis append_assoc concat.simps(2) concat_append)
  with j(2) show ?thesis by blast
qed

text \<open>The start code calls \<open>main\<close> and stops at the \<open>HALT\<close> in line 3 with the outcome of the semantics.\<close>

lemma program_runs:
  assumes p: "program_lines ds prog" and d: "distinct (marks prog)" and g: "gen_program ds = Inr s'"
    and st: "sees 0 fp K (q, [], r7, \<sigma>) st"
    and m: "cfn L (tables ds) ds k ''main'' fp 0x8000 \<sigma> = Some (r, \<sigma>')"
  shows "runs_to L prog st (sees 3 fp K (r, [], 0x8000, \<sigma>'))"
proof -
  let ?E = "fn_env L (tables ds) k (cfn L (tables ds) ds k)"
  have L: "e_line ?E = L" by (simp add: fn_env_def)
  have at: "at prog 0 [AComment, AIns OP_LOADI 7 0 0x8000]" "at prog 2 [AJump OP_CALL ''main'']"
    using p by (auto simp: program_lines_def start_lines_def at_def)
  have fs: "cg_funcs (tables ds) = map (\<lambda>(name, ps, b). \<lparr>fn_name = name, fn_nparams = length (filter is_param ps)\<rparr>) (fns ds)"
    and mn: "\<exists>ps b. (''main'', ps, b) \<in> set (fns ds)"
  proof -
    from g obtain s0 where 0: "res_fold declare_top ds (cg_init, False) = Inr (s0, True)"
      unfolding gen_program_def by (auto simp: res_bind_Inr_iff split: if_splits)
    from declare_fns [OF 0] 0 show "cg_funcs (tables ds) = map (\<lambda>(name, ps, b).
        \<lparr>fn_name = name, fn_nparams = length (filter is_param ps)\<rparr>) (fns ds)" "\<exists>ps b. (''main'', ps, b) \<in> set (fns ds)"
      by (simp_all add: tables_def cg_init_def)
  qed
  from mn obtain np where np: "func_find ''main'' (tables ds) = Some np"
    by (cases "func_find ''main'' (tables ds)") (auto simp: func_find_def fs find_None_iff)
  from fn_linked [OF d fs program_code [OF p] np, of L "tables ds" k k] obtain i where
    i: "place ''main'' prog = Some i" "fn_does ?E prog ''main'' i" by blast
  have "\<exists>st1. brun L [AComment, AIns OP_LOADI 7 0 0x8000] st = Some st1 \<and> sees 2 fp K (q, [], 0x8000, \<sigma>) st1"
    using st by (auto simp: sees_def line_step)
  then obtain st1 where st1: "brun L [AComment, AIns OP_LOADI 7 0 0x8000] st = Some st1" "sees 2 fp K (q, [], 0x8000, \<sigma>) st1"
    by blast
  have l0: "l_at st = 0" and l1: "l_at st1 = 2" using st st1(2) by (simp_all add: sees_at)
  let ?st2 = "st1\<lparr>l_at := i, l_stk := Ret (Suc (l_at st1)) # l_stk st1\<rparr>"
  have "sees i fp (Ret 3 # K) (q, [], 0x8000, \<sigma>) ?st2" using st1(2) by (simp add: sees_def eval_nat_numeral)
  moreover have "e_fn ?E ''main'' fp 0x8000 \<sigma> = Some (r, \<sigma>')" using m by (simp add: fn_env_def)
  ultimately have "runs_to L prog ?st2 (sees 3 fp K (r, [], 0x8000, \<sigma>'))"
    using i(2) unfolding fn_does_def L by blast
  then have "runs_to L prog st1 (sees 3 fp K (r, [], 0x8000, \<sigma>'))"
    by (rule runs_to_call [OF at(2) [folded l1] i(1)])
  then show ?thesis by (rule runs_to_block [OF at(1) [folded l0] st1(1)])
qed

end
