(* ===== verification/PeepText.thy ===== *)
theory PeepText
  imports CGenProg PeepSim
begin

text \<open>
  The peephole pass on the text of lines. On the lines that the generator emits, its first two rules never
  apply, and the third one only drops a load after the store of R0 to the same place, which does not
  change what the program computes.
\<close>

subsection \<open>What the patterns see of a line\<close>

lemma line_body_indented: "t = [] \<or> hd t \<noteq> CHR '' '' \<Longrightarrow> line_body (indented t) = t"
  by (cases t) (simp_all add: line_body_def indented_def eval_nat_numeral)

lemma line_body_label: "label_ok n \<Longrightarrow> line_body (line_text (AMark n)) = n @ '':''"
  by (cases n) (auto simp: line_body_def label_ok_def ctype_defs)

text \<open>An instruction is its name and, after a blank, its operands.\<close>

lemma ins_text:
  assumes "line_ok (AIns op a b im)"
  obtains r where "line_text (AIns op a b im) = indented (opcode_name op @ r)" "r = [] \<or> hd r = CHR '' ''"
proof -
  from assms have "op_known op" "a < 8" "b < 8" by (simp_all add: line_ok.simps(1))
  then have "DECODE_OPCODE (ENCODE_INSTR op a b im) = op" by (simp add: decode_encode)
  then have "\<exists>r. disasm_text (ENCODE_INSTR op a b im) = opcode_name op @ r \<and> (r = [] \<or> hd r = CHR '' '')"
    by (cases "opcode_format op") (simp_all add: disasm_text_def)
  then obtain r where "disasm_text (ENCODE_INSTR op a b im) = opcode_name op @ r" "r = [] \<or> hd r = CHR '' ''" by blast
  then show ?thesis using that [of r] by simp
qed

lemma ins_body:
  assumes "line_ok (AIns op a b im)"
  obtains r where "line_body (line_text (AIns op a b im)) = opcode_name op @ r" "r = [] \<or> hd r = CHR '' ''"
proof -
  from ins_text [OF assms] obtain r where r: "line_text (AIns op a b im) = indented (opcode_name op @ r)"
    "r = [] \<or> hd r = CHR '' ''" .
  have "hd (opcode_name op @ r) \<noteq> CHR '' ''" by (cases op) simp_all
  with r line_body_indented show ?thesis by (intro that [of r]) simp_all
qed

text \<open>How the bodies of the other lines begin.\<close>

definition heads :: "string list" where
  "heads = [''JMP '', ''JZ '', ''JNZ '', ''JG '', ''JL '', ''CALL '', ''LOADI R'', ''.word '', '';'']"

lemma other_body:
  assumes "line_ok l" "\<And>op a b im. l \<noteq> AIns op a b im" "\<And>n. l \<noteq> AMark n"
  obtains p r where "line_body (line_text l) = p @ r" "p \<in> set heads"
proof (cases l)
  case (AJump op n)
  then have h: "opcode_name op @ '' '' \<in> set heads"
    using assms(1) by (cases op) (simp_all add: heads_def)
  have "line_body (line_text l) = (opcode_name op @ '' '') @ n"
    using assms(1) by (cases op) (simp_all add: AJump line_body_indented)
  then show ?thesis using h that by blast
next
  case (AAddr r n)
  have "line_body (line_text l) = ''LOADI R'' @ fmt_base 10 (unat r) @ '', '' @ n"
    by (simp add: AAddr line_body_indented fmt_reg_eq)
  then show ?thesis by (rule that) (simp add: heads_def)
next
  case (AData v)
  have "line_body (line_text l) = ''.word '' @ fmt_int v" by (simp add: AData line_body_indented)
  then show ?thesis by (rule that) (simp add: heads_def)
next
  case AComment
  have "line_body (line_text l) = '';'' @ '' generated by mcc''" by (simp add: AComment line_body_def)
  then show ?thesis by (rule that) (simp add: heads_def)
qed (use assms in auto)

lemma sc_lit_Cons [simp]: "sc_lit (c # l) (d # s) = (if c = d then sc_lit l s else None)"
  "sc_lit (c # l) [] = None" "sc_lit [] s = Some s"
  by (auto simp: sc_lit_def)

text \<open>Which instructions a pattern can match.\<close>

lemma ins_lit:
  assumes "op_known op" "r = [] \<or> hd r = CHR '' ''"
  shows "sc_lit ''MOV'' (opcode_name op @ r) = (if op = OP_MOV then Some r else None)"
    "sc_lit ''PUSH'' (opcode_name op @ r) = (if op = OP_PUSH then Some r else None)"
    "sc_lit ''POP'' (opcode_name op @ r) = (if op = OP_POP then Some r else None)"
    "sc_lit ''STORE'' (opcode_name op @ r) = (if op = OP_STORE then Some r else None)"
    "sc_lit ''LOAD'' (opcode_name op @ r) = (if op = OP_LOAD then Some r else if op = OP_LOADI then Some (''I'' @ r) else None)"
  using assms by (cases op; cases r; simp)+

lemma other_lit:
  assumes "p \<in> set heads"
  shows "sc_lit ''MOV'' (p @ r) = None" "sc_lit ''PUSH'' (p @ r) = None" "sc_lit ''POP'' (p @ r) = None"
    "sc_lit ''STORE'' (p @ r) = None" "\<forall>t. sc_lit ''LOAD'' (p @ r) = Some t \<longrightarrow> hd t = CHR ''I'' \<and> t \<noteq> []"
  using assms unfolding heads_def by auto

subsection \<open>Registers and offsets\<close>

lemma fmt_reg_inj: "a < 8 \<Longrightarrow> b < 8 \<Longrightarrow> fmt_reg a = fmt_reg b \<Longrightarrow> a = b"
  by (metis digits_val_fmt_base fmt_reg_eq list.inject word_unat_eq_iff)

lemma fmt_plus_inj: "fmt_plus v = fmt_plus w \<Longrightarrow> v = w"
proof -
  assume e: "fmt_plus v = fmt_plus w"
  have *: "digits_val 10 (tl (fmt_plus v)) = nat \<bar>v\<bar>" "(hd (fmt_plus v) = CHR ''-'') = (v < 0)" for v
    by (simp_all add: fmt_plus_def fmt_int_def)
  have "nat \<bar>v\<bar> = nat \<bar>w\<bar>" "(v < 0) = (w < 0)" using *(1) [of v] *(1) [of w] *(2) [of v] *(2) [of w] e by simp_all
  then show ?thesis by linarith
qed

definition place_text :: "u8 \<Rightarrow> i32 \<Rightarrow> string" where
  "place_text r im = fmt_reg r @ fmt_plus (sint im)"

lemma place_text_inj:
  assumes "place_text a im = place_text b jm" "a < 8" "b < 8" shows "a = b \<and> im = jm"
proof -
  have "fmt_reg a = fmt_reg b \<and> fmt_plus (sint im) = fmt_plus (sint jm)"
    using assms length_fmt_reg [of a] length_fmt_reg [of b] by (simp add: place_text_def append_eq_append_conv)
  with fmt_reg_inj assms(2,3) fmt_plus_inj show ?thesis using signed_word_eqI [of im jm] by blast
qed

lemma memory_text:
  assumes "line_ok (AIns op a b im)"
  shows "op = OP_STORE \<Longrightarrow> line_text (AIns op a b im) = indented (''STORE ['' @ place_text a im @ ''], '' @ fmt_reg b)"
    "op = OP_LOAD \<Longrightarrow> line_text (AIns op a b im) = indented (''LOAD '' @ fmt_reg a @ '', ['' @ place_text b im @ '']'')"
    "op = OP_LOADI \<Longrightarrow> line_text (AIns op a b im) = indented (''LOADI '' @ fmt_reg a @ '', '' @ fmt_d im)"
    "op = OP_MOV \<Longrightarrow> line_text (AIns op a b im) = indented (''MOV '' @ fmt_reg a @ '', '' @ fmt_reg b)"
proof -
  from assms have ab: "a < 8" "b < 8" and f: "fits20 (sint im)" and im: "imm_fits im"
    by (simp_all add: line_ok.simps(1) imm_fits_def fits20_def)
  show "op = OP_STORE \<Longrightarrow> line_text (AIns op a b im) = indented (''STORE ['' @ place_text a im @ ''], '' @ fmt_reg b)"
    using text_ins(6) [of op a b, OF _ ab _ f] by (simp add: place_text_def)
  show "op = OP_LOAD \<Longrightarrow> line_text (AIns op a b im) = indented (''LOAD '' @ fmt_reg a @ '', ['' @ place_text b im @ '']'')"
    using text_ins(5) [of op a b, OF _ ab _ f] by (simp add: place_text_def)
  show "op = OP_LOADI \<Longrightarrow> line_text (AIns op a b im) = indented (''LOADI '' @ fmt_reg a @ '', '' @ fmt_d im)"
    using text_ins(4) [of op a b, OF _ ab _ f] by (simp add: fmt_d_def)
  show "op = OP_MOV \<Longrightarrow> line_text (AIns op a b im) = indented (''MOV '' @ fmt_reg a @ '', '' @ fmt_reg b)"
    using ab im by (simp add: disasm_text_def decode_encode)
qed

text \<open>What \<open>%63[^]]\<close> reads of a place.\<close>

lemma place_chars: "r < 8 \<Longrightarrow> imm_fits im \<Longrightarrow> length (place_text r im) < 63"
  "c \<in> set (place_text r im) \<Longrightarrow> c \<noteq> CHR '']'' \<and> \<not> isspace c"
proof -
  assume r: "r < 8" "imm_fits im"
  have "length (fmt_mem r im) = length (place_text r im) + 2"
    using fmt_mem_plus [of "sint im" r] r(2) by (simp add: place_text_def imm_fits_def fits20_def)
  then show "length (place_text r im) < 63" using length_fmt_mem [OF r] by simp
next
  have d: "isdigit c \<Longrightarrow> c \<noteq> CHR '']'' \<and> \<not> isspace c" by (auto simp: ctype_defs)
  show "c \<in> set (place_text r im) \<Longrightarrow> c \<noteq> CHR '']'' \<and> \<not> isspace c"
    using d isdigit_fmt_base [of c] by (auto simp: place_text_def fmt_reg_eq fmt_plus_def fmt_int_def ctype_defs split: if_splits)
qed

lemma span_place:
  assumes "r < 8" "imm_fits im"
  shows "sc_span 63 (\<lambda>c. c \<noteq> CHR '']'') (place_text r im @ CHR '']'' # t) = Some (place_text r im, CHR '']'' # t)"
proof -
  have "takeWhile (\<lambda>c. c \<noteq> CHR '']'') (place_text r im @ CHR '']'' # t) = place_text r im"
    using place_chars(2) by (simp add: takeWhile_append)
  moreover have "place_text r im \<noteq> []" by (simp add: place_text_def fmt_reg_eq)
  ultimately show ?thesis using place_chars(1) [OF assms] by (simp add: sc_span_def Let_def)
qed

subsection \<open>Which rules apply\<close>

lemma kinds:
  obtains (ins) op a b im where "l = AIns op a b im" | (mark) n where "l = AMark n"
    | (other) "\<And>op a b im. l \<noteq> AIns op a b im" "\<And>n. l \<noteq> AMark n"
  by (cases l) auto

lemma no_comma:
  assumes "label_ok n"
  shows "sc_lit '','' r = None \<or> CHR '','' \<in> set r" "CHR '','' \<notin> set (n @ '':'')"
proof -
  show "sc_lit '','' r = None \<or> CHR '','' \<in> set r" by (cases r) simp_all
  show "CHR '','' \<notin> set (n @ '':'')"
    using assms by (auto simp: label_ok_def list_all_iff ident_char_def ctype_defs)
qed

lemma sc_lit_subset: "sc_lit p s = Some r \<Longrightarrow> set r \<subseteq> set s"
  by (auto simp: sc_lit_def split: if_splits dest: in_set_dropD)

lemma sc_span_subset: "sc_span n q s = Some (w, r) \<Longrightarrow> set r \<subseteq> set s"
  by (auto simp: sc_span_def Let_def split: if_splits dest: in_set_dropD)

lemma no_self_move:
  assumes "line_ok l" "\<not> self_mov l"
  shows "\<not> self_move (line_text l)"
proof (cases l rule: kinds)
  case (ins op a b im)
  with assms have k: "op_known op" "a < 8" "b < 8" by (simp_all add: line_ok.simps(1))
  show ?thesis
  proof (cases "op = OP_MOV")
    case True
    then have ab: "a \<noteq> b" using assms(2) ins by simp
    have body: "line_body (line_text l) = ''MOV '' @ fmt_reg a @ '', '' @ fmt_reg b"
      using memory_text(4) [OF assms(1) [unfolded ins] True] by (simp add: ins line_body_indented)
    have d: "isdigit c \<Longrightarrow> c \<noteq> CHR '','' \<and> \<not> isspace c" for c by (auto simp: ctype_defs)
    have cs: "c \<in> set (fmt_reg r) \<Longrightarrow> c \<noteq> CHR '','' \<and> \<not> isspace c" for c r
      using d isdigit_fmt_base [of c] by (auto simp: fmt_reg_eq ctype_defs)
    have ne: "fmt_reg r \<noteq> []" for r by (simp add: fmt_reg_eq)
    have sp: "sc_space ('' '' @ fmt_reg r @ t) = fmt_reg r @ t" for r t
      by (simp add: sc_space_def fmt_reg_eq ctype_defs)
    have 1: "sc_span 15 (\<lambda>c. c \<noteq> CHR '','') (fmt_reg a @ '', '' @ fmt_reg b) = Some (fmt_reg a, '', '' @ fmt_reg b)"
      using cs ne length_fmt_reg [OF k(2)] by (simp add: sc_span_def takeWhile_append Let_def)
    have 2: "sc_word 15 ('' '' @ fmt_reg b) = Some (fmt_reg b, [])"
      using cs ne sp [of b "[]"] length_fmt_reg [OF k(3)]
      by (simp add: sc_word_def sc_span_def takeWhile_eq_all_conv [THEN iffD2] Let_def)
    have "p_mov (line_text l) = Some (fmt_reg a, fmt_reg b)"
      using 1 2 sp [of a] by (simp add: p_mov_def body)
    then show ?thesis using fmt_reg_inj [OF k(2,3)] ab by (auto simp: self_move_def)
  next
    case False
    obtain r where r: "line_body (line_text l) = opcode_name op @ r" "r = [] \<or> hd r = CHR '' ''"
      using ins_body assms(1) ins by blast
    then show ?thesis using False ins_lit(1) [OF k(1) r(2)] by (simp add: self_move_def p_mov_def)
  qed
next
  case (mark n)
  then have lo: "label_ok n" using assms(1) by simp
  have "p_mov (line_text l) = None"
  proof (rule ccontr)
    assume "p_mov (line_text l) \<noteq> None"
    then obtain r a r2 r3 where r: "sc_lit ''MOV'' (n @ '':'') = Some r" "sc_span 15 (\<lambda>c. c \<noteq> CHR '','') (sc_space r) = Some (a, r2)"
      "sc_lit '','' r2 = Some r3"
      unfolding p_mov_def mark line_body_label [OF lo] by (auto simp: Option.bind_eq_Some_conv)
    have "CHR '','' \<in> set r2" using no_comma(1) [OF lo, of r2] r(3) by simp
    moreover have "set (sc_space r) \<subseteq> set r" by (auto simp: sc_space_def dest: set_dropWhileD)
    ultimately have "CHR '','' \<in> set (n @ '':'')" using sc_span_subset [OF r(2)] sc_lit_subset [OF r(1)] by blast
    with no_comma(2) [OF lo] show False by simp
  qed
  then show ?thesis by (simp add: self_move_def)
next
  case other
  from other_body [OF assms(1) other] obtain p r where "line_body (line_text l) = p @ r" "p \<in> set heads" .
  with other_lit(1) show ?thesis by (simp add: self_move_def p_mov_def)
qed

lemma no_stack_pair:
  assumes "line_ok x" "line_ok y" "fragile x \<longrightarrow> solid y" "pushes x \<longrightarrow> \<not> pops y"
  shows "stack_pair (line_text x) (line_text y) = None"
proof (cases "p_op1 ''PUSH'' (line_text x) = None \<or> p_op1 ''POP'' (line_text y) = None")
  case True
  then show ?thesis by (auto simp: stack_pair_def)
next
  case False
  have lit: "sc_lit oper (line_body (line_text l)) \<noteq> None" if "p_op1 oper (line_text l) \<noteq> None" for oper l
    using that by (auto simp: p_op1_def bind_eq_None_conv)
  have x: "pushes x \<or> (\<exists>n. x = AMark n \<and> hd n \<noteq> CHR ''_'')"
  proof (cases x rule: kinds)
    case (ins op a b im)
    obtain r where r: "line_body (line_text x) = opcode_name op @ r" "r = [] \<or> hd r = CHR '' ''"
      using ins_body assms(1) ins by blast
    have "op_known op" using assms(1) ins by (simp add: line_ok.simps(1))
    from ins_lit(2) [OF this r(2)] lit [of "''PUSH''" x] False r(1) ins show ?thesis by (auto split: if_splits)
  next
    case (mark n)
    with assms(1) line_body_label have "line_body (line_text x) = n @ '':''" by simp
    moreover have "n \<noteq> []" using mark assms(1) by (simp add: label_ok_def)
    ultimately show ?thesis using lit [of "''PUSH''" x] False mark by (cases n) (auto split: if_splits)
  next
    case other
    from other_body [OF assms(1) other] obtain p r where "line_body (line_text x) = p @ r" "p \<in> set heads" .
    with other_lit(2) lit [of "''PUSH''" x] False show ?thesis by simp
  qed
  have y: "pops y \<and> \<not> solid y"
  proof (cases y rule: kinds)
    case (ins op a b im)
    obtain r where r: "line_body (line_text y) = opcode_name op @ r" "r = [] \<or> hd r = CHR '' ''"
      using ins_body assms(2) ins by blast
    have "op_known op" using assms(2) ins by (simp add: line_ok.simps(1))
    from ins_lit(3) [OF this r(2)] lit [of "''POP''" y] False r(1) ins show ?thesis by (auto split: if_splits)
  next
    case (mark n)
    with assms(2) line_body_label have "line_body (line_text y) = n @ '':''" by simp
    moreover have "n \<noteq> []" using mark assms(2) by (simp add: label_ok_def)
    ultimately show ?thesis using lit [of "''POP''" y] False mark by (cases n) (auto split: if_splits)
  next
    case other
    from other_body [OF assms(2) other] obtain p r where "line_body (line_text y) = p @ r" "p \<in> set heads" .
    with other_lit(3) lit [of "''POP''" y] False show ?thesis by simp
  qed
  from x y assms(3,4) show ?thesis by auto
qed

lemma store_seen:
  assumes "line_ok (AIns OP_STORE a b im)"
  shows "p_store (line_text (AIns OP_STORE a b im)) = Some (place_text a im)"
    "b = 0 \<Longrightarrow> \<not> is_target (line_text (AIns OP_STORE a b im))"
proof -
  have k: "a < 8" "imm_fits im" using assms by (simp_all add: line_ok.simps(1))
  have t: "line_text (AIns OP_STORE a b im) = indented (''STORE ['' @ place_text a im @ ''], '' @ fmt_reg b)"
    by (rule memory_text(1) [OF assms refl])
  have "line_body (line_text (AIns OP_STORE a b im)) = ''STORE ['' @ place_text a im @ CHR '']'' # '', '' @ fmt_reg b"
    unfolding t by (simp add: line_body_indented)
  then show "p_store (line_text (AIns OP_STORE a b im)) = Some (place_text a im)"
    using span_place [OF k, of "'', '' @ fmt_reg b"] by (simp add: p_store_def sc_space_def ctype_defs)
  show "b = 0 \<Longrightarrow> \<not> is_target (line_text (AIns OP_STORE a b im))"
    unfolding t by (simp add: is_target_def indented_def fmt_reg_eval)
qed

lemma load_seen:
  assumes "line_ok (AIns OP_LOAD a b im)"
  shows "p_load0 (line_text (AIns OP_LOAD a b im)) = (if a = 0 then Some (place_text b im) else None)"
    "\<not> is_target (line_text (AIns OP_LOAD a b im))"
proof -
  have k: "a < 8" "b < 8" "imm_fits im" using assms by (simp_all add: line_ok.simps(1))
  have t: "line_text (AIns OP_LOAD a b im) = indented (''LOAD '' @ fmt_reg a @ '', ['' @ place_text b im @ '']'')"
    by (rule memory_text(2) [OF assms refl])
  have body: "line_body (line_text (AIns OP_LOAD a b im)) = ''LOAD '' @ fmt_reg a @ '', ['' @ place_text b im @ CHR '']'' # []"
    unfolding t by (simp add: line_body_indented)
  show "\<not> is_target (line_text (AIns OP_LOAD a b im))"
    unfolding t by (simp add: is_target_def indented_def)
  obtain d where d: "fmt_reg a = [CHR ''R'', d]"
    using length_fmt_reg [OF k(1)] by (auto simp: fmt_reg_eq length_Suc_conv eval_nat_numeral)
  have "d = CHR ''0'' \<longleftrightarrow> a = 0" using fmt_reg_inj [OF k(1), of 0] d by (auto simp: fmt_reg_eval)
  then show "p_load0 (line_text (AIns OP_LOAD a b im)) = (if a = 0 then Some (place_text b im) else None)"
    unfolding p_load0_def body using span_place [OF k(2,3), of "[]"]
    by (auto simp: d sc_space_def ctype_defs simp del: line_text.simps)
qed

lemma not_load_I: "sc_lit ''R0,'' (sc_space (''I'' @ r)) = None"
  by (simp add: sc_space_def ctype_defs)

lemma reload_iff:
  assumes x: "line_ok x" and y: "line_ok y" and fr: "fragile x \<longrightarrow> solid y"
  shows "reload (line_text x) (line_text y) = useless x y"
proof
  assume "useless x y"
  then obtain b im where "x = AIns OP_STORE b 0 im" "y = AIns OP_LOAD 0 b im" by (auto simp: useless_def)
  with x y show "reload (line_text x) (line_text y)"
    using store_seen [of b 0 im] load_seen [of 0 b im] by (simp add: reload_def del: line_text.simps)
next
  assume r: "reload (line_text x) (line_text y)"
  then have t: "\<not> is_target (line_text x)" "\<not> is_target (line_text y)" "p_store (line_text x) \<noteq> None"
    "p_store (line_text x) = p_load0 (line_text y)" unfolding reload_def by blast+
  have mark: "is_target (line_text (AMark n))" for n by (simp add: is_target_def)
  obtain a b im where x': "x = AIns OP_STORE a b im"
  proof (cases x rule: kinds)
    case (ins op a b im)
    obtain r where r: "line_body (line_text x) = opcode_name op @ r" "r = [] \<or> hd r = CHR '' ''"
      using ins_body x ins by blast
    have "op_known op" using x ins by (simp add: line_ok.simps(1))
    from ins_lit(4) [OF this r(2)] t(3) r(1) have "op = OP_STORE" by (auto simp: p_store_def split: if_splits)
    with ins that show ?thesis by blast
  next
    case other
    from other_body [OF x other] obtain p r where "line_body (line_text x) = p @ r" "p \<in> set heads" .
    with other_lit(4) t(3) show ?thesis by (simp add: p_store_def)
  qed (use mark t in auto)
  have ne: "p_load0 (line_text y) \<noteq> None" using t(3,4) by metis
  obtain c d jm where y': "y = AIns OP_LOAD c d jm"
  proof (cases y rule: kinds)
    case (ins op a b im)
    obtain r where r: "line_body (line_text y) = opcode_name op @ r" "r = [] \<or> hd r = CHR '' ''"
      using ins_body y ins by blast
    have k: "op_known op" using y ins by (simp add: line_ok.simps(1))
    have "op = OP_LOAD"
    proof (rule ccontr)
      assume "op \<noteq> OP_LOAD"
      then have "p_load0 (line_text y) = None"
        using ins_lit(5) [OF k r(2)] r(1) not_load_I [of r] by (simp add: p_load0_def)
      with ne show False by simp
    qed
    with ins that show ?thesis by blast
  next
    case other
    from other_body [OF y other] obtain p r where b: "line_body (line_text y) = p @ r" "p \<in> set heads" .
    have "p_load0 (line_text y) = None"
    proof (cases "sc_lit ''LOAD'' (p @ r)")
      case (Some u)
      then obtain u' where "u = CHR ''I'' # u'" using other_lit(5) [OF b(2), of r] by (cases u) auto
      then show ?thesis using Some b(1) not_load_I [of u'] by (simp add: p_load0_def)
    qed (simp add: p_load0_def b(1))
    with ne show ?thesis by simp
  qed (use mark t in auto)
  have b: "b = 0" using fr x' y' by auto
  have c: "c = 0" using ne load_seen(1) y y' by (simp split: if_splits)
  have "place_text a im = place_text d jm"
    using t(4) store_seen(1) [of a b im] load_seen(1) [of c d jm] x y x' y' c by simp
  then have "a = d \<and> im = jm" using place_text_inj x y x' y' by (simp add: line_ok.simps(1))
  with x' y' b c show "useless x y" by (simp add: useless_def)
qed

subsection \<open>The pass by lines\<close>

text \<open>What the pass needs of a program, and keeps.\<close>

definition neutral :: "nat \<Rightarrow> aline list \<Rightarrow> bool" where
  "neutral b prog = (list_all line_ok prog \<and> guarded prog \<and> settled prog \<and>
     (\<forall>l \<in> set (take b prog). \<forall>r im. l \<noteq> AIns OP_STORE r 0 im))"

lemma guarded_pair:
  "guarded (xs @ x # y # ys) \<Longrightarrow> (fragile x \<longrightarrow> solid y) \<and> \<not> self_mov y"
  by (induction xs) auto

lemma settled_pair: "settled (xs @ x # y # ys) \<Longrightarrow> pushes x \<longrightarrow> \<not> pops y"
  by (induction xs) auto

lemma guarded_self: "guarded (xs @ y # ys) \<Longrightarrow> \<not> self_mov y"
  by (induction xs) auto

lemma guarded_drop: "guarded (xs @ x # y # ys) \<Longrightarrow> useless x y \<Longrightarrow> guarded (xs @ x # ys)"
proof (induction xs)
  case Nil
  then show ?case by (auto simp: useless_def)
next
  case (Cons a xs)
  then have "guarded (xs @ x # ys)" by simp
  with Cons.prems(1) show ?case by (cases xs) simp_all
qed

lemma settled_drop: "settled (xs @ x # y # ys) \<Longrightarrow> useless x y \<Longrightarrow> settled (xs @ x # ys)"
proof (induction xs)
  case Nil
  then show ?case by (auto simp: useless_def)
next
  case (Cons a xs)
  then have "settled (xs @ x # ys)" by simp
  with Cons.prems(1) show ?case by (cases xs) simp_all
qed

lemma neutral_drop:
  assumes "neutral b (xs @ x # y # ys)" "useless x y"
  shows "neutral b (xs @ x # ys)" "b \<le> length xs"
proof -
  obtain r im where x: "x = AIns OP_STORE r 0 im" using assms(2) by (auto simp: useless_def)
  show b: "b \<le> length xs"
  proof (rule ccontr)
    assume "\<not> b \<le> length xs"
    then have "x \<in> set (take b (xs @ x # y # ys))" by (cases "b - length xs") auto
    with assms(1) x show False by (auto simp: neutral_def)
  qed
  show "neutral b (xs @ x # ys)"
    using assms b guarded_drop settled_drop by (auto simp: neutral_def)
qed

lemma drops_trans: "drops b q r \<Longrightarrow> drops b p q \<Longrightarrow> drops b p r"
  by (induction rule: drops.induct) (auto intro: drops.intros)

text \<open>One line: it stays, or it is a load that does nothing.\<close>

lemma peep_line_neutral:
  assumes "neutral b (rev w @ y # rest)"
  shows "peep_line (line_text y) (map line_text w) =
    (if w \<noteq> [] \<and> useless (hd w) y then (map line_text w, True) else (map line_text (y # w), False))"
proof -
  have y: "line_ok y" "\<not> self_mov y" using assms guarded_self by (auto simp: neutral_def)
  show ?thesis
  proof (cases w)
    case Nil
    then show ?thesis using no_self_move [OF y] by (simp add: peep_line_def)
  next
    case (Cons x w')
    have p: "guarded (rev w' @ x # y # rest)" "settled (rev w' @ x # y # rest)" "line_ok x"
      using assms by (simp_all add: neutral_def Cons)
    show ?thesis
      using no_self_move [OF y] no_stack_pair [OF p(3) y(1)] reload_iff [OF p(3) y(1)] guarded_pair [OF p(1)] settled_pair [OF p(2)]
      by (simp add: peep_line_def Cons)
  qed
qed

lemma peep_pass_neutral:
  "neutral b (rev w @ ls) \<Longrightarrow> \<exists>out c. peep_pass (map line_text w) (map line_text ls) = (map line_text out, c) \<and>
    drops b (rev w @ ls) out \<and> neutral b out"
proof (induction ls arbitrary: w)
  case Nil
  then show ?case by (auto simp: rev_map intro: drops.intros)
next
  case (Cons y ls)
  note line = peep_line_neutral [OF Cons.prems]
  show ?case
  proof (cases "w \<noteq> [] \<and> useless (hd w) y")
    case True
    then obtain x w' where w: "w = x # w'" "useless x y" by (cases w) auto
    have n: "neutral b (rev w' @ x # y # ls)" using Cons.prems w by simp
    note nd = neutral_drop [OF n w(2)]
    have "neutral b (rev w @ ls)" using nd(1) w by simp
    from Cons.IH [OF this] obtain out c where
      out: "peep_pass (map line_text w) (map line_text ls) = (map line_text out, c)" "drops b (rev w @ ls) out" "neutral b out"
      by blast
    have "drops b (rev w @ y # ls) (rev w @ ls)"
      using drops.drop [OF drops.same w(2) nd(2)] w by simp
    with out line True show ?thesis by (auto intro: drops_trans)
  next
    case False
    have "neutral b (rev (y # w) @ ls)" using Cons.prems by simp
    from Cons.IH [OF this] line False show ?thesis by auto
  qed
qed

lemma peephole_neutral:
  "neutral b prog \<Longrightarrow> \<exists>prog'. peephole (map line_text prog) = map line_text prog' \<and> drops b prog prog' \<and> neutral b prog'"
proof (induction "length prog" arbitrary: prog rule: less_induct)
  case less
  from peep_pass_neutral [of b "[]" prog] less.prems obtain out c where
    out: "peep_pass [] (map line_text prog) = (map line_text out, c)" "drops b prog out" "neutral b out" by auto
  show ?case
  proof (cases c)
    case False
    with out show ?thesis by (subst peephole.simps) auto
  next
    case True
    then have "length out < length prog" using peep_pass_length [OF out(1)] by simp
    from less.hyps [OF this out(3)] obtain prog' where
      "peephole (map line_text out) = map line_text prog'" "drops b out prog'" "neutral b prog'" by blast
    moreover from this have "drops b prog prog'" using out(2) drops_trans by blast
    ultimately show ?thesis using out(1) True by (subst peephole.simps) auto
  qed
qed

end
