(* ===== verification/CGenNames.thy ===== *)
theory CGenNames
  imports CGenTidy
begin

text \<open>
  The names in the generated text: which lines define a label, which refer to one. The labels that the
  generator makes up are distinct, and every name a line refers to is a label of the same code, a
  function, a variable or the function's epilogue.
\<close>

subsection \<open>Names of a line\<close>

definition margin :: string where
  "margin = ''        ''"

definition mark_of :: "string \<Rightarrow> string option" where
  "mark_of t = (if t \<noteq> [] \<and> hd t \<noteq> CHR '' '' \<and> last t = CHR '':'' then Some (butlast t) else None)"

definition operand :: "string \<Rightarrow> string option" where
  "operand b =
     (if b \<noteq> [] \<and> (hd b = CHR ''J'' \<or> hd b = CHR ''C'') then Some (drop 1 (dropWhile (\<lambda>c. c \<noteq> CHR '' '') b))
      else if take 5 b = ''LOADI'' \<and> drop 10 b \<noteq> [] \<and> (isalpha (hd (drop 10 b)) \<or> hd (drop 10 b) = CHR ''_'')
      then Some (drop 10 b) else None)"

definition ref_of :: "string \<Rightarrow> string option" where
  "ref_of t = (if take 8 t = margin then operand (drop 8 t) else None)"

definition names_of :: "string list \<Rightarrow> string list" where
  "names_of ts = List.map_filter mark_of ts"

definition refs_of :: "string list \<Rightarrow> string set" where
  "refs_of ts = {n. \<exists>t \<in> set ts. ref_of t = Some n}"

lemma names_simps [simp]:
  "names_of [] = []" "names_of (t # ts) = (case mark_of t of None \<Rightarrow> names_of ts | Some n \<Rightarrow> n # names_of ts)"
  "names_of (ts @ us) = names_of ts @ names_of us"
  by (simp_all add: names_of_def map_filter_def split: option.split)

lemma refs_simps [simp]:
  "refs_of [] = {}" "refs_of (t # ts) = (case ref_of t of None \<Rightarrow> refs_of ts | Some n \<Rightarrow> insert n (refs_of ts))"
  "refs_of (ts @ us) = refs_of ts \<union> refs_of us"
  by (auto simp: refs_of_def split: option.split)

lemma indented_margin: "indented b = margin @ b"
  by (simp add: indented_def margin_def eval_nat_numeral)

lemma indented_names [simp]: "mark_of (indented b) = None" "ref_of (indented b) = operand b"
  by (simp_all add: indented_margin margin_def mark_of_def ref_of_def)

lemma mark_names [simp]: "mark_of (label_name i @ '':'') = Some (label_name i)" "ref_of (label_name i @ '':'') = None"
  by (simp_all add: label_name_def mark_of_def ref_of_def margin_def butlast_append)

subsection \<open>Names in the output so far\<close>

definition made :: "cgstate \<Rightarrow> string list" where
  "made s = names_of (cg_lines s)"

definition used :: "cgstate \<Rightarrow> string set" where
  "used s = refs_of (cg_lines s)"

lemma made_simps [simp]:
  "made (emit b s) = made s" "made (emit_label i s) = made s @ [label_name i]" "made (emitj mn i s) = made s"
  "made (s\<lparr>cg_label := l\<rparr>) = made s" "made (s\<lparr>cg_epi := e\<rparr>) = made s" "made (s\<lparr>cg_sym := y\<rparr>) = made s"
  by (simp_all add: made_def)

lemma used_simps [simp]:
  "used (emit b s) = set_option (operand b) \<union> used s" "used (emit_label i s) = used s"
  "used (s\<lparr>cg_label := l\<rparr>) = used s" "used (s\<lparr>cg_epi := e\<rparr>) = used s" "used (s\<lparr>cg_sym := y\<rparr>) = used s"
  by (auto simp: used_def split: option.split)

lemma used_jump [simp]:
  "mn \<noteq> [] \<Longrightarrow> hd mn = CHR ''J'' \<Longrightarrow> CHR '' '' \<notin> set mn \<Longrightarrow> used (emitj mn i s) = insert (label_name i) (used s)"
proof -
  assume m: "mn \<noteq> []" "hd mn = CHR ''J''" "CHR '' '' \<notin> set mn"
  then have "\<forall>c \<in> set mn. c \<noteq> CHR '' ''" by auto
  then have "dropWhile (\<lambda>c. c \<noteq> CHR '' '') (mn @ CHR '' '' # label_name i) = CHR '' '' # label_name i"
    by (simp add: dropWhile_append2)
  with m have "operand (mn @ '' '' @ label_name i) = Some (label_name i)" by (simp add: operand_def)
  then show ?thesis by (simp add: emitj_def)
qed

lemma field_simps_emit [simp]:
  "cg_label (emit b s) = cg_label s" "cg_funcs (emit b s) = cg_funcs s" "cg_globs (emit b s) = cg_globs s" "cg_epi (emit b s) = cg_epi s"
  "cg_label (emit_label i s) = cg_label s" "cg_funcs (emit_label i s) = cg_funcs s" "cg_globs (emit_label i s) = cg_globs s"
  "cg_epi (emit_label i s) = cg_epi s" "cg_label (emitj mn i s) = cg_label s" "cg_funcs (emitj mn i s) = cg_funcs s"
  "cg_globs (emitj mn i s) = cg_globs s" "cg_epi (emitj mn i s) = cg_epi s"
  by (simp_all add: emit_def emit_label_def emitj_def add_line_def)

subsection \<open>Closed pieces of code\<close>

definition known :: "cgstate \<Rightarrow> string set" where
  "known s = fn_name ` set (cg_funcs s) \<union> gl_name ` set (cg_globs s) \<union> {cg_epi s}"

definition whole :: "cgstate \<Rightarrow> cgstate \<Rightarrow> bool" where
  "whole s s' = (cg_funcs s' = cg_funcs s \<and> cg_globs s' = cg_globs s \<and> cg_epi s' = cg_epi s \<and> cg_label s \<le> cg_label s' \<and>
     (\<exists>js. made s' = made s @ map label_name js \<and> distinct js \<and> set js \<subseteq> {cg_label s..<cg_label s'} \<and>
        used s' \<subseteq> used s \<union> known s \<union> label_name ` set js))"

lemma known_cong: "cg_funcs s' = cg_funcs s \<Longrightarrow> cg_globs s' = cg_globs s \<Longrightarrow> cg_epi s' = cg_epi s \<Longrightarrow> known s' = known s"
  by (simp add: known_def)

lemma wholeE:
  assumes "whole s s'"
  obtains js where "cg_funcs s' = cg_funcs s" "cg_globs s' = cg_globs s" "cg_epi s' = cg_epi s" "cg_label s \<le> cg_label s'"
    "made s' = made s @ map label_name js" "distinct js" "\<And>i. i \<in> set js \<Longrightarrow> cg_label s \<le> i \<and> i < cg_label s'"
    "used s' \<subseteq> used s \<union> known s \<union> label_name ` set js" "known s' = known s"
  using assms unfolding whole_def by (elim conjE exE) (rule that; (rule known_cong)?; force)

lemma wholeI:
  "cg_funcs s' = cg_funcs s \<Longrightarrow> cg_globs s' = cg_globs s \<Longrightarrow> cg_epi s' = cg_epi s \<Longrightarrow> cg_label s \<le> cg_label s' \<Longrightarrow>
   made s' = made s @ map label_name js \<Longrightarrow> distinct js \<Longrightarrow> (\<And>i. i \<in> set js \<Longrightarrow> cg_label s \<le> i \<and> i < cg_label s') \<Longrightarrow>
   used s' \<subseteq> used s \<union> known s \<union> label_name ` set js \<Longrightarrow> whole s s'"
  unfolding whole_def by fastforce

lemma whole_refl [simp]: "whole s s"
  by (rule wholeI [of _ _ "[]"]) auto

lemma whole_trans: "whole s s1 \<Longrightarrow> whole s1 s2 \<Longrightarrow> whole s s2"
proof (elim wholeE)
  fix js ks
  assume 1: "cg_funcs s1 = cg_funcs s" "cg_globs s1 = cg_globs s" "cg_epi s1 = cg_epi s" "cg_label s \<le> cg_label s1"
    "made s1 = made s @ map label_name js" "distinct js" "\<And>i. i \<in> set js \<Longrightarrow> cg_label s \<le> i \<and> i < cg_label s1"
    "used s1 \<subseteq> used s \<union> known s \<union> label_name ` set js" "known s1 = known s"
    and 2: "cg_funcs s2 = cg_funcs s1" "cg_globs s2 = cg_globs s1" "cg_epi s2 = cg_epi s1" "cg_label s1 \<le> cg_label s2"
    "made s2 = made s1 @ map label_name ks" "distinct ks" "\<And>i. i \<in> set ks \<Longrightarrow> cg_label s1 \<le> i \<and> i < cg_label s2"
    "used s2 \<subseteq> used s1 \<union> known s1 \<union> label_name ` set ks"
  show "whole s s2"
  proof (rule wholeI [of _ _ "js @ ks"])
    show "distinct (js @ ks)" using 1(6,7) 2(6,7) by fastforce
    show "used s2 \<subseteq> used s \<union> known s \<union> label_name ` set (js @ ks)" using 1(8,9) 2(8) by auto
    show "cg_label s \<le> i \<and> i < cg_label s2" if "i \<in> set (js @ ks)" for i
      using that 1(4) 1(7) [of i] 2(4) 2(7) [of i] by auto
  qed (use 1 2 in auto)
qed

lemma whole_emit: "whole s s1 \<Longrightarrow> set_option (operand b) \<subseteq> known s1 \<Longrightarrow> whole s (emit b s1)"
  by (erule whole_trans) (rule wholeI [of _ _ "[]"]; simp; blast)

lemma whole_plain: "whole s s1 \<Longrightarrow> operand b = None \<Longrightarrow> whole s (emit b s1)"
  by (rule whole_emit) simp_all

text \<open>Lines with a number or a name.\<close>

lemma number_start: "drop 10 (''LOADI R1, '' @ t) = t" "drop 10 (''LOADI R0, '' @ t) = t"
  by simp_all

lemma number_head: "\<not> isalpha (hd (fmt_base 10 n)) \<and> hd (fmt_base 10 n) \<noteq> CHR ''_''"
proof -
  have "hd (fmt_base 10 n) \<in> set (fmt_base 10 n)" by (rule hd_in_set) simp
  then have "isdigit (hd (fmt_base 10 n))" by (rule isdigit_fmt_base)
  then show ?thesis by (auto simp: ctype_defs)
qed

lemma operand_number:
  "operand (''LOADI R0, '' @ fmt_int v) = None" "operand (''LOADI R1, '' @ fmt_int v) = None"
  "operand (''LOADI R1, '' @ fmt_base 10 n) = None"
  using number_head [of "nat v"] number_head [of "nat (- v)"] number_head [of n]
  by (auto simp: operand_def fmt_int_def ctype_defs)

lemmas number_lines [simp] = operand_number operand_number [unfolded append.simps]

lemma operand_name: "set_option (operand (''LOADI R0, '' @ n)) \<subseteq> {n}" "set_option (operand (''LOADI R1, '' @ n)) \<subseteq> {n}"
  "set_option (operand (''CALL '' @ n)) = {n}" "set_option (operand (''JMP '' @ n)) = {n}"
  by (simp_all add: operand_def)

definition sound :: "cnode \<Rightarrow> bool" where
  "sound n = (\<forall>s s'. (gen_addr n s = Inr s' \<longrightarrow> whole s s') \<and> (gen_expr n s = Inr s' \<longrightarrow> whole s s'))"

lemma soundD: "sound n \<Longrightarrow> gen_addr n s = Inr s' \<Longrightarrow> whole s s'" "sound n \<Longrightarrow> gen_expr n s = Inr s' \<Longrightarrow> whole s s'"
  by (simp_all add: sound_def)

lemma global_known: "cresolve name s = Global a \<Longrightarrow> name \<in> known s"
  by (auto simp: cresolve_def known_def split: option.splits dest!: find_Some)

subsection \<open>Expressions\<close>

lemma sound_int: "sound (N_INT l v)"
  by (auto simp: sound_def gen_expr_forms gen_addr.simps [of "N_INT l v"] fail_def intro!: whole_plain split: if_splits)

lemma whole_global:
  assumes "cresolve name s = Global a" "whole s s1"
  shows "whole s (emit (''LOADI R0, '' @ name) s1)" "whole s (emit (''LOADI R1, '' @ name) s1)"
proof -
  have k: "name \<in> known s1" using global_known [OF assms(1)] assms(2) by (auto elim: wholeE)
  show "whole s (emit (''LOADI R0, '' @ name) s1)" by (rule whole_emit [OF assms(2)]) (use k operand_name(1) in blast)
  show "whole s (emit (''LOADI R1, '' @ name) s1)" by (rule whole_emit [OF assms(2)]) (use k operand_name(2) in blast)
qed

lemmas whole_globals = whole_global whole_global [unfolded append.simps]

text \<open>Lines without a name, from their first letters.\<close>

lemma plain_operand [simp]:
  "operand (CHR ''S'' # t) = None" "operand (CHR ''M'' # t) = None" "operand (CHR ''A'' # t) = None"
  "operand (CHR ''P'' # t) = None" "operand (CHR ''N'' # t) = None" "operand (CHR ''O'' # t) = None"
  "operand (CHR ''D'' # t) = None" "operand (CHR ''R'' # t) = None" "operand (CHR ''X'' # t) = None"
  "operand (CHR ''I'' # t) = None" "operand (CHR ''H'' # t) = None"
  "operand (CHR ''L'' # CHR ''O'' # CHR ''A'' # CHR ''D'' # CHR '' '' # t) = None"
  by (simp_all add: operand_def)

lemma plain_constant [simp]: "operand ''LOADI R0, 0'' = None" "operand ''LOADI R0, 1'' = None" "operand ''LOADI R1, 0'' = None"
  "operand ''LOADI R1, 2'' = None" "operand ''LOADI R1, 4'' = None"
  by (simp_all add: operand_def ctype_defs)

lemma sound_var: "sound (N_VAR l name)"
proof -
  have a: "whole s s'" if "gen_addr (N_VAR l name) s = Inr s'" for s s'
    using that by (auto simp: gen_addr_forms fail_def Let_def whole_plain whole_globals split: cvar.splits if_splits)
  have "whole s s'" if "gen_expr (N_VAR l name) s = Inr s'" for s s'
    using that a by (auto simp: gen_expr_forms fail_def whole_plain whole_globals split: cvar.splits if_splits)
  with a show ?thesis by (simp add: sound_def)
qed

lemma sound_operands: "whole s s1 \<Longrightarrow> sound b \<Longrightarrow> gen_expr b (emit ''PUSH R0'' s1) = Inr s2 \<Longrightarrow> whole s s2"
  by (erule whole_trans) (rule whole_trans [OF whole_plain [OF whole_refl] soundD(2)]; simp)

lemma sound_index:
  assumes a: "sound a" and b: "sound b"
  shows "sound (N_INDEX l a b)"
proof -
  have 1: "whole s s'" if g: "gen_addr (N_INDEX l a b) s = Inr s'" for s s'
  proof -
    let ?base = "case a of
           N_VAR line name \<Rightarrow>
             (case cresolve name s of
                Unknown \<Rightarrow> fail line (undefined_variable name)
              | Local _ isa \<Rightarrow> if isa then gen_addr a s else gen_expr a s
              | Global isa \<Rightarrow> if isa then gen_addr a s else gen_expr a s)
         | _ \<Rightarrow> gen_expr a s"
    obtain s1 s2 where 1: "?base = Inr s1" and 2: "gen_expr b (emit ''PUSH R0'' s1) = Inr s2"
      and s': "s' = emits_all [''LOADI R1, 2'', ''SHL R0, R1'', ''POP R1'', ''ADD R0, R1''] s2"
      using g unfolding gen_addr_forms res_bind_Inr_iff sum.inject by (elim exE conjE) (rule that, assumption, assumption, erule sym)
    have "gen_addr a s = Inr s1 \<or> gen_expr a s = Inr s1"
      using 1 by (auto simp: fail_def split: cnode.splits cvar.splits if_splits)
    then have "whole s s2" using sound_operands [OF _ b 2] soundD [OF a] by blast
    then show ?thesis by (simp add: s' whole_plain operand_def ctype_defs)
  qed
  have "whole s s'" if "gen_expr (N_INDEX l a b) s = Inr s'" for s s'
    using that 1 by (auto simp: gen_expr_forms res_bind_Inr_iff whole_plain)
  with 1 show ?thesis by (simp add: sound_def)
qed

text \<open>A label of its own at the end of a piece.\<close>

lemma whole_bang:
  assumes "whole s s1"
  shows "whole s (emit_label (cg_label s1) (emit ''LOADI R0, 1'' (emitj ''JNZ'' (cg_label s1)
    (emits_all [''AND R0, R0'', ''LOADI R0, 0''] (bump s1)))))"
  using assms
proof (rule wholeE)
  fix js
  assume "cg_funcs s1 = cg_funcs s" "cg_globs s1 = cg_globs s" "cg_epi s1 = cg_epi s" "cg_label s \<le> cg_label s1"
    "made s1 = made s @ map label_name js" "distinct js" "\<And>i. i \<in> set js \<Longrightarrow> cg_label s \<le> i \<and> i < cg_label s1"
    "used s1 \<subseteq> used s \<union> known s \<union> label_name ` set js"
  then show ?thesis
    by (intro wholeI [of _ _ "js @ [cg_label s1]"]) (auto simp: less_Suc_eq)
qed

lemma sound_unary: "sound a \<Longrightarrow> sound (N_UNARY l oper a)"
proof -
  assume a: "sound a"
  have 1: "whole s s'" if "gen_addr (N_UNARY l oper a) s = Inr s'" for s s'
    using that soundD(2) [OF a] by (simp add: gen_addr_forms fail_def split: if_splits)
  have "whole s s'" if "gen_expr (N_UNARY l oper a) s = Inr s'" for s s'
    using that 1 soundD [OF a] whole_bang
    by (auto simp: gen_expr_forms res_bind_Inr_iff fail_def Let_def newlabel_eq whole_plain split: if_splits)
  with 1 show ?thesis by (simp add: sound_def)
qed

lemma jumps_names:
  assumes "cmp_jumps oper = Some mns"
  shows "made (fold (\<lambda>mn. emitj mn i) mns s) = made s \<and> used (fold (\<lambda>mn. emitj mn i) mns s) = insert (label_name i) (used s) \<and>
    cg_label (fold (\<lambda>mn. emitj mn i) mns s) = cg_label s \<and> cg_funcs (fold (\<lambda>mn. emitj mn i) mns s) = cg_funcs s \<and>
    cg_globs (fold (\<lambda>mn. emitj mn i) mns s) = cg_globs s \<and> cg_epi (fold (\<lambda>mn. emitj mn i) mns s) = cg_epi s"
  using assms by (cases oper) (auto simp: cmp_jumps_def)

lemma whole_cmp:
  assumes "whole s s1" "cmp_jumps oper = Some mns"
  shows "whole s (emit_label (Suc (cg_label s1)) (emit ''LOADI R0, 1'' (emit_label (cg_label s1) (emitj ''JMP'' (Suc (cg_label s1))
    (fold (\<lambda>mn. emitj mn (cg_label s1)) mns
      ((emits_all [''POP R1'', ''SUB R1, R0'', ''LOADI R0, 0''] s1)\<lparr>cg_label := Suc (Suc (cg_label s1))\<rparr>))))))"
  using assms(1)
proof (rule wholeE)
  fix js
  assume "cg_funcs s1 = cg_funcs s" "cg_globs s1 = cg_globs s" "cg_epi s1 = cg_epi s" "cg_label s \<le> cg_label s1"
    "made s1 = made s @ map label_name js" "distinct js" "\<And>i. i \<in> set js \<Longrightarrow> cg_label s \<le> i \<and> i < cg_label s1"
    "used s1 \<subseteq> used s \<union> known s \<union> label_name ` set js"
  moreover from this have "Suc (cg_label s1) \<notin> set js" by fastforce
  ultimately show ?thesis
    by (intro wholeI [of _ _ "js @ [cg_label s1, Suc (cg_label s1)]"])
      (auto simp: jumps_names [OF assms(2)] less_Suc_eq)
qed

text \<open>The two operands of \<open>&&\<close> and \<open>||\<close>, with a jump to the same label behind each.\<close>

lemma whole_short:
  assumes a: "whole (bump (bump s)) s1"
    and b: "whole (emitj mn (cg_label s) (emit ''AND R0, R0'' s1)) s2"
    and m: "mn \<in> {''JZ'', ''JNZ''}" "set_option (operand x) \<union> set_option (operand y) = {}"
  shows "whole s (emit_label (Suc (cg_label s)) (emit y (emit_label (cg_label s) (emitj ''JMP'' (Suc (cg_label s))
    (emit x (emitj mn (cg_label s) (emit ''AND R0, R0'' s2)))))))"
  using a
proof (rule wholeE)
  fix js
  assume 1: "cg_funcs s1 = cg_funcs (bump (bump s))" "cg_globs s1 = cg_globs (bump (bump s))" "cg_epi s1 = cg_epi (bump (bump s))"
    "cg_label (bump (bump s)) \<le> cg_label s1" "made s1 = made (bump (bump s)) @ map label_name js" "distinct js"
    "\<And>i. i \<in> set js \<Longrightarrow> cg_label (bump (bump s)) \<le> i \<and> i < cg_label s1"
    "used s1 \<subseteq> used (bump (bump s)) \<union> known (bump (bump s)) \<union> label_name ` set js"
  let ?t = "emitj mn (cg_label s) (emit ''AND R0, R0'' s1)"
  have t: "used ?t = insert (label_name (cg_label s)) (used s1)" "made ?t = made s1" using m(1) by auto
  have k: "known (bump (bump s)) = known s" by (simp add: known_def)
  from b show ?thesis
  proof (rule wholeE)
    fix ks
    assume 2: "cg_funcs s2 = cg_funcs ?t" "cg_globs s2 = cg_globs ?t" "cg_epi s2 = cg_epi ?t" "cg_label ?t \<le> cg_label s2"
      "made s2 = made ?t @ map label_name ks" "distinct ks" "\<And>i. i \<in> set ks \<Longrightarrow> cg_label ?t \<le> i \<and> i < cg_label s2"
      "used s2 \<subseteq> used ?t \<union> known ?t \<union> label_name ` set ks"
    have kt: "known ?t = known s" using 1(1-3) by (simp add: known_def)
    let ?r = "emit_label (Suc (cg_label s)) (emit y (emit_label (cg_label s) (emitj ''JMP'' (Suc (cg_label s))
    (emit x (emitj mn (cg_label s) (emit ''AND R0, R0'' s2))))))"
    have u: "used ?r = {label_name (cg_label s), label_name (Suc (cg_label s))} \<union> used s2" "made ?r = made s2 @ map label_name [cg_label s, Suc (cg_label s)]"
      using m by auto
    show ?thesis
    proof (rule wholeI [of _ _ "js @ ks @ [cg_label s, Suc (cg_label s)]"])
      show "distinct (js @ ks @ [cg_label s, Suc (cg_label s)])" using 1(6,7) 2(6,7) 1(4) by fastforce
      show "cg_label s \<le> i \<and> i < cg_label ?r" if "i \<in> set (js @ ks @ [cg_label s, Suc (cg_label s)])" for i
        using that 1(4) 1(7) [of i] 2(4) 2(7) [of i] by auto
      show "used ?r \<subseteq> used s \<union> known s \<union> label_name ` set (js @ ks @ [cg_label s, Suc (cg_label s)])"
        unfolding u using 1(8) 2(8) k kt t(1) by auto
      show "made ?r = made s @ map label_name (js @ ks @ [cg_label s, Suc (cg_label s)])"
        unfolding u using 1(5) 2(5) t(2) by simp
    qed (use 1 2 in auto)
  qed
qed

lemma binary_whole: "binary_code oper = Some code \<Longrightarrow> whole s s1 \<Longrightarrow> whole s (emits_all code s1)"
  by (cases oper) (auto simp: binary_code_def whole_plain)

lemma sound_binary:
  assumes a: "sound a" and b: "sound b"
  shows "sound (N_BINARY l oper a b)"
proof -
  have two: "whole s s'" if "gen_expr a s = Inr s1" "gen_expr b (emit ''PUSH R0'' s1) = Inr s'" for s s1 s'
    using sound_operands [OF _ b that(2)] soundD(2) [OF a that(1)] .
  have "whole s s'" if g: "gen_binary l oper a b s = Inr s'" for s s'
  proof -
    consider "oper = CT_ANDAND" | "oper = CT_OROR" | "oper \<noteq> CT_ANDAND" "oper \<noteq> CT_OROR" "is_cmp_op oper"
      | "oper \<noteq> CT_ANDAND" "oper \<noteq> CT_OROR" "\<not> is_cmp_op oper" by blast
    then show ?thesis
    proof cases
      case 1
      with g obtain s1 s2 where 1: "gen_expr a (bump (bump s)) = Inr s1"
        "gen_expr b (emitj ''JZ'' (cg_label s) (emit ''AND R0, R0'' s1)) = Inr s2"
        and s': "s' = emit_label (Suc (cg_label s)) (emit ''LOADI R0, 0'' (emit_label (cg_label s) (emitj ''JMP'' (Suc (cg_label s))
          (emit ''LOADI R0, 1'' (emitj ''JZ'' (cg_label s) (emit ''AND R0, R0'' s2))))))"
        by (auto simp: gen_binary.simps gen_and.simps newlabel_eq Let_def res_bind_Inr_iff)
      show ?thesis unfolding s' by (rule whole_short [OF soundD(2) [OF a 1(1)] soundD(2) [OF b 1(2)]]) simp_all
    next
      case 2
      with g obtain s1 s2 where 1: "gen_expr a (bump (bump s)) = Inr s1"
        "gen_expr b (emitj ''JNZ'' (cg_label s) (emit ''AND R0, R0'' s1)) = Inr s2"
        and s': "s' = emit_label (Suc (cg_label s)) (emit ''LOADI R0, 1'' (emit_label (cg_label s) (emitj ''JMP'' (Suc (cg_label s))
          (emit ''LOADI R0, 0'' (emitj ''JNZ'' (cg_label s) (emit ''AND R0, R0'' s2))))))"
        by (auto simp: gen_binary.simps gen_or.simps newlabel_eq Let_def res_bind_Inr_iff)
      show ?thesis unfolding s' by (rule whole_short [OF soundD(2) [OF a 1(1)] soundD(2) [OF b 1(2)]]) simp_all
    next
      case 3
      then obtain s1 s2 mns where 1: "gen_expr a s = Inr s1" "gen_expr b (emit ''PUSH R0'' s1) = Inr s2" "cmp_jumps oper = Some mns"
        and s': "s' = emit_label (Suc (cg_label s2)) (emit ''LOADI R0, 1'' (emit_label (cg_label s2) (emitj ''JMP'' (Suc (cg_label s2))
          (fold (\<lambda>mn. emitj mn (cg_label s2)) mns ((emits_all [''POP R1'', ''SUB R1, R0'', ''LOADI R0, 0''] s2)\<lparr>cg_label := Suc (Suc (cg_label s2))\<rparr>)))))"
        using g by (auto simp: gen_binary.simps gen_cmp.simps newlabel_eq Let_def res_bind_Inr_iff fail_def split: option.splits)
      show ?thesis unfolding s' by (rule whole_cmp [OF two [OF 1(1,2)] 1(3)])
    next
      case 4
      then show ?thesis
        using g two
        by (fastforce simp: gen_binary.simps Let_def res_bind_Inr_iff fail_def whole_plain binary_whole split: option.splits)
    qed
  qed
  then show ?thesis by (simp add: sound_def gen_expr_forms gen_addr.simps [of "N_BINARY l oper a b"] fail_def)
qed

lemma sound_assign:
  assumes a: "sound lhs" and b: "sound b"
  shows "sound (N_ASSIGN l lhs b)"
proof -
  have "whole s s'" if g: "gen_expr (N_ASSIGN l lhs b) s = Inr s'" for s s'
  proof (cases "\<exists>vl name. lhs = N_VAR vl name")
    case True
    then show ?thesis
      using g soundD(2) [OF b]
      by (auto simp: gen_expr_forms res_bind_Inr_iff fail_def whole_plain whole_globals split: cvar.splits if_splits)
  next
    case False
    then obtain s1 s2 where 1: "gen_addr lhs s = Inr s1" and 2: "gen_expr b (emit ''PUSH R0'' s1) = Inr s2"
      and s': "s' = emits_all [''POP R1'', ''STORE [R1+0], R0''] s2"
      using g by (cases lhs) (auto simp only: gen_expr_forms res_bind_Inr_iff fail_def cnode.case sum.inject
          sum.distinct split: if_splits)
    from sound_operands [OF soundD(1) [OF a 1] b 2] show ?thesis by (simp add: s' whole_plain)
  qed
  then show ?thesis by (simp add: sound_def gen_addr.simps [of "N_ASSIGN l lhs b"] fail_def)
qed

lemma sound_args: "\<forall>a \<in> set as. sound a \<Longrightarrow> gen_args as s = Inr s' \<Longrightarrow> whole s s'"
proof (induction as arbitrary: s')
  case (Cons a as)
  from Cons.prems(2) obtain s1 s2 where 1: "gen_args as s = Inr s1" and 2: "gen_expr a s1 = Inr s2"
    and s': "s' = emits_all [''LOADI R1, 4'', ''SUB R7, R1'', ''STORE [R7+0], R0''] s2"
    by (auto simp only: gen_args.simps res_bind_Inr_iff sum.inject)
  have "whole s1 s2" using soundD(2) [OF _ 2] Cons.prems(1) by simp
  then have "whole s s2" using Cons.IH [OF _ 1] Cons.prems(1) whole_trans by auto
  then show ?case by (simp add: s' whole_plain)
qed (simp add: gen_args.simps)

lemma whole_call:
  assumes "func_find name s = Some np" "whole s s1"
  shows "whole s (emit (''CALL '' @ name) s1)"
proof (rule whole_emit [OF assms(2)])
  have "name \<in> known s1"
    using assms by (auto simp: func_find_def known_def whole_def dest!: find_Some)
  then show "set_option (operand (''CALL '' @ name)) \<subseteq> known s1" unfolding operand_name(3) by simp
qed

lemma sound_call: "\<forall>a \<in> set as. sound a \<Longrightarrow> sound (N_CALL l name as)"
proof -
  assume as: "\<forall>a \<in> set as. sound a"
  have "whole s s'" if g: "gen_call l name as s = Inr s'" for s s'
  proof -
    consider (outp) "name = ''out''" | (inp) "name = ''in''" | (fn) "name \<noteq> ''out''" "name \<noteq> ''in''" by blast
    then show ?thesis
    proof cases
      case outp
      then obtain a s1 where "as = [a]" "gen_expr a s = Inr s1" "s' = emit ''OUT R0'' s1"
        using g by (auto simp: gen_call.simps res_bind_Inr_iff fail_def split: list.splits)
      with as soundD(2) show ?thesis by (simp add: whole_plain)
    next
      case inp
      then show ?thesis using g by (auto simp: gen_call.simps whole_plain)
    next
      case fn
      then obtain np where np: "func_find name s = Some np" "length as = np"
        using g by (auto simp: gen_call.simps fail_def split: option.splits if_splits)
      then obtain s1 where 1: "gen_args as s = Inr s1"
        and s': "s' = (if as \<noteq> [] then emits_all [''LOADI R1, '' @ fmt_base 10 (4 * length as), ''ADD R7, R1'']
            (emit (''CALL '' @ name) s1) else emit (''CALL '' @ name) s1)"
        using g fn by (auto simp only: gen_call.simps res_bind_Inr_iff option.case if_False Let_def sum.inject simp_thms)
      note c = whole_call [OF np(1) sound_args [OF as 1]]
      show ?thesis
      proof (cases "as = []")
        case False
        then show ?thesis unfolding s' if_P [OF False] emits_all.simps by (intro whole_plain c number_lines plain_operand)
      qed (use c s' in simp)
    qed
  qed
  then show ?thesis by (simp add: sound_def gen_expr_forms gen_addr.simps [of "N_CALL l name as"] fail_def)
qed

lemma sound_others:
  "sound (N_PROGRAM l ds)" "sound (N_FUNC l name v ps bd)" "sound (N_PARAM l name ptr)"
  "sound (N_VARDECL l name ptr arr sz a)" "sound (N_BLOCK l ks)" "sound (N_IF l x y z)" "sound (N_WHILE l x y)"
  "sound (N_FOR l w e y' x)" "sound (N_RETURN l e)" "sound (N_EXPRSTMT l x)"
  by (simp_all add: sound_def gen_addr.simps gen_expr.simps fail_def)

lemma sound_all: "sound n"
  by (induction n)
    (simp_all add: sound_int sound_var sound_index sound_unary sound_binary sound_assign sound_call sound_others)

lemma gen_expr_whole: "gen_expr n s = Inr s' \<Longrightarrow> whole s s'"
  using soundD(2) sound_all by blast

subsection \<open>Statements\<close>

text \<open>A piece that defines the reserved labels \<open>M\<close> and may jump to the reserved labels \<open>L\<close>.\<close>

definition part :: "nat set \<Rightarrow> nat set \<Rightarrow> cgstate \<Rightarrow> cgstate \<Rightarrow> bool" where
  "part M L s s' = (cg_funcs s' = cg_funcs s \<and> cg_globs s' = cg_globs s \<and> cg_epi s' = cg_epi s \<and> cg_label s \<le> cg_label s' \<and>
     M \<subseteq> {..<cg_label s} \<and>
     (\<exists>js. made s' = made s @ map label_name js \<and> distinct js \<and> M \<subseteq> set js \<and> set js \<subseteq> M \<union> {cg_label s..<cg_label s'} \<and>
        used s' \<subseteq> used s \<union> known s \<union> label_name ` (set js \<union> L)))"

lemma part_refl: "part {} L s s"
  by (auto simp: part_def)

lemma part_whole: "part M L s s1 \<Longrightarrow> whole s1 s2 \<Longrightarrow> part M L s s2"
proof (erule wholeE)
  fix ks
  assume p: "part M L s s1" and 2: "cg_funcs s2 = cg_funcs s1" "cg_globs s2 = cg_globs s1" "cg_epi s2 = cg_epi s1"
    "cg_label s1 \<le> cg_label s2" "made s2 = made s1 @ map label_name ks" "distinct ks"
    "\<And>i. i \<in> set ks \<Longrightarrow> cg_label s1 \<le> i \<and> i < cg_label s2" "used s2 \<subseteq> used s1 \<union> known s1 \<union> label_name ` set ks"
  from p obtain js where 1: "cg_funcs s1 = cg_funcs s" "cg_globs s1 = cg_globs s" "cg_epi s1 = cg_epi s" "cg_label s \<le> cg_label s1"
    "M \<subseteq> {..<cg_label s}" and j: "made s1 = made s @ map label_name js" "distinct js" "M \<subseteq> set js"
    "set js \<subseteq> M \<union> {cg_label s..<cg_label s1}" "used s1 \<subseteq> used s \<union> known s \<union> label_name ` (set js \<union> L)"
    unfolding part_def by blast
  have k: "known s1 = known s" using 1 by (simp add: known_def)
  have lt: "i < cg_label s1" if "i \<in> set js" for i using that j(4) 1(4,5) by fastforce
  have "distinct (js @ ks)" using j(2) 2(6) 2(7) lt by fastforce
  moreover have "used s2 \<subseteq> used s \<union> known s \<union> label_name ` (set (js @ ks) \<union> L)" using 2(8) j(5) k by auto
  moreover have "set (js @ ks) \<subseteq> M \<union> {cg_label s..<cg_label s2}" using j(4) 2(4) 2(7) 1(4) by fastforce
  moreover have "M \<subseteq> set (js @ ks)" "made s2 = made s @ map label_name (js @ ks)" using j 2(5) by auto
  ultimately show ?thesis using 1 2(1-4) unfolding part_def by (intro conjI exI [of _ "js @ ks"]) simp_all
qed

lemma part_emit: "part M L s s1 \<Longrightarrow> operand b = None \<Longrightarrow> part M L s (emit b s1)"
  by (erule part_whole) (simp add: whole_plain)

lemma part_jump:
  assumes "part M L s s1" "i \<in> L" "mn \<in> {''JZ'', ''JMP''}"
  shows "part M L s (emitj mn i s1)"
proof -
  have u: "used (emitj mn i s1) = insert (label_name i) (used s1)" using assms(3) by auto
  show ?thesis
    using assms(1) unfolding part_def u made_simps field_simps_emit
    by (elim conjE exE) (intro conjI exI; (assumption)?; use assms(2) in auto)
qed

lemma part_mark:
  assumes "part M L s s1" "i \<notin> M" "i < cg_label s"
  shows "part (insert i M) L s (emit_label i s1)"
proof -
  from assms(1) obtain js where 1: "cg_funcs s1 = cg_funcs s" "cg_globs s1 = cg_globs s" "cg_epi s1 = cg_epi s" "cg_label s \<le> cg_label s1"
    "M \<subseteq> {..<cg_label s}" and j: "made s1 = made s @ map label_name js" "distinct js" "M \<subseteq> set js"
    "set js \<subseteq> M \<union> {cg_label s..<cg_label s1}" "used s1 \<subseteq> used s \<union> known s \<union> label_name ` (set js \<union> L)"
    unfolding part_def by blast
  have "i \<notin> set js" using j(4) assms(2,3) by auto
  then show ?thesis
    using 1 j assms(3) unfolding part_def by (intro conjI exI [of _ "js @ [i]"]) auto
qed

lemma part_close:
  assumes "part M M (s\<lparr>cg_label := l\<rparr>) s'" "M \<subseteq> {cg_label s..<l}" "cg_label s \<le> l"
  shows "whole s s'"
proof -
  from assms(1) obtain js where 1: "cg_funcs s' = cg_funcs s" "cg_globs s' = cg_globs s" "cg_epi s' = cg_epi s" "l \<le> cg_label s'"
    "M \<subseteq> {..<l}" and j: "made s' = made s @ map label_name js" "distinct js" "M \<subseteq> set js"
    "set js \<subseteq> M \<union> {l..<cg_label s'}" "used s' \<subseteq> used s \<union> known s \<union> label_name ` (set js \<union> M)"
    unfolding part_def by (auto simp: known_def)
  show ?thesis
  proof (rule wholeI [of _ _ js])
    show "used s' \<subseteq> used s \<union> known s \<union> label_name ` set js" using j(3,5) by (simp add: Un_absorb2)
    show "cg_label s \<le> i \<and> i < cg_label s'" if "i \<in> set js" for i using that j(4) assms(2,3) 1(4) by fastforce
  qed (use 1 j assms(3) in simp_all)
qed

lemma part_cond: "part M L s s1 \<Longrightarrow> gen_cond_false a i s1 = Inr s2 \<Longrightarrow> i \<in> L \<Longrightarrow> part M L s s2"
  using part_jump [OF part_emit [OF part_whole [OF _ gen_expr_whole]]]
  by (auto simp: gen_cond_false_def res_bind_Inr_iff)

lemma gen_opt_whole: "gen_opt a s = Inr s' \<Longrightarrow> whole s s'"
  using gen_expr_whole by (auto simp: gen_opt_def split: option.splits)

lemma init_whole: "gen_decl_init name a s = Inr s' \<Longrightarrow> whole s s'"
  using gen_expr_whole by (auto simp: gen_decl_init_def res_bind_Inr_iff whole_plain split: option.splits)

lemma return_whole: "whole s s1 \<Longrightarrow> whole s (emit (''JMP '' @ cg_epi s1) s1)"
proof (rule whole_emit)
  show "set_option (operand (''JMP '' @ cg_epi s1)) \<subseteq> known s1" unfolding operand_name(4) by (simp add: known_def)
qed

definition complete :: "cnode \<Rightarrow> bool" where
  "complete n = (\<forall>s s'. gen_stmt n s = Inr s' \<longrightarrow> whole s s')"

lemma completeD: "complete n \<Longrightarrow> gen_stmt n s = Inr s' \<Longrightarrow> whole s s'"
  by (simp add: complete_def)

lemma complete_stmts: "\<forall>n \<in> set ks. complete n \<Longrightarrow> gen_stmts ks s = Inr s' \<Longrightarrow> whole s s'"
  by (induction ks arbitrary: s) (auto simp: res_bind_Inr_iff complete_def intro: whole_trans)

lemma complete_all: "complete n"
proof (induction n)
  case (N_BLOCK l ks)
  then show ?case using complete_stmts [of ks] by (simp add: complete_def [of "N_BLOCK l ks"])
next
  case (N_VARDECL l name ptr arr sz a)
  then show ?case using init_whole by (simp add: complete_def)
next
  case (N_EXPRSTMT l a)
  then show ?case using gen_expr_whole by (simp add: complete_def)
next
  case (N_RETURN l a)
  show ?case
    unfolding complete_def
  proof (intro allI impI)
    fix s s'
    assume "gen_stmt (N_RETURN l a) s = Inr s'"
    then obtain s1 where 1: "gen_opt a s = Inr s1" "s' = emit (''JMP '' @ cg_epi s1) s1" by (auto simp: res_bind_Inr_iff)
    show "whole s s'" unfolding 1(2) by (rule return_whole [OF gen_opt_whole [OF 1(1)]])
  qed
next
  case (N_IF l a b c)
  show ?case
    unfolding complete_def
  proof (intro allI impI)
    fix s s'
    assume g: "gen_stmt (N_IF l a b c) s = Inr s'"
    show "whole s s'"
    proof (cases c)
      case None
      let ?s = "s\<lparr>cg_label := Suc (cg_label s)\<rparr>" and ?L = "{cg_label s}"
      obtain s1 s2 where 1: "gen_cond_false a (cg_label s) (bump s) = Inr s1" "gen_stmt b s1 = Inr s2"
        and s': "s' = emit_label (cg_label s) s2"
        using g None by (auto simp: newlabel_eq Let_def res_bind_Inr_iff)
      have "part {} ?L ?s s2" by (rule part_whole [OF part_cond [OF part_refl 1(1)] completeD [OF N_IF.IH(2) 1(2)]]) simp
      from part_mark [OF this, of "cg_label s"] have "part ?L ?L ?s s'" by (simp add: s')
      then show ?thesis by (rule part_close) auto
    next
      case (Some e)
      let ?i = "cg_label s" and ?j = "Suc (cg_label s)" and ?s = "s\<lparr>cg_label := Suc (Suc (cg_label s))\<rparr>"
      let ?L = "{?i, ?j}"
      obtain s1 s2 s3 where 1: "gen_cond_false a ?i ?s = Inr s1" "gen_stmt b s1 = Inr s2"
        "gen_stmt e (emit_label ?i (emitj ''JMP'' ?j s2)) = Inr s3" and s': "s' = emit_label ?j s3"
        using g Some by (auto simp: newlabel_eq Let_def res_bind_Inr_iff)
      have e: "complete e" using N_IF.IH(3) Some by simp
      have "part {} ?L ?s s2" by (rule part_whole [OF part_cond [OF part_refl 1(1)] completeD [OF N_IF.IH(2) 1(2)]]) simp
      then have "part {?i} ?L ?s (emit_label ?i (emitj ''JMP'' ?j s2))" by (intro part_mark part_jump) simp_all
      then have "part {?i} ?L ?s s3" by (rule part_whole [OF _ completeD [OF e 1(3)]])
      from part_mark [OF this, of ?j] have "part ?L ?L ?s s'" by (simp add: s' insert_commute)
      then show ?thesis by (rule part_close) auto
    qed
  qed
next
  case (N_WHILE l a b)
  show ?case
    unfolding complete_def
  proof (intro allI impI)
    fix s s'
    assume g: "gen_stmt (N_WHILE l a b) s = Inr s'"
    let ?i = "cg_label s" and ?j = "Suc (cg_label s)" and ?s = "s\<lparr>cg_label := Suc (Suc (cg_label s))\<rparr>"
    let ?L = "{?i, ?j}"
    obtain s1 s2 where 1: "gen_cond_false a ?j (emit_label ?i ?s) = Inr s1" "gen_stmt b s1 = Inr s2"
      and s': "s' = emit_label ?j (emitj ''JMP'' ?i s2)"
      using g by (auto simp: newlabel_eq Let_def res_bind_Inr_iff)
    have "part {?i} ?L ?s (emit_label ?i ?s)" by (intro part_mark part_refl) simp_all
    then have "part {?i} ?L ?s s2"
      by (rule part_whole [OF part_cond [OF _ 1(1)] completeD [OF N_WHILE.IH(2) 1(2)]]) simp
    then have "part (insert ?j {?i}) ?L ?s s'" unfolding s' by (intro part_mark part_jump) simp_all
    then have "part ?L ?L ?s s'" by (simp add: insert_commute)
    then show "whole s s'" by (rule part_close) auto
  qed
next
  case (N_FOR l a b c d)
  show ?case
    unfolding complete_def
  proof (intro allI impI)
    fix s s'
    assume g: "gen_stmt (N_FOR l a b c d) s = Inr s'"
    obtain s0 where 0: "(case a of None \<Rightarrow> Inr s | Some i \<Rightarrow> gen_stmt i s) = Inr s0"
      using g by (cases a) (auto simp: res_bind_Inr_iff)
    let ?i = "cg_label s0" and ?j = "Suc (cg_label s0)" and ?s = "s0\<lparr>cg_label := Suc (Suc (cg_label s0))\<rparr>"
    let ?L = "{?i, ?j}"
    from g 0 obtain s1 s2 s3 where
      b: "(case b of None \<Rightarrow> Inr (emit_label ?i (bump (bump s0))) |
        Some e \<Rightarrow> gen_cond_false e (cg_label (bump s0)) (emit_label ?i (bump (bump s0)))) = Inr s1"
      and 2: "gen_stmt d s1 = Inr s2" "gen_opt c s2 = Inr s3" and s': "s' = emit_label ?j (emitj ''JMP'' ?i s3)"
      by (auto simp: newlabel_eq Let_def res_bind_Inr_iff)
    from b have 1: "(case b of None \<Rightarrow> Inr (emit_label ?i ?s) | Some e \<Rightarrow> gen_cond_false e ?j (emit_label ?i ?s)) = Inr s1" by (cases b) simp_all
    have "part {?i} ?L ?s (emit_label ?i ?s)" by (intro part_mark part_refl) simp_all
    then have "part {?i} ?L ?s s1" using 1 part_cond by (cases b) auto
    then have "part {?i} ?L ?s s3"
      by (intro part_whole [OF part_whole [OF _ completeD [OF N_FOR.IH(4) 2(1)]] gen_opt_whole [OF 2(2)]])
    then have "part (insert ?j {?i}) ?L ?s s'" unfolding s' by (intro part_mark part_jump) simp_all
    then have "part ?L ?L ?s s'" by (simp add: insert_commute)
    then have "whole s0 s'" by (rule part_close) auto
    moreover have "whole s s0" using 0 N_FOR.IH(1) completeD by (cases a) auto
    ultimately show "whole s s'" by (rule whole_trans [rotated])
  qed
qed (simp_all add: complete_def fail_def)

lemma gen_stmt_whole: "gen_stmt n s = Inr s' \<Longrightarrow> whole s s'"
  using completeD complete_all by blast

end
