(* ===== verification/CGenLabels.thy ===== *)
theory CGenLabels
  imports CGenProg CGenNames "HOL-Library.Multiset"
begin

text \<open>
  The labels of a whole program: the names of its functions, their epilogues, its variables, and labels
  of its own. When the program's names are distinct no label is defined twice, and every label that a
  line refers to is defined.
\<close>

subsection \<open>Functions and variables\<close>

lemma named_line:
  assumes "label_ok n"
  shows "made (add_line (n @ '':'') s) = made s @ [n]" "used (add_line (n @ '':'') s) = used s"
proof -
  obtain c v where n: "n = c # v" "isalpha c \<or> c = CHR ''_''" using assms by (cases n) (auto simp: label_ok_def)
  then have "c \<noteq> CHR '' ''" by (auto simp: ctype_defs)
  then have "mark_of (n @ '':'') = Some n" "ref_of (n @ '':'') = None"
    by (simp_all add: n(1) mark_of_def ref_of_def margin_def butlast_append)
  then show "made (add_line (n @ '':'') s) = made s @ [n]" "used (add_line (n @ '':'') s) = used s"
    by (simp_all add: made_def used_def add_line_def)
qed

lemma add_line_fields [simp]:
  "cg_label (add_line t s) = cg_label s" "cg_funcs (add_line t s) = cg_funcs s" "cg_globs (add_line t s) = cg_globs s"
  "cg_epi (add_line t s) = cg_epi s"
  by (simp_all add: add_line_def)

text \<open>The names a piece of the program defines besides generated labels, and those it may refer to.\<close>

definition brings :: "string list \<Rightarrow> string set \<Rightarrow> cgstate \<Rightarrow> cgstate \<Rightarrow> bool" where
  "brings ns K s s' = (cg_funcs s' = cg_funcs s \<and> cg_globs s' = cg_globs s \<and> cg_label s \<le> cg_label s' \<and>
     (\<exists>ks. mset (made s') = mset (made s) + mset ns + mset (map label_name ks) \<and> distinct ks \<and>
        set ks \<subseteq> {cg_label s..<cg_label s'} \<and> used s' \<subseteq> used s \<union> K \<union> label_name ` set ks))"

lemma brings_refl: "brings [] K s s"
  by (simp add: brings_def)

lemma brings_mono: "brings ns K s s' \<Longrightarrow> K \<subseteq> K' \<Longrightarrow> brings ns K' s s'"
  unfolding brings_def by blast

lemma brings_trans:
  assumes "brings ns K s s1" "brings ms K s1 s2" shows "brings (ns @ ms) K s s2"
proof -
  from assms(1) obtain ks where 1: "cg_funcs s1 = cg_funcs s" "cg_globs s1 = cg_globs s" "cg_label s \<le> cg_label s1"
    "mset (made s1) = mset (made s) + mset ns + mset (map label_name ks)" "distinct ks" "set ks \<subseteq> {cg_label s..<cg_label s1}"
    "used s1 \<subseteq> used s \<union> K \<union> label_name ` set ks" unfolding brings_def by blast
  from assms(2) obtain js where 2: "cg_funcs s2 = cg_funcs s1" "cg_globs s2 = cg_globs s1" "cg_label s1 \<le> cg_label s2"
    "mset (made s2) = mset (made s1) + mset ms + mset (map label_name js)" "distinct js" "set js \<subseteq> {cg_label s1..<cg_label s2}"
    "used s2 \<subseteq> used s1 \<union> K \<union> label_name ` set js" unfolding brings_def by blast
  have "distinct (ks @ js)" using 1(5,6) 2(5,6) by fastforce
  moreover have "set (ks @ js) \<subseteq> {cg_label s..<cg_label s2}" using 1(3,6) 2(3,6) by fastforce
  moreover have "used s2 \<subseteq> used s \<union> K \<union> label_name ` set (ks @ js)" using 1(7) 2(7) by auto
  ultimately show ?thesis
    using 1(1-4) 2(1-4) unfolding brings_def by (intro conjI exI [of _ "ks @ js"]) simp_all
qed

lemma function_brings:
  assumes g: "gen_function name ps b s = Inr s'" and ok: "frame_ok s name ps b"
  shows "brings [name, epi_name name] (insert (epi_name name) (fn_name ` set (cg_funcs s) \<union> gl_name ` set (cg_globs s))) s s'"
proof -
  have f: "fits20 (snd (projr (frame_layout s ps b)))" if "frame_layout s ps b = Inr x" for x
    using ok that by (cases x) (simp add: frame_ok_def)
  have "\<exists>x. frame_layout s ps b = Inr x"
    using g by (cases "frame_layout s ps b") (auto simp: gen_function_def frame_layout_def res_bind_def split: sum.splits)
  with f have f20: "fits20 (snd (projr (frame_layout s ps b)))" by blast
  from gen_function_parts [OF g f20] obtain t n s2 where t: "frame_layout s ps b = Inr (t, n)"
    and 2: "gen_stmt b ((fold put (fn_pre name n) t)\<lparr>cg_epi := epi_name name\<rparr>) = Inr s2"
    and s': "s' = emits_all [''MOV R7, R6'', ''LOAD R6, [R7+0]'', ''LOADI R1, 4'', ''ADD R7, R1'', ''RET'']
      (add_line (cg_epi s2 @ '':'') s2)" .
  have n: "fits20 n" "label_ok name" "label_ok (epi_name name)" using f20 t ok by (simp_all add: frame_ok_def)
  let ?s1 = "(fold put (fn_pre name n) t)\<lparr>cg_epi := epi_name name\<rparr>"
  have t': "made t = made s" "used t = used s" "cg_funcs t = cg_funcs s" "cg_globs t = cg_globs s" "cg_label t = cg_label s"
    using frame_layout_fields [OF t] by (simp_all add: made_def used_def)
  have s1: "made ?s1 = made s @ [name]" "used ?s1 = used s" "cg_funcs ?s1 = cg_funcs s" "cg_globs ?s1 = cg_globs s"
    "cg_label ?s1 = cg_label s" "cg_epi ?s1 = epi_name name"
    unfolding fn_pre_put [OF n(1), of name t, symmetric] by (simp_all add: Let_def named_line [OF n(2)] t')
  from gen_stmt_whole [OF 2] obtain ks where w: "cg_funcs s2 = cg_funcs s" "cg_globs s2 = cg_globs s" "cg_epi s2 = epi_name name"
    "cg_label s \<le> cg_label s2" "made s2 = made s @ [name] @ map label_name ks" "distinct ks"
    "set ks \<subseteq> {cg_label s..<cg_label s2}" "used s2 \<subseteq> used s \<union> known ?s1 \<union> label_name ` set ks"
    unfolding whole_def s1 by auto
  have k: "known ?s1 = insert (epi_name name) (fn_name ` set (cg_funcs s) \<union> gl_name ` set (cg_globs s))"
    unfolding known_def s1 by simp
  have r: "made s' = made s2 @ [epi_name name]" "used s' = used s2" "cg_funcs s' = cg_funcs s2" "cg_globs s' = cg_globs s2"
    "cg_label s' = cg_label s2"
    unfolding s' w(3) by (simp_all add: named_line [OF n(3)])
  show ?thesis
    unfolding brings_def r using w k by (intro conjI exI [of _ ks]) simp_all
qed

lemma tops_bring:
  assumes "res_fold gen_top ds s = Inr s'" "\<forall>(name, ps, b) \<in> set (fns ds). frame_ok s name ps b"
    and K: "fn_name ` set (cg_funcs s) \<union> gl_name ` set (cg_globs s) \<subseteq> K" "\<forall>(name, ps, b) \<in> set (fns ds). epi_name name \<in> K"
  shows "brings (concat (map (\<lambda>(name, ps, b). [name, epi_name name]) (fns ds))) K s s'"
  using assms
proof (induction ds arbitrary: s)
  case Nil
  then show ?case using brings_refl by simp
next
  case (Cons d ds)
  from Cons.prems(1) obtain s1 where 1: "gen_top d s = Inr s1" "res_fold gen_top ds s1 = Inr s'"
    by (auto simp: res_bind_Inr_iff)
  show ?case
  proof (cases "\<exists>l name v ps b. d = N_FUNC l name v ps b")
    case True
    then obtain l name v ps b where d: "d = N_FUNC l name v ps b" by blast
    have f: "brings [name, epi_name name] K s s1"
      by (rule brings_mono [OF function_brings]) (use Cons.prems 1(1) d in \<open>auto simp: gen_top_def\<close>)
    then have tab: "cg_funcs s1 = cg_funcs s" "cg_globs s1 = cg_globs s" by (simp_all add: brings_def)
    have "\<forall>(name, ps, b) \<in> set (fns ds). frame_ok s1 name ps b"
      using Cons.prems(2) by (auto simp: d layout_same(1) [OF tab])
    from brings_trans [OF f Cons.IH [OF 1(2) this]] Cons.prems(3,4) show ?thesis by (simp add: d tab)
  next
    case False
    then have "gen_top d s = Inr s" "fns (d # ds) = fns ds" by (auto simp: gen_top_def split: cnode.split)
    with Cons 1 show ?thesis by simp
  qed
qed

subsection \<open>By lines\<close>

fun line_refs :: "aline \<Rightarrow> string set" where
  "line_refs (AJump op n) = {n}"
| "line_refs (AAddr r n) = {n}"
| "line_refs _ = {}"

lemma label_start: "label_ok n \<Longrightarrow> n \<noteq> [] \<and> (isalpha (hd n) \<or> hd n = CHR ''_'')"
  by (simp add: label_ok_def)

lemma mark_line: "line_ok l \<Longrightarrow> mark_of (line_text l) = (case l of AMark n \<Rightarrow> Some n | _ \<Rightarrow> None)"
proof (cases l)
  case (AMark n)
  assume "line_ok l"
  then show ?thesis using label_start [of n] by (cases n) (auto simp: AMark mark_of_def ctype_defs butlast_append)
next
  case AComment
  then show ?thesis by (simp add: mark_of_def)
qed simp_all

lemma names_lines: "list_all line_ok ls \<Longrightarrow> names_of (map line_text ls) = marks ls"
proof (induction ls)
  case (Cons l ls)
  then show ?case by (cases l) (simp_all del: line_text.simps add: mark_line)
qed simp

lemma ref_line: "line_ok l \<Longrightarrow> line_refs l \<subseteq> set_option (ref_of (line_text l))"
proof (cases l)
  case (AJump op n)
  assume "line_ok l"
  then have "operand (opcode_name op @ CHR '' '' # n) = Some n"
    by (cases op) (simp_all add: AJump operand_def)
  then show ?thesis by (simp add: AJump)
next
  case (AAddr r n)
  assume ok: "line_ok l"
  then have n: "r < 8" "n \<noteq> []" "isalpha (hd n) \<or> hd n = CHR ''_''" using label_start [of n] by (simp_all add: AAddr)
  have "length (fmt_reg r) = 2" using n(1) by (simp add: fmt_reg_eq fmt_base_less word_less_nat_alt)
  then have "drop 10 (''LOADI '' @ fmt_reg r @ '', '' @ n) = n" by simp
  then have "operand (''LOADI '' @ fmt_reg r @ '', '' @ n) = Some n" using n(2,3) by (simp add: operand_def)
  then show ?thesis by (simp add: AAddr)
qed simp_all

lemma refs_lines: "list_all line_ok ls \<Longrightarrow> \<Union> (line_refs ` set ls) \<subseteq> refs_of (map line_text ls)"
proof (induction ls)
  case (Cons l ls)
  then show ?case using ref_line [of l] by (auto simp del: line_text.simps split: option.splits)
qed simp

subsection \<open>The program\<close>

definition global_name :: "cnode \<Rightarrow> string list" where
  "global_name d = (case d of N_VARDECL _ name _ _ _ _ \<Rightarrow> [name] | _ \<Rightarrow> [])"

definition user_names :: "cnode list \<Rightarrow> string list" where
  "user_names ds = concat (map (\<lambda>(name, ps, b). [name, epi_name name]) (fns ds)) @ concat (map global_name ds)"

lemma data_names: "global_ok d \<Longrightarrow> marks (data_lines d) = global_name d \<and> refs_of (map line_text (data_lines d)) = {}"
proof -
  assume ok: "global_ok d"
  have w: "marks (replicate k (AData 0)) = [] \<and> refs_of (map line_text (replicate k (AData 0))) = {}" for k
    by (induction k) (simp_all add: operand_def)
  have m: "ref_of (n @ '':'') = None" if "label_ok n" for n
    using label_start [OF that] by (cases n) (auto simp: ref_of_def margin_def ctype_defs)
  show ?thesis
    using ok w m by (auto simp: data_lines_def global_name_def global_ok_def operand_def split: cnode.splits)
qed

lemma global_brings: "gen_global d s = Inr s' \<Longrightarrow> global_ok d \<Longrightarrow> cg_label s' \<le> LABEL_MAX \<Longrightarrow> brings (global_name d) K s s'"
  using gen_global_lines [of d s s'] data_names [of d]
  by (auto simp: extends_def brings_def made_def used_def names_lines intro!: exI [of _ "[]"])

lemma globals_bring:
  "res_fold gen_global ds s = Inr s' \<Longrightarrow> list_all global_ok ds \<Longrightarrow> cg_label s' \<le> LABEL_MAX \<Longrightarrow>
   brings (concat (map global_name ds)) K s s'"
proof (induction ds arbitrary: s)
  case (Cons d ds)
  then obtain s1 where 1: "gen_global d s = Inr s1" "res_fold gen_global ds s1 = Inr s'" by (auto simp: res_bind_Inr_iff)
  have r: "brings (concat (map global_name ds)) K s1 s'" using Cons 1(2) by simp
  then have "cg_label s1 \<le> LABEL_MAX" using Cons.prems(3) by (simp add: brings_def)
  with brings_trans [OF global_brings [OF 1(1)] r] Cons.prems(2) show ?case by simp
qed (simp add: brings_refl)

lemma declare_globs:
  "res_fold declare_top ds (s, m) = Inr (s', m') \<Longrightarrow>
   gl_name ` set (cg_globs s') = gl_name ` set (cg_globs s) \<union> set (concat (map global_name ds))"
proof (induction ds arbitrary: s m)
  case (Cons d ds)
  from Cons.prems obtain s1 m1 where 1: "declare_top d (s, m) = Inr (s1, m1)" "res_fold declare_top ds (s1, m1) = Inr (s', m')"
    by (auto simp: res_bind_Inr_iff)
  from Cons.IH [OF 1(2)] 1(1) show ?case
    by (auto simp: declare_top_def global_name_def split: cnode.splits if_splits)
qed simp

lemma program_names:
  assumes g: "gen_program ds = Inr s'" and ok: "program_ok ds" and lm: "cg_label s' \<le> LABEL_MAX"
  shows "\<exists>ks. mset (made s') = mset (user_names ds) + mset (map label_name ks) \<and> distinct ks \<and>
    used s' \<subseteq> set (user_names ds) \<union> label_name ` set ks"
proof -
  from g obtain s0 s2 where 0: "res_fold declare_top ds (cg_init, False) = Inr (s0, True)"
    and 1: "res_fold gen_top ds (fold put start_lines s0) = Inr s2" and 2: "res_fold gen_global ds s2 = Inr s'"
    unfolding gen_program_def put_start by (auto simp: res_bind_Inr_iff split: if_splits)
  have t: "tables ds = s0" by (simp add: tables_def 0)
  note fs = declare_fns [OF 0] and gs = declare_globs [OF 0]
  have m: "''main'' \<in> set (user_names ds)" using fs by (force simp: user_names_def)
  let ?s1 = "fold put start_lines s0" and ?K = "set (user_names ds)"
  have tab: "cg_funcs ?s1 = cg_funcs s0" "cg_globs ?s1 = cg_globs s0" by (simp_all add: fold_put_tables)
  have s1: "made ?s1 = []" "used ?s1 \<subseteq> ?K"
  proof -
    have "cg_lines s0 = []" using fs by (simp add: cg_init_def)
    then have c: "made (add_line ''; generated by mcc'' s0) = []" "used (add_line ''; generated by mcc'' s0) = {}"
      by (simp_all add: made_def used_def add_line_def mark_of_def ref_of_def margin_def)
    show "made ?s1 = []" "used ?s1 \<subseteq> ?K"
      unfolding put_start [symmetric] emits_all.simps made_simps used_simps c number_lines
      using m by (simp_all add: operand_def STACK_BASE_def fmt_int_def fmt_simps ctype_defs)
  qed
  have a: "brings (concat (map (\<lambda>(name, ps, b). [name, epi_name name]) (fns ds))) ?K ?s1 s2"
  proof (rule tops_bring [OF 1])
    show "\<forall>(name, ps, b) \<in> set (fns ds). frame_ok ?s1 name ps b"
      using ok by (auto simp: program_ok_def t layout_same(1) [OF tab])
    show "fn_name ` set (cg_funcs ?s1) \<union> gl_name ` set (cg_globs ?s1) \<subseteq> ?K"
      unfolding tab gs using fs by (force simp: user_names_def cg_init_def)
    show "\<forall>(name, ps, b) \<in> set (fns ds). epi_name name \<in> ?K" by (force simp: user_names_def)
  qed
  have b: "brings (concat (map global_name ds)) ?K s2 s'"
    by (rule globals_bring [OF 2 _ lm]) (use ok in \<open>simp add: program_ok_def\<close>)
  from brings_trans [OF a b] obtain ks where ks: "mset (made s') = mset (made ?s1) + mset (user_names ds) + mset (map label_name ks)"
    "distinct ks" "used s' \<subseteq> used ?s1 \<union> ?K \<union> label_name ` set ks"
    unfolding brings_def user_names_def [symmetric] by blast
  show ?thesis by (intro exI [of _ ks]) (use ks s1 in auto)
qed

text \<open>Names that are not generated, each used once.\<close>

definition own_label :: "string \<Rightarrow> bool" where
  "own_label n = (take 2 n = ''_L'' \<and> list_all isdigit (drop 2 n))"

definition names_ok :: "cnode list \<Rightarrow> bool" where
  "names_ok ds = (distinct (user_names ds) \<and> \<not> list_ex own_label (user_names ds))"

lemma own_label_name: "own_label (label_name i)"
  using isdigit_fmt_base by (auto simp: own_label_def label_name_def list_all_iff)

lemma label_name_inj: "label_name i = label_name j \<Longrightarrow> i = j"
  by (simp add: label_name_def) (metis digits_val_fmt_base)

theorem program_labels:
  assumes g: "gen_program ds = Inr s'" and ok: "program_ok ds" and lm: "cg_label s' \<le> LABEL_MAX" and n: "names_ok ds"
    and p: "cg_lines s' = map line_text prog" "list_all line_ok prog"
  shows "distinct (marks prog)" "\<forall>l \<in> set prog. line_refs l \<subseteq> set (marks prog)"
proof -
  from program_names [OF g ok lm] obtain ks where k: "mset (made s') = mset (user_names ds @ map label_name ks)" "distinct ks"
    "used s' \<subseteq> set (user_names ds) \<union> label_name ` set ks" by auto
  have m: "made s' = marks prog" using p names_lines by (simp add: made_def)
  have "distinct (map label_name ks)" using k(2) label_name_inj by (auto simp: distinct_map intro: inj_onI)
  moreover have "set (user_names ds) \<inter> label_name ` set ks = {}"
    using n own_label_name by (auto simp: names_ok_def list_ex_iff)
  ultimately have "distinct (user_names ds @ map label_name ks)" using n by (simp add: names_ok_def)
  then show "distinct (marks prog)" using mset_eq_imp_distinct_iff [OF k(1)] m by simp
  have "set (made s') = set (user_names ds @ map label_name ks)" using mset_eq_setD [OF k(1)] .
  then have "used s' \<subseteq> set (marks prog)" using k(3) m by auto
  then show "\<forall>l \<in> set prog. line_refs l \<subseteq> set (marks prog)"
    using refs_lines [OF p(2)] p(1) by (auto simp: used_def)
qed

end
