(* ===== verification/CGenRun.thy ===== *)
theory CGenRun
  imports PeepText CGenLabels
begin

text \<open>
  The code generator against the reference semantics: the code of an expression, and the output of
  \<open>codegen\<close> for a whole program after the peephole pass, executed as lines.
\<close>

subsection \<open>Labels in the output\<close>

lemma drops_marks: "drops b prog prog' \<Longrightarrow> marks prog' = marks prog"
  by (induction rule: drops.induct) (auto simp: useless_def)

lemma drops_subset: "drops b prog prog' \<Longrightarrow> set prog' \<subseteq> set prog"
  by (induction rule: drops.induct) auto

lemma drops_length: "drops b prog prog' \<Longrightarrow> length prog' \<le> length prog"
  by (induction rule: drops.induct) auto

lemma drops_take: "drops b prog prog' \<Longrightarrow> take b prog' = take b prog"
  by (induction rule: drops.induct) auto

subsection \<open>Programs\<close>

lemma program_neutral:
  assumes "program_lines ds prog" "list_all line_ok prog" "guarded prog" "settled prog"
  shows "neutral 4 prog" "take 4 prog = start_lines"
proof -
  show t: "take 4 prog = start_lines" using assms(1) by (auto simp: program_lines_def start_lines_def)
  show "neutral 4 prog" unfolding neutral_def t using assms by (simp add: start_lines_def)
qed

text \<open>The output of \<open>codegen\<close> as lines, and what the whole program does.\<close>

lemma codegen_runs:
  assumes g: "gen_program ds = Inr s'" and ok: "program_ok ds" and lm: "cg_label s' \<le> LABEL_MAX"
    and d: "names_ok ds"
  obtains prog where "codegen_lines ds = Inr (map line_text prog)" "list_all line_ok prog" "distinct (marks prog)"
    "\<forall>l \<in> set prog. line_refs l \<subseteq> set (marks prog)" "length prog \<le> length (cg_lines s')"
    "take 4 prog = start_lines"
    "\<forall>L k fp q r7 \<sigma> st r \<sigma>'. sees 0 fp [] (q, [], r7, \<sigma>) st \<longrightarrow>
      cfn L (tables ds) ds k ''main'' fp 0x8000 \<sigma> = Some (r, \<sigma>') \<longrightarrow>
      runs_to L prog st (sees 3 fp [] (r, [], 0x8000, \<sigma>'))"
proof -
  from gen_program_lines [OF g ok] lm obtain p where p: "program_lines ds p" "cg_lines s' = map line_text p"
    "list_all line_ok p" "guarded p" "settled p" by blast
  note dm = program_labels [OF g ok lm d p(2,3)]
  note n = program_neutral [OF p(1,3-5)]
  from peephole_neutral [OF n(1)] obtain prog where prog: "peephole (map line_text p) = map line_text prog"
    "drops 4 p prog" "neutral 4 prog" by blast
  show ?thesis
  proof (rule that [of prog])
    show "codegen_lines ds = Inr (map line_text prog)" using g p(2) prog(1) by (simp add: codegen_gen_program)
    show "list_all line_ok prog" using prog(3) by (simp add: neutral_def)
    show "distinct (marks prog)" using drops_marks [OF prog(2)] dm(1) by simp
    show "\<forall>l \<in> set prog. line_refs l \<subseteq> set (marks prog)"
      using drops_marks [OF prog(2)] drops_subset [OF prog(2)] dm(2) by auto
    show "length prog \<le> length (cg_lines s')" using drops_length [OF prog(2)] p(2) by simp
    show "take 4 prog = start_lines" using drops_take [OF prog(2)] n(2) by simp
    show "\<forall>L k fp q r7 \<sigma> st r \<sigma>'. sees 0 fp [] (q, [], r7, \<sigma>) st \<longrightarrow>
      cfn L (tables ds) ds k ''main'' fp 0x8000 \<sigma> = Some (r, \<sigma>') \<longrightarrow>
      runs_to L prog st (sees 3 fp [] (r, [], 0x8000, \<sigma>'))"
    proof (intro allI impI)
      fix L k fp q r7 \<sigma> st r \<sigma>'
      assume st: "sees 0 fp [] (q, [], r7, \<sigma>) st" and m: "cfn L (tables ds) ds k ''main'' fp 0x8000 \<sigma> = Some (r, \<sigma>')"
      from program_runs [OF p(1) dm(1) g st m] obtain st' where st': "lruns L p st st'" "sees 3 fp [] (r, [], 0x8000, \<sigma>') st'"
        by (auto simp: runs_to_def)
      have "lruns L prog st st'"
        by (rule drops_run [OF prog(2) st'(1)]) (use st st'(2) in \<open>simp_all add: sees_def\<close>)
      with st'(2) show "runs_to L prog st (sees 3 fp [] (r, [], 0x8000, \<sigma>'))" by (auto simp: runs_to_def)
    qed
  qed
qed

definition cc_sample :: "cnode list" where
  "cc_sample = [N_FUNC 1 ''main'' False [] (N_BLOCK 1
     [N_EXPRSTMT 2 (N_CALL 2 ''out'' [N_BINARY 2 CT_STAR (N_INT 2 6) (N_INT 2 7)]), N_RETURN 3 (Some (N_INT 3 0))])]"

definition cc_state :: cgstate where
  "cc_state = (case gen_program cc_sample of Inr s \<Rightarrow> s | Inl _ \<Rightarrow> cg_init)"

lemmas gen_eval = gen_program_def cc_sample_def declare_top_def cg_init_def res_bind_def gen_top_def gen_function_def
  gen_expr_forms gen_call.simps gen_binary.simps gen_global_def is_cmp_op_def binary_code_def gen_opt_def
  is_param_def FUNC_CAP_def CG_IMM_MIN_def CG_IMM_MAX_def STACK_BASE_def fmt_int_def fmt_simps

lemma cc_sample_gen: "gen_program cc_sample = Inr cc_state" "cg_label cc_state \<le> LABEL_MAX"
  by (simp_all add: cc_state_def gen_eval emit_def add_line_def)

lemma cc_sample_tables: "tables cc_sample = cg_init\<lparr>cg_funcs := [\<lparr>fn_name = ''main'', fn_nparams = 0\<rparr>]\<rparr>"
  by (simp add: tables_def gen_eval)

lemma cc_sample_ok: "program_ok cc_sample"
  by (simp add: program_ok_def cc_sample_tables, simp add: gen_eval frame_ok_def frame_layout_def global_ok_def tables_ok_def
      label_ok_def epi_name_def TEXT_SIZE_def ident_char_def ctype_defs is_reg_def fits20_def)

lemma cc_sample_names: "names_ok cc_sample"
  by (simp add: names_ok_def user_names_def cc_sample_def global_name_def own_label_def epi_name_def)

definition user_window :: lenv where
  "user_window = \<lparr>user = (\<lambda>a. 0x7000 \<le> a \<and> a < 0x8000), addr_of = (\<lambda>_. None)\<rparr>"

definition quiet_console :: console where
  "quiet_console = \<lparr>con_in = [], con_out = [], con_err = [], cpu_silent = False, cpu_capture = False, cap_buf = []\<rparr>"

lemma cc_sample_runs:
  assumes u: "user L = user user_window"
  shows "cfn L (tables cc_sample) cc_sample (Suc 0) ''main'' 0 0x8000 (m, quiet_console) =
    Some (Some 0, put_word m 0x7FFC 0, quiet_console\<lparr>con_out := ''42\<newline>''\<rparr>)"
proof -
  have a: "accessible (user L) 0x7FFC"
    by (simp add: u accessible_def cell_def user_window_def mmio_is_device_def MMIO_BASE_def MMIO_END_def)
  have w: "word_at (put_word m 0x7FFC 0) 0x7FFC = 0" by (rule word_at_put_same) simp
  show ?thesis
    by (simp add: cc_sample_tables, simp add: cfn.simps(2) gen_eval frame_layout_def cstore_def cload_def fn_env_def a w
      cdrop_def ccall.simps ceval.simps cbinary_def c_out_def quiet_console_def cpu_emit_def fmt_u_def)
qed

subsection \<open>The properties\<close>


lemma cc_sample_init: "reg (cpu_init m) 6 = 0" "mem (cpu_init m) = m"
  using cpu_ok_init by (simp_all add: cpu_init_def reg_def NUM_REGS_def)


end
