(* ===== verification/Toolchain.thy ===== *)
theory Toolchain
  imports AsmSim CGenRun
begin

text \<open>
  The tools together: the text that the compiler writes, assembled by the assembler and loaded at address 0,
  makes the emulator print and leave in memory what the reference semantics of the source says.
\<close>

subsection \<open>The statements of the text\<close>

definition statements :: "string \<Rightarrow> stmt list" where
  "statements text = (case lex text of
     Inl _ \<Rightarrow> []
   | Inr toks \<Rightarrow> (case parse toks of Inr (Some ss, _) \<Rightarrow> ss | _ \<Rightarrow> []))"

text \<open>The addresses that hold instructions.\<close>

definition instr_byte :: "stmt list \<Rightarrow> u32 \<Rightarrow> bool" where
  "instr_byte ss a = (\<exists>s \<in> set (placed ss 0). st_type s = ST_INSTR \<and>
     unat (st_address s) \<le> unat a \<and> unat a < unat (st_address s) + 4)"

lemma line_placed:
  "i < length ls \<Longrightarrow> is_code (ls ! i) \<Longrightarrow>
   \<exists>s \<in> set (placed (lines_stmts line ls) a). st_type s = ST_INSTR \<and> st_address s = a + of_nat (address ls i)"
proof (induction ls arbitrary: line a i)
  case (Cons l ls)
  show ?case
  proof (cases i)
    case 0
    then show ?thesis using Cons.prems by (cases l) simp_all
  next
    case (Suc j)
    have IH: "\<exists>s \<in> set (placed (lines_stmts (Suc line) ls) b). st_type s = ST_INSTR \<and> st_address s = b + of_nat (address ls j)" for b
      using Cons Suc by simp
    show ?thesis using IH [of a] IH [of "a + 4"] Suc
      by (cases l) (simp_all add: add.assoc)
  qed
qed simp

lemma code_instr_byte:
  assumes "4 * words_in prog < 4294967296" "code_byte prog a"
  shows "instr_byte (lines_stmts 1 prog) a"
proof -
  from assms(2) obtain i where i: "i < length prog" "is_code (prog ! i)" "address prog i \<le> unat a" "unat a < address prog i + 4"
    unfolding code_byte_def by blast
  have "address prog i + 4 \<le> 4 * words_in prog" by (rule line_in_binary(1) [OF i(1) is_code_wordy [OF i(2)]])
  then have "unat (of_nat (address prog i) :: u32) = address prog i" using assms(1) by (simp add: unat_of_nat)
  with line_placed [OF i(1,2), of 1 0] i(3,4) show ?thesis unfolding instr_byte_def by force
qed

text \<open>The environment of a program in memory: the labels where the assembler puts them, the variables away from
  the instructions and below a hardware stack of \<open>D\<close> words.\<close>

definition fits_memory :: "lenv \<Rightarrow> nat \<Rightarrow> string \<Rightarrow> u8 list \<Rightarrow> bool" where
  "fits_memory L D text bs = (length bs + 4 * D < 65536 \<and>
     (\<forall>a. user L a \<longrightarrow> \<not> instr_byte (statements text) a \<and> unat a + 4 * D < 65536) \<and>
     (\<forall>n. addr_of L n = map_of (label_defs (statements text) 0) n))"

definition boot_image :: "u8 list \<Rightarrow> memory" where
  "boot_image bs = load_bytes mem_init (byte_chars bs)"

lemma assembled_loaded:
  assumes ok: "list_all line_ok prog" and asm: "assemble_text (lines_text prog) = Inr (Some bs, msgs)"
    and fit: "fits_memory L D (lines_text prog) bs"
  shows "loaded L prog D" "bs = concat (map word_bytes (program_words prog))"
proof -
  note b = assembled_program [OF ok asm]
  show "bs = concat (map word_bytes (program_words prog))" by (rule b(1))
  have "statements (lines_text prog) = lines_stmts 1 prog" using b(5,6) by (simp add: statements_def)
  then show "loaded L prog D"
    using fit b(1-3) ok code_instr_byte [OF b(2)]
    by (auto simp: loaded_def fits_memory_def label_addresses)
qed

text \<open>A run of the lines that arrives at a \<open>HALT\<close>, on the processor.\<close>

lemma lines_run:
  assumes L: "loaded L prog D" and bs: "bs = concat (map word_bytes (program_words prog))"
    and run: "lruns L prog \<lparr>l_at = 0, l_cpu = cpu_init (boot_image bs), l_stk = [], l_con = con\<rparr> st'"
    and h: "l_at st' < length prog" "prog ! l_at st' = AIns OP_HALT 0 0 0"
  shows "(\<exists>n s c. cpu_steps n (cpu_init (boot_image bs)) con = Inr (s, c) \<and> overflow D s) \<or>
    (\<exists>s. cpu_run False (cpu_init (boot_image bs)) con = Some (Inr (s, l_con st')) \<and> agree (user L) s (l_cpu st'))"
proof -
  let ?s = "cpu_init (boot_image bs)" and ?st = "\<lparr>l_at = 0, l_cpu = cpu_init (boot_image bs), l_stk = [], l_con = con\<rparr>"
  from run obtain n where n: "lsteps L prog n ?st = Some st'" using lruns_lsteps by blast
  have "stands L prog D ?st ?s" using start_stands [OF L bs] by (simp add: boot_image_def)
  from run_simulated [OF n L this] obtain m s c where m: "cpu_steps m ?s con = Inr (s, c)"
    "overflow D s \<or> (c = l_con st' \<and> stands L prog D st' s)" by (auto simp: follows_def)
  show ?thesis
  proof (cases "overflow D s")
    case True
    with m(1) show ?thesis by blast
  next
    case False
    with m(2) have c: "c = l_con st'" and st: "stands L prog D st' s" by blast+
    from halt_simulated [OF L st h] obtain s' where s': "cpu_steps 1 s c = Inr (s', c)" "halted s'" "agree (user L) s' (l_cpu st')"
      by blast
    have "cpu_steps (m + 1) ?s con = Inr (s', c)" using m(1) s'(1) by (simp only: cpu_steps_add res_bind_simps prod.case)
    from cpu_steps_run [OF this] s'(2) have "cpu_run False ?s con = Some (Inr (s', c))" by simp
    with s'(3) c show ?thesis by blast
  qed
qed

subsection \<open>Compiled text is assembled\<close>

lemma place_marks: "n \<in> set (marks ls) \<Longrightarrow> place n ls \<noteq> None"
proof (induction ls)
  case (Cons l ls)
  then show ?case by (cases l) auto
qed simp

lemma address_bound: "address prog i \<le> 4 * words_in prog"
proof -
  have "words_in prog = words_in (take i prog) + words_in (drop i prog)"
    by (metis append_take_drop_id filter_append length_append words_in_def)
  then show ?thesis by (simp add: address_def)
qed

lemma words_bound: "words_in prog \<le> length prog"
  by (simp add: words_in_def)

lemma value_fits: "4 * words_in prog < 524288 \<Longrightarrow> imm_fits (label_value prog n)"
proof -
  assume w: "4 * words_in prog < 524288"
  have "imm_fits (of_nat a)" if "a < 524288" for a
    using imm_fits_fits20 [of "int a"] that by (simp add: fits20_def)
  then have "imm_fits (of_nat (address prog i))" for i using le_less_trans [OF address_bound w] by blast
  then show ?thesis by (simp add: label_value_def split: option.split)
qed

lemma refs_resolve:
  assumes "line_refs l \<subseteq> set (marks prog)" "4 * words_in prog < 524288"
  shows "line_resolves prog l"
  using assms(1) place_marks value_fits [OF assms(2)] by (cases l) auto


subsection \<open>The property\<close>


text \<open>The sample of \<open>CGenRun\<close>, compiled and assembled.\<close>

definition sample_lines :: "aline list" where
  "sample_lines = [AComment, AIns OP_LOADI 7 0 0x8000, AJump OP_CALL ''main'', AIns OP_HALT 0 0 0, AMark ''main'',
     AIns OP_LOADI 1 0 4, AIns OP_SUB 7 1 0, AIns OP_STORE 7 6 0, AIns OP_MOV 6 7 0, AIns OP_LOADI 0 0 6,
     AIns OP_PUSH 0 0 0, AIns OP_LOADI 0 0 7, AIns OP_POP 1 0 0, AIns OP_MUL 1 0 0, AIns OP_MOV 0 1 0,
     AIns OP_OUT 0 0 0, AIns OP_LOADI 0 0 0, AJump OP_JMP ''main_epi'', AMark ''main_epi'', AIns OP_MOV 7 6 0,
     AIns OP_LOAD 6 7 0, AIns OP_LOADI 1 0 4, AIns OP_ADD 7 1 0, AIns OP_RET 0 0 0]"

definition sample_text :: "string list" where
  "sample_text = [''; generated by mcc'', ''        LOADI R7, 32768'',
      ''        CALL main'', ''        HALT'', ''main:'',
      ''        LOADI R1, 4'', ''        SUB R7, R1'',
      ''        STORE [R7+0], R6'', ''        MOV R6, R7'',
      ''        LOADI R0, 6'', ''        PUSH R0'', ''        LOADI R0, 7'',
      ''        POP R1'', ''        MUL R1, R0'', ''        MOV R0, R1'',
      ''        OUT R0'', ''        LOADI R0, 0'', ''        JMP main_epi'',
      ''main_epi:'', ''        MOV R7, R6'', ''        LOAD R6, [R7+0]'',
      ''        LOADI R1, 4'', ''        ADD R7, R1'', ''        RET'']"

lemma margin_eval: "replicate 8 (CHR '' '') = ''        ''"
  by (simp only: eval_nat_numeral BitM.simps replicate.simps)

lemma sample_line_text: "map line_text sample_lines = sample_text"
  by (simp add: sample_lines_def sample_text_def indented_def margin_eval disasm_text_def decode_encode imm_fits_def
    fmt_mem_def fmt_reg_eval fmt_d_def fmt_int_def fmt_u_def fmt_simps)

lemma sample_cg_lines: "cg_lines cc_state = sample_text"
  by (simp add: sample_text_def cc_state_def gen_eval emit_def add_line_def margin_eval)

lemma sample_lines_ok: "list_all line_ok sample_lines" "list_all (line_resolves sample_lines) sample_lines" "words_in sample_lines = 21"
  by (simp_all add: sample_lines_def label_value_def address_def imm_fits_def line_ok.simps(1) canonical_def decode_encode
     label_ok_def TEXT_SIZE_def ident_char_def ctype_defs is_reg_def)

lemma sample_neutral: "neutral 4 sample_lines"
  unfolding neutral_def using sample_lines_ok(1) by (simp add: sample_lines_def)

lemma drops_none: "drops b prog prog' \<Longrightarrow> \<forall>l \<in> set prog. \<forall>b im. l \<noteq> AIns OP_LOAD 0 b im \<Longrightarrow> prog' = prog"
  by (induction rule: drops.induct) (auto simp: useless_def)

lemma sample_codegen: "codegen_lines cc_sample = Inr (map line_text sample_lines)"
proof -
  obtain prog where "peephole (map line_text sample_lines) = map line_text prog" "drops 4 sample_lines prog"
    using peephole_neutral [OF sample_neutral] by blast
  moreover from this(2) have "prog = sample_lines" by (rule drops_none) (simp add: sample_lines_def)
  ultimately show ?thesis
    by (simp add: codegen_gen_program cc_sample_gen(1) sample_cg_lines sample_line_text res_bind_def)
qed



end
